(* ===== verification/Prelude.thy ===== *)
theory Prelude
  imports Main "HOL-Library.Monad_Syntax" "HOL-Library.Multiset"
begin

text \<open>
  Generic material shared by every component of the development: the collections the
  component theories fill, monadic list traversals for the operations that may not return,
  the sorted duplicate-free operand lists of the canonical store, and the algebra of word
  languages the history expressions denote.
\<close>

text \<open>
  \<open>lang_simps\<close> collects what a smart constructor denotes; \<open>nf_intros\<close> collects that a
  smart constructor keeps the normal form of its operands.
\<close>

named_theorems lang_simps
named_theorems nf_intros

section \<open>Traversals that may fail\<close>

text \<open>\<open>omap\<close> is a loop that collects results and stops at the first \<open>None\<close>.\<close>

fun omap :: "('a \<Rightarrow> 'b option) \<Rightarrow> 'a list \<Rightarrow> 'b list option" where
  "omap f [] = Some []"
| "omap f (x # xs) = do { y \<leftarrow> f x; ys \<leftarrow> omap f xs; Some (y # ys) }"

fun ofold :: "('b \<Rightarrow> 'a \<Rightarrow> 'b option) \<Rightarrow> 'b \<Rightarrow> 'a list \<Rightarrow> 'b option" where
  "ofold f acc [] = Some acc"
| "ofold f acc (x # xs) = do { acc' \<leftarrow> f acc x; ofold f acc' xs }"

lemma omap_cong [fundef_cong]:
  "xs = ys \<Longrightarrow> (\<And>x. x \<in> set ys \<Longrightarrow> f x = g x) \<Longrightarrow> omap f xs = omap g ys"
  by (induction xs arbitrary: ys) auto

lemma omap_SomeD:
  "omap f xs = Some ys \<Longrightarrow> length ys = length xs \<and> (\<forall>i < length xs. f (xs ! i) = Some (ys ! i))"
proof (induction xs arbitrary: ys)
  case Nil
  then show ?case by simp
next
  case (Cons x xs)
  then obtain y ys' where "f x = Some y" "omap f xs = Some ys'" "ys = y # ys'"
    by (auto split: Option.bind_splits)
  with Cons.IH[of ys'] show ?case by (auto simp: nth_Cons split: nat.splits)
qed

lemma omap_Some_mono:
  "omap f xs = Some ys \<Longrightarrow> (\<And>x y. x \<in> set xs \<Longrightarrow> f x = Some y \<Longrightarrow> g x = Some y) \<Longrightarrow>
   omap g xs = Some ys"
  by (induction xs arbitrary: ys) (auto split: Option.bind_splits)

lemma ofold_Some_mono:
  "ofold f acc xs = Some r \<Longrightarrow> (\<And>a x y. f a x = Some y \<Longrightarrow> g a x = Some y) \<Longrightarrow>
   ofold g acc xs = Some r"
  by (induction xs arbitrary: acc) (auto split: Option.bind_splits)

lemma omap_Some_ball:
  "omap f xs = Some ys \<Longrightarrow> (\<And>x y. x \<in> set xs \<Longrightarrow> f x = Some y \<Longrightarrow> P y) \<Longrightarrow> \<forall>y \<in> set ys. P y"
proof (induction xs arbitrary: ys)
  case (Cons x xs)
  then obtain y ys' where "f x = Some y" "omap f xs = Some ys'" "ys = y # ys'"
    by (auto split: Option.bind_splits)
  with Cons show ?case by (metis list.set_intros(1) list.set_intros(2) set_ConsD)
qed simp

lemma omap_Some_map:
  "omap f xs = Some ys \<Longrightarrow> (\<And>x y. x \<in> set xs \<Longrightarrow> f x = Some y \<Longrightarrow> g y = h x) \<Longrightarrow>
   map g ys = map h xs"
  by (induction xs arbitrary: ys) (auto split: Option.bind_splits)

lemma omap_Some_image:
  "omap f xs = Some ys \<Longrightarrow> (\<And>x y. x \<in> set xs \<Longrightarrow> f x = Some y \<Longrightarrow> g y = h x) \<Longrightarrow>
   g ` set ys = h ` set xs"
  using omap_Some_map[of f xs ys g h] by (metis list.set_map)

lemma omap_total:
  "(\<And>x. x \<in> set xs \<Longrightarrow> \<exists>y. f x = Some y) \<Longrightarrow> \<exists>ys. omap f xs = Some ys"
  by (induction xs) fastforce+

lemma omap_pure [simp]: "omap (\<lambda>x. Some (f x)) xs = Some (map f xs)"
  by (induction xs) auto

text \<open>
  A family indexed by fuel: each element settles at some fuel and stays settled, so a common
  fuel settles the whole list.
\<close>

lemma omap_fuel:
  fixes F :: "nat \<Rightarrow> 'a \<Rightarrow> 'b option"
  assumes mono: "\<And>n m x y. F n x = Some y \<Longrightarrow> n \<le> m \<Longrightarrow> F m x = Some y"
    and ex: "\<And>x. x \<in> set xs \<Longrightarrow> \<exists>n y. F n x = Some y \<and> P x y"
  shows "\<exists>n ys. omap (F n) xs = Some ys \<and> list_all2 P xs ys"
  using ex
proof (induction xs)
  case Nil
  then show ?case by simp
next
  case (Cons x xs)
  from Cons.prems[of x] obtain n y where n: "F n x = Some y" "P x y" by auto
  from Cons.prems have "\<exists>n y. F n z = Some y \<and> P z y" if "z \<in> set xs" for z using that by simp
  then obtain m ys where m: "omap (F m) xs = Some ys" "list_all2 P xs ys" using Cons.IH by blast
  have "F (max n m) x = Some y" using n(1) mono by (meson max.cobounded1)
  moreover have "omap (F (max n m)) xs = Some ys"
    using m(1) by (rule omap_Some_mono) (meson mono max.cobounded2)
  ultimately have "omap (F (max n m)) (x # xs) = Some (y # ys)" by simp
  with n(2) m(2) show ?case by (metis list_all2_Cons)
qed

text \<open>
  The order of results: \<open>None\<close> below everything. The operations built from options are monotone
  for it, which is how a result is shown independent of the fuel that was left.
\<close>

definition opt_le :: "'a option \<Rightarrow> 'a option \<Rightarrow> bool" where
  "opt_le a b \<longleftrightarrow> a = None \<or> a = b"

lemma opt_le_refl: "opt_le a a"
  by (simp add: opt_le_def)

lemma opt_le_bind:
  "opt_le a b \<Longrightarrow> (\<And>x. opt_le (k x) (k' x)) \<Longrightarrow> opt_le (Option.bind a k) (Option.bind b k')"
  by (cases a; cases b) (auto simp: opt_le_def)

lemma opt_le_omap: "(\<And>x. opt_le (f x) (g x)) \<Longrightarrow> opt_le (omap f xs) (omap g xs)"
  by (induction xs) (auto intro!: opt_le_refl opt_le_bind)

lemma opt_le_ofold: "(\<And>a x. opt_le (f a x) (g a x)) \<Longrightarrow> opt_le (ofold f a xs) (ofold g a xs)"
  by (induction xs arbitrary: a) (auto intro!: opt_le_refl opt_le_bind)

lemma opt_le_if:
  "(b \<Longrightarrow> opt_le x x') \<Longrightarrow> (\<not> b \<Longrightarrow> opt_le y y') \<Longrightarrow> opt_le (if b then x else y) (if b then x' else y')"
  by simp

lemmas opt_le_intros = opt_le_refl opt_le_bind opt_le_omap opt_le_ofold opt_le_if

text \<open>
  A family indexed by fuel settles on a value when it has that value for all large fuel. The
  operations built from options pass this on, so a recursive function reaches a value once its
  calls do.
\<close>

definition settles :: "(nat \<Rightarrow> 'a) \<Rightarrow> 'a \<Rightarrow> bool" where
  "settles F y \<longleftrightarrow> (\<exists>N. \<forall>n \<ge> N. F n = y)"

lemma settles_const: "settles (\<lambda>n. y) y"
  by (simp add: settles_def)

lemma settles_unique: "settles F y \<Longrightarrow> settles F z \<Longrightarrow> y = z"
  unfolding settles_def by (metis nat_le_linear)

lemma settles_Suc: "settles (\<lambda>n. F (Suc n)) y \<longleftrightarrow> settles F y"
  unfolding settles_def by (metis Suc_le_D Suc_le_mono le_SucI)

lemma settles_comp2:
  assumes "settles F x" "settles G y" "\<And>n. F n = x \<Longrightarrow> G n = y \<Longrightarrow> H n = z"
  shows "settles H z"
proof -
  from assms(1,2) obtain N M where "\<forall>n \<ge> N. F n = x" "\<forall>n \<ge> M. G n = y"
    by (auto simp: settles_def)
  then have "\<forall>n \<ge> max N M. H n = z" using assms(3) by simp
  then show ?thesis unfolding settles_def by blast
qed

lemma settles_bind:
  assumes "settles A a" "\<And>x. settles (\<lambda>n. B n x) (b x)"
  shows "settles (\<lambda>n. Option.bind (A n) (B n)) (Option.bind a b)"
proof (cases a)
  case None
  show ?thesis by (rule settles_comp2[OF assms(1) assms(1)]) (simp add: None)
next
  case (Some x)
  show ?thesis by (rule settles_comp2[OF assms(1) assms(2)[of x]]) (simp add: Some)
qed

lemma settles_omap:
  assumes "\<And>x. settles (\<lambda>n. F n x) (f x)"
  shows "settles (\<lambda>n. omap (F n) xs) (omap f xs)"
proof (induction xs)
  case (Cons x xs)
  show ?case
    by (rule settles_comp2[OF assms[of x] Cons.IH]) simp
qed (simp add: settles_const)

lemma settles_ofold:
  assumes "\<And>a x. settles (\<lambda>n. F n a x) (f a x)"
  shows "settles (\<lambda>n. ofold (F n) a xs) (ofold f a xs)"
proof (induction xs arbitrary: a)
  case (Cons x xs)
  show ?case
  proof (cases "f a x")
    case None
    show ?thesis by (rule settles_comp2[OF assms[of a x] assms[of a x]]) (simp add: None)
  next
    case (Some b)
    show ?thesis by (rule settles_comp2[OF assms[of a x] Cons.IH[of b]]) (simp add: Some)
  qed
qed (simp add: settles_const)

lemma settles_if:
  "(b \<Longrightarrow> settles F x) \<Longrightarrow> (\<not> b \<Longrightarrow> settles G y) \<Longrightarrow>
   settles (\<lambda>n. if b then F n else G n) (if b then x else y)"
  by (cases b) simp_all

lemmas settles_intros = settles_const settles_bind settles_omap settles_ofold settles_if

section \<open>Results that may be errors\<close>

text \<open>The \<open>?\<close> of the code: an error ends the computation, a value is passed on.\<close>

fun and_then :: "'e + 'a \<Rightarrow> ('a \<Rightarrow> 'e + 'b) \<Rightarrow> 'e + 'b" where
  "and_then (Inl e) k = Inl e"
| "and_then (Inr x) k = k x"

fun try_map :: "('a \<Rightarrow> 'e + 'b) \<Rightarrow> 'a list \<Rightarrow> 'e + 'b list" where
  "try_map f [] = Inr []"
| "try_map f (x # xs) = and_then (f x) (\<lambda>y. and_then (try_map f xs) (\<lambda>ys. Inr (y # ys)))"

lemma try_map_cong [fundef_cong]:
  "xs = ys \<Longrightarrow> (\<And>x. x \<in> set ys \<Longrightarrow> f x = g x) \<Longrightarrow> try_map f xs = try_map g ys"
  by (induction xs arbitrary: ys) auto

lemma and_then_Inr: "and_then r k = Inr y \<longleftrightarrow> (\<exists>x. r = Inr x \<and> k x = Inr y)"
  by (cases r) auto

lemma and_then_Inl: "and_then r k = Inl e \<longleftrightarrow> r = Inl e \<or> (\<exists>x. r = Inr x \<and> k x = Inl e)"
  by (cases r) auto

lemma try_map_Inr: "try_map f xs = Inr ys \<longleftrightarrow> list_all2 (\<lambda>x y. f x = Inr y) xs ys"
  by (induction xs arbitrary: ys) (auto simp: and_then_Inr list_all2_Cons1)

lemma try_map_succeeds: "(\<exists>ys. try_map f xs = Inr ys) \<longleftrightarrow> (\<forall>x \<in> set xs. \<exists>y. f x = Inr y)"
  by (induction xs) (auto simp: and_then_Inr)

section \<open>Operand lists\<close>

text \<open>
  \<open>sort_unstable\<close> followed by \<open>dedup\<close> over handles ordered by their identifier: \<open>dedup\<close>
  removes adjacent repetitions.
\<close>

definition sort_dedup :: "('a \<Rightarrow> nat) \<Rightarrow> 'a list \<Rightarrow> 'a list" where
  "sort_dedup uid xs = remdups_adj (sort_key uid xs)"

lemma set_sort_dedup [simp]: "set (sort_dedup uid xs) = set xs"
  by (simp add: sort_dedup_def)

lemma sort_dedup_Nil [simp]: "sort_dedup uid [] = []"
  by (simp add: sort_dedup_def)

lemma sort_dedup_eq_Nil [simp]: "sort_dedup uid xs = [] \<longleftrightarrow> xs = []"
  using set_sort_dedup[of uid xs] by (metis set_empty)

text \<open>The prefix of a list up to and including the first element that fails a test.\<close>

fun span_through :: "('a \<Rightarrow> bool) \<Rightarrow> 'a list \<Rightarrow> 'a list" where
  "span_through P [] = []"
| "span_through P (x # xs) = (if P x then x # span_through P xs else [x])"

text \<open>Whether some unordered pair of distinct positions satisfies a symmetric predicate.\<close>

fun some_pair :: "('a \<Rightarrow> 'a \<Rightarrow> bool) \<Rightarrow> 'a list \<Rightarrow> bool" where
  "some_pair P [] = False"
| "some_pair P (x # xs) = (list_ex (P x) xs \<or> some_pair P xs)"

lemma some_pairD: "some_pair P xs \<Longrightarrow> \<exists>x \<in> set xs. \<exists>y \<in> set xs. P x y"
  by (induction xs) (auto simp: list_ex_iff)

text \<open>Sums and products over lists, for the weights of termination arguments.\<close>

lemma sum_list_filter_le: "(\<Sum>x\<leftarrow>filter P xs. f x) \<le> (\<Sum>x\<leftarrow>xs. (f x :: nat))"
  by (induction xs) auto

lemma sum_list_remdups_adj_le: "(\<Sum>x\<leftarrow>remdups_adj xs. f x) \<le> (\<Sum>x\<leftarrow>xs. (f x :: nat))"
  by (induction xs rule: remdups_adj.induct) auto

lemma sum_list_map_mono:
  "(\<And>x. x \<in> set xs \<Longrightarrow> f x \<le> (g x :: nat)) \<Longrightarrow> (\<Sum>x\<leftarrow>xs. f x) \<le> (\<Sum>x\<leftarrow>xs. g x)"
  by (induction xs) (auto intro: add_mono)

lemma sum_list_sort_key: "(\<Sum>x\<leftarrow>sort_key u xs. f x) = (\<Sum>x\<leftarrow>xs. (f x :: nat))"
proof -
  have "mset (map f (sort_key u xs)) = mset (map f xs)" by simp
  then show ?thesis by (metis sum_mset_sum_list)
qed

lemma sum_list_sort_dedup_le: "(\<Sum>x\<leftarrow>sort_dedup u xs. f x) \<le> (\<Sum>x\<leftarrow>xs. (f x :: nat))"
  unfolding sort_dedup_def
  by (metis sum_list_remdups_adj_le sum_list_sort_key)

lemma member_le_sum_list_nat: "x \<in> set xs \<Longrightarrow> f x \<le> (\<Sum>y\<leftarrow>xs. (f y :: nat))"
  by (induction xs) auto

lemma prod_list_filter_le:
  "(\<And>x. (1 :: nat) \<le> f x) \<Longrightarrow> prod_list (map f (filter P xs)) \<le> prod_list (map f xs)"
proof (induction xs)
  case (Cons x xs)
  have "1 * prod_list (map f xs) \<le> f x * prod_list (map f xs)"
    by (intro mult_le_mono Cons.prems) simp
  with Cons show ?case by (auto intro: order_trans)
qed simp

lemma prod_list_sort_dedup_le:
  assumes "\<And>x. (1 :: nat) \<le> f x"
  shows "prod_list (map f (sort_dedup u xs)) \<le> prod_list (map f xs)"
proof -
  have "prod_list (map f (remdups_adj ys)) \<le> prod_list (map f ys)" for ys
  proof (induction ys rule: remdups_adj.induct)
    case (3 x y ys)
    have "1 * prod_list (map f (y # ys)) \<le> f x * prod_list (map f (y # ys))"
      by (intro mult_le_mono assms) simp
    with 3 show ?case by (auto intro: order_trans)
  qed simp_all
  moreover have "prod_list (map f (sort_key u xs)) = prod_list (map f xs)"
    by (metis mset_map mset_sort prod_mset_prod_list)
  ultimately show ?thesis unfolding sort_dedup_def by metis
qed

text \<open>
  Removing operands that a smaller operand makes redundant loses nothing: the smallest operand
  below a removed one is kept.
\<close>

lemma kept_suffices:
  fixes m :: "'a \<Rightarrow> nat"
  assumes removed: "\<And>c. c \<in> F \<Longrightarrow> removed c \<Longrightarrow> \<exists>s\<in>F. m s < m c \<and> (good s \<longrightarrow> good c)"
    and kept: "\<And>c. c \<in> F \<Longrightarrow> \<not> removed c \<Longrightarrow> good c"
  shows "c \<in> F \<Longrightarrow> good c"
proof (induction "m c" arbitrary: c rule: less_induct)
  case less
  show ?case using removed[OF less.prems] kept[OF less.prems] less.hyps by blast
qed

text \<open>Lists sorted by an identifier, without repetition: the form of a canonical operand slice.\<close>

definition slice :: "('a \<Rightarrow> nat) \<Rightarrow> 'a list \<Rightarrow> bool" where
  "slice uid xs \<longleftrightarrow> sorted_wrt (\<lambda>x y. uid x < uid y) xs"

lemma slice_distinct: "slice uid xs \<Longrightarrow> distinct xs"
  unfolding slice_def by (induction xs) auto

lemma slice_unique: "slice uid xs \<Longrightarrow> slice uid ys \<Longrightarrow> set xs = set ys \<Longrightarrow> xs = ys"
proof (induction xs arbitrary: ys)
  case (Cons x xs)
  then obtain y ys' where ys: "ys = y # ys'" by (cases ys) auto
  have "x = y"
    using Cons.prems unfolding ys slice_def by auto (metis less_asym insertE insertI1)
  moreover have "set xs = set ys'"
    using Cons.prems slice_distinct[of uid "x # xs"] slice_distinct[of uid ys] \<open>x = y\<close>
    unfolding ys by (auto simp: set_eq_iff)
  moreover have "slice uid xs" "slice uid ys'" using Cons.prems unfolding ys slice_def by auto
  ultimately show ?case using Cons.IH ys by blast
qed simp

lemma slice_filter: "slice uid xs \<Longrightarrow> slice uid (filter P xs)"
  unfolding slice_def by (rule sorted_wrt_filter)

lemma slice_sort_dedup: "inj uid \<Longrightarrow> slice uid (sort_dedup uid xs)"
proof -
  assume inj: "inj uid"
  have "sorted (map uid xs) \<Longrightarrow> slice uid (remdups_adj xs)" for xs
  proof (induction xs rule: remdups_adj.induct)
    case (3 x y xs)
    then show ?case
    proof (cases "x = y")
      case False
      have "uid x < uid z" if "z \<in> set (y # xs)" for z
      proof -
        have "uid x \<noteq> uid y" using False inj by (auto dest: injD)
        with 3(3) have "uid x < uid y" by simp
        with 3(3) that show ?thesis by (fastforce simp del: sorted_wrt.simps simp: sorted_simps)
      qed
      with 3(2)[OF False] 3(3) False show ?thesis by (simp add: slice_def)
    qed simp
  qed (simp_all add: slice_def)
  then show ?thesis by (simp add: sort_dedup_def)
qed

lemma slice_sum_subset:
  assumes "slice uid xs" "slice uid ys" "set ys \<subseteq> set xs" "xs \<noteq> ys" "\<And>x. 0 < (f x :: nat)"
  shows "(\<Sum>y\<leftarrow>ys. f y) < (\<Sum>x\<leftarrow>xs. f x)"
proof -
  have "set ys \<subset> set xs" using assms slice_unique by blast
  then have "sum f (set ys) < sum f (set xs)"
    by (metis List.finite_set assms(5) bot_nat_0.not_eq_extremum not_gr_zero psubset_imp_ex_mem
        sum_strict_mono2 DiffD1 DiffD2 finite_subset psubsetE psubset_imp_subset zero_le)
  then show ?thesis
    using assms(1,2) slice_distinct by (metis sum_list_distinct_conv_sum_set)
qed

section \<open>Languages of finite words\<close>

definition seqs :: "'a list set \<Rightarrow> 'a list set \<Rightarrow> 'a list set" where
  "seqs A B = {w. \<exists>k \<le> length w. take k w \<in> A \<and> drop k w \<in> B}"

definition seqs_list :: "'a list set list \<Rightarrow> 'a list set" where
  "seqs_list As = foldr seqs As {[]}"

inductive_set repeated :: "'a list set \<Rightarrow> 'a list set" for A where
  none: "[] \<in> repeated A"
| more: "u \<in> A \<Longrightarrow> w \<in> repeated A \<Longrightarrow> u @ w \<in> repeated A"

definition after :: "'a \<Rightarrow> 'a list set \<Rightarrow> 'a list set" where
  "after x A = {w. x # w \<in> A}"

lemma in_seqs: "w \<in> seqs A B \<longleftrightarrow> (\<exists>u\<in>A. \<exists>v\<in>B. w = u @ v)"
proof
  assume "w \<in> seqs A B"
  then obtain k where "take k w \<in> A" "drop k w \<in> B" by (auto simp: seqs_def)
  then show "\<exists>u\<in>A. \<exists>v\<in>B. w = u @ v" by (metis append_take_drop_id)
next
  assume "\<exists>u\<in>A. \<exists>v\<in>B. w = u @ v"
  then obtain u v where "w = u @ v" "u \<in> A" "v \<in> B" by blast
  then show "w \<in> seqs A B" by (auto simp: seqs_def intro!: exI[of _ "length u"])
qed

lemma seqs_appendI: "u \<in> A \<Longrightarrow> v \<in> B \<Longrightarrow> u @ v \<in> seqs A B"
  by (auto simp: in_seqs)

lemma seqs_splitE:
  assumes "w \<in> seqs A B"
  obtains u v where "w = u @ v" "u \<in> A" "v \<in> B"
  using assms by (auto simp: in_seqs)

lemma seqs_Nil [simp]: "[] \<in> seqs A B \<longleftrightarrow> [] \<in> A \<and> [] \<in> B"
  by (simp add: in_seqs)

lemma seqs_empty [simp]: "seqs {} B = {}" "seqs A {} = {}"
  by (auto simp: in_seqs)

lemma seqs_unit [simp]: "seqs {[]} B = B" "seqs A {[]} = A"
  by (auto simp: in_seqs)

lemma seqs_assoc: "seqs (seqs A B) C = seqs A (seqs B C)"
proof
  show "seqs (seqs A B) C \<subseteq> seqs A (seqs B C)"
    by (auto elim!: seqs_splitE) (meson seqs_appendI)
  show "seqs A (seqs B C) \<subseteq> seqs (seqs A B) C"
    by (auto elim!: seqs_splitE simp flip: append_assoc) (meson seqs_appendI)
qed

lemma seqs_UN: "seqs (\<Union>i\<in>I. F i) B = (\<Union>i\<in>I. seqs (F i) B)"
  and seqs_Union: "seqs (\<Union>S) B = (\<Union>A\<in>S. seqs A B)"
  and seqs_Un: "seqs (A \<union> C) B = seqs A B \<union> seqs C B"
  by (auto elim!: seqs_splitE intro: seqs_appendI)

lemma after_seqs: "after x (seqs A B) = seqs (after x A) B \<union> (if [] \<in> A then after x B else {})"
proof (rule set_eqI)
  fix w
  have "x # w \<in> seqs A B \<longleftrightarrow>
      ([] \<in> A \<and> x # w \<in> B) \<or> (\<exists>u. x # u \<in> A \<and> (\<exists>v\<in>B. w = u @ v))"
    by (simp add: in_seqs Cons_eq_append_conv) blast
  then show "w \<in> after x (seqs A B) \<longleftrightarrow>
      w \<in> seqs (after x A) B \<union> (if [] \<in> A then after x B else {})"
    by (simp add: after_def in_seqs) blast
qed

lemma seqs_list_simps [simp]:
  "seqs_list [] = {[]}" "seqs_list (A # As) = seqs A (seqs_list As)"
  by (simp_all add: seqs_list_def)

lemma seqs_list_append: "seqs_list (As @ Bs) = seqs (seqs_list As) (seqs_list Bs)"
  by (induction As) (simp_all add: seqs_assoc)

lemma seqs_list_Nil_in: "[] \<in> seqs_list As \<longleftrightarrow> (\<forall>A \<in> set As. [] \<in> A)"
  by (induction As) auto

lemma repeated_one: "w \<in> A \<Longrightarrow> w \<in> repeated A"
  using repeated.more[OF _ repeated.none] by fastforce

lemma repeated_append: "u \<in> repeated A \<Longrightarrow> v \<in> repeated A \<Longrightarrow> u @ v \<in> repeated A"
  by (induction u rule: repeated.induct) (auto intro: repeated.more)

lemma repeated_empty: "repeated {} = {[]}"
  by (auto elim: repeated.cases intro: repeated.none)

lemma repeated_unit: "repeated {[]} = {[]}"
proof -
  have "w \<in> repeated {[]} \<Longrightarrow> w = []" for w :: "'a list"
    by (induction rule: repeated.induct) auto
  then show ?thesis by (auto intro: repeated.none)
qed

lemma repeated_idem: "repeated (repeated A) = repeated A"
proof -
  have "w \<in> repeated (repeated A) \<Longrightarrow> w \<in> repeated A" for w
    by (induction rule: repeated.induct) (auto intro: repeated.none repeated_append)
  then show ?thesis by (auto intro: repeated_one)
qed

lemma repeated_UNIV: "repeated UNIV = UNIV"
  by (auto intro: repeated_one)

lemma repeated_letters: "w \<in> repeated {[x] |x. x \<in> S} \<longleftrightarrow> set w \<subseteq> S"
proof
  show "w \<in> repeated {[x] |x. x \<in> S} \<Longrightarrow> set w \<subseteq> S"
    by (induction rule: repeated.induct) auto
  show "set w \<subseteq> S \<Longrightarrow> w \<in> repeated {[x] |x. x \<in> S}"
  proof (induction w)
    case Nil
    show ?case by (rule repeated.none)
  next
    case (Cons a w)
    then have "[a] @ w \<in> repeated {[x] |x. x \<in> S}" by (intro repeated.more) auto
    then show ?case by simp
  qed
qed

lemma after_repeated: "after x (repeated A) = seqs (after x A) (repeated A)"
proof
  show "after x (repeated A) \<subseteq> seqs (after x A) (repeated A)"
  proof
    fix w assume "w \<in> after x (repeated A)"
    then have "x # w \<in> repeated A" by (simp add: after_def)
    then show "w \<in> seqs (after x A) (repeated A)"
    proof (induction "x # w" arbitrary: w rule: repeated.induct)
      case (more u v)
      show ?case
      proof (cases u)
        case Nil
        with more show ?thesis by simp
      next
        case (Cons y u')
        with more.hyps(4) have "y = x" "w = u' @ v" by auto
        with Cons more.hyps(1,2) show ?thesis by (auto simp: in_seqs after_def)
      qed
    qed
  qed
  show "seqs (after x A) (repeated A) \<subseteq> after x (repeated A)"
    by (auto simp: in_seqs after_def) (metis append_Cons repeated.more)
qed

lemma after_simps [simp]:
  "after x {} = {}" "after x {[]} = {}" "after x UNIV = UNIV"
  "after x (A \<union> B) = after x A \<union> after x B" "after x (- A) = - after x A"
  "after x (\<Union>S) = (\<Union>A\<in>S. after x A)" "after x (\<Inter>S) = (\<Inter>A\<in>S. after x A)"
  by (auto simp: after_def)

lemma after_UN: "after x (\<Union>i\<in>I. F i) = (\<Union>i\<in>I. after x (F i))"
  and after_INT: "after x (\<Inter>i\<in>I. F i) = (\<Inter>i\<in>I. after x (F i))"
  by (auto simp: after_def)

lemma sort_dedup_cong: "inj uid \<Longrightarrow> set xs = set ys \<Longrightarrow> sort_dedup uid xs = sort_dedup uid ys"
  by (rule slice_unique[of uid]) (auto simp: slice_sort_dedup)

lemma set_map_filter_cong: "set xs = set ys \<Longrightarrow> set (List.map_filter f xs) = set (List.map_filter f ys)"
  by (simp add: List.map_filter_def)

end
