(* ===== verification/Model.thy ===== *)
theory Model
  imports Prelude
begin

text \<open>
  The capability product of \<^verbatim>\<open>rust-validator/src/model.rs\<close>: principals, resources,
  actions, events, requests and grants. The newtypes \<open>Principal(String)\<close> and
  \<open>Resource(Vec<String>)\<close> are the strings and segment lists they wrap; every equality the
  code takes on them is the structural one.
\<close>

type_synonym principal = string
type_synonym resource = "string list"

datatype action =
    Read | Edit | Stage | Unstage
  | Commit "string option"
  | Checkout | Stash | Delete | Clean | Diff | History

definition commit :: "string \<Rightarrow> action" where
  "commit message = Commit (Some message)"

definition commit_without_message :: action where
  "commit_without_message = Commit None"

record event =
  ev_principal :: principal
  ev_action :: action
  ev_resource :: resource

definition new_event :: "principal \<Rightarrow> action \<Rightarrow> resource \<Rightarrow> event" where
  "new_event p a r = \<lparr>ev_principal = p, ev_action = a, ev_resource = r\<rparr>"

record 'm request =
  req_event :: event
  req_metadata :: 'm

record 'm grant =
  grant_event :: event
  grant_metadata :: 'm

text \<open>\<open>segments().join("/")\<close>, the display form of a resource.\<close>

fun join :: "string \<Rightarrow> string list \<Rightarrow> string" where
  "join sep [] = []"
| "join sep [s] = s"
| "join sep (s # t # ss) = s @ sep @ join sep (t # ss)"

definition display_resource :: "resource \<Rightarrow> string" where
  "display_resource r = join ''/'' r"

lemma new_event_sel [simp]:
  "ev_principal (new_event p a r) = p" "ev_action (new_event p a r) = a"
  "ev_resource (new_event p a r) = r"
  by (simp_all add: new_event_def)

lemma new_event_eq [simp]: "new_event (ev_principal e) (ev_action e) (ev_resource e) = e"
  by (simp add: new_event_def)

text \<open>
  The derived order of \<open>Action\<close>: by variant in declaration order, then by the message, with
  \<open>None\<close> before every \<open>Some\<close>.
\<close>

fun action_rank :: "action \<Rightarrow> nat" where
  "action_rank Read = 0"
| "action_rank Edit = 1"
| "action_rank Stage = 2"
| "action_rank Unstage = 3"
| "action_rank (Commit _) = 4"
| "action_rank Checkout = 5"
| "action_rank Stash = 6"
| "action_rank Delete = 7"
| "action_rank Clean = 8"
| "action_rank Diff = 9"
| "action_rank History = 10"

lemma action_rank_eq: "action_rank a = action_rank b \<Longrightarrow> (\<forall>m. a \<noteq> Commit m) \<Longrightarrow> a = b"
  by (cases a; cases b) simp_all

end
