(* ===== verification/Source.thy ===== *)
theory Source
  imports Model
begin

text \<open>
  The owned source language of policy rules, \<^verbatim>\<open>rust-validator/src/syntax/source.rs\<close>, and
  the meaning it is documented to have: a head binds names to the components of a candidate
  event, a test selects single events under those bindings, and a regular expression selects
  complete event histories. The meaning is the reference the compiler and the symbolic
  matcher are proved against.
\<close>

section \<open>Syntax\<close>

datatype ('t, 'v) component_pattern = Constant 't | Variable 'v

record head =
  head_principal :: "(principal, string) component_pattern"
  head_action :: "(action, string) component_pattern"
  head_resource :: "(resource, string) component_pattern"

datatype component = CompPrincipal | CompAction | CompResource

text \<open>The derived order of \<open>Component\<close> is the order of its variants.\<close>

instantiation component :: linorder
begin

primrec component_rank :: "component \<Rightarrow> nat" where
  "component_rank CompPrincipal = 0"
| "component_rank CompAction = 1"
| "component_rank CompResource = 2"

definition less_eq_component :: "component \<Rightarrow> component \<Rightarrow> bool" where
  "less_eq_component a b \<longleftrightarrow> component_rank a \<le> component_rank b"

definition less_component :: "component \<Rightarrow> component \<Rightarrow> bool" where
  "less_component a b \<longleftrightarrow> component_rank a < component_rank b"

lemma component_rank_inject: "component_rank a = component_rank b \<Longrightarrow> a = b"
  by (cases a; cases b) simp_all

instance
  by standard
    (auto simp: less_eq_component_def less_component_def dest: component_rank_inject)

end

datatype comparison = Eq | Neq

fun not_comparison :: "comparison \<Rightarrow> comparison" where
  "not_comparison Eq = Neq"
| "not_comparison Neq = Eq"

datatype atom_pattern =
    PrincipalAtom "(principal, string) component_pattern"
  | ActionAtom "(action, string) component_pattern"
  | ResourceAtom "(resource, string) component_pattern"

fun atom_component :: "atom_pattern \<Rightarrow> component" where
  "atom_component (PrincipalAtom _) = CompPrincipal"
| "atom_component (ActionAtom _) = CompAction"
| "atom_component (ResourceAtom _) = CompResource"

datatype test_expr =
    TrueT | FalseT
  | AtomT comparison atom_pattern
  | AndT "test_expr list"
  | OrT "test_expr list"

datatype regex_expr =
    EmptyX | AllX | EpsilonX
  | TestX test_expr
  | UnionX "regex_expr list"
  | ConcatX "regex_expr list"
  | StarX regex_expr
  | IntersectX "regex_expr list"
  | NotX regex_expr

datatype rule_mode = Require | Forbid

record rule =
  rule_mode :: rule_mode
  rule_head :: head
  rule_tail :: regex_expr

section \<open>Meaning\<close>

text \<open>A bound name carries a value of one product coordinate.\<close>

datatype binding =
    BoundPrincipal principal
  | BoundAction action
  | BoundResource resource

type_synonym bindings = "string \<rightharpoonup> binding"

text \<open>
  A head matches when every constant equals the candidate's component and every name gets one
  value.
\<close>

definition bind_pattern ::
  "('t \<Rightarrow> binding) \<Rightarrow> ('t, string) component_pattern \<Rightarrow> 't \<Rightarrow> bindings option" where
  "bind_pattern tag pat actual = (case pat of
     Constant c \<Rightarrow> if c = actual then Some Map.empty else None
   | Variable x \<Rightarrow> Some [x \<mapsto> tag actual])"

definition agree :: "bindings \<Rightarrow> bindings \<Rightarrow> bool" where
  "agree f g \<longleftrightarrow> (\<forall>x a b. f x = Some a \<longrightarrow> g x = Some b \<longrightarrow> a = b)"

definition head_bindings :: "head \<Rightarrow> event \<Rightarrow> bindings option" where
  "head_bindings h e = do {
     p \<leftarrow> bind_pattern BoundPrincipal (head_principal h) (ev_principal e);
     a \<leftarrow> bind_pattern BoundAction (head_action h) (ev_action e);
     r \<leftarrow> bind_pattern BoundResource (head_resource h) (ev_resource e);
     if agree p a \<and> agree (p ++ a) r then Some (p ++ a ++ r) else None
   }"

fun atom_holds :: "bindings \<Rightarrow> atom_pattern \<Rightarrow> event \<Rightarrow> bool" where
  "atom_holds \<theta> (PrincipalAtom pat) e = (case pat of
     Constant c \<Rightarrow> ev_principal e = c
   | Variable x \<Rightarrow> \<theta> x = Some (BoundPrincipal (ev_principal e)))"
| "atom_holds \<theta> (ActionAtom pat) e = (case pat of
     Constant c \<Rightarrow> ev_action e = c
   | Variable x \<Rightarrow> \<theta> x = Some (BoundAction (ev_action e)))"
| "atom_holds \<theta> (ResourceAtom pat) e = (case pat of
     Constant c \<Rightarrow> ev_resource e = c
   | Variable x \<Rightarrow> \<theta> x = Some (BoundResource (ev_resource e)))"

fun test_holds :: "bindings \<Rightarrow> test_expr \<Rightarrow> event \<Rightarrow> bool" where
  "test_holds \<theta> TrueT e = True"
| "test_holds \<theta> FalseT e = False"
| "test_holds \<theta> (AtomT Eq p) e = atom_holds \<theta> p e"
| "test_holds \<theta> (AtomT Neq p) e = (\<not> atom_holds \<theta> p e)"
| "test_holds \<theta> (AndT ts) e = list_all (\<lambda>t. test_holds \<theta> t e) ts"
| "test_holds \<theta> (OrT ts) e = list_ex (\<lambda>t. test_holds \<theta> t e) ts"

fun expr_lang :: "bindings \<Rightarrow> regex_expr \<Rightarrow> event list set" where
  "expr_lang \<theta> EmptyX = {}"
| "expr_lang \<theta> AllX = UNIV"
| "expr_lang \<theta> EpsilonX = {[]}"
| "expr_lang \<theta> (TestX t) = {[e] |e. test_holds \<theta> t e}"
| "expr_lang \<theta> (UnionX rs) = \<Union> (expr_lang \<theta> ` set rs)"
| "expr_lang \<theta> (ConcatX rs) = seqs_list (map (expr_lang \<theta>) rs)"
| "expr_lang \<theta> (StarX r) = repeated (expr_lang \<theta> r)"
| "expr_lang \<theta> (IntersectX rs) = \<Inter> (expr_lang \<theta> ` set rs)"
| "expr_lang \<theta> (NotX r) = - expr_lang \<theta> r"

text \<open>
  What a rule says about a candidate: \<open>None\<close> when the head does not match, otherwise whether
  the rule is violated by the committed history.
\<close>

definition rule_violated :: "rule \<Rightarrow> event list \<Rightarrow> event \<Rightarrow> bool option" where
  "rule_violated ru history e = (case head_bindings (rule_head ru) e of
     None \<Rightarrow> None
   | Some \<theta> \<Rightarrow> Some (case rule_mode ru of
        Require \<Rightarrow> history \<notin> expr_lang \<theta> (rule_tail ru)
      | Forbid \<Rightarrow> history \<in> expr_lang \<theta> (rule_tail ru)))"

text \<open>A word over the events of which every prefix-suffix split question reduces to lists.\<close>

lemma test_star_lang: "expr_lang \<theta> (StarX (TestX t)) = {w. \<forall>e \<in> set w. test_holds \<theta> t e}"
  using repeated_letters[of _ "{e. test_holds \<theta> t e}"] by auto

end
