(* ===== verification/Component.thy ===== *)
theory Component
  imports Source
begin

text \<open>
  Resolved component values, compiled patterns and candidate substitutions:
  \<^verbatim>\<open>rust-validator/src/syntax/component.rs\<close> and
  \<^verbatim>\<open>rust-validator/src/syntax/environment.rs\<close>.

  The string interner is a crate outside the repository. The code relies on one thing only:
  equal strings get equal symbols and different strings get different ones for as long as the
  store lives. It is the parameter \<open>intern\<close> of every definition that resolves a value, and
  \<open>inj intern\<close> is a named hypothesis where that fact is used. A resource resolved into the arena
  is the list of its segments' symbols.
\<close>

section \<open>Resolved values\<close>

datatype 's resolved_action =
    RRead | REdit | RStage | RUnstage
  | RCommit "'s option"
  | RCheckout | RStash | RDelete | RClean | RDiff | RHistory

datatype 's resolved_value =
    PrincipalValue 's
  | ActionValue "'s resolved_action"
  | ResourceValue "'s list"

definition resolve_principal :: "(string \<Rightarrow> 's) \<Rightarrow> principal \<Rightarrow> 's" where
  "resolve_principal intern p = intern p"

fun resolve_action :: "(string \<Rightarrow> 's) \<Rightarrow> action \<Rightarrow> 's resolved_action" where
  "resolve_action intern Read = RRead"
| "resolve_action intern Edit = REdit"
| "resolve_action intern Stage = RStage"
| "resolve_action intern Unstage = RUnstage"
| "resolve_action intern (Commit message) = RCommit (map_option intern message)"
| "resolve_action intern Checkout = RCheckout"
| "resolve_action intern Stash = RStash"
| "resolve_action intern Delete = RDelete"
| "resolve_action intern Clean = RClean"
| "resolve_action intern Diff = RDiff"
| "resolve_action intern History = RHistory"

definition resolve_resource :: "(string \<Rightarrow> 's) \<Rightarrow> resource \<Rightarrow> 's list" where
  "resolve_resource intern r = map intern r"

text \<open>The projections of the heterogeneous substitution range.\<close>

fun project_principal :: "'s resolved_value \<Rightarrow> 's option" where
  "project_principal (PrincipalValue v) = Some v"
| "project_principal _ = None"

fun project_action :: "'s resolved_value \<Rightarrow> 's resolved_action option" where
  "project_action (ActionValue v) = Some v"
| "project_action _ = None"

fun project_resource :: "'s resolved_value \<Rightarrow> 's list option" where
  "project_resource (ResourceValue v) = Some v"
| "project_resource _ = None"

section \<open>The component-domain interface\<close>

text \<open>
  The trait \<open>ComponentDomain\<close>: resolving is faithful (with an injective interner), and
  projecting a value injected by the same domain returns it while another domain's value is
  refused.
\<close>

locale component_domain =
  fixes resolve :: "'t \<Rightarrow> 'r"
    and inject :: "'r \<Rightarrow> 's resolved_value"
    and project :: "'s resolved_value \<Rightarrow> 'r option"
  assumes resolve_faithful: "resolve a = resolve b \<longleftrightarrow> a = b"
    and project_inject: "project (inject v) = Some v"
    and project_only: "project w = Some v \<Longrightarrow> w = inject v"
begin

lemma project_resolved: "project w = Some (resolve a) \<longleftrightarrow> w = inject (resolve a)"
  using project_inject project_only by metis

lemma inject_resolved_eq: "inject (resolve a) = inject (resolve b) \<longleftrightarrow> a = b"
  using project_inject resolve_faithful by (metis option.inject)

end

text \<open>With an injective interner the three domains of the code satisfy it.\<close>

locale interned =
  fixes intern :: "string \<Rightarrow> 's"
  assumes intern_inj: "inj intern"
begin

lemma resolve_action_eq: "resolve_action intern a = resolve_action intern b \<longleftrightarrow> a = b"
  using intern_inj
  by (cases a; cases b) (auto simp: inj_eq option.inj_map_strong dest: option.inj_map[THEN injD])

lemma resolve_resource_eq: "resolve_resource intern a = resolve_resource intern b \<longleftrightarrow> a = b"
  using intern_inj by (simp add: resolve_resource_def inj_map_eq_map)

lemma resolve_principal_eq: "resolve_principal intern a = resolve_principal intern b \<longleftrightarrow> a = b"
  using intern_inj by (simp add: resolve_principal_def inj_eq)

end

sublocale interned \<subseteq> principal_domain:
  component_domain "resolve_principal intern" PrincipalValue project_principal
proof (unfold_locales, goal_cases)
  case (1 a b) show ?case by (rule resolve_principal_eq)
next
  case (3 w v) then show ?case by (cases w) simp_all
qed simp

sublocale interned \<subseteq> action_domain:
  component_domain "resolve_action intern" ActionValue project_action
proof (unfold_locales, goal_cases)
  case (1 a b) show ?case by (rule resolve_action_eq)
next
  case (3 w v) then show ?case by (cases w) simp_all
qed simp

sublocale interned \<subseteq> resource_domain:
  component_domain "resolve_resource intern" ResourceValue project_resource
proof (unfold_locales, goal_cases)
  case (1 a b) show ?case by (rule resolve_resource_eq)
next
  case (3 w v) then show ?case by (cases w) simp_all
qed simp

text \<open>Strings are their own symbols: the interner a witness can compute with.\<close>

interpretation string_symbols: interned "\<lambda>s :: string. s"
  by unfold_locales (simp add: inj_on_def)

section \<open>Substitutions\<close>

text \<open>
  A substitution is the hash map of the code, as an association list: its lookups are
  \<open>map_of\<close>, and \<open>extend\<close> prepends.
\<close>

type_synonym 's substitution = "('s \<times> 's resolved_value) list"

definition singleton :: "'s \<Rightarrow> 's resolved_value \<Rightarrow> 's substitution" where
  "singleton variable value = [(variable, value)]"

definition merge_substitutions :: "'s substitution \<Rightarrow> 's substitution \<Rightarrow> 's substitution option" where
  "merge_substitutions self other =
     (if list_ex (\<lambda>(variable, value). case map_of self variable of
           None \<Rightarrow> False
         | Some existing \<Rightarrow> existing \<noteq> value) other
      then None
      else Some (other @ self))"

section \<open>Compiled patterns\<close>

type_synonym ('r, 's) compiled_pattern = "('r, 's) component_pattern"

datatype 's compiled_atom =
    CompiledPrincipal "('s, 's) component_pattern"
  | CompiledAction "('s resolved_action, 's) component_pattern"
  | CompiledResource "('s list, 's) component_pattern"

datatype 's resolved_atom =
    ResolvedPrincipal 's
  | ResolvedAction "'s resolved_action"
  | ResolvedResource "'s list"

fun resolved_atom_matches :: "(string \<Rightarrow> 's) \<Rightarrow> 's resolved_atom \<Rightarrow> event \<Rightarrow> bool" where
  "resolved_atom_matches intern (ResolvedPrincipal expected) e =
     (expected = resolve_principal intern (ev_principal e))"
| "resolved_atom_matches intern (ResolvedAction expected) e =
     (expected = resolve_action intern (ev_action e))"
| "resolved_atom_matches intern (ResolvedResource expected) e =
     (expected = resolve_resource intern (ev_resource e))"

fun pattern_subst ::
  "('s resolved_value \<Rightarrow> 'r option) \<Rightarrow> ('r, 's) component_pattern \<Rightarrow> 's substitution \<Rightarrow> 'r option"
where
  "pattern_subst project (Constant expected) \<sigma> = Some expected"
| "pattern_subst project (Variable variable) \<sigma> = Option.bind (map_of \<sigma> variable) project"

fun atom_subst :: "'s compiled_atom \<Rightarrow> 's substitution \<Rightarrow> 's resolved_atom option" where
  "atom_subst (CompiledPrincipal p) \<sigma> =
     map_option ResolvedPrincipal (pattern_subst project_principal p \<sigma>)"
| "atom_subst (CompiledAction p) \<sigma> =
     map_option ResolvedAction (pattern_subst project_action p \<sigma>)"
| "atom_subst (CompiledResource p) \<sigma> =
     map_option ResolvedResource (pattern_subst project_resource p \<sigma>)"

text \<open>Whether an atom matches one event under a substitution: \<open>is_some_and\<close> of the code.\<close>

definition atom_matches ::
  "(string \<Rightarrow> 's) \<Rightarrow> 's substitution \<Rightarrow> event \<Rightarrow> 's compiled_atom \<Rightarrow> bool" where
  "atom_matches intern \<sigma> e atom = (case atom_subst atom \<sigma> of
     None \<Rightarrow> False
   | Some resolved \<Rightarrow> resolved_atom_matches intern resolved e)"

section \<open>Heads\<close>

record 's compiled_head =
  ch_principal :: "('s, 's) component_pattern"
  ch_action :: "('s resolved_action, 's) component_pattern"
  ch_resource :: "('s list, 's) component_pattern"

definition match_head_pattern ::
  "('t \<Rightarrow> 'r) \<Rightarrow> ('r \<Rightarrow> 's resolved_value) \<Rightarrow> ('r, 's) component_pattern \<Rightarrow> 't
   \<Rightarrow> 's substitution option" where
  "match_head_pattern resolve inject pat actual = (case pat of
     Constant expected \<Rightarrow> if expected = resolve actual then Some [] else None
   | Variable variable \<Rightarrow> Some (singleton variable (inject (resolve actual))))"

definition match_candidate ::
  "(string \<Rightarrow> 's) \<Rightarrow> 's compiled_head \<Rightarrow> event \<Rightarrow> 's substitution option" where
  "match_candidate intern h e = do {
     principal \<leftarrow> match_head_pattern (resolve_principal intern) PrincipalValue
                   (ch_principal h) (ev_principal e);
     act \<leftarrow> match_head_pattern (resolve_action intern) ActionValue (ch_action h) (ev_action e);
     principal_action \<leftarrow> merge_substitutions principal act;
     resource \<leftarrow> match_head_pattern (resolve_resource intern) ResourceValue
                   (ch_resource h) (ev_resource e);
     merge_substitutions principal_action resource
   }"

section \<open>Variable environments\<close>

text \<open>
  The rule-local type environment: which symbols a head declared, and in which coordinate.
\<close>

datatype resolve_error = Unbound | ComponentConflict

type_synonym 's variable_environment = "('s \<times> component) list"

definition env_bind ::
  "'s variable_environment \<Rightarrow> 's \<Rightarrow> component \<Rightarrow> component + 's variable_environment" where
  "env_bind env variable coord = (case map_of env variable of
     Some bound_component \<Rightarrow> if bound_component \<noteq> coord then Inl bound_component else Inr env
   | None \<Rightarrow> Inr ((variable, coord) # env))"

definition env_resolve ::
  "'s variable_environment \<Rightarrow> 's \<Rightarrow> component \<Rightarrow> resolve_error + unit" where
  "env_resolve env variable coord = (case map_of env variable of
     Some bound_component \<Rightarrow>
       if bound_component \<noteq> coord then Inl ComponentConflict else Inr ()
   | None \<Rightarrow> Inl Unbound)"

section \<open>Facts about substitutions\<close>

lemma merge_substitutions_Some:
  "merge_substitutions f g = Some h \<Longrightarrow> map_of h = map_of f ++ map_of g"
  by (auto simp: merge_substitutions_def map_of_append split: if_splits)

lemma merge_substitutions_None:
  assumes "distinct (map fst g)"
  shows "merge_substitutions f g = None \<longleftrightarrow>
    (\<exists>x a b. map_of f x = Some a \<and> map_of g x = Some b \<and> a \<noteq> b)"
  using assms
  by (auto simp: merge_substitutions_def list_ex_iff split: option.splits)

end
