(* ===== verification/Node.thy ===== *)
theory Node
  imports Component
begin

text \<open>
  The canonical nodes of \<^verbatim>\<open>rust-validator/src/syntax/node.rs\<close> and \<^verbatim>\<open>store.rs\<close>, their
  evaluation, and their denotation.

  Nodes are hash-consed by a crate outside the repository: a handle is equal to another exactly
  when the nodes are structurally equal, and handles are totally ordered by the identifier they
  were given when first created. A handle is therefore the node itself here, and the
  identifiers are the parameter \<open>uids\<close> of every constructor that sorts its operands. The
  theorems assume at most that different nodes got different identifiers (\<open>hash_consed\<close>), so
  they hold for whatever order the nodes of a run were created in. The nullability cached in a
  regex node is a function of its kind (\<open>nullable\<close>), which is what \<open>intern_regex\<close> asserts.
\<close>

section \<open>Nodes\<close>

datatype 's test =
    TTrue | TFalse
  | TAtom comparison "'s compiled_atom"
  | TAnd "'s test list"
  | TOr "'s test list"

datatype 's regex =
    REmpty | RAll | REpsilon
  | RTest "'s test"
  | RUnion "'s regex list"
  | RConcat "'s regex list"
  | RStar "'s regex"
  | RIntersect "'s regex list"
  | RNot "'s regex"

datatype 's transition =
    Const "'s regex"
  | If "'s test" "'s transition" "'s transition"
  | Union "'s transition list"
  | Intersect "'s transition list"
  | Not "'s transition"
  | Append "'s transition" "'s regex list"

text \<open>The identifiers the interning tables hand out.\<close>

record 's uids =
  test_uid :: "'s test \<Rightarrow> nat"
  regex_uid :: "'s regex \<Rightarrow> nat"
  transition_uid :: "'s transition \<Rightarrow> nat"

fun nullable :: "'s regex \<Rightarrow> bool" where
  "nullable REmpty = False"
| "nullable RAll = True"
| "nullable REpsilon = True"
| "nullable (RTest _) = False"
| "nullable (RUnion rs) = list_ex nullable rs"
| "nullable (RConcat rs) = list_all nullable rs"
| "nullable (RStar _) = True"
| "nullable (RIntersect rs) = list_all nullable rs"
| "nullable (RNot r) = (\<not> nullable r)"

section \<open>Evaluation of tests\<close>

text \<open>
  A test is evaluated from the truth of its atoms: against an event under a substitution
  (\<open>eval_test\<close>), or against the bits of a precomputed minterm.
\<close>

fun test_under :: "('s compiled_atom \<Rightarrow> bool) \<Rightarrow> 's test \<Rightarrow> bool" where
  "test_under truth TTrue = True"
| "test_under truth TFalse = False"
| "test_under truth (TAtom cmp atom) =
     (case cmp of Eq \<Rightarrow> truth atom | Neq \<Rightarrow> \<not> truth atom)"
| "test_under truth (TAnd ts) = list_all (test_under truth) ts"
| "test_under truth (TOr ts) = list_ex (test_under truth) ts"

definition eval_test ::
  "(string \<Rightarrow> 's) \<Rightarrow> 's test \<Rightarrow> event \<Rightarrow> 's substitution \<Rightarrow> bool" where
  "eval_test intern t e \<sigma> = test_under (atom_matches intern \<sigma> e) t"

section \<open>Denotation\<close>

text \<open>
  Two atoms that compare one coordinate with different constants cannot both match an event.
  A letter is a truth assignment that respects this; every event under every substitution is
  one.
\<close>

fun distinct_constant_patterns :: "'s compiled_atom \<Rightarrow> 's compiled_atom \<Rightarrow> bool" where
  "distinct_constant_patterns (CompiledPrincipal (Constant l)) (CompiledPrincipal (Constant r)) =
     (l \<noteq> r)"
| "distinct_constant_patterns (CompiledAction (Constant l)) (CompiledAction (Constant r)) =
     (l \<noteq> r)"
| "distinct_constant_patterns (CompiledResource (Constant l)) (CompiledResource (Constant r)) =
     (l \<noteq> r)"
| "distinct_constant_patterns _ _ = False"

definition consistent :: "('s compiled_atom \<Rightarrow> bool) \<Rightarrow> bool" where
  "consistent truth \<longleftrightarrow> (\<forall>p q. distinct_constant_patterns p q \<longrightarrow> \<not> (truth p \<and> truth q))"

typedef 's letter = "{truth :: 's compiled_atom \<Rightarrow> bool. consistent truth}"
  by (rule exI[of _ "\<lambda>_. False"]) (simp add: consistent_def)

lemma distinct_constantsE:
  assumes "distinct_constant_patterns p q"
  obtains (principal) l r where "p = CompiledPrincipal (Constant l)" "q = CompiledPrincipal (Constant r)" "l \<noteq> r"
    | (action) l r where "p = CompiledAction (Constant l)" "q = CompiledAction (Constant r)" "l \<noteq> r"
    | (resource) l r where "p = CompiledResource (Constant l)" "q = CompiledResource (Constant r)" "l \<noteq> r"
  using assms by (cases "(p, q)" rule: distinct_constant_patterns.cases) auto

lemma consistent_event: "consistent (atom_matches intern \<sigma> e)"
  unfolding consistent_def by (auto elim!: distinct_constantsE simp: atom_matches_def)

definition event_letter :: "(string \<Rightarrow> 's) \<Rightarrow> 's substitution \<Rightarrow> event \<Rightarrow> 's letter" where
  "event_letter intern \<sigma> e = Abs_letter (atom_matches intern \<sigma> e)"

lemma Rep_event_letter [simp]: "Rep_letter (event_letter intern \<sigma> e) = atom_matches intern \<sigma> e"
  by (simp add: event_letter_def Abs_letter_inverse consistent_event)

lemma letter_consistent: "distinct_constant_patterns p q \<Longrightarrow> Rep_letter x p \<Longrightarrow> \<not> Rep_letter x q"
  using Rep_letter[of x] by (auto simp: consistent_def)

definition letters :: "'s test \<Rightarrow> 's letter set" where
  "letters t = {x. test_under (Rep_letter x) t}"

lemma letters_simps [simp]:
  "letters TTrue = UNIV" "letters TFalse = {}"
  "letters (TAtom Eq p) = {x. Rep_letter x p}"
  "letters (TAtom Neq p) = {x. \<not> Rep_letter x p}"
  "letters (TAnd ts) = \<Inter> (letters ` set ts)"
  "letters (TOr ts) = \<Union> (letters ` set ts)"
  by (auto simp: letters_def list_all_iff list_ex_iff)

lemma event_letter_in: "event_letter intern \<sigma> e \<in> letters t \<longleftrightarrow> eval_test intern t e \<sigma>"
  by (simp add: letters_def eval_test_def)

fun lang :: "'s regex \<Rightarrow> 's letter list set" where
  "lang REmpty = {}"
| "lang RAll = UNIV"
| "lang REpsilon = {[]}"
| "lang (RTest t) = {[x] |x. x \<in> letters t}"
| "lang (RUnion rs) = \<Union> (lang ` set rs)"
| "lang (RConcat rs) = seqs_list (map lang rs)"
| "lang (RStar r) = repeated (lang r)"
| "lang (RIntersect rs) = \<Inter> (lang ` set rs)"
| "lang (RNot r) = - lang r"

text \<open>What a transition leads to on one letter.\<close>

fun step_lang :: "'s transition \<Rightarrow> 's letter \<Rightarrow> 's letter list set" where
  "step_lang (Const r) x = lang r"
| "step_lang (If t a b) x = (if x \<in> letters t then step_lang a x else step_lang b x)"
| "step_lang (Union ts) x = (\<Union>t \<in> set ts. step_lang t x)"
| "step_lang (Intersect ts) x = (\<Inter>t \<in> set ts. step_lang t x)"
| "step_lang (Not t) x = - step_lang t x"
| "step_lang (Append t rs) x = seqs (step_lang t x) (seqs_list (map lang rs))"

lemma nullable_iff: "nullable r \<longleftrightarrow> [] \<in> lang r"
  by (induction r)
    (auto simp: list_ex_iff list_all_iff seqs_list_Nil_in intro: repeated.none)

end
