(* ===== verification/Normalize.thy ===== *)
theory Normalize
  imports Node "HOL-Library.Countable"
begin

text \<open>
  The smart constructors of \<^verbatim>\<open>rust-validator/src/syntax/normalize.rs\<close>, in the order of the
  file: the predicates on pairs of operands, the dual connectives of tests with complement
  pushing, and the regex constructors. The lemmas show for each constructor that it denotes the
  operation it is named after and that it returns a node in normal form.

  Handles are ordered by identifier, and distinct handles have distinct identifiers: this is
  what hash-consing promises and the hypothesis \<open>inj\<close> on the identifiers says it. Normal forms
  keep operands in strictly increasing identifier order, so a search in an operand slice finds
  exactly the members of the slice, and \<open>binary_search\<close> is membership.
\<close>

section \<open>Predicates on operands\<close>

fun complementary_test :: "'s test \<Rightarrow> 's test \<Rightarrow> bool" where
  "complementary_test (TAtom lc lp) (TAtom rc rp) = (lc \<noteq> rc \<and> lp = rp)"
| "complementary_test _ _ = False"

fun distinct_constant_atoms :: "'s test \<Rightarrow> 's test \<Rightarrow> comparison \<Rightarrow> bool" where
  "distinct_constant_atoms (TAtom lc lp) (TAtom rc rp) cmp =
     (lc = cmp \<and> rc = cmp \<and> distinct_constant_patterns lp rp)"
| "distinct_constant_atoms _ _ _ = False"

fun redundant_constant_atom :: "'s test \<Rightarrow> 's test list \<Rightarrow> comparison \<Rightarrow> bool" where
  "redundant_constant_atom (TAtom cmp pat) siblings candidate_cmp =
     (cmp = candidate_cmp \<and>
      list_ex (\<lambda>sibling. case sibling of
          TAtom c p \<Rightarrow> c = not_comparison candidate_cmp \<and> distinct_constant_patterns pat p
        | _ \<Rightarrow> False) siblings)"
| "redundant_constant_atom _ _ _ = False"

definition absorbed_by_sibling :: "'s test \<Rightarrow> 's test list \<Rightarrow> bool" where
  "absorbed_by_sibling candidate siblings =
     list_ex (\<lambda>sibling.
       sibling \<noteq> candidate \<and>
       (case (candidate, sibling) of
          (TOr nested, TOr children) \<Rightarrow> list_all (\<lambda>c. c \<in> set nested) children
        | (TAnd nested, TAnd children) \<Rightarrow> list_all (\<lambda>c. c \<in> set nested) children
        | (TOr nested, _) \<Rightarrow> sibling \<in> set nested
        | (TAnd nested, _) \<Rightarrow> sibling \<in> set nested
        | _ \<Rightarrow> False)) siblings"

definition complementary_regex :: "'s regex \<Rightarrow> 's regex \<Rightarrow> bool" where
  "complementary_regex l r = (l = RNot r \<or> r = RNot l)"

definition is_epsilon_complement :: "'s regex \<Rightarrow> bool" where
  "is_epsilon_complement r = (r = RNot REpsilon)"

definition regex_absorbed_by_sibling :: "'s regex \<Rightarrow> 's regex list \<Rightarrow> bool" where
  "regex_absorbed_by_sibling candidate siblings =
     list_ex (\<lambda>sibling.
       sibling \<noteq> candidate \<and>
       (case (candidate, sibling) of
          (RIntersect nested, RIntersect children) \<Rightarrow> list_all (\<lambda>c. c \<in> set nested) children
        | (RUnion nested, RUnion children) \<Rightarrow> list_all (\<lambda>c. c \<in> set nested) children
        | (RIntersect nested, _) \<Rightarrow> sibling \<in> set nested
        | (RUnion nested, _) \<Rightarrow> sibling \<in> set nested
        | _ \<Rightarrow> False)) siblings"

section \<open>Connectives of tests\<close>

datatype connective = ConnAnd | ConnOr

fun dual :: "connective \<Rightarrow> connective" where
  "dual ConnAnd = ConnOr"
| "dual ConnOr = ConnAnd"

fun identity :: "connective \<Rightarrow> 's test" where
  "identity ConnAnd = TTrue"
| "identity ConnOr = TFalse"

fun absorber :: "connective \<Rightarrow> 's test" where
  "absorber ConnAnd = TFalse"
| "absorber ConnOr = TTrue"

fun children :: "connective \<Rightarrow> 's test \<Rightarrow> 's test list option" where
  "children ConnAnd (TAnd ts) = Some ts"
| "children ConnOr (TOr ts) = Some ts"
| "children _ _ = None"

fun contradictory_comparison :: "connective \<Rightarrow> comparison" where
  "contradictory_comparison ConnAnd = Eq"
| "contradictory_comparison ConnOr = Neq"

definition redundant_comparison :: "connective \<Rightarrow> comparison" where
  "redundant_comparison c = not_comparison (contradictory_comparison c)"

fun conn_node :: "connective \<Rightarrow> 's test list \<Rightarrow> 's test" where
  "conn_node ConnAnd ts = TAnd ts"
| "conn_node ConnOr ts = TOr ts"

text \<open>
  \<open>tests_have_complements\<close>, \<open>test_connective\<close> and \<open>test_not\<close> call one another. The first two
  take the complement as an argument here, and \<open>test_not\<close> ties the knot.
\<close>

definition have_complements ::
  "('s test \<Rightarrow> 's test) \<Rightarrow> 's test list \<Rightarrow> connective \<Rightarrow> bool" where
  "have_complements neg ts c =
     (some_pair complementary_test ts \<or>
      list_ex (\<lambda>candidate. case children (dual c) candidate of
          None \<Rightarrow> False
        | Some dual_children \<Rightarrow> list_all (\<lambda>child. neg child \<in> set ts) dual_children) ts)"

definition flat_tests :: "connective \<Rightarrow> 's test list \<Rightarrow> 's test list" where
  "flat_tests c ts = concat (map (\<lambda>t.
     if t = identity c then []
     else case children c t of Some nested \<Rightarrow> nested | None \<Rightarrow> [t]) ts)"

definition connective_with ::
  "'s uids \<Rightarrow> ('s test \<Rightarrow> 's test) \<Rightarrow> connective \<Rightarrow> 's test list \<Rightarrow> 's test" where
  "connective_with u neg c ts =
     (if absorber c \<in> set ts then absorber c
      else
        let flat = sort_dedup (test_uid u) (flat_tests c ts) in
        if have_complements neg flat c \<or>
           some_pair (\<lambda>l r. distinct_constant_atoms l r (contradictory_comparison c)) flat
        then absorber c
        else
          let kept =
            (if list_ex (\<lambda>t. children (dual c) t \<noteq> None \<or>
                  (case t of TAtom cmp _ \<Rightarrow> cmp = redundant_comparison c | _ \<Rightarrow> False)) flat
             then filter (\<lambda>t. \<not> absorbed_by_sibling t flat \<and>
                    \<not> redundant_constant_atom t flat (redundant_comparison c)) flat
             else flat) in
          (case kept of [] \<Rightarrow> identity c | [only] \<Rightarrow> only | _ \<Rightarrow> conn_node c kept))"

text \<open>The weight of a test: complement pushing never increases it.\<close>

fun weight :: "'s test \<Rightarrow> nat" where
  "weight (TAnd ts) = Suc (\<Sum>t\<leftarrow>ts. weight t)"
| "weight (TOr ts) = Suc (\<Sum>t\<leftarrow>ts. weight t)"
| "weight _ = 1"

lemma weight_pos [simp]: "0 < weight t"
  by (cases t) auto

lemma weight_children: "children c t = Some ns \<Longrightarrow> weight t = Suc (\<Sum>t\<leftarrow>ns. weight t)"
  by (cases "(c, t)" rule: children.cases) auto

lemma weight_flat_tests: "(\<Sum>t\<leftarrow>flat_tests c ts. weight t) \<le> (\<Sum>t\<leftarrow>ts. weight t)"
  unfolding flat_tests_def by (induction ts) (auto split: option.splits dest: weight_children)

lemma weight_connective_with: "weight (connective_with u neg c ts) \<le> Suc (\<Sum>t\<leftarrow>ts. weight t)"
proof -
  define flat where "flat = sort_dedup (test_uid u) (flat_tests c ts)"
  have flat: "(\<Sum>t\<leftarrow>flat. weight t) \<le> (\<Sum>t\<leftarrow>ts. weight t)"
    unfolding flat_def by (rule order_trans[OF sum_list_sort_dedup_le weight_flat_tests])
  have const: "weight (absorber c) = 1" "weight (identity c) = 1" by (cases c; simp)+
  have node: "weight (conn_node c xs) = Suc (\<Sum>t\<leftarrow>xs. weight t)" for xs by (cases c) auto
  have close: "weight (case xs of [] \<Rightarrow> identity c | [only] \<Rightarrow> only | _ \<Rightarrow> conn_node c xs)
      \<le> Suc (\<Sum>t\<leftarrow>xs. weight t)" for xs
    by (auto simp: const node split: list.splits)
  show ?thesis
    unfolding connective_with_def Let_def flat_def[symmetric]
    using flat close[of flat] order_trans[OF close Suc_le_mono[THEN iffD2, OF sum_list_filter_le]]
    by (auto simp: const intro: order_trans)
qed

text \<open>The complements a connective asks for are those of the dual operands.\<close>

definition dual_operands :: "connective \<Rightarrow> 's test list \<Rightarrow> 's test set" where
  "dual_operands c ts = {t. \<exists>s \<in> set (flat_tests c ts). \<exists>ns. children (dual c) s = Some ns \<and> t \<in> set ns}"

lemma weight_dual_operands: "t \<in> dual_operands c ts \<Longrightarrow> weight t < (\<Sum>t\<leftarrow>ts. weight t)"
proof -
  assume "t \<in> dual_operands c ts"
  then obtain s ns where s: "s \<in> set (flat_tests c ts)" "children (dual c) s = Some ns" "t \<in> set ns"
    by (auto simp: dual_operands_def)
  have "weight t \<le> (\<Sum>t\<leftarrow>ns. weight t)" using s(3) by (rule member_le_sum_list_nat)
  also have "\<dots> < weight s" using weight_children[OF s(2)] by simp
  also have "\<dots> \<le> (\<Sum>t\<leftarrow>flat_tests c ts. weight t)" using s(1) by (rule member_le_sum_list_nat)
  also note weight_flat_tests
  finally show ?thesis .
qed

lemma have_complements_cong:
  assumes "\<And>s ns t. s \<in> set ts \<Longrightarrow> children (dual c) s = Some ns \<Longrightarrow> t \<in> set ns \<Longrightarrow> neg t = neg' t"
  shows "have_complements neg ts c = have_complements neg' ts c"
proof -
  have "(case children (dual c) s of None \<Rightarrow> False
          | Some ns \<Rightarrow> list_all (\<lambda>t. neg t \<in> set ts) ns) =
        (case children (dual c) s of None \<Rightarrow> False
          | Some ns \<Rightarrow> list_all (\<lambda>t. neg' t \<in> set ts) ns)" if "s \<in> set ts" for s
    using assms[OF that] by (auto split: option.splits simp: list_all_iff)
  then show ?thesis unfolding have_complements_def list_ex_iff by blast
qed

lemma connective_with_cong [fundef_cong]:
  assumes "u = u'" "c = c'" "ts = ts'" "\<And>t. t \<in> dual_operands c' ts' \<Longrightarrow> neg t = neg' t"
  shows "connective_with u neg c ts = connective_with u' neg' c' ts'"
proof -
  have "have_complements neg (sort_dedup (test_uid u) (flat_tests c ts)) c =
        have_complements neg' (sort_dedup (test_uid u) (flat_tests c ts)) c"
    using assms by (intro have_complements_cong) (auto simp: dual_operands_def)
  then show ?thesis using assms(1-3) by (simp add: connective_with_def)
qed

function (domintros) test_not :: "'s uids \<Rightarrow> 's test \<Rightarrow> 's test" where
  "test_not u TTrue = TFalse"
| "test_not u TFalse = TTrue"
| "test_not u (TAtom cmp pat) = TAtom (not_comparison cmp) pat"
| "test_not u (TAnd ts) = connective_with u (test_not u) ConnOr (map (test_not u) ts)"
| "test_not u (TOr ts) = connective_with u (test_not u) ConnAnd (map (test_not u) ts)"
  by pat_completeness auto

lemma test_not_weight: "test_not_dom (u, t) \<Longrightarrow> weight (test_not u t) \<le> weight t"
proof (induction u t rule: test_not.pinduct)
  case (4 u ts)
  have "(\<Sum>t\<leftarrow>map (test_not u) ts. weight t) \<le> (\<Sum>t\<leftarrow>ts. weight t)"
    using 4(2) by (auto simp: o_def intro: sum_list_map_mono)
  with weight_connective_with[of u "test_not u" ConnOr "map (test_not u) ts"] 4(1)
  show ?case by (simp add: test_not.psimps)
next
  case (5 u ts)
  have "(\<Sum>t\<leftarrow>map (test_not u) ts. weight t) \<le> (\<Sum>t\<leftarrow>ts. weight t)"
    using 5(2) by (auto simp: o_def intro: sum_list_map_mono)
  with weight_connective_with[of u "test_not u" ConnAnd "map (test_not u) ts"] 5(1)
  show ?case by (simp add: test_not.psimps)
qed (simp_all add: test_not.psimps)

lemma weight_dual_of_nots:
  assumes "t \<in> dual_operands c (map (test_not u) ts)" "\<And>x. x \<in> set ts \<Longrightarrow> test_not_dom (u, x)"
  shows "weight t \<le> (\<Sum>t\<leftarrow>ts. weight t)"
proof -
  have "(\<Sum>t\<leftarrow>map (test_not u) ts. weight t) \<le> (\<Sum>t\<leftarrow>ts. weight t)"
    using assms(2) by (auto simp: o_def intro: sum_list_map_mono test_not_weight)
  with weight_dual_operands[OF assms(1)] show ?thesis by simp
qed

termination test_not
  by (relation "measure (weight \<circ> snd)")
    (auto simp: less_Suc_eq_le intro: member_le_sum_list_nat weight_dual_of_nots)

definition test_and :: "'s uids \<Rightarrow> 's test list \<Rightarrow> 's test" where
  "test_and u ts = connective_with u (test_not u) ConnAnd ts"

definition test_or :: "'s uids \<Rightarrow> 's test list \<Rightarrow> 's test" where
  "test_or u ts = connective_with u (test_not u) ConnOr ts"

definition test_atom :: "comparison \<Rightarrow> 's compiled_atom \<Rightarrow> 's test" where
  "test_atom cmp pat = TAtom cmp pat"

section \<open>Normal forms of tests\<close>

text \<open>
  A compound test has at least two operands, in strictly increasing identifier order, none of
  them a constant or a use of the same connective.
\<close>

fun test_nf :: "'s uids \<Rightarrow> 's test \<Rightarrow> bool" where
  "test_nf u (TAnd ts) = (2 \<le> length ts \<and> slice (test_uid u) ts \<and>
     (\<forall>t \<in> set ts. test_nf u t \<and> t \<noteq> TTrue \<and> t \<noteq> TFalse \<and> children ConnAnd t = None))"
| "test_nf u (TOr ts) = (2 \<le> length ts \<and> slice (test_uid u) ts \<and>
     (\<forall>t \<in> set ts. test_nf u t \<and> t \<noteq> TTrue \<and> t \<noteq> TFalse \<and> children ConnOr t = None))"
| "test_nf u _ = True"

definition operand :: "'s uids \<Rightarrow> connective \<Rightarrow> 's test \<Rightarrow> bool" where
  "operand u c t \<longleftrightarrow> test_nf u t \<and> t \<noteq> TTrue \<and> t \<noteq> TFalse \<and> children c t = None"

text \<open>
  One argument serves both connectives: \<open>agrees c x t\<close> says that \<open>t\<close> has on the letter \<open>x\<close> the
  value under which the connective \<open>c\<close> continues to its next operand.
\<close>

definition agrees :: "connective \<Rightarrow> 's letter \<Rightarrow> 's test \<Rightarrow> bool" where
  "agrees c x t \<longleftrightarrow> (x \<in> letters t) = (c = ConnAnd)"

lemma agrees_simps [simp]:
  "agrees c x (identity c)" "\<not> agrees c x (absorber c)"
  "agrees c x (conn_node c ts) \<longleftrightarrow> (\<forall>t \<in> set ts. agrees c x t)"
  "agrees c x (conn_node (dual c) ts) \<longleftrightarrow> (\<exists>t \<in> set ts. agrees c x t)"
  by (cases c; auto simp: agrees_def)+

lemma agrees_dual: "agrees (dual c) x t \<longleftrightarrow> \<not> agrees c x t"
  by (cases c) (auto simp: agrees_def)

lemma children_node: "children c t = Some ns \<longleftrightarrow> t = conn_node c ns"
  by (cases c; cases t) auto

lemma dual_dual [simp]: "dual (dual c) = c"
  by (cases c) auto

lemma nf_conn_node:
  "test_nf u (conn_node c ts) \<longleftrightarrow>
     2 \<le> length ts \<and> slice (test_uid u) ts \<and> (\<forall>t \<in> set ts. operand u c t)"
  by (cases c) (auto simp: operand_def)

lemma nf_const [simp]: "test_nf u (identity c)" "test_nf u (absorber c)"
  by (cases c; simp)+

lemma constants:
  "t = TTrue \<or> t = TFalse \<longleftrightarrow> t = identity c \<or> t = absorber c"
  by (cases c) auto

lemma conn_node_children [simp]:
  "children c (conn_node c ns) = Some ns" "children c (identity c) = None"
  "conn_node c ns \<noteq> identity c"
  by (cases c; simp)+

lemma in_flat_tests:
  "t \<in> set (flat_tests c ts) \<longleftrightarrow> (\<exists>s \<in> set ts. s \<noteq> identity c \<and>
     ((\<exists>ns. children c s = Some ns \<and> t \<in> set ns) \<or> children c s = None \<and> t = s))"
proof (induction ts)
  case (Cons a ts)
  then show ?case
    unfolding flat_tests_def by (cases "a = identity c"; cases "children c a") auto
qed (simp add: flat_tests_def)

lemma flat_operand:
  assumes "t \<in> set (flat_tests c ts)" "\<forall>t \<in> set ts. test_nf u t" "absorber c \<notin> set ts"
  shows "operand u c t"
proof -
  from assms(1) obtain s where s: "s \<in> set ts" "s \<noteq> identity c"
    "(\<exists>ns. children c s = Some ns \<and> t \<in> set ns) \<or> children c s = None \<and> t = s"
    by (auto simp: in_flat_tests)
  from s(3) show ?thesis
  proof
    assume "\<exists>ns. children c s = Some ns \<and> t \<in> set ns"
    then show ?thesis using s(1) assms(2) by (auto simp: children_node nf_conn_node)
  next
    assume "children c s = None \<and> t = s"
    then show ?thesis using s assms(2,3) constants[of t c] by (auto simp: operand_def)
  qed
qed

lemma agrees_flat:
  "(\<forall>t \<in> set (flat_tests c ts). agrees c x t) \<longleftrightarrow> (\<forall>t \<in> set ts. agrees c x t)"
proof (induction ts)
  case (Cons a ts)
  have "flat_tests c (a # ts) = flat_tests c [a] @ flat_tests c ts" by (simp add: flat_tests_def)
  moreover have "(\<forall>t \<in> set (flat_tests c [a]). agrees c x t) \<longleftrightarrow> agrees c x a"
    by (cases "a = identity c"; cases "children c a") (auto simp: flat_tests_def children_node)
  ultimately show ?case using Cons.IH by (simp add: ball_Un)
qed (simp add: flat_tests_def)

lemma agrees_atoms:
  "distinct_constant_atoms l r (contradictory_comparison c) \<Longrightarrow> agrees c x l \<Longrightarrow> \<not> agrees c x r"
  "complementary_test l r \<Longrightarrow> agrees c x l \<Longrightarrow> \<not> agrees c x r"
proof -
  show "distinct_constant_atoms l r (contradictory_comparison c) \<Longrightarrow> agrees c x l \<Longrightarrow> \<not> agrees c x r"
    by (cases "(l, r, contradictory_comparison c)" rule: distinct_constant_atoms.cases; cases c)
      (auto simp: agrees_def dest: letter_consistent)
  show "complementary_test l r \<Longrightarrow> agrees c x l \<Longrightarrow> \<not> agrees c x r"
  proof (cases "(l, r)" rule: complementary_test.cases)
    case (1 lc lp rc rp)
    then show "complementary_test l r \<Longrightarrow> agrees c x l \<Longrightarrow> \<not> agrees c x r"
      by (cases lc; cases rc) (auto simp: agrees_def)
  qed auto
qed

lemma have_complements_contradict:
  assumes "have_complements neg ts c"
    and "\<And>s ns t. s \<in> set ts \<Longrightarrow> children (dual c) s = Some ns \<Longrightarrow> t \<in> set ns \<Longrightarrow>
           agrees c x (neg t) \<longleftrightarrow> \<not> agrees c x t"
  shows "\<not> (\<forall>t \<in> set ts. agrees c x t)"
proof
  assume all: "\<forall>t \<in> set ts. agrees c x t"
  from assms(1) consider "some_pair complementary_test ts"
    | s ns where "s \<in> set ts" "children (dual c) s = Some ns" "\<forall>t \<in> set ns. neg t \<in> set ts"
    by (auto simp: have_complements_def list_ex_iff list_all_iff split: option.splits)
  then show False
  proof cases
    case 1
    then show ?thesis using all agrees_atoms(2) by (metis some_pairD)
  next
    case 2
    then have "s = conn_node (dual c) ns" by (simp add: children_node)
    moreover have "agrees c x s" using all 2(1) by blast
    ultimately obtain t where "t \<in> set ns" "agrees c x t" by auto
    then show ?thesis using 2 all assms(2) by blast
  qed
qed

definition test_rank :: "connective \<Rightarrow> 's test \<Rightarrow> nat" where
  "test_rank c t = (case t of TAtom cmp _ \<Rightarrow> if cmp = contradictory_comparison c then 0 else 1
                            | _ \<Rightarrow> weight t)"

lemma test_rank_le: "test_rank c t \<le> weight t"
  by (cases t) (auto simp: test_rank_def)

lemma operand_dual: "operand u c t \<Longrightarrow> (\<exists>ns. t = conn_node (dual c) ns) \<or> (\<exists>cmp p. t = TAtom cmp p)"
  by (cases c; cases t) (auto simp: operand_def)

lemma absorbed_iff:
  "absorbed_by_sibling (conn_node c nested) F \<longleftrightarrow> (\<exists>s \<in> set F. s \<noteq> conn_node c nested \<and>
     (case children c s of Some cs \<Rightarrow> set cs \<subseteq> set nested | None \<Rightarrow> s \<in> set nested))"
proof -
  have "(case (conn_node c nested, s) of
          (TOr nested, TOr cs) \<Rightarrow> list_all (\<lambda>c. c \<in> set nested) cs
        | (TAnd nested, TAnd cs) \<Rightarrow> list_all (\<lambda>c. c \<in> set nested) cs
        | (TOr nested, _) \<Rightarrow> s \<in> set nested
        | (TAnd nested, _) \<Rightarrow> s \<in> set nested
        | _ \<Rightarrow> False) \<longleftrightarrow>
      (case children c s of Some cs \<Rightarrow> set cs \<subseteq> set nested | None \<Rightarrow> s \<in> set nested)" for s
    by (cases c; cases s) (auto simp: list_all_iff)
  then show ?thesis by (simp add: absorbed_by_sibling_def list_ex_iff)
qed

lemma absorbed_conn_node:
  assumes "absorbed_by_sibling (conn_node c nested) F"
  obtains s where "s \<in> set F" "s \<noteq> conn_node c nested" "s \<in> set nested"
    | cs where "conn_node c cs \<in> set F" "cs \<noteq> nested" "set cs \<subseteq> set nested"
proof -
  from assms obtain s where s: "s \<in> set F" "s \<noteq> conn_node c nested"
    "case children c s of Some cs \<Rightarrow> set cs \<subseteq> set nested | None \<Rightarrow> s \<in> set nested"
    by (auto simp: absorbed_iff)
  then show ?thesis using that by (cases "children c s") (auto simp: children_node)
qed

lemma removed_test_dominated:
  assumes F: "\<forall>t \<in> set F. operand u c t" and t: "t \<in> set F"
    and removed: "absorbed_by_sibling t F \<or> redundant_constant_atom t F (redundant_comparison c)"
  shows "\<exists>s \<in> set F. test_rank c s < test_rank c t \<and> (agrees c x s \<longrightarrow> agrees c x t)"
  using removed
proof
  assume abs: "absorbed_by_sibling t F"
  then obtain nested where t_eq: "t = conn_node (dual c) nested"
    using operand_dual[OF bspec[OF F t]] by (auto simp: absorbed_by_sibling_def list_ex_iff)
  have nf: "slice (test_uid u) nested"
    using bspec[OF F t] by (simp add: t_eq operand_def nf_conn_node)
  have rank: "test_rank c t = weight t" "weight t = Suc (\<Sum>t\<leftarrow>nested. weight t)"
    by (cases c; simp add: t_eq test_rank_def)+
  show ?thesis
  proof (rule absorbed_conn_node[OF abs[unfolded t_eq]], goal_cases)
    case (1 s)
    have "test_rank c s < weight t"
      using member_le_sum_list_nat[OF 1(3), of weight] test_rank_le[of c s] rank(2) by simp
    with 1 rank(1) show ?thesis by (auto simp: t_eq)
  next
    case (2 cs)
    have "slice (test_uid u) cs" using F 2(1) by (auto simp: operand_def nf_conn_node)
    then have "(\<Sum>t\<leftarrow>cs. weight t) < (\<Sum>t\<leftarrow>nested. weight t)"
      using slice_sum_subset[OF nf _ 2(3)] 2(2) by auto
    then have "weight (conn_node (dual c) cs) < weight t"
      using rank(2) by (cases c) auto
    with test_rank_le[of c "conn_node (dual c) cs"] have "test_rank c (conn_node (dual c) cs) < test_rank c t"
      using rank(1) by simp
    moreover have "agrees c x (conn_node (dual c) cs) \<longrightarrow> agrees c x t" using 2(3) by (auto simp: t_eq)
    ultimately show ?thesis using 2(1) by blast
  qed
next
  assume red: "redundant_constant_atom t F (redundant_comparison c)"
  then obtain p q where "t = TAtom (redundant_comparison c) p" "distinct_constant_patterns p q"
    "TAtom (contradictory_comparison c) q \<in> set F"
  proof -
    from red obtain p where p: "t = TAtom (redundant_comparison c) p" by (cases t) auto
    with red obtain s where s: "s \<in> set F" "case s of
        TAtom c' q \<Rightarrow> c' = not_comparison (redundant_comparison c) \<and> distinct_constant_patterns p q
      | _ \<Rightarrow> False"
      by (auto simp: list_ex_iff)
    then obtain q where "s = TAtom (not_comparison (redundant_comparison c)) q"
      "distinct_constant_patterns p q"
      by (auto split: test.splits)
    with s(1) p that show ?thesis by (cases c) (auto simp: redundant_comparison_def)
  qed
  then show ?thesis
    by (intro bexI[of _ "TAtom (contradictory_comparison c) q"]; cases c)
      (auto simp: test_rank_def redundant_comparison_def agrees_def dest: letter_consistent)
qed

text \<open>
  A connective agrees with its operands, whatever complement it is given, provided that one is
  right on the operands it is asked about.
\<close>

lemma connective_with_correct:
  assumes nf: "\<forall>t \<in> set ts. test_nf u t"
    and neg: "\<And>t. t \<in> dual_operands c ts \<Longrightarrow> agrees c x (neg t) \<longleftrightarrow> \<not> agrees c x t"
  shows "agrees c x (connective_with u neg c ts) \<longleftrightarrow> (\<forall>t \<in> set ts. agrees c x t)"
proof (cases "absorber c \<in> set ts")
  case True
  then have "\<exists>t \<in> set ts. \<not> agrees c x t" by (intro bexI[of _ "absorber c"]) simp_all
  then show ?thesis using True by (simp add: connective_with_def)
next
  case False
  define flat where "flat = sort_dedup (test_uid u) (flat_tests c ts)"
  have set_flat: "set flat = set (flat_tests c ts)" by (simp add: flat_def)
  have ops: "\<forall>t \<in> set flat. operand u c t" using flat_operand nf False by (auto simp: set_flat)
  have all: "(\<forall>t \<in> set flat. agrees c x t) \<longleftrightarrow> (\<forall>t \<in> set ts. agrees c x t)"
    by (simp add: set_flat agrees_flat)
  have close: "agrees c x (case xs of [] \<Rightarrow> identity c | [only] \<Rightarrow> only | _ \<Rightarrow> conn_node c xs)
      \<longleftrightarrow> (\<forall>t \<in> set xs. agrees c x t)" for xs
    by (auto split: list.splits)
  have contra: "\<not> (\<forall>t \<in> set flat. agrees c x t)"
    if "have_complements neg flat c \<or>
        some_pair (\<lambda>l r. distinct_constant_atoms l r (contradictory_comparison c)) flat"
    using that
  proof
    assume "have_complements neg flat c"
    then show ?thesis
      by (rule have_complements_contradict) (rule neg, unfold dual_operands_def set_flat, blast)
  next
    assume "some_pair (\<lambda>l r. distinct_constant_atoms l r (contradictory_comparison c)) flat"
    then show ?thesis using agrees_atoms(1) by (metis some_pairD)
  qed
  have kept: "(\<forall>t \<in> set flat. \<not> (absorbed_by_sibling t flat \<or>
        redundant_constant_atom t flat (redundant_comparison c)) \<longrightarrow> agrees c x t) \<Longrightarrow>
      \<forall>t \<in> set flat. agrees c x t"
    by (intro ballI, rule kept_suffices[of "set flat"
          "\<lambda>t. absorbed_by_sibling t flat \<or> redundant_constant_atom t flat (redundant_comparison c)"
          "test_rank c" "agrees c x"])
      (use removed_test_dominated[OF ops] in auto)
  show ?thesis
    unfolding connective_with_def Let_def flat_def[symmetric] all[symmetric]
    using False contra kept by (auto simp: close)
qed

lemma connective_with_nf:
  assumes "inj (test_uid u)" "\<forall>t \<in> set ts. test_nf u t"
  shows "test_nf u (connective_with u neg c ts)"
proof (cases "absorber c \<in> set ts")
  case False
  define flat where "flat = sort_dedup (test_uid u) (flat_tests c ts)"
  have ops: "\<forall>t \<in> set flat. operand u c t"
    using flat_operand assms(2) False by (auto simp: flat_def)
  have slice: "slice (test_uid u) flat" using assms(1) by (simp add: flat_def slice_sort_dedup)
  have close: "test_nf u (case xs of [] \<Rightarrow> identity c | [only] \<Rightarrow> only | _ \<Rightarrow> conn_node c xs)"
    if "slice (test_uid u) xs" "\<forall>t \<in> set xs. operand u c t" for xs
    using that by (auto simp: nf_conn_node operand_def split: list.splits)
  show ?thesis
    unfolding connective_with_def Let_def flat_def[symmetric]
    using ops slice by (auto intro!: close slice_filter)
qed (simp add: connective_with_def)

lemma test_not_nf: "inj (test_uid u) \<Longrightarrow> test_nf u t \<Longrightarrow> test_nf u (test_not u t)"
  by (induction u t rule: test_not.induct) (auto intro!: connective_with_nf)

lemma dual_operands_nf:
  assumes "\<forall>t \<in> set ts. test_nf u t" "t \<in> dual_operands c ts"
  shows "test_nf u t"
proof -
  from assms(2) obtain s ns where s: "s \<in> set (flat_tests c ts)" "s = conn_node (dual c) ns" "t \<in> set ns"
    by (auto simp: dual_operands_def children_node)
  from s(1) assms(1) have "test_nf u s"
    by (auto simp: in_flat_tests children_node nf_conn_node operand_def)
  with s show ?thesis by (auto simp: nf_conn_node operand_def)
qed

lemma test_not_step:
  assumes "inj (test_uid u)" "test_nf u (conn_node (dual c) ts)"
    and "\<And>t. t \<in> set ts \<Longrightarrow> test_nf u t \<Longrightarrow> agrees c x (test_not u t) \<longleftrightarrow> \<not> agrees c x t"
    and "\<And>t. t \<in> dual_operands c (map (test_not u) ts) \<Longrightarrow> test_nf u t \<Longrightarrow>
           agrees c x (test_not u t) \<longleftrightarrow> \<not> agrees c x t"
  shows "agrees c x (connective_with u (test_not u) c (map (test_not u) ts)) \<longleftrightarrow>
         \<not> agrees c x (conn_node (dual c) ts)"
proof -
  have nf: "\<forall>t \<in> set ts. test_nf u t" using assms(2) by (auto simp: nf_conn_node operand_def)
  then have nf': "\<forall>t \<in> set (map (test_not u) ts). test_nf u t" using assms(1) by (auto intro: test_not_nf)
  show ?thesis
    using nf assms(3) by (subst connective_with_correct[OF nf'])
      (auto intro!: assms(4) dual_operands_nf[OF nf'])
qed

lemma test_not_agrees:
  "inj (test_uid u) \<Longrightarrow> test_nf u t \<Longrightarrow> agrees c x (test_not u t) \<longleftrightarrow> \<not> agrees c x t"
proof (induction u t arbitrary: c rule: test_not.induct)
  case (3 u cmp pat)
  then show ?case by (cases cmp) (auto simp: agrees_def)
next
  case (4 u ts)
  have "agrees ConnOr x (test_not u (TAnd ts)) \<longleftrightarrow> \<not> agrees ConnOr x (TAnd ts)"
    using test_not_step[of u ConnOr ts x] 4 by simp
  then show ?case by (cases c) (auto simp: agrees_def)
next
  case (5 u ts)
  have "agrees ConnAnd x (test_not u (TOr ts)) \<longleftrightarrow> \<not> agrees ConnAnd x (TOr ts)"
    using test_not_step[of u ConnAnd ts x] 5 by simp
  then show ?case by (cases c) (auto simp: agrees_def)
qed (auto simp: agrees_def)

lemma letters_test_not [lang_simps]:
  "inj (test_uid u) \<Longrightarrow> test_nf u t \<Longrightarrow> letters (test_not u t) = - letters t"
  using test_not_agrees[of u t ConnAnd] by (auto simp: agrees_def)

lemma connective_agrees:
  assumes "inj (test_uid u)" "\<forall>t \<in> set ts. test_nf u t"
  shows "agrees c x (connective_with u (test_not u) c ts) \<longleftrightarrow> (\<forall>t \<in> set ts. agrees c x t)"
  by (rule connective_with_correct[OF assms(2)])
    (rule test_not_agrees[OF assms(1) dual_operands_nf[OF assms(2)]])

lemma letters_test_and [lang_simps]:
  "inj (test_uid u) \<Longrightarrow> \<forall>t \<in> set ts. test_nf u t \<Longrightarrow>
   letters (test_and u ts) = \<Inter> (letters ` set ts)"
  using connective_agrees[of u ts ConnAnd] by (auto simp: agrees_def test_and_def)

lemma letters_test_or [lang_simps]:
  "inj (test_uid u) \<Longrightarrow> \<forall>t \<in> set ts. test_nf u t \<Longrightarrow>
   letters (test_or u ts) = \<Union> (letters ` set ts)"
  using connective_agrees[of u ts ConnOr] by (auto simp: agrees_def test_or_def)

lemma test_nf_intros [nf_intros]:
  "inj (test_uid u) \<Longrightarrow> \<forall>t \<in> set ts. test_nf u t \<Longrightarrow> test_nf u (test_and u ts)"
  "inj (test_uid u) \<Longrightarrow> \<forall>t \<in> set ts. test_nf u t \<Longrightarrow> test_nf u (test_or u ts)"
  "inj (test_uid u) \<Longrightarrow> test_nf u t \<Longrightarrow> test_nf u (test_not u t)"
  by (simp_all add: test_and_def test_or_def connective_with_nf test_not_nf)

section \<open>Regexes\<close>

definition regex_test :: "'s test \<Rightarrow> 's regex" where
  "regex_test t = (if t = TFalse then REmpty else RTest t)"

fun test_of :: "'s regex \<Rightarrow> 's test option" where
  "test_of (RTest t) = Some t"
| "test_of _ = None"

fun is_union :: "'s regex \<Rightarrow> bool" where
  "is_union (RUnion _) = True"
| "is_union _ = False"

fun is_intersect :: "'s regex \<Rightarrow> bool" where
  "is_intersect (RIntersect _) = True"
| "is_intersect _ = False"

text \<open>The last stages of both set operators: absorption, then closing the operand list.\<close>

definition drop_absorbed :: "('s regex \<Rightarrow> bool) \<Rightarrow> 's regex list \<Rightarrow> 's regex list" where
  "drop_absorbed compound flat =
     (if list_ex compound flat then filter (\<lambda>r. \<not> regex_absorbed_by_sibling r flat) flat else flat)"

definition close_operands ::
  "'s regex \<Rightarrow> ('s regex list \<Rightarrow> 's regex) \<Rightarrow> 's regex list \<Rightarrow> 's regex" where
  "close_operands unit node flat =
     (case flat of [] \<Rightarrow> unit | [only] \<Rightarrow> only | _ \<Rightarrow> node flat)"

text \<open>The operands of a union once flattened, with all one-event tests joined into one.\<close>

definition union_operands :: "'s uids \<Rightarrow> 's regex list \<Rightarrow> 's regex list" where
  "union_operands u rs =
     (let flat = concat (map (\<lambda>r. case r of
            REmpty \<Rightarrow> [] | RUnion nested \<Rightarrow> nested | _ \<Rightarrow> [r]) rs);
          tests = List.map_filter test_of flat;
          others = filter (\<lambda>r. test_of r = None) flat in
      if tests = [] then others
      else let r = regex_test (test_or u tests) in if r \<noteq> REmpty then others @ [r] else others)"

definition regex_union :: "'s uids \<Rightarrow> 's regex list \<Rightarrow> 's regex" where
  "regex_union u rs =
     (if RAll \<in> set rs then RAll
      else
        let flat = sort_dedup (regex_uid u) (union_operands u rs) in
        if some_pair complementary_regex flat then RAll
        else
          let flat' = (if REpsilon \<in> set flat \<and> list_ex (\<lambda>r. r \<noteq> REpsilon \<and> nullable r) flat
                       then filter (\<lambda>r. r \<noteq> REpsilon) flat else flat) in
          close_operands REmpty RUnion (drop_absorbed is_intersect flat'))"

text \<open>
  The operands of an intersection once flattened, or \<open>None\<close> when the conjunction of its
  one-event tests is false.
\<close>

definition intersect_operands :: "'s uids \<Rightarrow> 's regex list \<Rightarrow> 's regex list option" where
  "intersect_operands u rs =
     (let flat = concat (map (\<lambda>r. case r of
            RAll \<Rightarrow> [] | RIntersect nested \<Rightarrow> nested | _ \<Rightarrow> [r]) rs);
          tests = List.map_filter test_of flat;
          others = filter (\<lambda>r. test_of r = None) flat in
      if tests = [] then Some others
      else let r = regex_test (test_and u tests) in
           if r = REmpty then None else Some (others @ [r]))"

definition regex_intersect :: "'s uids \<Rightarrow> 's regex list \<Rightarrow> 's regex" where
  "regex_intersect u rs =
     (if REmpty \<in> set rs then REmpty
      else case intersect_operands u rs of
        None \<Rightarrow> REmpty
      | Some operands \<Rightarrow>
          let flat = sort_dedup (regex_uid u) operands in
          if some_pair complementary_regex flat then REmpty
          else if REpsilon \<in> set flat then (if list_all nullable flat then REpsilon else REmpty)
          else
            let flat' = (if list_ex (\<lambda>r. \<not> is_epsilon_complement r \<and> \<not> nullable r) flat
                         then filter (\<lambda>r. \<not> is_epsilon_complement r) flat else flat) in
            close_operands RAll RIntersect (drop_absorbed is_union flat'))"

definition regex_concat :: "'s regex list \<Rightarrow> 's regex" where
  "regex_concat rs =
     (if REmpty \<in> set rs then REmpty
      else close_operands REpsilon RConcat (concat (map (\<lambda>r. case r of
          REpsilon \<Rightarrow> [] | RConcat nested \<Rightarrow> nested | _ \<Rightarrow> [r]) rs)))"

fun regex_star :: "'s regex \<Rightarrow> 's regex" where
  "regex_star REmpty = REpsilon"
| "regex_star REpsilon = REpsilon"
| "regex_star RAll = RAll"
| "regex_star (RTest TTrue) = RAll"
| "regex_star (RStar r) = RStar r"
| "regex_star r = RStar r"

fun regex_not :: "'s regex \<Rightarrow> 's regex" where
  "regex_not REmpty = RAll"
| "regex_not RAll = REmpty"
| "regex_not (RNot r) = r"
| "regex_not r = RNot r"

section \<open>Normal forms of regexes\<close>

fun regex_nf :: "'s uids \<Rightarrow> 's regex \<Rightarrow> bool" where
  "regex_nf u (RTest t) = (test_nf u t \<and> t \<noteq> TFalse)"
| "regex_nf u (RUnion rs) = (2 \<le> length rs \<and> slice (regex_uid u) rs \<and>
     (\<forall>r \<in> set rs. regex_nf u r \<and> r \<noteq> REmpty \<and> r \<noteq> RAll \<and> \<not> is_union r))"
| "regex_nf u (RIntersect rs) = (2 \<le> length rs \<and> slice (regex_uid u) rs \<and>
     (\<forall>r \<in> set rs. regex_nf u r \<and> r \<noteq> REmpty \<and> r \<noteq> RAll \<and> \<not> is_intersect r))"
| "regex_nf u (RConcat rs) = (2 \<le> length rs \<and>
     (\<forall>r \<in> set rs. regex_nf u r \<and> r \<noteq> REmpty \<and> r \<noteq> REpsilon \<and> (\<forall>ns. r \<noteq> RConcat ns)))"
| "regex_nf u (RStar r) = (regex_nf u r \<and> r \<noteq> REmpty \<and> r \<noteq> REpsilon \<and> r \<noteq> RAll \<and>
     r \<noteq> RTest TTrue \<and> (\<forall>s. r \<noteq> RStar s))"
| "regex_nf u (RNot r) = (regex_nf u r \<and> r \<noteq> REmpty \<and> r \<noteq> RAll \<and> (\<forall>s. r \<noteq> RNot s))"
| "regex_nf u _ = True"

text \<open>
  \<open>fits b w r\<close> says that \<open>r\<close> has on the word \<open>w\<close> the value under which an intersection
  (\<open>b\<close>) or a union (\<open>\<not> b\<close>) continues to its next operand.
\<close>

definition fits :: "bool \<Rightarrow> 's letter list \<Rightarrow> 's regex \<Rightarrow> bool" where
  "fits b w r \<longleftrightarrow> (w \<in> lang r) = b"

fun set_node :: "bool \<Rightarrow> 's regex list \<Rightarrow> 's regex" where
  "set_node True rs = RIntersect rs"
| "set_node False rs = RUnion rs"

definition set_operand :: "'s uids \<Rightarrow> bool \<Rightarrow> 's regex \<Rightarrow> bool" where
  "set_operand u b r \<longleftrightarrow> regex_nf u r \<and> r \<noteq> REmpty \<and> r \<noteq> RAll \<and> (\<forall>rs. r \<noteq> set_node b rs)"

lemma fits_set_node [simp]:
  "fits b w (set_node b rs) \<longleftrightarrow> (\<forall>r \<in> set rs. fits b w r)"
  "fits b w (set_node (\<not> b) rs) \<longleftrightarrow> (\<exists>r \<in> set rs. fits b w r)"
  by (cases b; auto simp: fits_def)+

lemma nf_set_node:
  "regex_nf u (set_node b rs) \<longleftrightarrow>
     2 \<le> length rs \<and> slice (regex_uid u) rs \<and> (\<forall>r \<in> set rs. set_operand u b r)"
proof (cases b)
  case True
  have "is_intersect r \<longleftrightarrow> (\<exists>rs. r = RIntersect rs)" for r :: "'a regex" by (cases r) auto
  then show ?thesis using True by (auto simp: set_operand_def)
next
  case False
  have "is_union r \<longleftrightarrow> (\<exists>rs. r = RUnion rs)" for r :: "'a regex" by (cases r) auto
  then show ?thesis using False by (auto simp: set_operand_def)
qed

fun rweight :: "'s regex \<Rightarrow> nat" where
  "rweight (RUnion rs) = Suc (\<Sum>r\<leftarrow>rs. rweight r)"
| "rweight (RIntersect rs) = Suc (\<Sum>r\<leftarrow>rs. rweight r)"
| "rweight _ = 1"

lemma rweight_pos [simp]: "0 < rweight r"
  by (cases r) auto

lemma rweight_set_node: "rweight (set_node b rs) = Suc (\<Sum>r\<leftarrow>rs. rweight r)"
  by (cases b) auto

lemma regex_absorbed_set_node:
  assumes "regex_absorbed_by_sibling (set_node b nested) F"
  obtains s where "s \<in> set F" "s \<in> set nested"
    | cs where "set_node b cs \<in> set F" "cs \<noteq> nested" "set cs \<subseteq> set nested"
proof -
  from assms obtain s where s: "s \<in> set F" "s \<noteq> set_node b nested"
    "case (set_node b nested, s) of
          (RIntersect nested, RIntersect cs) \<Rightarrow> list_all (\<lambda>c. c \<in> set nested) cs
        | (RUnion nested, RUnion cs) \<Rightarrow> list_all (\<lambda>c. c \<in> set nested) cs
        | (RIntersect nested, _) \<Rightarrow> s \<in> set nested
        | (RUnion nested, _) \<Rightarrow> s \<in> set nested
        | _ \<Rightarrow> False"
    by (auto simp: regex_absorbed_by_sibling_def list_ex_iff)
  show ?thesis
  proof (cases "\<exists>cs. s = set_node b cs")
    case True
    then obtain cs where "s = set_node b cs" by blast
    with s that(2)[of cs] show ?thesis by (cases b) (auto simp: list_all_iff)
  next
    case False
    with s(3) have "s \<in> set nested" by (cases b; cases s) auto
    with s(1) that(1) show ?thesis by blast
  qed
qed

lemma absorbed_regex_dominated:
  assumes F: "\<forall>r \<in> set F. set_operand u b r" and r: "r \<in> set F"
    and abs: "regex_absorbed_by_sibling r F"
  shows "\<exists>s \<in> set F. rweight s < rweight r \<and> (fits b w s \<longrightarrow> fits b w r)"
proof -
  have "(\<exists>rs. r = set_node True rs) \<or> (\<exists>rs. r = set_node False rs)"
    using abs by (cases r) (auto simp: regex_absorbed_by_sibling_def list_ex_iff)
  moreover have "\<forall>rs. r \<noteq> set_node b rs" using F r by (auto simp: set_operand_def)
  ultimately obtain nested where r_eq: "r = set_node (\<not> b) nested" by (cases b) auto
  have nf: "slice (regex_uid u) nested"
    using bspec[OF F r] by (simp add: r_eq set_operand_def nf_set_node)
  show ?thesis
  proof (rule regex_absorbed_set_node[OF abs[unfolded r_eq]], goal_cases)
    case (1 s)
    then have "rweight s < rweight r"
      using member_le_sum_list_nat[OF 1(2), of rweight] by (simp add: r_eq rweight_set_node)
    with 1 show ?thesis by (auto simp: r_eq)
  next
    case (2 cs)
    have "slice (regex_uid u) cs" using F 2(1) by (auto simp: set_operand_def nf_set_node)
    then have "rweight (set_node (\<not> b) cs) < rweight r"
      using slice_sum_subset[OF nf _ 2(3), of rweight] 2(2) by (simp add: r_eq rweight_set_node)
    moreover have "fits b w (set_node (\<not> b) cs) \<longrightarrow> fits b w r" using 2(3) by (auto simp: r_eq)
    ultimately show ?thesis using 2(1) by blast
  qed
qed

lemma drop_absorbed_fits:
  assumes "\<forall>r \<in> set F. set_operand u b r"
  shows "(\<forall>r \<in> set (drop_absorbed P F). fits b w r) \<longleftrightarrow> (\<forall>r \<in> set F. fits b w r)"
proof
  assume kept: "\<forall>r \<in> set (drop_absorbed P F). fits b w r"
  show "\<forall>r \<in> set F. fits b w r"
  proof (cases "list_ex P F")
    case True
    show ?thesis
      by (intro ballI, rule kept_suffices[of "set F" "\<lambda>r. regex_absorbed_by_sibling r F" rweight])
        (use absorbed_regex_dominated[OF assms] kept True in \<open>auto simp: drop_absorbed_def\<close>)
  qed (use kept in \<open>simp add: drop_absorbed_def\<close>)
qed (auto simp: drop_absorbed_def split: if_splits)

lemma drop_absorbed_slice: "slice uid F \<Longrightarrow> slice uid (drop_absorbed P F)"
  by (simp add: drop_absorbed_def slice_filter)

lemma drop_absorbed_subset: "set (drop_absorbed P F) \<subseteq> set F"
  by (auto simp: drop_absorbed_def split: if_splits)

lemma fits_close:
  assumes "fits b w unit"
  shows "fits b w (close_operands unit (set_node b) F) \<longleftrightarrow> (\<forall>r \<in> set F. fits b w r)"
  using assms by (auto simp: close_operands_def split: list.splits)

lemma close_nf:
  assumes "regex_nf u unit" "slice (regex_uid u) F" "\<forall>r \<in> set F. set_operand u b r"
  shows "regex_nf u (close_operands unit (set_node b) F)"
  using assms by (auto simp: close_operands_def nf_set_node set_operand_def split: list.splits)

lemma set_node_eta: "RIntersect = set_node True" "RUnion = set_node False"
  by auto

lemma lang_regex_test: "lang (regex_test t) = {[x] |x. x \<in> letters t}"
  by (auto simp: regex_test_def)

lemma complementary_regex_fits:
  "complementary_regex l r \<Longrightarrow> fits b w l \<Longrightarrow> \<not> fits b w r"
  by (auto simp: complementary_regex_def fits_def)

lemma test_of_Some: "test_of r = Some t \<longleftrightarrow> r = RTest t"
  by (cases r) auto

lemma set_operand_tests: "t \<in> set (List.map_filter test_of rs) \<longleftrightarrow> RTest t \<in> set rs"
  by (force simp: List.map_filter_def test_of_Some)

text \<open>Flattening keeps the operands of either set operator.\<close>

definition flat_set :: "bool \<Rightarrow> 's regex list \<Rightarrow> 's regex list" where
  "flat_set b rs = concat (map (\<lambda>r. case r of
     REmpty \<Rightarrow> if b then [r] else [] | RAll \<Rightarrow> if b then [] else [r]
   | RIntersect ns \<Rightarrow> if b then ns else [r] | RUnion ns \<Rightarrow> if b then [r] else ns | _ \<Rightarrow> [r]) rs)"

lemma flat_set_eqs:
  "concat (map (\<lambda>r. case r of REmpty \<Rightarrow> [] | RUnion nested \<Rightarrow> nested | _ \<Rightarrow> [r]) rs) = flat_set False rs"
  "concat (map (\<lambda>r. case r of RAll \<Rightarrow> [] | RIntersect nested \<Rightarrow> nested | _ \<Rightarrow> [r]) rs) = flat_set True rs"
  unfolding flat_set_def by (intro arg_cong[of _ _ concat] map_cong; simp split: regex.splits)+

lemma flat_set_one:
  assumes "regex_nf u r" "r \<noteq> (if b then REmpty else RAll)"
  shows "(\<forall>s \<in> set (flat_set b [r]). set_operand u b s) \<and>
    ((\<forall>s \<in> set (flat_set b [r]). fits b w s) \<longleftrightarrow> fits b w r)"
proof (cases "\<exists>ns. r = set_node b ns")
  case True
  then obtain ns where r: "r = set_node b ns" by blast
  then have "flat_set b [r] = ns" by (cases b) (auto simp: flat_set_def)
  then show ?thesis using assms(1) by (simp add: r nf_set_node)
next
  case False
  show ?thesis
  proof (cases "r = (if b then RAll else REmpty)")
    case True
    then show ?thesis by (cases b) (auto simp: flat_set_def fits_def)
  next
    case other: False
    have "flat_set b [r] = [r]" using False other by (cases b; cases r) (auto simp: flat_set_def)
    moreover have "set_operand u b r"
      using assms other False by (auto simp: set_operand_def split: if_splits)
    ultimately show ?thesis by simp
  qed
qed

lemma flat_set_fits:
  assumes "\<forall>r \<in> set rs. regex_nf u r" "(if b then REmpty else RAll) \<notin> set rs"
  shows "(\<forall>s \<in> set (flat_set b rs). set_operand u b s) \<and>
    ((\<forall>s \<in> set (flat_set b rs). fits b w s) \<longleftrightarrow> (\<forall>r \<in> set rs. fits b w r))"
  using assms
proof (induction rs)
  case (Cons r rs)
  have "flat_set b (r # rs) = flat_set b [r] @ flat_set b rs" by (simp add: flat_set_def)
  moreover have "r \<noteq> (if b then REmpty else RAll)" using Cons.prems(2) by auto
  note flat_set_one[OF _ this, of u w]
  ultimately show ?case using Cons by (simp add: ball_Un)
qed (simp add: flat_set_def)

lemma union_operands_fits:
  assumes "inj (test_uid u)" "\<forall>r \<in> set rs. regex_nf u r" "RAll \<notin> set rs"
  shows "(\<forall>s \<in> set (union_operands u rs). set_operand u False s) \<and>
    ((\<forall>s \<in> set (union_operands u rs). fits False w s) \<longleftrightarrow> (\<forall>r \<in> set rs. fits False w r))"
proof -
  define flat where "flat = flat_set False rs"
  define tests where "tests = List.map_filter test_of flat"
  have flat: "\<forall>s \<in> set flat. set_operand u False s"
    "(\<forall>s \<in> set flat. fits False w s) \<longleftrightarrow> (\<forall>r \<in> set rs. fits False w r)"
    unfolding flat_def using flat_set_fits[of rs u False w] assms by auto
  have tests: "set tests = {t. RTest t \<in> set flat}"
    by (auto simp: tests_def set_operand_tests)
  have nf: "\<forall>t \<in> set tests. test_nf u t" using flat(1) by (auto simp: tests set_operand_def)
  let ?t = "test_or u tests"
  have merged: "fits False w (regex_test ?t) \<longleftrightarrow> (\<forall>t \<in> set tests. fits False w (RTest t))"
    by (auto simp: fits_def lang_regex_test letters_test_or[OF assms(1) nf])
  have split: "(\<forall>s \<in> set flat. fits False w s) \<longleftrightarrow>
      (\<forall>s \<in> set (filter (\<lambda>r. test_of r = None) flat). fits False w s) \<and>
      (\<forall>t \<in> set tests. fits False w (RTest t))"
    by (auto simp: tests) (metis not_Some_eq test_of_Some)
  have op: "regex_test ?t \<noteq> REmpty \<Longrightarrow> set_operand u False (regex_test ?t)"
    using test_nf_intros(2)[OF assms(1) nf] by (auto simp: regex_test_def set_operand_def)
  have empty: "regex_test ?t = REmpty \<Longrightarrow> fits False w (regex_test ?t)" by (simp add: fits_def)
  have "union_operands u rs = (if tests = [] then filter (\<lambda>r. test_of r = None) flat
      else if regex_test ?t \<noteq> REmpty then filter (\<lambda>r. test_of r = None) flat @ [regex_test ?t]
      else filter (\<lambda>r. test_of r = None) flat)"
    unfolding union_operands_def Let_def flat_set_eqs flat_def[symmetric] tests_def[symmetric] by simp
  then show ?thesis
    using flat split merged op empty by (auto split: if_splits)
qed

lemma intersect_operands_fits:
  assumes "inj (test_uid u)" "\<forall>r \<in> set rs. regex_nf u r" "REmpty \<notin> set rs"
  shows "case intersect_operands u rs of
      None \<Rightarrow> \<not> (\<forall>r \<in> set rs. fits True w r)
    | Some ops \<Rightarrow> (\<forall>s \<in> set ops. set_operand u True s) \<and>
        ((\<forall>s \<in> set ops. fits True w s) \<longleftrightarrow> (\<forall>r \<in> set rs. fits True w r))"
proof -
  define flat where "flat = flat_set True rs"
  define tests where "tests = List.map_filter test_of flat"
  have flat: "\<forall>s \<in> set flat. set_operand u True s"
    "(\<forall>s \<in> set flat. fits True w s) \<longleftrightarrow> (\<forall>r \<in> set rs. fits True w r)"
    unfolding flat_def using flat_set_fits[of rs u True w] assms by auto
  have tests: "set tests = {t. RTest t \<in> set flat}"
    by (auto simp: tests_def set_operand_tests)
  have nf: "\<forall>t \<in> set tests. test_nf u t" using flat(1) by (auto simp: tests set_operand_def)
  let ?t = "test_and u tests"
  have merged: "fits True w (regex_test ?t) \<longleftrightarrow> (\<forall>t \<in> set tests. fits True w (RTest t))"
    if "tests \<noteq> []"
  proof -
    have "hd tests \<in> set tests" using that by simp
    then show ?thesis by (auto simp: fits_def lang_regex_test letters_test_and[OF assms(1) nf])
  qed
  have split: "(\<forall>s \<in> set flat. fits True w s) \<longleftrightarrow>
      (\<forall>s \<in> set (filter (\<lambda>r. test_of r = None) flat). fits True w s) \<and>
      (\<forall>t \<in> set tests. fits True w (RTest t))"
    by (auto simp: tests) (metis not_Some_eq test_of_Some)
  have op: "regex_test ?t \<noteq> REmpty \<Longrightarrow> set_operand u True (regex_test ?t)"
    using test_nf_intros(1)[OF assms(1) nf] by (auto simp: regex_test_def set_operand_def)
  have empty: "regex_test ?t = REmpty \<Longrightarrow> \<not> fits True w (regex_test ?t)" by (simp add: fits_def)
  have "intersect_operands u rs = (if tests = [] then Some (filter (\<lambda>r. test_of r = None) flat)
      else if regex_test ?t = REmpty then None
      else Some (filter (\<lambda>r. test_of r = None) flat @ [regex_test ?t]))"
    unfolding intersect_operands_def Let_def flat_set_eqs flat_def[symmetric] tests_def[symmetric] by simp
  then show ?thesis
    using flat split merged op empty by (auto split: if_splits)
qed

section \<open>What the regex constructors denote\<close>

text \<open>The hypothesis on identifiers: hash-consing gives distinct nodes distinct identifiers.\<close>

definition hash_consed :: "'s uids \<Rightarrow> bool" where
  "hash_consed u \<longleftrightarrow> inj (test_uid u) \<and> inj (regex_uid u) \<and> inj (transition_uid u)"

lemma hash_consedD [dest]:
  "hash_consed u \<Longrightarrow> inj (test_uid u)" "hash_consed u \<Longrightarrow> inj (regex_uid u)"
  "hash_consed u \<Longrightarrow> inj (transition_uid u)"
  by (simp_all add: hash_consed_def)

lemma fits_union_result:
  assumes u: "hash_consed u" and nf: "\<forall>r \<in> set rs. regex_nf u r"
  shows "fits False w (regex_union u rs) \<longleftrightarrow> (\<forall>r \<in> set rs. fits False w r)"
    and "regex_nf u (regex_union u rs)"
proof -
  define flat where "flat = sort_dedup (regex_uid u) (union_operands u rs)"
  define flat' where "flat' = (if REpsilon \<in> set flat \<and> list_ex (\<lambda>r. r \<noteq> REpsilon \<and> nullable r) flat
                       then filter (\<lambda>r. r \<noteq> REpsilon) flat else flat)"
  have eq: "regex_union u rs = (if RAll \<in> set rs then RAll
      else if some_pair complementary_regex flat then RAll
      else close_operands REmpty (set_node False) (drop_absorbed is_intersect flat'))"
    by (simp add: regex_union_def Let_def flat_def flat'_def set_node_eta)
  have slice: "slice (regex_uid u) flat'"
    using u by (auto simp: flat'_def flat_def intro!: slice_filter slice_sort_dedup)
  show "fits False w (regex_union u rs) \<longleftrightarrow> (\<forall>r \<in> set rs. fits False w r)"
  proof (cases "RAll \<in> set rs")
    case True
    moreover have "\<not> fits False w RAll" by (simp add: fits_def)
    ultimately show ?thesis by (auto simp: eq)
  next
    case False
    note ops = union_operands_fits[OF hash_consedD(1)[OF u] nf False, of w]
    have all: "(\<forall>r \<in> set flat. fits False w r) \<longleftrightarrow> (\<forall>r \<in> set rs. fits False w r)"
      using ops by (simp add: flat_def)
    have eps: "(\<forall>r \<in> set flat'. fits False w r) \<longleftrightarrow> (\<forall>r \<in> set flat. fits False w r)"
    proof (cases "REpsilon \<in> set flat \<and> list_ex (\<lambda>r. r \<noteq> REpsilon \<and> nullable r) flat")
      case True
      then obtain r where r: "r \<in> set flat" "r \<noteq> REpsilon" "[] \<in> lang r"
        by (auto simp: list_ex_iff nullable_iff)
      have "fits False w r \<Longrightarrow> fits False w REpsilon" using r(3) by (cases w) (auto simp: fits_def)
      with r True show ?thesis by (auto simp: flat'_def)
    qed (auto simp: flat'_def)
    have op: "\<forall>r \<in> set flat'. set_operand u False r" using ops by (auto simp: flat'_def flat_def)
    have compl: "\<not> (\<forall>r \<in> set flat. fits False w r)" if "some_pair complementary_regex flat"
      using some_pairD[OF that] complementary_regex_fits by blast
    show ?thesis
    proof (cases "some_pair complementary_regex flat")
      case True
      with compl all show ?thesis by (auto simp: eq False fits_def)
    next
      case nc: False
      have "fits False w REmpty" by (simp add: fits_def)
      from fits_close[OF this] show ?thesis
        by (simp add: eq False nc drop_absorbed_fits[OF op] eps all)
    qed
  qed
  show "regex_nf u (regex_union u rs)"
  proof (cases "RAll \<in> set rs")
    case False
    have "\<forall>r \<in> set flat'. set_operand u False r"
      using union_operands_fits[OF hash_consedD(1)[OF u] nf False] by (auto simp: flat'_def flat_def)
    then have "\<forall>r \<in> set (drop_absorbed is_intersect flat'). set_operand u False r"
      using drop_absorbed_subset by blast
    then show ?thesis using drop_absorbed_slice[OF slice] by (simp add: eq close_nf)
  qed (simp add: eq)
qed

lemma fits_intersect_result:
  assumes u: "hash_consed u" and nf: "\<forall>r \<in> set rs. regex_nf u r"
  shows "fits True w (regex_intersect u rs) \<longleftrightarrow> (\<forall>r \<in> set rs. fits True w r)"
    and "regex_nf u (regex_intersect u rs)"
proof -
  have both: "(fits True w (regex_intersect u rs) \<longleftrightarrow> (\<forall>r \<in> set rs. fits True w r)) \<and>
      regex_nf u (regex_intersect u rs)"
  proof (cases "REmpty \<in> set rs")
    case True
    moreover have "\<not> fits True w REmpty" by (simp add: fits_def)
    ultimately show ?thesis by (auto simp: regex_intersect_def)
  next
    case False
    note ops = intersect_operands_fits[OF hash_consedD(1)[OF u] nf False, of w]
    show ?thesis
    proof (cases "intersect_operands u rs")
      case None
      with ops False show ?thesis by (simp add: regex_intersect_def fits_def)
    next
      case (Some operands)
      define flat where "flat = sort_dedup (regex_uid u) operands"
      define flat' where "flat' = (if list_ex (\<lambda>r. \<not> is_epsilon_complement r \<and> \<not> nullable r) flat
                         then filter (\<lambda>r. \<not> is_epsilon_complement r) flat else flat)"
      have eq: "regex_intersect u rs = (if some_pair complementary_regex flat then REmpty
          else if REpsilon \<in> set flat then (if list_all nullable flat then REpsilon else REmpty)
          else close_operands RAll (set_node True) (drop_absorbed is_union flat'))"
        using False by (simp add: regex_intersect_def Let_def Some flat_def flat'_def set_node_eta)
      have all: "(\<forall>r \<in> set flat. fits True w r) \<longleftrightarrow> (\<forall>r \<in> set rs. fits True w r)"
        using ops Some by (simp add: flat_def)
      have slice: "slice (regex_uid u) flat'"
        using u by (auto simp: flat'_def flat_def intro!: slice_filter slice_sort_dedup)
      have op: "\<forall>r \<in> set flat'. set_operand u True r"
        using ops Some by (auto simp: flat'_def flat_def)
      have kept: "\<forall>r \<in> set (drop_absorbed is_union flat'). set_operand u True r"
        using op drop_absorbed_subset by blast
      have eps: "(\<forall>r \<in> set flat'. fits True w r) \<longleftrightarrow> (\<forall>r \<in> set flat. fits True w r)"
        by (cases w) (auto simp: flat'_def fits_def list_ex_iff nullable_iff is_epsilon_complement_def)
      consider (compl) "some_pair complementary_regex flat"
        | (eps) "\<not> some_pair complementary_regex flat" "REpsilon \<in> set flat"
        | (rest) "\<not> some_pair complementary_regex flat" "REpsilon \<notin> set flat" by blast
      then show ?thesis
      proof cases
        case compl
        then have "\<not> (\<forall>r \<in> set flat. fits True w r)"
          using some_pairD complementary_regex_fits by blast
        with all compl show ?thesis by (auto simp: eq fits_def)
      next
        case eps
        then have "(\<forall>r \<in> set flat. fits True w r) \<longleftrightarrow> w = [] \<and> list_all nullable flat"
          by (cases w) (auto simp: fits_def list_all_iff nullable_iff intro!: bexI[of _ REpsilon])
        with all eps show ?thesis by (auto simp: eq fits_def)
      next
        case rest
        have "fits True w RAll" by (simp add: fits_def)
        from fits_close[OF this] show ?thesis
          using rest close_nf[OF _ drop_absorbed_slice[OF slice] kept]
          by (simp add: eq drop_absorbed_fits[OF op] eps all)
      qed
    qed
  qed
  show "fits True w (regex_intersect u rs) \<longleftrightarrow> (\<forall>r \<in> set rs. fits True w r)" using both by blast
  show "regex_nf u (regex_intersect u rs)" using both by blast
qed

lemma lang_regex_union [lang_simps]:
  "hash_consed u \<Longrightarrow> \<forall>r \<in> set rs. regex_nf u r \<Longrightarrow>
   lang (regex_union u rs) = \<Union> (lang ` set rs)"
  using fits_union_result(1)[of u rs] by (auto simp: fits_def)

lemma lang_regex_intersect [lang_simps]:
  "hash_consed u \<Longrightarrow> \<forall>r \<in> set rs. regex_nf u r \<Longrightarrow>
   lang (regex_intersect u rs) = \<Inter> (lang ` set rs)"
  using fits_intersect_result(1)[of u rs] by (auto simp: fits_def)

lemma seqs_list_empty: "{} \<in> set As \<Longrightarrow> seqs_list As = {}"
  by (induction As) auto

lemma lang_regex_concat [lang_simps]: "lang (regex_concat rs) = seqs_list (map lang rs)"
proof (cases "REmpty \<in> set rs")
  case True
  then have "{} \<in> set (map lang rs)" by force
  with True show ?thesis by (simp add: regex_concat_def seqs_list_empty)
next
  case False
  define flat where "flat = concat (map (\<lambda>r. case r of
          REpsilon \<Rightarrow> [] | RConcat nested \<Rightarrow> nested | _ \<Rightarrow> [r]) rs)"
  have "seqs_list (map lang flat) = seqs_list (map lang rs)"
    unfolding flat_def by (induction rs) (auto simp: seqs_list_append split: regex.splits)
  moreover have "lang (close_operands REpsilon RConcat flat) = seqs_list (map lang flat)"
    by (auto simp: close_operands_def split: list.splits)
  ultimately show ?thesis using False by (simp add: regex_concat_def flat_def)
qed

lemma repeated_all_letters: "repeated {[x] |x. True} = UNIV"
  using repeated_letters[of _ UNIV] by auto

lemma lang_regex_star [lang_simps]: "lang (regex_star r) = repeated (lang r)"
  by (cases r rule: regex_star.cases)
    (simp_all only: regex_star.simps lang.simps repeated_empty repeated_unit repeated_idem
      repeated_UNIV letters_simps UNIV_I repeated_all_letters)

lemma lang_regex_not [lang_simps]: "lang (regex_not r) = - lang r"
  by (cases r rule: regex_not.cases) auto

lemma regex_concat_nf: "\<forall>r \<in> set rs. regex_nf u r \<Longrightarrow> regex_nf u (regex_concat rs)"
proof (cases "REmpty \<in> set rs")
  case False
  assume nf: "\<forall>r \<in> set rs. regex_nf u r"
  define flat where "flat = concat (map (\<lambda>r. case r of
          REpsilon \<Rightarrow> [] | RConcat nested \<Rightarrow> nested | _ \<Rightarrow> [r]) rs)"
  have "\<forall>r \<in> set flat. regex_nf u r \<and> r \<noteq> REmpty \<and> r \<noteq> REpsilon \<and> (\<forall>ns. r \<noteq> RConcat ns)"
  proof
    fix x assume "x \<in> set flat"
    then obtain r where r: "r \<in> set rs"
      "x \<in> set (case r of REpsilon \<Rightarrow> [] | RConcat nested \<Rightarrow> nested | _ \<Rightarrow> [r])"
      by (auto simp: flat_def)
    then have "regex_nf u r" "r \<noteq> REmpty" using nf False by auto
    then show "regex_nf u x \<and> x \<noteq> REmpty \<and> x \<noteq> REpsilon \<and> (\<forall>ns. x \<noteq> RConcat ns)"
      using r(2) by (cases r) auto
  qed
  then have "regex_nf u (close_operands REpsilon RConcat flat)"
    by (auto simp: close_operands_def split: list.splits)
  with False show ?thesis by (simp add: regex_concat_def flat_def)
qed (simp add: regex_concat_def)

lemma regex_star_nf: "regex_nf u r \<Longrightarrow> regex_nf u (regex_star r)"
  by (cases r rule: regex_star.cases) auto

lemma regex_not_nf: "regex_nf u r \<Longrightarrow> regex_nf u (regex_not r)"
  by (cases r rule: regex_not.cases) auto

lemma regex_nf_intros [nf_intros]:
  "hash_consed u \<Longrightarrow> \<forall>r \<in> set rs. regex_nf u r \<Longrightarrow> regex_nf u (regex_union u rs)"
  "hash_consed u \<Longrightarrow> \<forall>r \<in> set rs. regex_nf u r \<Longrightarrow> regex_nf u (regex_intersect u rs)"
  "\<forall>r \<in> set rs. regex_nf u r \<Longrightarrow> regex_nf u (regex_concat rs)"
  "regex_nf u r \<Longrightarrow> regex_nf u (regex_star r)"
  "regex_nf u r \<Longrightarrow> regex_nf u (regex_not r)"
  "test_nf u t \<Longrightarrow> regex_nf u (regex_test t)"
  by (simp_all add: fits_union_result fits_intersect_result regex_concat_nf regex_test_def
      regex_star_nf regex_not_nf)

text \<open>
  The hypothesis can hold: over countably many symbols, numbering the nodes is one way to give
  every node an identifier of its own.
\<close>

instance resolved_action :: (countable) countable by countable_datatype
instance action :: countable by countable_datatype
instance component_pattern :: (countable, countable) countable by countable_datatype
instance compiled_atom :: (countable) countable by countable_datatype
instance comparison :: countable by countable_datatype
instance test :: (countable) countable by countable_datatype
instance regex :: (countable) countable by countable_datatype
instance transition :: (countable) countable by countable_datatype

definition numbered :: "'s::countable uids" where
  "numbered = \<lparr>test_uid = to_nat, regex_uid = to_nat, transition_uid = to_nat\<rparr>"

lemma hash_consed_numbered [simp]: "hash_consed numbered"
  by (simp add: hash_consed_def numbered_def)

section \<open>Construction order does not matter\<close>

text \<open>
  The constructors are associative, commutative and idempotent on handles: the node depends on
  the set of operands only.
\<close>

lemma set_flat_tests: "set xs = set ys \<Longrightarrow> set (flat_tests c xs) = set (flat_tests c ys)"
  by (simp add: flat_tests_def)

lemma connective_order:
  assumes "inj (test_uid u)" "set xs = set ys"
  shows "connective_with u neg c xs = connective_with u neg c ys"
  using sort_dedup_cong[OF assms(1) set_flat_tests[OF assms(2)]] assms(2)
  by (simp add: connective_with_def)

lemma test_order:
  assumes "inj (test_uid u)" "set xs = set ys"
  shows "test_and u xs = test_and u ys" "test_or u xs = test_or u ys"
  using connective_order[OF assms] by (simp_all add: test_and_def test_or_def)

lemma union_operands_order:
  assumes "inj (test_uid u)" "set xs = set ys"
  shows "set (union_operands u xs) = set (union_operands u ys)"
proof -
  let ?flat = "\<lambda>rs. concat (map (\<lambda>r. case r of REmpty \<Rightarrow> [] | RUnion nested \<Rightarrow> nested | _ \<Rightarrow> [r]) rs)"
  have flat: "set (?flat xs) = set (?flat ys)" using assms(2) by simp
  note tests = set_map_filter_cong[OF flat, of test_of]
  show ?thesis
    using test_order(2)[OF assms(1) tests] flat tests
    by (simp add: union_operands_def Let_def flip: set_empty) 
qed

lemma union_order:
  assumes "hash_consed u" "set xs = set ys"
  shows "regex_union u xs = regex_union u ys"
proof -
  have "sort_dedup (regex_uid u) (union_operands u xs) = sort_dedup (regex_uid u) (union_operands u ys)"
    using sort_dedup_cong[OF hash_consedD(2)[OF assms(1)] union_operands_order[OF hash_consedD(1)[OF assms(1)] assms(2)]] .
  with assms(2) show ?thesis by (simp add: regex_union_def)
qed

lemma intersect_operands_order:
  assumes "inj (test_uid u)" "set xs = set ys"
  shows "map_option set (intersect_operands u xs) = map_option set (intersect_operands u ys)"
proof -
  let ?flat = "\<lambda>rs. concat (map (\<lambda>r. case r of RAll \<Rightarrow> [] | RIntersect nested \<Rightarrow> nested | _ \<Rightarrow> [r]) rs)"
  have flat: "set (?flat xs) = set (?flat ys)" using assms(2) by simp
  note tests = set_map_filter_cong[OF flat, of test_of]
  show ?thesis
    using test_order(1)[OF assms(1) tests] flat tests
    by (simp add: intersect_operands_def Let_def flip: set_empty)
qed

lemma intersect_order:
  assumes "hash_consed u" "set xs = set ys"
  shows "regex_intersect u xs = regex_intersect u ys"
proof -
  have ops: "map_option set (intersect_operands u xs) = map_option set (intersect_operands u ys)"
    using intersect_operands_order[OF hash_consedD(1)[OF assms(1)] assms(2)] .
  show ?thesis
  proof (cases "intersect_operands u xs")
    case None
    with ops assms(2) show ?thesis by (simp add: regex_intersect_def)
  next
    case (Some os)
    with ops obtain os' where os': "intersect_operands u ys = Some os'" "set os = set os'"
      by (cases "intersect_operands u ys") auto
    have "sort_dedup (regex_uid u) os = sort_dedup (regex_uid u) os'"
      using sort_dedup_cong[OF hash_consedD(2)[OF assms(1)] os'(2)] .
    with Some os' assms(2) show ?thesis by (simp add: regex_intersect_def)
  qed
qed

end
