(* ===== verification/Transition.thy ===== *)
theory Transition
  imports Normalize
begin

text \<open>
  The transition constructors of \<^verbatim>\<open>rust-validator/src/syntax/transition.rs\<close>.

  All of them but union call one another: an intersection expands conditionals, building a
  conditional cleans its branches under their guard, and cleaning rebuilds intersections,
  complements and appends. The family is indexed by fuel, one unit per call; \<open>None\<close> is running
  out of it. Soundness says that whatever a constructor returns denotes the operation it is
  named after on every letter, and the theory \<open>Totality\<close> that it returns.
\<close>

section \<open>Constructors that do not recurse\<close>

definition transition_const :: "'s regex \<Rightarrow> 's transition" where
  "transition_const r = Const r"

definition intern_transition_if ::
  "'s test \<Rightarrow> 's transition \<Rightarrow> 's transition \<Rightarrow> 's transition" where
  "intern_transition_if t a b =
     (if t = TTrue then a else if t = TFalse then b else if a = b then a else If t a b)"

fun const_of :: "'s transition \<Rightarrow> 's regex option" where
  "const_of (Const r) = Some r"
| "const_of _ = None"

definition union_flat :: "'s transition list \<Rightarrow> 's transition list" where
  "union_flat ts = concat (map (\<lambda>t. case t of
     Const REmpty \<Rightarrow> [] | Union nested \<Rightarrow> nested | _ \<Rightarrow> [t]) ts)"

definition transition_union :: "'s uids \<Rightarrow> 's transition list \<Rightarrow> 's transition" where
  "transition_union u ts =
     (if Const RAll \<in> set ts then Const RAll
      else
        let flat = union_flat ts;
            constants = List.map_filter const_of flat;
            others = filter (\<lambda>t. const_of t = None) flat;
            regex = regex_union u constants in
        if constants \<noteq> [] \<and> regex = RAll then Const RAll
        else
          let merged = (if constants \<noteq> [] \<and> regex \<noteq> REmpty
                        then others @ [transition_const regex] else others);
              flat' = sort_dedup (transition_uid u) merged in
          (case flat' of [] \<Rightarrow> Const REmpty | [only] \<Rightarrow> only | _ \<Rightarrow> Union flat'))"

text \<open>
  The operands of an intersection: flattened, with the constants intersected, sorted and without
  repetition; \<open>None\<close> when the intersection is empty already.
\<close>

definition intersect_flat :: "'s transition list \<Rightarrow> 's transition list" where
  "intersect_flat ts = concat (map (\<lambda>t. case t of
     Const RAll \<Rightarrow> [] | Intersect nested \<Rightarrow> nested | _ \<Rightarrow> [t]) ts)"

definition transition_operands :: "'s uids \<Rightarrow> 's transition list \<Rightarrow> 's transition list option" where
  "transition_operands u ts =
     (if Const REmpty \<in> set ts then None
      else
        let flat = intersect_flat ts;
            constants = List.map_filter const_of flat;
            others = filter (\<lambda>t. const_of t = None) flat;
            regex = regex_intersect u constants in
        if constants \<noteq> [] \<and> regex = REmpty then None
        else
          let merged = (if constants \<noteq> [] \<and> regex \<noteq> RAll
                        then others @ [transition_const regex] else others) in
          Some (sort_dedup (transition_uid u) merged))"

text \<open>The normalised suffix of an append.\<close>

definition suffix_factors :: "'s regex \<Rightarrow> 's regex list" where
  "suffix_factors normalized = (case normalized of RConcat factors \<Rightarrow> factors | _ \<Rightarrow> [normalized])"

section \<open>The recursive constructors\<close>

text \<open>A call of one of the constructors, with its arguments.\<close>

datatype 's call =
    CleanPath "'s transition" "'s test"
  | CleanIf "'s test" "'s transition" "'s transition" "'s test"
  | MakeIf "'s test" "'s transition" "'s transition"
  | IntersectPair "'s transition" "'s transition"
  | IntersectIfs "'s test" "'s transition" "'s transition" "'s test" "'s transition" "'s transition"
  | MakeIntersect "'s transition list"
  | MakeNot "'s transition"
  | MakeAppend "'s transition" "'s regex list"

type_synonym 's caller = "'s call \<Rightarrow> 's transition option"

text \<open>
  The body of each constructor; the calls it makes of the others go through \<open>rec\<close>.
\<close>

definition clean_transition_path ::
  "'s uids \<Rightarrow> 's caller \<Rightarrow> 's transition \<Rightarrow> 's test \<Rightarrow> 's transition option" where
  "clean_transition_path u rec t path =
     (case t of
        Const _ \<Rightarrow> Some t
      | If test a b \<Rightarrow> rec (CleanIf test a b path)
      | Union ts \<Rightarrow> do {
          ts' \<leftarrow> omap (\<lambda>t. rec (CleanPath t path)) ts;
          Some (transition_union u ts') }
      | Intersect ts \<Rightarrow> do {
          ts' \<leftarrow> omap (\<lambda>t. rec (CleanPath t path)) ts;
          rec (MakeIntersect ts') }
      | Not inner \<Rightarrow> do {
          inner' \<leftarrow> rec (CleanPath inner path);
          rec (MakeNot inner') }
      | Append inner suffix \<Rightarrow> do {
          inner' \<leftarrow> rec (CleanPath inner path);
          rec (MakeAppend inner' suffix) })"

definition clean_conditional_path ::
  "'s uids \<Rightarrow> 's caller \<Rightarrow> 's test \<Rightarrow> 's transition \<Rightarrow> 's transition \<Rightarrow> 's test \<Rightarrow>
   's transition option" where
  "clean_conditional_path u rec test a b path =
     (if test = TTrue then rec (CleanPath a path)
      else if test = TFalse then rec (CleanPath b path)
      else if a = b then rec (CleanPath a path)
      else
        let true_path = test_and u [path, test];
            false_path = test_and u [path, test_not u test] in
        if true_path = TFalse then rec (CleanPath b false_path)
        else if false_path = TFalse then rec (CleanPath a true_path)
        else do {
          a' \<leftarrow> rec (CleanPath a true_path);
          b' \<leftarrow> rec (CleanPath b false_path);
          Some (intern_transition_if test a' b') })"

definition transition_if ::
  "'s caller \<Rightarrow> 's test \<Rightarrow> 's transition \<Rightarrow> 's transition \<Rightarrow> 's transition option" where
  "transition_if rec test a b = rec (CleanIf test a b TTrue)"

definition transition_intersect_pair ::
  "'s uids \<Rightarrow> 's caller \<Rightarrow> 's transition \<Rightarrow> 's transition \<Rightarrow> 's transition option" where
  "transition_intersect_pair u rec l r =
     (if l = r then Some l
      else if l = Const REmpty \<or> r = Const REmpty then Some (Const REmpty)
      else if l = Const RAll then Some r
      else if r = Const RAll then Some l
      else case (l, r) of
        (Const p, Const q) \<Rightarrow> Some (transition_const (regex_intersect u [p, q]))
      | (If lt la lb, If rt ra rb) \<Rightarrow> rec (IntersectIfs lt la lb rt ra rb)
      | (Union ts, _) \<Rightarrow> do {
          ts' \<leftarrow> omap (\<lambda>t. rec (MakeIntersect [t, r])) ts;
          Some (transition_union u ts') }
      | (_, Union ts) \<Rightarrow> do {
          ts' \<leftarrow> omap (\<lambda>t. rec (MakeIntersect [l, t])) ts;
          Some (transition_union u ts') }
      | (If test a b, _) \<Rightarrow> do {
          a' \<leftarrow> rec (MakeIntersect [a, r]);
          b' \<leftarrow> rec (MakeIntersect [b, r]);
          rec (MakeIf test a' b') }
      | (_, If test a b) \<Rightarrow> do {
          a' \<leftarrow> rec (MakeIntersect [l, a]);
          b' \<leftarrow> rec (MakeIntersect [l, b]);
          rec (MakeIf test a' b') }
      | _ \<Rightarrow> Some (Intersect (sort_key (transition_uid u) [l, r])))"

definition transition_intersect_conditionals ::
  "'s uids \<Rightarrow> 's caller \<Rightarrow> 's test \<Rightarrow> 's transition \<Rightarrow> 's transition \<Rightarrow>
   's test \<Rightarrow> 's transition \<Rightarrow> 's transition \<Rightarrow> 's transition option" where
  "transition_intersect_conditionals u rec lt la lb rt ra rb =
     (if lb = Const REmpty \<and> rb = Const REmpty then
        let guard = test_and u [lt, rt] in
        if guard = TFalse then Some (Const REmpty)
        else do {
          a' \<leftarrow> rec (MakeIntersect [la, ra]);
          rec (MakeIf guard a' (Const REmpty)) }
      else if lt = rt then do {
        a' \<leftarrow> rec (MakeIntersect [la, ra]);
        b' \<leftarrow> rec (MakeIntersect [lb, rb]);
        rec (MakeIf lt a' b') }
      else if (if lb = Const REmpty then True
               else if rb = Const REmpty then False
               else test_uid u lt < test_uid u rt) then do {
        a' \<leftarrow> rec (MakeIntersect [la, If rt ra rb]);
        b' \<leftarrow> rec (MakeIntersect [lb, If rt ra rb]);
        rec (MakeIf lt a' b') }
      else do {
        a' \<leftarrow> rec (MakeIntersect [If lt la lb, ra]);
        b' \<leftarrow> rec (MakeIntersect [If lt la lb, rb]);
        rec (MakeIf rt a' b') })"

definition transition_intersect ::
  "'s uids \<Rightarrow> 's caller \<Rightarrow> 's transition list \<Rightarrow> 's transition option" where
  "transition_intersect u rec ts =
     (case transition_operands u ts of
        None \<Rightarrow> Some (Const REmpty)
      | Some [] \<Rightarrow> Some (Const RAll)
      | Some (first # rest) \<Rightarrow> ofold (\<lambda>result child. rec (IntersectPair result child)) first rest)"

definition transition_not :: "'s uids \<Rightarrow> 's caller \<Rightarrow> 's transition \<Rightarrow> 's transition option" where
  "transition_not u rec t =
     (case t of
        Const r \<Rightarrow> Some (transition_const (regex_not r))
      | If test a b \<Rightarrow>
          if a = Const RAll \<and> b = Const REmpty
          then rec (MakeIf (test_not u test) (Const RAll) (Const REmpty))
          else do {
            a' \<leftarrow> rec (MakeNot a);
            b' \<leftarrow> rec (MakeNot b);
            rec (MakeIf test a' b') }
      | Union ts \<Rightarrow> do {
          ts' \<leftarrow> omap (\<lambda>t. rec (MakeNot t)) ts;
          rec (MakeIntersect ts') }
      | Intersect ts \<Rightarrow> do {
          ts' \<leftarrow> omap (\<lambda>t. rec (MakeNot t)) ts;
          Some (transition_union u ts') }
      | Not inner \<Rightarrow> Some inner
      | Append _ _ \<Rightarrow> Some (Not t))"

definition transition_append ::
  "'s uids \<Rightarrow> 's caller \<Rightarrow> 's transition \<Rightarrow> 's regex list \<Rightarrow> 's transition option" where
  "transition_append u rec t suffix =
     (if suffix = [] then Some t
      else
        let normalized = regex_concat suffix in
        if normalized = REpsilon then Some t
        else if normalized = REmpty then Some (Const REmpty)
        else
          let factors = suffix_factors normalized in
          case t of
            Const r \<Rightarrow> Some (transition_const (regex_concat (r # factors)))
          | Union ts \<Rightarrow> do {
              ts' \<leftarrow> omap (\<lambda>t. rec (MakeAppend t factors)) ts;
              Some (transition_union u ts') }
          | If test a b \<Rightarrow> do {
              a' \<leftarrow> rec (MakeAppend a factors);
              b' \<leftarrow> rec (MakeAppend b factors);
              rec (MakeIf test a' b') }
          | Append inner existing \<Rightarrow> rec (MakeAppend inner (existing @ factors))
          | _ \<Rightarrow> Some (Append t factors))"

fun transition_step :: "'s uids \<Rightarrow> 's caller \<Rightarrow> 's call \<Rightarrow> 's transition option" where
  "transition_step u rec (CleanPath t path) = clean_transition_path u rec t path"
| "transition_step u rec (CleanIf test a b path) = clean_conditional_path u rec test a b path"
| "transition_step u rec (MakeIf test a b) = transition_if rec test a b"
| "transition_step u rec (IntersectPair l r) = transition_intersect_pair u rec l r"
| "transition_step u rec (IntersectIfs lt la lb rt ra rb) =
     transition_intersect_conditionals u rec lt la lb rt ra rb"
| "transition_step u rec (MakeIntersect ts) = transition_intersect u rec ts"
| "transition_step u rec (MakeNot t) = transition_not u rec t"
| "transition_step u rec (MakeAppend t suffix) = transition_append u rec t suffix"

primrec run :: "'s uids \<Rightarrow> nat \<Rightarrow> 's caller" where
  "run u 0 = (\<lambda>_. None)"
| "run u (Suc fuel) = transition_step u (run u fuel)"

lemmas transition_bodies = clean_transition_path_def clean_conditional_path_def transition_if_def
  transition_intersect_pair_def transition_intersect_conditionals_def transition_intersect_def
  transition_not_def transition_append_def

section \<open>Fuel\<close>

text \<open>A result does not depend on the fuel that was left.\<close>

definition below :: "'s caller \<Rightarrow> 's caller \<Rightarrow> bool" where
  "below f g \<longleftrightarrow> (\<forall>c. opt_le (f c) (g c))"

lemma below_call: "below f g \<Longrightarrow> opt_le (f c) (g c)"
  by (simp add: below_def)

lemma transition_step_below:
  assumes "below f g"
  shows "below (transition_step u f) (transition_step u g)"
  unfolding below_def
proof
  fix c
  note le = below_call[OF assms]
  show "opt_le (transition_step u f c) (transition_step u g c)"
  proof (cases c)
    case (IntersectPair l r)
    show ?thesis
      unfolding IntersectPair transition_step.simps transition_intersect_pair_def
      by (cases l; cases r) (auto intro!: opt_le_intros le)
  qed (auto simp: transition_bodies Let_def intro!: opt_le_intros le
      split: transition.split option.split list.split)
qed

lemma run_mono: "n \<le> m \<Longrightarrow> below (run u n) (run u m)"
proof (induction n arbitrary: m)
  case 0
  then show ?case by (simp add: below_def opt_le_def)
next
  case (Suc n)
  then obtain k where "m = Suc k" "n \<le> k" by (cases m) auto
  with Suc.IH[of k] show ?case by (simp add: transition_step_below)
qed

lemma run_more_fuel: "run u n c = Some t \<Longrightarrow> n \<le> m \<Longrightarrow> run u m c = Some t"
  using run_mono[of n m u] by (auto simp: below_def opt_le_def) (metis option.distinct(1))

section \<open>Soundness\<close>

fun tr_nf :: "'s uids \<Rightarrow> 's transition \<Rightarrow> bool" where
  "tr_nf u (Const r) = regex_nf u r"
| "tr_nf u (If t a b) = (test_nf u t \<and> tr_nf u a \<and> tr_nf u b)"
| "tr_nf u (Union ts) = (\<forall>t \<in> set ts. tr_nf u t)"
| "tr_nf u (Intersect ts) = (\<forall>t \<in> set ts. tr_nf u t)"
| "tr_nf u (Not t) = tr_nf u t"
| "tr_nf u (Append t rs) = (tr_nf u t \<and> (\<forall>r \<in> set rs. regex_nf u r))"

text \<open>
  What a call asks for: on the letters in its scope, the result leads to the language
  \<open>meaning\<close>.
\<close>

fun call_ok :: "'s uids \<Rightarrow> 's call \<Rightarrow> bool" where
  "call_ok u (CleanPath t path) = (tr_nf u t \<and> test_nf u path)"
| "call_ok u (CleanIf t a b path) = (tr_nf u (If t a b) \<and> test_nf u path)"
| "call_ok u (MakeIf t a b) = tr_nf u (If t a b)"
| "call_ok u (IntersectPair l r) = (tr_nf u l \<and> tr_nf u r)"
| "call_ok u (IntersectIfs lt la lb rt ra rb) = (tr_nf u (If lt la lb) \<and> tr_nf u (If rt ra rb))"
| "call_ok u (MakeIntersect ts) = (\<forall>t \<in> set ts. tr_nf u t)"
| "call_ok u (MakeNot t) = tr_nf u t"
| "call_ok u (MakeAppend t rs) = (tr_nf u t \<and> (\<forall>r \<in> set rs. regex_nf u r))"

fun meaning :: "'s call \<Rightarrow> 's letter \<Rightarrow> 's letter list set" where
  "meaning (CleanPath t path) x = step_lang t x"
| "meaning (CleanIf t a b path) x = step_lang (If t a b) x"
| "meaning (MakeIf t a b) x = step_lang (If t a b) x"
| "meaning (IntersectPair l r) x = step_lang l x \<inter> step_lang r x"
| "meaning (IntersectIfs lt la lb rt ra rb) x =
     step_lang (If lt la lb) x \<inter> step_lang (If rt ra rb) x"
| "meaning (MakeIntersect ts) x = (\<Inter>t \<in> set ts. step_lang t x)"
| "meaning (MakeNot t) x = - step_lang t x"
| "meaning (MakeAppend t rs) x = seqs (step_lang t x) (seqs_list (map lang rs))"

fun scope :: "'s call \<Rightarrow> 's letter set" where
  "scope (CleanPath t path) = letters path"
| "scope (CleanIf t a b path) = letters path"
| "scope _ = UNIV"

definition sound :: "'s uids \<Rightarrow> 's caller \<Rightarrow> bool" where
  "sound u f \<longleftrightarrow> (\<forall>c t. f c = Some t \<longrightarrow> call_ok u c \<longrightarrow>
     tr_nf u t \<and> (\<forall>x \<in> scope c. step_lang t x = meaning c x))"

lemma const_of_Some: "const_of t = Some r \<longleftrightarrow> t = Const r"
  by (cases t) auto

lemma set_constants: "r \<in> set (List.map_filter const_of ts) \<longleftrightarrow> Const r \<in> set ts"
  by (force simp: List.map_filter_def const_of_Some)

lemma constants_nf:
  assumes "\<forall>t \<in> set ts. tr_nf u t"
  shows "\<forall>r \<in> set (List.map_filter const_of ts). regex_nf u r"
proof
  fix r assume "r \<in> set (List.map_filter const_of ts)"
  then have "tr_nf u (Const r)" using assms unfolding set_constants by blast
  then show "regex_nf u r" by simp
qed

lemma step_lang_constants:
  assumes "P = (\<Union>r \<in> set (List.map_filter const_of ts). lang r)"
  shows "(\<Union>t \<in> set (filter (\<lambda>t. const_of t = None) ts). step_lang t x) \<union> P = (\<Union>t \<in> set ts. step_lang t x)"
proof -
  have "t \<in> set ts \<Longrightarrow> const_of t = None \<or> (\<exists>r. t = Const r \<and> r \<in> set (List.map_filter const_of ts))" for t
    by (cases t) (auto simp: set_constants)
  then show ?thesis unfolding assms by (fastforce simp: set_constants)
qed

lemma step_lang_constants_Inter:
  assumes "P = (\<Inter>r \<in> set (List.map_filter const_of ts). lang r)"
  shows "(\<Inter>t \<in> set (filter (\<lambda>t. const_of t = None) ts). step_lang t x) \<inter> P = (\<Inter>t \<in> set ts. step_lang t x)"
proof -
  have "t \<in> set ts \<Longrightarrow> const_of t = None \<or> (\<exists>r. t = Const r \<and> r \<in> set (List.map_filter const_of ts))" for t
    by (cases t) (auto simp: set_constants)
  then show ?thesis unfolding assms by (fastforce simp: set_constants)
qed

lemma union_flat_sound:
  assumes "\<forall>t \<in> set ts. tr_nf u t"
  shows "\<forall>t \<in> set (union_flat ts). tr_nf u t"
    and "(\<Union>t \<in> set (union_flat ts). step_lang t x) = (\<Union>t \<in> set ts. step_lang t x)"
proof -
  let ?f = "\<lambda>t :: 'a transition. case t of Const REmpty \<Rightarrow> [] | Union nested \<Rightarrow> nested | _ \<Rightarrow> [t]"
  have nf: "tr_nf u t \<Longrightarrow> \<forall>s \<in> set (?f t). tr_nf u s" for t
    by (auto simp del: regex_nf.simps split: transition.split regex.split)
  have step: "(\<Union>s \<in> set (?f t). step_lang s x) = step_lang t x" for t
    by (auto split: transition.split regex.split)
  show "\<forall>t \<in> set (union_flat ts). tr_nf u t" using assms nf by (fastforce simp: union_flat_def)
  have "(\<Union>t \<in> set (union_flat ts). step_lang t x) = (\<Union>t \<in> set ts. \<Union>s \<in> set (?f t). step_lang s x)"
    by (simp add: union_flat_def)
  then show "(\<Union>t \<in> set (union_flat ts). step_lang t x) = (\<Union>t \<in> set ts. step_lang t x)"
    by (simp only: step)
qed

lemma intersect_flat_sound:
  assumes "\<forall>t \<in> set ts. tr_nf u t"
  shows "\<forall>t \<in> set (intersect_flat ts). tr_nf u t"
    and "(\<Inter>t \<in> set (intersect_flat ts). step_lang t x) = (\<Inter>t \<in> set ts. step_lang t x)"
proof -
  let ?f = "\<lambda>t :: 'a transition. case t of Const RAll \<Rightarrow> [] | Intersect nested \<Rightarrow> nested | _ \<Rightarrow> [t]"
  have nf: "tr_nf u t \<Longrightarrow> \<forall>s \<in> set (?f t). tr_nf u s" for t
    by (auto simp del: regex_nf.simps split: transition.split regex.split)
  have step: "(\<Inter>s \<in> set (?f t). step_lang s x) = step_lang t x" for t
    by (auto split: transition.split regex.split)
  show "\<forall>t \<in> set (intersect_flat ts). tr_nf u t" using assms nf by (fastforce simp: intersect_flat_def)
  have "(\<Inter>t \<in> set (intersect_flat ts). step_lang t x) = (\<Inter>t \<in> set ts. \<Inter>s \<in> set (?f t). step_lang s x)"
    by (auto simp: intersect_flat_def)
  then show "(\<Inter>t \<in> set (intersect_flat ts). step_lang t x) = (\<Inter>t \<in> set ts. step_lang t x)"
    by (simp only: step)
qed

lemma transition_union_sound:
  assumes u: "hash_consed u" and nf: "\<forall>t \<in> set ts. tr_nf u t"
  shows "tr_nf u (transition_union u ts)"
    and "step_lang (transition_union u ts) x = (\<Union>t \<in> set ts. step_lang t x)"
proof -
  define flat where "flat = union_flat ts"
  define constants where "constants = List.map_filter const_of flat"
  define others where "others = filter (\<lambda>t. const_of t = None) flat"
  define regex where "regex = regex_union u constants"
  define merged where "merged = (if constants \<noteq> [] \<and> regex \<noteq> REmpty
                        then others @ [transition_const regex] else others)"
  have eq: "transition_union u ts = (if Const RAll \<in> set ts then Const RAll
      else if constants \<noteq> [] \<and> regex = RAll then Const RAll
      else case sort_dedup (transition_uid u) merged of
        [] \<Rightarrow> Const REmpty | [only] \<Rightarrow> only | _ \<Rightarrow> Union (sort_dedup (transition_uid u) merged))"
    by (simp only: transition_union_def Let_def merged_def regex_def others_def constants_def flat_def)
  note flat = union_flat_sound[OF nf, folded flat_def]
  have constants: "\<forall>r \<in> set constants. regex_nf u r"
    unfolding constants_def by (rule constants_nf[OF flat(1)])
  have regex: "regex_nf u regex" "lang regex = \<Union> (lang ` set constants)"
    unfolding regex_def using u constants by (auto intro: nf_intros simp: lang_simps)
  have merged_nf: "\<forall>t \<in> set merged. tr_nf u t"
    using flat(1) regex(1) by (auto simp: merged_def others_def transition_const_def)
  have "(\<Union>t \<in> set merged. step_lang t x) = (\<Union>t \<in> set others. step_lang t x) \<union> lang regex"
    using regex(2) by (auto simp: merged_def transition_const_def)
  also have "\<dots> = (\<Union>t \<in> set flat. step_lang t x)"
    unfolding others_def by (rule step_lang_constants) (simp add: regex(2) constants_def)
  finally have merged: "(\<Union>t \<in> set merged. step_lang t x) = (\<Union>t \<in> set ts. step_lang t x)"
    using flat(2) by simp
  have all: "constants \<noteq> [] \<and> regex = RAll \<Longrightarrow> (\<Union>t \<in> set ts. step_lang t x) = UNIV"
    using step_lang_constants[of "lang regex" flat x] regex(2) flat(2)[of x]
    by (simp add: constants_def)
  have sorted: "set (sort_dedup (transition_uid u) merged) = set merged" by simp
  have close: "(\<forall>t \<in> set xs. tr_nf u t) \<Longrightarrow>
      tr_nf u (case xs of [] \<Rightarrow> Const REmpty | [only] \<Rightarrow> only | _ \<Rightarrow> Union xs) \<and>
      step_lang (case xs of [] \<Rightarrow> Const REmpty | [only] \<Rightarrow> only | _ \<Rightarrow> Union xs) x =
        (\<Union>t \<in> set xs. step_lang t x)" for xs
    by (auto split: list.splits)
  note closed = close[of "sort_dedup (transition_uid u) merged", unfolded sorted, OF merged_nf]
  show "tr_nf u (transition_union u ts)" using closed by (simp add: eq)
  have "Const RAll \<in> set ts \<Longrightarrow> (\<Union>t \<in> set ts. step_lang t x) = UNIV" by fastforce
  then show "step_lang (transition_union u ts) x = (\<Union>t \<in> set ts. step_lang t x)"
    using closed merged all by (simp add: eq)
qed

lemma transition_operands_sound:
  assumes u: "hash_consed u" and nf: "\<forall>t \<in> set ts. tr_nf u t"
  shows "case transition_operands u ts of
      None \<Rightarrow> (\<Inter>t \<in> set ts. step_lang t x) = {}
    | Some ops \<Rightarrow> (\<forall>t \<in> set ops. tr_nf u t) \<and>
        (\<Inter>t \<in> set ops. step_lang t x) = (\<Inter>t \<in> set ts. step_lang t x)"
proof (cases "Const REmpty \<in> set ts")
  case True
  then have "(\<Inter>t \<in> set ts. step_lang t x) = {}" by fastforce
  with True show ?thesis by (simp add: transition_operands_def)
next
  case False
  define flat where "flat = intersect_flat ts"
  define constants where "constants = List.map_filter const_of flat"
  define others where "others = filter (\<lambda>t. const_of t = None) flat"
  define regex where "regex = regex_intersect u constants"
  define merged where "merged = (if constants \<noteq> [] \<and> regex \<noteq> RAll
                        then others @ [transition_const regex] else others)"
  have eq: "transition_operands u ts = (if constants \<noteq> [] \<and> regex = REmpty then None
      else Some (sort_dedup (transition_uid u) merged))"
    by (simp only: transition_operands_def Let_def merged_def regex_def others_def constants_def
        flat_def False if_False)
  note flat = intersect_flat_sound[OF nf, folded flat_def]
  have constants: "\<forall>r \<in> set constants. regex_nf u r"
    unfolding constants_def by (rule constants_nf[OF flat(1)])
  have regex: "regex_nf u regex" "lang regex = \<Inter> (lang ` set constants)"
    unfolding regex_def using u constants by (auto intro: nf_intros simp: lang_simps)
  have merged_nf: "\<forall>t \<in> set merged. tr_nf u t"
    using flat(1) regex(1) by (auto simp: merged_def others_def transition_const_def)
  have "(\<Inter>t \<in> set merged. step_lang t x) = (\<Inter>t \<in> set others. step_lang t x) \<inter> lang regex"
    using regex(2) by (auto simp: merged_def transition_const_def)
  also have "\<dots> = (\<Inter>t \<in> set flat. step_lang t x)"
    unfolding others_def by (rule step_lang_constants_Inter) (simp add: regex(2) constants_def)
  finally have merged: "(\<Inter>t \<in> set merged. step_lang t x) = (\<Inter>t \<in> set ts. step_lang t x)"
    using flat(2) by simp
  have none: "constants \<noteq> [] \<and> regex = REmpty \<Longrightarrow> (\<Inter>t \<in> set ts. step_lang t x) = {}"
    using step_lang_constants_Inter[of "lang regex" flat x] regex(2) flat(2)[of x]
    by (simp add: constants_def)
  show ?thesis using merged merged_nf none by (simp add: eq)
qed

text \<open>Each body is sound when the calls it makes are.\<close>

text \<open>Each body is sound when the calls it makes are.\<close>

lemma sound_call:
  "sound u f \<Longrightarrow> f c = Some t \<Longrightarrow> call_ok u c \<Longrightarrow> tr_nf u t"
  "sound u f \<Longrightarrow> f c = Some t \<Longrightarrow> call_ok u c \<Longrightarrow> x \<in> scope c \<Longrightarrow> step_lang t x = meaning c x"
  by (auto simp: sound_def)

lemma sound_map:
  assumes "sound u f" "omap (\<lambda>t. f (g t)) ts = Some ts'" "\<And>t. t \<in> set ts \<Longrightarrow> call_ok u (g t)"
  shows "\<forall>t \<in> set ts'. tr_nf u t"
    and "(\<And>t. t \<in> set ts \<Longrightarrow> x \<in> scope (g t)) \<Longrightarrow>
         (\<lambda>t. step_lang t x) ` set ts' = (\<lambda>t. meaning (g t) x) ` set ts"
proof -
  show "\<forall>t \<in> set ts'. tr_nf u t"
    using assms(2) by (rule omap_Some_ball) (use assms sound_call(1) in blast)
  show "(\<And>t. t \<in> set ts \<Longrightarrow> x \<in> scope (g t)) \<Longrightarrow>
         (\<lambda>t. step_lang t x) ` set ts' = (\<lambda>t. meaning (g t) x) ` set ts"
    by (rule omap_Some_image[OF assms(2)]) (use assms sound_call(2) in blast)
qed

lemma sound_if:
  assumes "sound u f" "f (MakeIf test a b) = Some t" "test_nf u test" "tr_nf u a" "tr_nf u b"
  shows "tr_nf u t" "step_lang t x = (if x \<in> letters test then step_lang a x else step_lang b x)"
  using sound_call[OF assms(1,2)] assms(3-5) by simp_all

lemma sound_intersect2:
  assumes "sound u f" "f (MakeIntersect [l, r]) = Some t" "tr_nf u l" "tr_nf u r"
  shows "tr_nf u t" "step_lang t x = step_lang l x \<inter> step_lang r x"
  using sound_call[OF assms(1,2)] assms(3-4) by simp_all

lemma suffix_factors_sound:
  assumes "regex_nf u r"
  shows "\<forall>s \<in> set (suffix_factors r). regex_nf u s"
    and "seqs_list (map lang (suffix_factors r)) = lang r"
  using assms by (cases r; simp add: suffix_factors_def)+

lemma clean_transition_path_sound:
  assumes u: "hash_consed u" and f: "sound u f"
    and res: "clean_transition_path u f t path = Some t'" and ok: "tr_nf u t" "test_nf u path"
  shows "tr_nf u t' \<and> (\<forall>x \<in> letters path. step_lang t' x = step_lang t x)"
proof (cases t)
  case (Union ts)
  then obtain ts' where ts': "omap (\<lambda>t. f (CleanPath t path)) ts = Some ts'" "t' = transition_union u ts'"
    using res by (auto simp: clean_transition_path_def split: Option.bind_splits)
  note s = sound_map[OF f ts'(1)]
  show ?thesis
    using s ok Union transition_union_sound[OF u s(1)] by (auto simp: ts'(2))
next
  case (Intersect ts)
  then obtain ts' where ts': "omap (\<lambda>t. f (CleanPath t path)) ts = Some ts'"
    "f (MakeIntersect ts') = Some t'"
    using res by (auto simp: clean_transition_path_def split: Option.bind_splits)
  note s = sound_map[OF f ts'(1)]
  show ?thesis
    using s ok Intersect sound_call[OF f ts'(2)] by auto
qed (use res ok f in \<open>auto simp: clean_transition_path_def sound_def split: Option.bind_splits\<close>)

lemma path_letters:
  assumes "hash_consed u" "test_nf u test" "test_nf u path"
  shows "letters (test_and u [path, test]) = letters path \<inter> letters test"
    and "letters (test_and u [path, test_not u test]) = letters path - letters test"
    and "test_nf u (test_and u [path, test])" and "test_nf u (test_and u [path, test_not u test])"
proof -
  note inj = hash_consedD(1)[OF assms(1)]
  have not: "test_nf u (test_not u test)" "letters (test_not u test) = - letters test"
    using inj assms(2) by (auto intro: nf_intros simp: lang_simps)
  then show "test_nf u (test_and u [path, test_not u test])" "test_nf u (test_and u [path, test])"
    using inj assms by (auto intro: nf_intros)
  show "letters (test_and u [path, test]) = letters path \<inter> letters test"
    using inj assms by (subst letters_test_and) auto
  show "letters (test_and u [path, test_not u test]) = letters path - letters test"
    using inj assms not by (subst letters_test_and) auto
qed

lemma clean_conditional_path_sound:
  assumes u: "hash_consed u" and f: "sound u f"
    and res: "clean_conditional_path u f test a b path = Some t'"
    and ok: "test_nf u test" "tr_nf u a" "tr_nf u b" "test_nf u path"
  shows "tr_nf u t' \<and> (\<forall>x \<in> letters path. step_lang t' x = step_lang (If test a b) x)"
proof -
  note path = path_letters[OF u ok(1,4)]
  have dead: "test_and u [path, test] = TFalse \<Longrightarrow> letters path \<inter> letters test = {}"
    "test_and u [path, test_not u test] = TFalse \<Longrightarrow> letters path - letters test = {}"
    using path(1,2) by auto
  have clean: "f (CleanPath s p) = Some s' \<Longrightarrow> tr_nf u s \<Longrightarrow> test_nf u p \<Longrightarrow>
      tr_nf u s' \<and> (\<forall>x \<in> letters p. step_lang s' x = step_lang s x)" for s p s'
    using sound_call[OF f] by fastforce
  from res consider
      "test = TTrue" "f (CleanPath a path) = Some t'"
    | "test = TFalse" "f (CleanPath b path) = Some t'"
    | "a = b" "f (CleanPath a path) = Some t'"
    | "test_and u [path, test] = TFalse" "f (CleanPath b (test_and u [path, test_not u test])) = Some t'"
    | "test_and u [path, test_not u test] = TFalse" "f (CleanPath a (test_and u [path, test])) = Some t'"
    | (both) a' b' where "f (CleanPath a (test_and u [path, test])) = Some a'"
      "f (CleanPath b (test_and u [path, test_not u test])) = Some b'"
      "t' = intern_transition_if test a' b'"
    by (auto simp: clean_conditional_path_def Let_def split: if_splits Option.bind_splits)
  then show ?thesis
  proof cases
    case both
    show ?thesis
      using clean[OF both(1) ok(2) path(3)] clean[OF both(2) ok(3) path(4)] ok(1)
      by (auto simp: both(3) intern_transition_if_def path)
  qed (use clean ok path dead in \<open>fastforce+\<close>)
qed

lemma sound_distribute:
  assumes u: "hash_consed u" and f: "sound u f"
    and "omap (\<lambda>t. f (MakeIntersect (g t))) ts = Some ts'"
    and "\<And>t. t \<in> set ts \<Longrightarrow> g t = [t, r] \<or> g t = [r, t]" "\<forall>t \<in> set ts. tr_nf u t" "tr_nf u r"
  shows "tr_nf u (transition_union u ts')"
    and "step_lang (transition_union u ts') x = (\<Union>t \<in> set ts. step_lang t x) \<inter> step_lang r x"
proof -
  have ok: "\<And>t. t \<in> set ts \<Longrightarrow> call_ok u (MakeIntersect (g t))" using assms(4-6) by fastforce
  note s = sound_map[OF f assms(3) ok]
  show "tr_nf u (transition_union u ts')" by (rule transition_union_sound(1)[OF u s(1)])
  have "step_lang (transition_union u ts') x = \<Union> ((\<lambda>t. meaning (MakeIntersect (g t)) x) ` set ts)"
    using transition_union_sound(2)[OF u s(1), of x] s(2)[of x] by simp
  also have "\<dots> = (\<Union>t \<in> set ts. step_lang t x \<inter> step_lang r x)"
    by (rule SUP_cong) (use assms(4) in fastforce)+
  finally show "step_lang (transition_union u ts') x = (\<Union>t \<in> set ts. step_lang t x) \<inter> step_lang r x"
    by auto
qed

lemma sound_expand:
  assumes f: "sound u f" and "f (MakeIntersect as) = Some a'" "f (MakeIntersect bs) = Some b'"
    "f (MakeIf test a' b') = Some t'" "test_nf u test"
    "\<forall>t \<in> set as. tr_nf u t" "\<forall>t \<in> set bs. tr_nf u t"
  shows "tr_nf u t'"
    and "step_lang t' x = (if x \<in> letters test then \<Inter>t \<in> set as. step_lang t x
                           else \<Inter>t \<in> set bs. step_lang t x)"
  using sound_call[OF f assms(2)] sound_call[OF f assms(3)] sound_if[OF f assms(4,5)] assms(6,7)
  by simp_all

lemma transition_shape:
  obtains (union) ts where "t = Union ts" | (cond) c a b where "t = If c a b"
    | (leaf) "\<forall>ts. t \<noteq> Union ts" "\<forall>c a b. t \<noteq> If c a b"
  by blast

lemma transition_intersect_pair_sound:
  assumes u: "hash_consed u" and f: "sound u f"
    and res: "transition_intersect_pair u f l r = Some t" and ok: "tr_nf u l" "tr_nf u r"
  shows "tr_nf u t \<and> step_lang t x = step_lang l x \<inter> step_lang r x"
proof (cases "l = r \<or> l = Const REmpty \<or> r = Const REmpty \<or> l = Const RAll \<or> r = Const RAll")
  case True
  with res ok show ?thesis by (auto simp: transition_intersect_pair_def split: if_splits)
next
  case False
  then have nt: "l \<noteq> r" "l \<noteq> Const REmpty" "r \<noteq> Const REmpty" "l \<noteq> Const RAll" "r \<noteq> Const RAll"
    by auto
  note body = res[unfolded transition_intersect_pair_def, simplified nt if_False simp_thms]
  have atoms: "tr_nf u (Intersect (sort_key (transition_uid u) [l, r]))"
    "step_lang (Intersect (sort_key (transition_uid u) [l, r])) x = step_lang l x \<inter> step_lang r x"
    using ok by auto
  have const_pair: "tr_nf u (Const (regex_intersect u [p, q])) \<and>
      lang (regex_intersect u [p, q]) = lang p \<inter> lang q" if "regex_nf u p" "regex_nf u q" for p q
    using u that by (auto intro: nf_intros simp: lang_simps)
  have union_l: ?thesis if "l = Union ts" "omap (\<lambda>t. f (MakeIntersect [t, r])) ts = Some ts'"
    "t = transition_union u ts'" for ts ts'
    using sound_distribute(1)[OF u f that(2), where r = r]
      sound_distribute(2)[OF u f that(2), where r = r and x = x] ok by (simp add: that(1,3))
  have union_r: ?thesis if "r = Union ts" "omap (\<lambda>t. f (MakeIntersect [l, t])) ts = Some ts'"
    "t = transition_union u ts'" for ts ts'
    using sound_distribute(1)[OF u f that(2), where r = l]
      sound_distribute(2)[OF u f that(2), where r = l and x = x] ok by (auto simp: that(1,3))
  have if_l: ?thesis if "l = If test a b" "f (MakeIntersect [a, r]) = Some a'"
    "f (MakeIntersect [b, r]) = Some b'" "f (MakeIf test a' b') = Some t" for test a b a' b'
    using sound_expand[OF f that(2-4)] ok by (simp add: that(1))
  have if_r: ?thesis if "r = If test a b" "f (MakeIntersect [l, a]) = Some a'"
    "f (MakeIntersect [l, b]) = Some b'" "f (MakeIf test a' b') = Some t" for test a b a' b'
    using sound_expand[OF f that(2-4)] ok by (simp add: that(1))
  have ifs: ?thesis if "l = If lt la lb" "r = If rt ra rb"
    "f (IntersectIfs lt la lb rt ra rb) = Some t" for lt la lb rt ra rb
    using sound_call[OF f that(3)] ok by (auto simp: that(1,2))
  consider (union_left) ts where "l = Union ts"
    | (union_right) ts where "r = Union ts" "\<forall>ts. l \<noteq> Union ts"
    | (both_if) lt la lb rt ra rb where "l = If lt la lb" "r = If rt ra rb"
    | (if_left) test a b where "l = If test a b" "\<forall>ts. r \<noteq> Union ts" "\<forall>t a b. r \<noteq> If t a b"
    | (if_right) test a b where "r = If test a b" "\<forall>ts. l \<noteq> Union ts" "\<forall>t a b. l \<noteq> If t a b"
    | (leaves) "\<forall>ts. l \<noteq> Union ts" "\<forall>t a b. l \<noteq> If t a b" "\<forall>ts. r \<noteq> Union ts" "\<forall>t a b. r \<noteq> If t a b"
    by (rule transition_shape[of l]; rule transition_shape[of r]; simp)
  then show ?thesis
  proof cases
    case union_left
    from body obtain ts' where "omap (\<lambda>t. f (MakeIntersect [t, r])) ts = Some ts'"
      "t = transition_union u ts'"
      unfolding union_left by (cases r) (simp_all split: Option.bind_splits)
    then show ?thesis by (rule union_l[OF union_left])
  next
    case union_right
    from body union_right(2) obtain ts' where "omap (\<lambda>t. f (MakeIntersect [l, t])) ts = Some ts'"
      "t = transition_union u ts'"
      unfolding union_right(1) by (cases l) (simp_all split: Option.bind_splits)
    then show ?thesis by (rule union_r[OF union_right(1)])
  next
    case both_if
    from body have "f (IntersectIfs lt la lb rt ra rb) = Some t" unfolding both_if by simp
    then show ?thesis by (rule ifs[OF both_if])
  next
    case if_left
    from body if_left(2,3) obtain a' b' where "f (MakeIntersect [a, r]) = Some a'"
      "f (MakeIntersect [b, r]) = Some b'" "f (MakeIf test a' b') = Some t"
      unfolding if_left(1) by (cases r) (simp_all split: Option.bind_splits)
    then show ?thesis by (rule if_l[OF if_left(1)])
  next
    case if_right
    from body if_right(2,3) obtain a' b' where "f (MakeIntersect [l, a]) = Some a'"
      "f (MakeIntersect [l, b]) = Some b'" "f (MakeIf test a' b') = Some t"
      unfolding if_right(1) by (cases l) (simp_all split: Option.bind_splits)
    then show ?thesis by (rule if_r[OF if_right(1)])
  next
    case leaves
    have "(\<exists>p q. l = Const p \<and> r = Const q \<and> t = transition_const (regex_intersect u [p, q])) \<or>
        t = Intersect (sort_key (transition_uid u) [l, r])"
      using body leaves by (cases l; cases r) simp_all
    then show ?thesis
    proof
      assume "\<exists>p q. l = Const p \<and> r = Const q \<and> t = transition_const (regex_intersect u [p, q])"
      then obtain p q where "l = Const p" "r = Const q" "t = Const (regex_intersect u [p, q])"
        by (auto simp: transition_const_def)
      then show ?thesis using const_pair[of p q] ok by simp
    next
      assume "t = Intersect (sort_key (transition_uid u) [l, r])"
      then show ?thesis using atoms by (simp only:)
    qed
  qed
qed

lemma transition_intersect_conditionals_sound:
  assumes u: "hash_consed u" and f: "sound u f"
    and res: "transition_intersect_conditionals u f lt la lb rt ra rb = Some t"
    and ok: "tr_nf u (If lt la lb)" "tr_nf u (If rt ra rb)"
  shows "tr_nf u t \<and> step_lang t x = step_lang (If lt la lb) x \<inter> step_lang (If rt ra rb) x"
proof -
  have guard: "letters (test_and u [lt, rt]) = letters lt \<inter> letters rt" "test_nf u (test_and u [lt, rt])"
    using u ok by (auto simp: lang_simps hash_consedD intro!: nf_intros)
  from res consider
      (dead) "lb = Const REmpty" "rb = Const REmpty" "test_and u [lt, rt] = TFalse" "t = Const REmpty"
    | (guards) a' where "lb = Const REmpty" "rb = Const REmpty" "f (MakeIntersect [la, ra]) = Some a'"
      "f (MakeIf (test_and u [lt, rt]) a' (Const REmpty)) = Some t"
    | (same) a' b' where "lt = rt" "f (MakeIntersect [la, ra]) = Some a'"
      "f (MakeIntersect [lb, rb]) = Some b'" "f (MakeIf lt a' b') = Some t"
    | (left) a' b' where "f (MakeIntersect [la, If rt ra rb]) = Some a'"
      "f (MakeIntersect [lb, If rt ra rb]) = Some b'" "f (MakeIf lt a' b') = Some t"
    | (right) a' b' where "f (MakeIntersect [If lt la lb, ra]) = Some a'"
      "f (MakeIntersect [If lt la lb, rb]) = Some b'" "f (MakeIf rt a' b') = Some t"
    by (auto simp: transition_intersect_conditionals_def Let_def split: if_splits Option.bind_splits)
  then show ?thesis
  proof cases
    case dead
    then have "letters lt \<inter> letters rt = {}" using guard(1) by simp
    with dead show ?thesis by auto
  next
    case guards
    show ?thesis
      using sound_intersect2[OF f guards(3)] sound_if[OF f guards(4) guard(2)] ok guards(1,2)
      by (auto simp: guard(1))
  next
    case same
    show ?thesis using sound_expand[OF f same(2-4)] ok same(1) by simp
  next
    case left
    show ?thesis using sound_expand[OF f left] ok by auto
  next
    case right
    show ?thesis using sound_expand[OF f right] ok by auto
  qed
qed

lemma ofold_pairs_sound:
  assumes f: "sound u f"
  shows "ofold (\<lambda>result child. f (IntersectPair result child)) acc ts = Some t \<Longrightarrow>
    tr_nf u acc \<Longrightarrow> \<forall>t \<in> set ts. tr_nf u t \<Longrightarrow>
    tr_nf u t \<and> step_lang t x = step_lang acc x \<inter> (\<Inter>t \<in> set ts. step_lang t x)"
proof (induction ts arbitrary: acc)
  case (Cons s ts)
  then obtain r where r: "f (IntersectPair acc s) = Some r"
    "ofold (\<lambda>result child. f (IntersectPair result child)) r ts = Some t"
    by (auto split: Option.bind_splits)
  have "tr_nf u r \<and> step_lang r x = step_lang acc x \<inter> step_lang s x"
    using sound_call[OF f r(1)] Cons.prems by simp
  with Cons.IH[OF r(2)] Cons.prems show ?case by auto
qed simp

lemma transition_intersect_sound:
  assumes u: "hash_consed u" and f: "sound u f"
    and res: "transition_intersect u f ts = Some t" and ok: "\<forall>t \<in> set ts. tr_nf u t"
  shows "tr_nf u t \<and> step_lang t x = (\<Inter>t \<in> set ts. step_lang t x)"
proof (cases "transition_operands u ts")
  case None
  with res transition_operands_sound[OF u ok, of x] show ?thesis
    by (auto simp: transition_intersect_def)
next
  case (Some ops)
  note ops = transition_operands_sound[OF u ok, of x, unfolded Some, simplified]
  show ?thesis
  proof (cases ops)
    case Nil
    with res Some ops show ?thesis by (auto simp: transition_intersect_def)
  next
    case (Cons first rest)
    with res Some have "ofold (\<lambda>result child. f (IntersectPair result child)) first rest = Some t"
      by (simp add: transition_intersect_def)
    from ofold_pairs_sound[OF f this, of x] ops Cons show ?thesis by simp
  qed
qed

lemma transition_not_sound:
  assumes u: "hash_consed u" and f: "sound u f"
    and res: "transition_not u f t = Some t'" and ok: "tr_nf u t"
  shows "tr_nf u t' \<and> step_lang t' x = - step_lang t x"
proof (cases t)
  case (Const r)
  with res ok show ?thesis
    by (auto simp: transition_not_def transition_const_def lang_simps intro: nf_intros)
next
  case (If test a b)
  have not: "letters (test_not u test) = - letters test" "test_nf u (test_not u test)"
    using u ok If by (auto simp: lang_simps hash_consedD intro!: nf_intros)
  from res If consider
      (marker) "a = Const RAll" "b = Const REmpty"
        "f (MakeIf (test_not u test) (Const RAll) (Const REmpty)) = Some t'"
    | (both) a' b' where "f (MakeNot a) = Some a'" "f (MakeNot b) = Some b'"
        "f (MakeIf test a' b') = Some t'"
    by (auto simp: transition_not_def split: if_splits Option.bind_splits)
  then show ?thesis
  proof cases
    case marker
    show ?thesis using sound_if[OF f marker(3) not(2)] by (auto simp: If marker(1,2) not(1))
  next
    case both
    show ?thesis
      using sound_call[OF f both(1)] sound_call[OF f both(2)] sound_if[OF f both(3)] ok
      by (auto simp: If)
  qed
next
  case (Union ts)
  then obtain ts' where ts': "omap (\<lambda>t. f (MakeNot t)) ts = Some ts'" "f (MakeIntersect ts') = Some t'"
    using res by (auto simp: transition_not_def split: Option.bind_splits)
  note s = sound_map[OF f ts'(1)]
  show ?thesis using s(1) s(2)[of x] ok sound_call[OF f ts'(2)] by (auto simp: Union)
next
  case (Intersect ts)
  then obtain ts' where ts': "omap (\<lambda>t. f (MakeNot t)) ts = Some ts'" "t' = transition_union u ts'"
    using res by (auto simp: transition_not_def split: Option.bind_splits)
  note s = sound_map[OF f ts'(1)]
  show ?thesis
    using s(1) s(2)[of x] ok transition_union_sound[OF u s(1)] by (auto simp: Intersect ts'(2))
qed (use res ok in \<open>auto simp: transition_not_def\<close>)

lemma transition_append_sound:
  assumes u: "hash_consed u" and f: "sound u f"
    and res: "transition_append u f t suffix = Some t'"
    and ok: "tr_nf u t" "\<forall>r \<in> set suffix. regex_nf u r"
  shows "tr_nf u t' \<and> step_lang t' x = seqs (step_lang t x) (seqs_list (map lang suffix))"
proof (cases "suffix = [] \<or> regex_concat suffix = REpsilon \<or> regex_concat suffix = REmpty")
  case True
  have "lang (regex_concat suffix) = seqs_list (map lang suffix)" by (rule lang_regex_concat)
  then have "regex_concat suffix = REpsilon \<Longrightarrow> seqs_list (map lang suffix) = {[]}"
    "regex_concat suffix = REmpty \<Longrightarrow> seqs_list (map lang suffix) = {}" by simp_all
  with True res ok show ?thesis
    by (fastforce simp: transition_append_def split: if_splits)
next
  case False
  define factors where "factors = suffix_factors (regex_concat suffix)"
  have nf: "regex_nf u (regex_concat suffix)" using ok(2) by (rule nf_intros)
  have factors: "\<forall>r \<in> set factors. regex_nf u r"
    "seqs_list (map lang factors) = seqs_list (map lang suffix)"
    using suffix_factors_sound[OF nf] by (simp_all add: factors_def lang_regex_concat)
  note body = res[unfolded transition_append_def Let_def factors_def[symmetric]]
  show ?thesis
  proof (cases t)
    case (Const r)
    with body False have "t' = Const (regex_concat (r # factors))" by (simp add: transition_const_def)
    with Const ok factors show ?thesis
      by (simp add: lang_regex_concat regex_concat_nf)
  next
    case (Union ts)
    with body False obtain ts' where ts': "omap (\<lambda>t. f (MakeAppend t factors)) ts = Some ts'"
      "t' = transition_union u ts'" by (auto split: Option.bind_splits)
    note s = sound_map[OF f ts'(1)]
    have "\<forall>t \<in> set ts'. tr_nf u t" using s(1) ok Union factors(1) by simp
    moreover have "(\<lambda>t. step_lang t x) ` set ts' =
        (\<lambda>t. seqs (step_lang t x) (seqs_list (map lang suffix))) ` set ts"
      using s(2)[of x] ok Union factors by simp
    ultimately show ?thesis
      using transition_union_sound[OF u] by (simp add: Union ts'(2) seqs_UN)
  next
    case (If test a b)
    with body False obtain a' b' where ab: "f (MakeAppend a factors) = Some a'"
      "f (MakeAppend b factors) = Some b'" "f (MakeIf test a' b') = Some t'"
      by (auto split: Option.bind_splits)
    show ?thesis
      using sound_call[OF f ab(1)] sound_call[OF f ab(2)] sound_if[OF f ab(3)] ok factors
      by (simp add: If)
  next
    case (Append inner existing)
    with body False have "f (MakeAppend inner (existing @ factors)) = Some t'" by simp
    from sound_call[OF f this] Append ok factors show ?thesis
      by (simp add: seqs_list_append seqs_assoc ball_Un)
  next
    case (Intersect ts)
    with body False have "t' = Append t factors" by simp
    with ok factors show ?thesis by simp
  next
    case (Not s)
    with body False have "t' = Append t factors" by simp
    with ok factors show ?thesis by simp
  qed
qed

lemma transition_step_sound:
  assumes u: "hash_consed u" and f: "sound u f"
  shows "sound u (transition_step u f)"
  unfolding sound_def
proof (intro allI impI)
  fix c t
  assume c: "transition_step u f c = Some t" "call_ok u c"
  then show "tr_nf u t \<and> (\<forall>x \<in> scope c. step_lang t x = meaning c x)"
  proof (cases c)
    case CleanPath
    then show ?thesis using c clean_transition_path_sound[OF u f] by simp
  next
    case CleanIf
    then show ?thesis using c clean_conditional_path_sound[OF u f] by simp
  next
    case (MakeIf test a b)
    then have "f (CleanIf test a b TTrue) = Some t" using c by (simp add: transition_if_def)
    from sound_call[OF f this] show ?thesis using c MakeIf by simp
  next
    case IntersectPair
    then show ?thesis using c transition_intersect_pair_sound[OF u f] by simp
  next
    case IntersectIfs
    then show ?thesis using c transition_intersect_conditionals_sound[OF u f] by simp
  next
    case MakeIntersect
    then show ?thesis using c transition_intersect_sound[OF u f] by simp
  next
    case MakeNot
    then show ?thesis using c transition_not_sound[OF u f] by simp
  next
    case MakeAppend
    then show ?thesis using c transition_append_sound[OF u f] by simp
  qed
qed

lemma run_sound: "hash_consed u \<Longrightarrow> sound u (run u n)"
proof (induction n)
  case 0
  show ?case by (simp add: sound_def)
next
  case (Suc n)
  then show ?case by (simp add: transition_step_sound)
qed

end
