(* ===== verification/Totality.thy ===== *)
theory Totality
  imports Transition
begin

text \<open>
  The transition constructors return. In normal form a transition is a tree of conditionals and
  unions over \<open>literal\<close> leaves, which contain neither; cleaning never increases its weight, and
  an intersection only recurses into pairs whose weights have a smaller product.
\<close>

section \<open>The value a call settles on\<close>

definition final :: "'s uids \<Rightarrow> 's caller" where
  "final u c = (if \<exists>n. run u n c \<noteq> None then run u (LEAST n. run u n c \<noteq> None) c else None)"

lemma final_iff: "final u c = Some t \<longleftrightarrow> (\<exists>n. run u n c = Some t)"
proof
  assume "final u c = Some t"
  then show "\<exists>n. run u n c = Some t" by (auto simp: final_def split: if_splits)
next
  assume "\<exists>n. run u n c = Some t"
  then obtain n where n: "run u n c = Some t" by blast
  then have ex: "\<exists>n. run u n c \<noteq> None" by auto
  let ?m = "LEAST n. run u n c \<noteq> None"
  have "run u ?m c \<noteq> None" using ex by (rule LeastI_ex)
  then obtain s where s: "run u ?m c = Some s" by auto
  have "run u (max n ?m) c = Some t" "run u (max n ?m) c = Some s"
    using run_more_fuel[OF n, of "max n ?m"] run_more_fuel[OF s, of "max n ?m"] by simp_all
  then show "final u c = Some t" using ex s by (simp add: final_def)
qed

lemma settles_run: "settles (\<lambda>n. run u n c) (final u c)"
proof (cases "final u c")
  case None
  then have "run u n c = None" for n using final_iff[of u c] by (metis not_None_eq)
  with None show ?thesis by (simp add: settles_const)
next
  case (Some t)
  then obtain N where "run u N c = Some t" by (auto simp: final_iff)
  then have "\<forall>n \<ge> N. run u n c = final u c" unfolding Some using run_more_fuel by blast
  then show ?thesis by (auto simp: settles_def)
qed

lemma settles_step: "settles (\<lambda>n. transition_step u (run u n) c) (transition_step u (final u) c)"
proof (cases c)
  case (IntersectPair l r)
  show ?thesis
    unfolding IntersectPair transition_step.simps transition_intersect_pair_def
    by (cases l; cases r) (auto intro!: settles_intros settles_run)
qed (auto simp: transition_bodies Let_def intro!: settles_intros settles_run
      split: transition.split option.split list.split)

text \<open>The settled values are closed under the bodies of the constructors.\<close>

lemma final_step: "final u c = transition_step u (final u) c"
proof -
  have "settles (\<lambda>n. run u (Suc n) c) (final u c)"
    using settles_run[of u c] settles_Suc[of "\<lambda>n. run u n c"] by simp
  with settles_step[of u c] show ?thesis by (auto dest: settles_unique)
qed

lemma final_sound: "hash_consed u \<Longrightarrow> sound u (final u)"
  using run_sound unfolding sound_def final_iff by blast

lemma final_call:
  "hash_consed u \<Longrightarrow> final u c = Some t \<Longrightarrow> call_ok u c \<Longrightarrow> tr_nf u t"
  using final_sound by (rule sound_call(1))

lemmas final_steps =
  final_step[of u "CleanPath t path" for u t path, simplified]
  final_step[of u "CleanIf c a b path" for u c a b path, simplified]
  final_step[of u "MakeIf c a b" for u c a b, simplified]
  final_step[of u "IntersectPair l r" for u l r, simplified]
  final_step[of u "IntersectIfs lt la lb rt ra rb" for u lt la lb rt ra rb, simplified]
  final_step[of u "MakeIntersect ts" for u ts, simplified]
  final_step[of u "MakeNot t" for u t, simplified]
  final_step[of u "MakeAppend t rs" for u t rs, simplified]

section \<open>Literals and normal transitions\<close>

definition good_suffix :: "'s regex list \<Rightarrow> bool" where
  "good_suffix rs \<longleftrightarrow> rs \<noteq> [] \<and> regex_concat rs \<noteq> REpsilon \<and> regex_concat rs \<noteq> REmpty"

fun lit :: "'s uids \<Rightarrow> 's transition \<Rightarrow> bool" where
  "lit u (Const r) = regex_nf u r"
| "lit u (Intersect ts) = (\<forall>t \<in> set ts. lit u t)"
| "lit u (Not t) = (lit u t \<and> (\<exists>s rs. t = Append s rs))"
| "lit u (Append t rs) = (lit u t \<and> ((\<exists>ts. t = Intersect ts) \<or> (\<exists>s. t = Not s)) \<and>
     (\<forall>r \<in> set rs. regex_nf u r) \<and> good_suffix rs)"
| "lit u _ = False"

fun tnf :: "'s uids \<Rightarrow> 's transition \<Rightarrow> bool" where
  "tnf u (If c a b) = (test_nf u c \<and> tnf u a \<and> tnf u b)"
| "tnf u (Union ts) = (\<forall>t \<in> set ts. tnf u t)"
| "tnf u t = lit u t"

fun load :: "'s transition \<Rightarrow> nat" where
  "load (If c a b) = 1 + load a + load b"
| "load (Union ts) = 1 + (\<Sum>t\<leftarrow>ts. load t)"
| "load _ = 1"

lemma load_pos: "1 \<le> load t"
  by (cases t) simp_all

lemma load_pos_simps [simp]: "0 < load t" "Suc 0 \<le> load t"
  using load_pos[of t] by simp_all

lemma lit_tnf: "lit u t \<Longrightarrow> tnf u t"
  by (cases t) auto

lemma lit_load: "lit u t \<Longrightarrow> load t = 1"
  by (cases t) auto

lemma lit_tr_nf: "lit u t \<Longrightarrow> tr_nf u t"
  by (induction t) auto

lemma tnf_tr_nf: "tnf u t \<Longrightarrow> tr_nf u t"
  by (induction t) (auto simp: lit_tr_nf)

text \<open>\<open>yields u c P\<close>: the call returns, and the result satisfies \<open>P\<close>.\<close>

definition yields :: "'s uids \<Rightarrow> 's call \<Rightarrow> ('s transition \<Rightarrow> bool) \<Rightarrow> bool" where
  "yields u c P \<longleftrightarrow> (\<exists>t. final u c = Some t \<and> P t)"

lemma yieldsE: "yields u c P \<Longrightarrow> (\<And>t. final u c = Some t \<Longrightarrow> P t \<Longrightarrow> R) \<Longrightarrow> R"
  by (auto simp: yields_def)

lemma yields_map:
  assumes "\<And>t. t \<in> set ts \<Longrightarrow> yields u (g t) (P t)"
  obtains ts' where "omap (\<lambda>t. final u (g t)) ts = Some ts'" "list_all2 P ts ts'"
proof -
  have "\<exists>ts'. omap (\<lambda>t. final u (g t)) ts = Some ts' \<and> list_all2 P ts ts'"
    using assms
  proof (induction ts)
    case (Cons t ts)
    from Cons.prems[of t] obtain t' where "final u (g t) = Some t'" "P t t'" by (auto simp: yields_def)
    moreover obtain ts' where "omap (\<lambda>t. final u (g t)) ts = Some ts'" "list_all2 P ts ts'"
      using Cons by auto
    ultimately show ?case by simp
  qed simp
  then show ?thesis using that by blast
qed

section \<open>Operations on literals\<close>

lemma good_suffix_iff:
  assumes nf: "\<forall>r \<in> set rs. regex_nf u r"
  shows "good_suffix rs \<longleftrightarrow> REmpty \<notin> set rs \<and> (\<exists>r \<in> set rs. r \<noteq> REpsilon)"
proof (cases "REmpty \<in> set rs")
  case True
  then show ?thesis by (simp add: good_suffix_def regex_concat_def)
next
  case False
  define piece where "piece = (\<lambda>r :: 'a regex. case r of REpsilon \<Rightarrow> [] | RConcat nested \<Rightarrow> nested | _ \<Rightarrow> [r])"
  have pieces: "\<forall>x \<in> set (piece r). x \<noteq> REmpty \<and> x \<noteq> REpsilon" "piece r = [] \<longleftrightarrow> r = REpsilon"
    if "r \<in> set rs" for r
  proof -
    have "regex_nf u r" "r \<noteq> REmpty" using that nf False by auto
    then show "\<forall>x \<in> set (piece r). x \<noteq> REmpty \<and> x \<noteq> REpsilon" "piece r = [] \<longleftrightarrow> r = REpsilon"
      by (cases r; auto simp: piece_def)+
  qed
  let ?flat = "concat (map piece rs)"
  have "\<forall>x \<in> set ?flat. x \<noteq> REmpty \<and> x \<noteq> REpsilon" using pieces(1) by auto
  moreover have "\<forall>x \<in> set F. x \<noteq> REmpty \<and> x \<noteq> REpsilon \<Longrightarrow>
      close_operands REpsilon RConcat F \<noteq> REmpty \<and>
      (close_operands REpsilon RConcat F = REpsilon \<longleftrightarrow> F = [])" for F :: "'a regex list"
    by (auto simp: close_operands_def split: list.split)
  moreover have "?flat = [] \<longleftrightarrow> (\<forall>r \<in> set rs. r = REpsilon)" using pieces(2) by auto
  moreover have "regex_concat rs = close_operands REpsilon RConcat ?flat"
    using False by (simp add: regex_concat_def piece_def)
  ultimately show ?thesis using False by (auto simp: good_suffix_def)
qed

lemma concat_flat_id:
  "\<forall>r \<in> set ns. r \<noteq> REpsilon \<and> (\<forall>ms. r \<noteq> RConcat ms) \<Longrightarrow>
   concat (map (\<lambda>r. case r of REpsilon \<Rightarrow> [] | RConcat nested \<Rightarrow> nested | _ \<Rightarrow> [r]) ns) = ns"
  by (induction ns) (auto split: regex.split)

lemma concat_factors:
  assumes "\<forall>r \<in> set rs. regex_nf u r" "good_suffix rs"
  defines "fs \<equiv> suffix_factors (regex_concat rs)"
  shows "\<forall>r \<in> set fs. regex_nf u r" "good_suffix fs" "suffix_factors (regex_concat fs) = fs"
proof -
  have nf: "regex_nf u (regex_concat rs)" using assms(1) by (rule nf_intros)
  have same: "regex_concat fs = regex_concat rs"
  proof (cases "\<exists>ns. regex_concat rs = RConcat ns")
    case True
    then obtain ns where ns: "regex_concat rs = RConcat ns" by blast
    with nf have ops: "\<forall>r \<in> set ns. r \<noteq> REpsilon \<and> (\<forall>ms. r \<noteq> RConcat ms)"
      and two: "REmpty \<notin> set ns" "2 \<le> length ns"
      by auto
    have "regex_concat ns = close_operands REpsilon RConcat ns"
      using two(1) by (simp add: regex_concat_def concat_flat_id[OF ops])
    also have "\<dots> = RConcat ns" using two(2) by (auto simp: close_operands_def split: list.split)
    finally show ?thesis by (simp add: fs_def suffix_factors_def ns)
  next
    case False
    with assms(2) show ?thesis
      by (cases "regex_concat rs")
        (auto simp: fs_def suffix_factors_def good_suffix_def regex_concat_def[of "[_]"] close_operands_def)
  qed
  show "\<forall>r \<in> set fs. regex_nf u r" using suffix_factors_sound(1)[OF nf] by (simp add: fs_def)
  have "fs \<noteq> []" using nf by (auto simp: fs_def suffix_factors_def split: regex.splits)
  then show "good_suffix fs" using assms(2) same by (simp add: good_suffix_def)
  show "suffix_factors (regex_concat fs) = fs" unfolding same by (simp add: fs_def)
qed

lemma step_const [simp]: "transition_const r = Const r"
  by (simp add: transition_const_def)

lemma pair_lit:
  assumes u: "hash_consed u" and "lit u l" "lit u r"
  shows "yields u (IntersectPair l r) (lit u)"
proof -
  have nf: "regex_nf u p \<Longrightarrow> regex_nf u q \<Longrightarrow> regex_nf u (regex_intersect u [p, q])" for p q
    using u by (simp add: nf_intros)
  have "\<exists>t. transition_intersect_pair u (final u) l r = Some t \<and> lit u t"
    using assms(2,3) nf unfolding transition_intersect_pair_def
    by (cases l; cases r) auto
  then show ?thesis by (simp add: yields_def final_steps)
qed

lemma flat_tnf:
  assumes "tnf u t" "s \<in> set (case t of Const RAll \<Rightarrow> [] | Intersect nested \<Rightarrow> nested | _ \<Rightarrow> [t])"
  shows "tnf u s" and "lit u t \<Longrightarrow> lit u s"
  using assms by (auto simp del: regex_nf.simps split: transition.splits regex.splits intro: lit_tnf)

lemma flat_load:
  assumes "tnf u t"
  shows "prod_list (map load (case t of Const RAll \<Rightarrow> [] | Intersect nested \<Rightarrow> nested | _ \<Rightarrow> [t])) \<le> load t"
proof (cases t)
  case (Intersect ns)
  then have "\<forall>s \<in> set ns. load s = 1" using assms lit_load by fastforce
  then have "prod_list (map load ns) = 1" by (induction ns) auto
  with Intersect show ?thesis by simp
qed (auto split: regex.split)

lemma operands_tnf:
  assumes u: "hash_consed u" and nf: "\<forall>t \<in> set ts. tnf u t" and ops: "transition_operands u ts = Some ops"
  shows "\<forall>t \<in> set ops. tnf u t"
    and "\<forall>t \<in> set ts. lit u t \<Longrightarrow> \<forall>t \<in> set ops. lit u t"
    and "prod_list (map load ops) \<le> prod_list (map load ts)"
proof -
  define flat where "flat = intersect_flat ts"
  define constants where "constants = List.map_filter const_of flat"
  define others where "others = filter (\<lambda>t. const_of t = None) flat"
  define regex where "regex = regex_intersect u constants"
  define merged where "merged = (if constants \<noteq> [] \<and> regex \<noteq> RAll then others @ [Const regex] else others)"
  have eq: "ops = sort_dedup (transition_uid u) merged"
    using ops
    unfolding transition_operands_def Let_def merged_def regex_def others_def constants_def flat_def
    by (simp only: step_const option.inject option.distinct split: if_splits) simp_all
  have flat_nf: "\<forall>t \<in> set flat. tnf u t" and flat_lit: "\<forall>t \<in> set ts. lit u t \<Longrightarrow> \<forall>t \<in> set flat. lit u t"
    using nf flat_tnf unfolding flat_def intersect_flat_def by fastforce+
  have "\<forall>t \<in> set flat. tr_nf u t" using flat_nf tnf_tr_nf by blast
  then have regex_nf: "regex_nf u regex"
    unfolding regex_def constants_def by (intro nf_intros u constants_nf)
  show "\<forall>t \<in> set ops. tnf u t" using flat_nf regex_nf by (auto simp: eq merged_def others_def)
  show "\<forall>t \<in> set ts. lit u t \<Longrightarrow> \<forall>t \<in> set ops. lit u t"
    using flat_lit regex_nf by (auto simp: eq merged_def others_def)
  have "prod_list (map load ops) \<le> prod_list (map load merged)"
    unfolding eq by (rule prod_list_sort_dedup_le) (rule load_pos)
  also have "prod_list (map load merged) = prod_list (map load others)" by (simp add: merged_def)
  also have "\<dots> \<le> prod_list (map load flat)" unfolding others_def by (rule prod_list_filter_le) (rule load_pos)
  also have "\<dots> \<le> prod_list (map load ts)"
    using nf unfolding flat_def intersect_flat_def
  proof (induction ts)
    case (Cons t ts)
    then show ?case using flat_load[of u t] by (simp add: mult_le_mono)
  qed simp
  finally show "prod_list (map load ops) \<le> prod_list (map load ts)" .
qed

lemma intersect_lits:
  assumes u: "hash_consed u" and lits: "\<forall>t \<in> set ts. lit u t"
  shows "yields u (MakeIntersect ts) (lit u)"
proof (cases "transition_operands u ts")
  case None
  then show ?thesis by (simp add: yields_def final_steps transition_intersect_def)
next
  case (Some ops)
  have ops: "\<forall>t \<in> set ops. lit u t"
    using operands_tnf(2)[OF u _ Some lits] lits lit_tnf by blast
  have fold: "lit u acc \<Longrightarrow> \<forall>t \<in> set rest. lit u t \<Longrightarrow>
      \<exists>t. ofold (\<lambda>result child. final u (IntersectPair result child)) acc rest = Some t \<and> lit u t"
    for acc rest
  proof (induction rest arbitrary: acc)
    case (Cons s rest)
    with pair_lit[OF u, of acc s] obtain r where "final u (IntersectPair acc s) = Some r" "lit u r"
      by (auto simp: yields_def)
    with Cons show ?case by simp
  qed simp
  show ?thesis
    using ops fold by (cases ops) (auto simp: Some yields_def final_steps transition_intersect_def)
qed

definition appendish :: "'s transition \<Rightarrow> bool" where
  "appendish t \<longleftrightarrow> (\<exists>r. t = Const r) \<or> (\<exists>s rs. t = Append s rs)"

lemma append_lit:
  assumes u: "hash_consed u" and "lit u t" "\<forall>r \<in> set rs. regex_nf u r"
  shows "yields u (MakeAppend t rs) (\<lambda>t'. lit u t' \<and> (good_suffix rs \<longrightarrow> appendish t'))"
  using assms(2,3)
proof (induction t arbitrary: rs)
  case (Append s existing)
  show ?case
  proof (cases "good_suffix rs")
    case False
    then have "transition_append u (final u) (Append s existing) rs \<in> {Some (Append s existing), Some (Const REmpty)}"
      by (auto simp: transition_append_def good_suffix_def)
    with Append.prems False show ?thesis by (auto simp: yields_def final_steps)
  next
    case True
    note fs = concat_factors[OF Append.prems(2) True]
    let ?rs = "existing @ suffix_factors (regex_concat rs)"
    have ok: "\<forall>r \<in> set ?rs. regex_nf u r" "good_suffix existing" "\<forall>r \<in> set existing. regex_nf u r"
      using Append.prems fs(1) by auto
    have "final u (MakeAppend (Append s existing) rs) = final u (MakeAppend s ?rs)"
      using True by (simp add: final_steps(8)[of u "Append s existing"] transition_append_def
          good_suffix_def Let_def)
    moreover have "yields u (MakeAppend s ?rs) (\<lambda>t'. lit u t' \<and> (good_suffix ?rs \<longrightarrow> appendish t'))"
      using Append.prems ok(1) by (intro Append.IH) auto
    moreover have "good_suffix ?rs"
      using ok(2) fs(2) unfolding good_suffix_iff[OF ok(1)] good_suffix_iff[OF ok(3)]
        good_suffix_iff[OF fs(1)] by auto
    ultimately obtain t where "final u (MakeAppend (Append s existing) rs) = Some t" "lit u t" "appendish t"
      by (auto elim: yieldsE)
    then show ?thesis unfolding yields_def by blast
  qed
next
  case (Const r)
  have "\<forall>r \<in> set (suffix_factors (regex_concat rs)). regex_nf u r"
    by (intro suffix_factors_sound nf_intros Const.prems(2))
  then have "regex_nf u (regex_concat (r # suffix_factors (regex_concat rs)))"
    using Const.prems(1) by (intro nf_intros) auto
  then show ?case
    using Const by (auto simp: yields_def final_steps transition_append_def Let_def
        good_suffix_def appendish_def)
next
  case (Intersect ts)
  then show ?case using concat_factors(1,2)[OF Intersect.prems(2)]
    by (auto simp: yields_def final_steps transition_append_def Let_def good_suffix_def appendish_def)
next
  case (Not s)
  then show ?case using concat_factors(1,2)[OF Not.prems(2)]
    by (auto simp: yields_def final_steps transition_append_def Let_def good_suffix_def appendish_def)
qed auto

lemma not_appendish:
  assumes "lit u t" "appendish t"
  shows "yields u (MakeNot t) (lit u)"
proof -
  have "regex_nf u r \<Longrightarrow> regex_nf u (regex_not r)" for r by (rule nf_intros)
  with assms show ?thesis
    by (cases t) (auto simp: appendish_def yields_def final_steps transition_not_def)
qed

lemma clean_lit:
  assumes u: "hash_consed u" and "lit u t"
  shows "yields u (CleanPath t path) (\<lambda>t'. lit u t' \<and> ((\<exists>s rs. t = Append s rs) \<longrightarrow> appendish t'))"
  using assms(2)
proof (induction t)
  case (Intersect ts)
  then have "\<And>t. t \<in> set ts \<Longrightarrow> yields u (CleanPath t path) (lit u)" by (fastforce simp: yields_def)
  from yields_map[OF this] obtain ts' where ts': "omap (\<lambda>t. final u (CleanPath t path)) ts = Some ts'"
    "list_all2 (\<lambda>t. lit u) ts ts'" .
  then have "\<forall>t \<in> set ts'. lit u t" by (auto simp: list_all2_conv_all_nth set_conv_nth)
  from intersect_lits[OF u this] ts'(1) show ?case
    by (auto simp: yields_def final_steps(1)[of u "Intersect ts"] clean_transition_path_def)
next
  case (Not s)
  then obtain s' where s': "final u (CleanPath s path) = Some s'" "lit u s'" "appendish s'"
    by (auto simp: yields_def)
  from not_appendish[OF s'(2,3)] s'(1) show ?case
    by (auto simp: yields_def final_steps(1)[of u "Not s"] clean_transition_path_def)
next
  case (Append s rs)
  then obtain s' where s': "final u (CleanPath s path) = Some s'" "lit u s'"
    by (auto simp: yields_def)
  from append_lit[OF u s'(2), of rs] s'(1) Append.prems show ?case
    by (auto simp: yields_def final_steps(1)[of u "Append s rs"] clean_transition_path_def)
qed (auto simp: yields_def final_steps clean_transition_path_def)

section \<open>Operations on normal transitions\<close>

abbreviation within :: "'s uids \<Rightarrow> nat \<Rightarrow> 's transition \<Rightarrow> bool" where
  "within u k t \<equiv> tnf u t \<and> load t \<le> k"

lemma sum_constants:
  "(\<Sum>t\<leftarrow>filter (\<lambda>t. const_of t = None) ts. load t) + length (List.map_filter const_of ts) =
   (\<Sum>t\<leftarrow>ts. load t)"
proof (induction ts)
  case (Cons t ts)
  then show ?case by (cases t) (auto simp: List.map_filter_def)
qed (simp add: List.map_filter_def)

lemma union_within:
  assumes u: "hash_consed u" and nf: "\<forall>t \<in> set ts. tnf u t"
  shows "within u (1 + (\<Sum>t\<leftarrow>ts. load t)) (transition_union u ts)"
proof -
  define flat where "flat = union_flat ts"
  define constants where "constants = List.map_filter const_of flat"
  define others where "others = filter (\<lambda>t. const_of t = None) flat"
  define regex where "regex = regex_union u constants"
  define merged where "merged = (if constants \<noteq> [] \<and> regex \<noteq> REmpty then others @ [Const regex] else others)"
  have eq: "transition_union u ts = (if Const RAll \<in> set ts then Const RAll
      else if constants \<noteq> [] \<and> regex = RAll then Const RAll
      else case sort_dedup (transition_uid u) merged of
        [] \<Rightarrow> Const REmpty | [only] \<Rightarrow> only | _ \<Rightarrow> Union (sort_dedup (transition_uid u) merged))"
    by (simp only: transition_union_def step_const Let_def merged_def regex_def others_def constants_def flat_def)
  have piece: "(\<forall>s \<in> set (case t of Const REmpty \<Rightarrow> [] | Union nested \<Rightarrow> nested | _ \<Rightarrow> [t]). tnf u s) \<and>
      (\<Sum>s\<leftarrow>(case t of Const REmpty \<Rightarrow> [] | Union nested \<Rightarrow> nested | _ \<Rightarrow> [t]). load s) \<le> load t"
    if "tnf u t" for t
    using that by (auto simp del: regex_nf.simps split: transition.split regex.split)
  have flat: "(\<forall>s \<in> set flat. tnf u s) \<and> (\<Sum>s\<leftarrow>flat. load s) \<le> (\<Sum>t\<leftarrow>ts. load t)"
    using nf unfolding flat_def union_flat_def
  proof (induction ts)
    case (Cons t ts)
    then show ?case using piece[of t] by (auto intro: add_mono)
  qed simp
  then have "\<forall>t \<in> set flat. tr_nf u t" using tnf_tr_nf by blast
  then have regex_nf: "regex_nf u regex"
    unfolding regex_def constants_def by (intro nf_intros u constants_nf)
  have merged_nf: "\<forall>t \<in> set merged. tnf u t" using flat regex_nf by (auto simp: merged_def others_def)
  have "(\<Sum>t\<leftarrow>merged. load t) \<le> (\<Sum>t\<leftarrow>flat. load t)"
    using sum_constants[of flat] by (cases constants) (auto simp: merged_def others_def constants_def)
  then have sum: "(\<Sum>t\<leftarrow>sort_dedup (transition_uid u) merged. load t) \<le> (\<Sum>t\<leftarrow>ts. load t)"
    using flat sum_list_sort_dedup_le[of load "transition_uid u" merged] by linarith
  have close: "(\<forall>t \<in> set xs. tnf u t) \<Longrightarrow> within u (1 + (\<Sum>t\<leftarrow>xs. load t))
      (case xs of [] \<Rightarrow> Const REmpty | [only] \<Rightarrow> only | _ \<Rightarrow> Union xs)" for xs
    by (auto split: list.split)
  have sorted: "set (sort_dedup (transition_uid u) merged) = set merged" by simp
  from close[of "sort_dedup (transition_uid u) merged", unfolded sorted, OF merged_nf] sum
  show ?thesis by (simp add: eq)
qed

lemma union_of:
  assumes u: "hash_consed u" and "list_all2 (\<lambda>t. within u (f t)) ts ts'"
  shows "within u (1 + (\<Sum>t\<leftarrow>ts. f t)) (transition_union u ts')"
proof -
  from assms(2) have "(\<forall>t \<in> set ts'. tnf u t) \<and> (\<Sum>t\<leftarrow>ts'. load t) \<le> (\<Sum>t\<leftarrow>ts. f t)"
    by (induction rule: list_all2_induct) auto
  with union_within[OF u, of ts'] show ?thesis by auto
qed

lemma clean_if_within:
  assumes u: "hash_consed u" and c: "test_nf u c" "test_nf u path"
    and a: "\<And>path. test_nf u path \<Longrightarrow> yields u (CleanPath a path) (within u (load a))"
    and b: "\<And>path. test_nf u path \<Longrightarrow> yields u (CleanPath b path) (within u (load b))"
  shows "yields u (CleanIf c a b path) (within u (1 + load a + load b))"
proof -
  note paths = path_letters(3,4)[OF u c]
  from a[OF c(2)] obtain a0 where a0: "final u (CleanPath a path) = Some a0" "within u (load a) a0"
    by (rule yieldsE)
  from b[OF c(2)] obtain b0 where b0: "final u (CleanPath b path) = Some b0" "within u (load b) b0"
    by (rule yieldsE)
  from a[OF paths(1)] obtain a1 where
    a1: "final u (CleanPath a (test_and u [path, c])) = Some a1" "within u (load a) a1"
    by (rule yieldsE)
  from b[OF paths(2)] obtain b1 where
    b1: "final u (CleanPath b (test_and u [path, test_not u c])) = Some b1" "within u (load b) b1"
    by (rule yieldsE)
  have "within u (1 + load a + load b) (intern_transition_if c a1 b1)"
    using a1(2) b1(2) c(1) by (auto simp: intern_transition_if_def)
  then show ?thesis
    unfolding yields_def final_steps(2) clean_conditional_path_def Let_def
    using a0 b0 a1 b1 by auto
qed

lemma clean_lit_within:
  assumes u: "hash_consed u" and "lit u t"
  shows "yields u (CleanPath t path) (within u (load t))"
proof -
  from clean_lit[OF assms, of path] obtain t' where "final u (CleanPath t path) = Some t'" "lit u t'"
    by (auto elim: yieldsE)
  then have "final u (CleanPath t path) = Some t'" "within u (load t) t'"
    using lit_load[OF assms(2)] lit_load[of u t'] by (simp_all add: lit_tnf)
  then show ?thesis unfolding yields_def by blast
qed

lemma clean_within:
  assumes u: "hash_consed u"
  shows "tnf u t \<Longrightarrow> test_nf u path \<Longrightarrow> yields u (CleanPath t path) (within u (load t))"
proof (induction t arbitrary: path)
  case (If c a b)
  then have "yields u (CleanIf c a b path) (within u (1 + load a + load b))"
    by (intro clean_if_within[OF u]) auto
  then show ?case
    by (simp add: yields_def final_steps(1)[of u "If c a b"] clean_transition_path_def)
next
  case (Union ts)
  then have "\<And>t. t \<in> set ts \<Longrightarrow> yields u (CleanPath t path) (within u (load t))" by simp
  from yields_map[OF this] obtain ts' where ts': "omap (\<lambda>t. final u (CleanPath t path)) ts = Some ts'"
    "list_all2 (\<lambda>t. within u (load t)) ts ts'" .
  from union_of[OF u ts'(2)] ts'(1) show ?case
    by (simp add: yields_def final_steps(1)[of u "Union ts"] clean_transition_path_def)
qed (use clean_lit_within[OF u] in \<open>simp_all only: tnf.simps\<close>)

lemma make_if_within:
  assumes "hash_consed u" "test_nf u c" "tnf u a" "tnf u b"
  shows "yields u (MakeIf c a b) (within u (1 + load a + load b))"
proof -
  have "yields u (MakeIf c a b) P \<longleftrightarrow> yields u (CleanIf c a b TTrue) P" for P
    by (simp add: yields_def final_steps(3) transition_if_def)
  moreover have "yields u (CleanIf c a b TTrue) (within u (1 + load a + load b))"
    using assms by (intro clean_if_within clean_within) auto
  ultimately show ?thesis by simp
qed

definition pairs_within :: "'s uids \<Rightarrow> nat \<Rightarrow> bool" where
  "pairs_within u k \<longleftrightarrow> (\<forall>l r. tnf u l \<longrightarrow> tnf u r \<longrightarrow> load l * load r \<le> k \<longrightarrow>
     yields u (IntersectPair l r) (within u (load l * load r)))"

lemma intersect_within:
  assumes u: "hash_consed u" and pairs: "pairs_within u k"
    and nf: "\<forall>t \<in> set ts. tnf u t" and k: "prod_list (map load ts) \<le> k"
  shows "yields u (MakeIntersect ts) (within u (prod_list (map load ts)))"
proof -
  have pos: "1 \<le> prod_list (map load xs)" for xs :: "'a transition list"
    by (induction xs) (auto simp: Suc_le_eq)
  have fold: "tnf u acc \<Longrightarrow> \<forall>t \<in> set rest. tnf u t \<Longrightarrow> load acc * prod_list (map load rest) \<le> k \<Longrightarrow>
      \<exists>t. ofold (\<lambda>result child. final u (IntersectPair result child)) acc rest = Some t \<and>
        within u (load acc * prod_list (map load rest)) t" for acc rest
  proof (induction rest arbitrary: acc)
    case (Cons s rest)
    have "load acc * load s = load acc * load s * 1" by simp
    also have "\<dots> \<le> load acc * load s * prod_list (map load rest)" by (intro mult_le_mono2 pos)
    also have "\<dots> \<le> k" using Cons.prems(3) by (simp add: mult.assoc)
    finally have "load acc * load s \<le> k" .
    then have "yields u (IntersectPair acc s) (within u (load acc * load s))"
      using pairs Cons.prems(1,2) by (simp add: pairs_within_def)
    then obtain r where r: "final u (IntersectPair acc s) = Some r" "within u (load acc * load s) r"
      by (rule yieldsE)
    have le: "load r * prod_list (map load rest) \<le> load acc * prod_list (map load (s # rest))"
      using mult_le_mono1[OF conjunct2[OF r(2)], of "prod_list (map load rest)"] by (simp add: ac_simps)
    have "\<exists>t. ofold (\<lambda>result child. final u (IntersectPair result child)) r rest = Some t \<and>
        within u (load r * prod_list (map load rest)) t"
      using Cons.prems(2) r(2) order_trans[OF le Cons.prems(3)] by (intro Cons.IH) simp_all
    then obtain t where t: "ofold (\<lambda>result child. final u (IntersectPair result child)) r rest = Some t"
      "tnf u t" "load t \<le> load r * prod_list (map load rest)" by blast
    show ?case using r(1) t(1,2) order_trans[OF t(3) le] by simp
  qed simp
  show ?thesis
  proof (cases "transition_operands u ts")
    case None
    then show ?thesis using pos by (simp add: yields_def final_steps transition_intersect_def)
  next
    case (Some ops)
    note ops = operands_tnf(1,3)[OF u nf Some]
    show ?thesis
    proof (cases ops)
      case Nil
      with Some pos show ?thesis by (simp add: yields_def final_steps transition_intersect_def)
    next
      case (Cons first rest)
      with ops k fold[of first rest] obtain t where
        "ofold (\<lambda>result child. final u (IntersectPair result child)) first rest = Some t"
        "within u (prod_list (map load ops)) t" by auto
      with Some Cons ops(2) show ?thesis
        by (auto simp: yields_def final_steps transition_intersect_def)
    qed
  qed
qed

lemma intersect2_within:
  assumes "hash_consed u" "pairs_within u (load l * load r)" "tnf u l" "tnf u r"
  shows "yields u (MakeIntersect [l, r]) (within u (load l * load r))"
  using intersect_within[OF assms(1,2), of "[l, r]"] assms(3,4) by simp

text \<open>A conditional whose branches are intersections of smaller pairs.\<close>

lemma expand_within:
  assumes u: "hash_consed u" and "test_nf u c"
    and "yields u (MakeIntersect as) (within u j)" "yields u (MakeIntersect bs) (within u k)"
  shows "\<exists>t. (do { a' \<leftarrow> final u (MakeIntersect as); b' \<leftarrow> final u (MakeIntersect bs);
      final u (MakeIf c a' b') }) = Some t \<and> within u (1 + j + k) t"
proof -
  from assms(3) obtain a' where a': "final u (MakeIntersect as) = Some a'" "within u j a'" by (rule yieldsE)
  from assms(4) obtain b' where b': "final u (MakeIntersect bs) = Some b'" "within u k b'" by (rule yieldsE)
  from make_if_within[OF u assms(2), of a' b'] a' b' obtain t where
    "final u (MakeIf c a' b') = Some t" "within u (1 + load a' + load b') t" by (auto elim: yieldsE)
  with a' b' show ?thesis by auto
qed

lemma distribute_within:
  assumes u: "hash_consed u" and "\<And>t. t \<in> set ts \<Longrightarrow> yields u (MakeIntersect (g t)) (within u (load t * k))"
    and "1 \<le> k"
  shows "\<exists>t. (do { ts' \<leftarrow> omap (\<lambda>t. final u (MakeIntersect (g t))) ts; Some (transition_union u ts') }) = Some t \<and>
    within u (load (Union ts) * k) t"
proof -
  from yields_map[OF assms(2)] obtain ts' where ts': "omap (\<lambda>t. final u (MakeIntersect (g t))) ts = Some ts'"
    "list_all2 (\<lambda>t. within u (load t * k)) ts ts'" .
  have "1 + (\<Sum>t\<leftarrow>ts. load t * k) \<le> load (Union ts) * k"
    using assms(3) by (simp add: sum_list_mult_const)
  with union_of[OF u ts'(2)] ts'(1) show ?thesis by auto
qed

text \<open>A pair only asks for pairs of smaller load.\<close>

lemma union_pair_within:
  assumes u: "hash_consed u" and l: "l = Union ts" and nf: "tnf u l" "tnf u r"
    and small: "\<And>k. k < load l * load r \<Longrightarrow> pairs_within u k"
    and g: "\<And>t. g t = [t, r] \<or> g t = [r, t]"
  shows "\<exists>t. (do { ts' \<leftarrow> omap (\<lambda>t. final u (MakeIntersect (g t))) ts; Some (transition_union u ts') }) = Some t \<and>
    within u (load l * load r) t"
  unfolding l
proof (rule distribute_within[OF u])
  show "1 \<le> load r" by simp
  fix t assume t: "t \<in> set ts"
  have "load t < load l" using member_le_sum_list_nat[OF t, of load] by (simp add: l)
  then have "pairs_within u (load t * load r)" using small by simp
  then show "yields u (MakeIntersect (g t)) (within u (load t * load r))"
    using intersect2_within[OF u, of t r] intersect2_within[OF u, of r t] g[of t] nf t
    by (auto simp: l mult.commute)
qed

lemma if_pair_within:
  assumes u: "hash_consed u" and nf: "tnf u (If c a b)" "tnf u r"
    and small: "\<And>k. k < load (If c a b) * load r \<Longrightarrow> pairs_within u k"
    and ab: "as = [a, r] \<and> bs = [b, r] \<or> as = [r, a] \<and> bs = [r, b]"
  shows "\<exists>t. (do { a' \<leftarrow> final u (MakeIntersect as); b' \<leftarrow> final u (MakeIntersect bs);
      final u (MakeIf c a' b') }) = Some t \<and> within u (load (If c a b) * load r) t"
proof -
  have "load a * load r < load (If c a b) * load r" "load b * load r < load (If c a b) * load r"
    by (intro mult_strict_right_mono; simp)+
  then have "pairs_within u (load a * load r)" "pairs_within u (load b * load r)"
    using small by blast+
  then have "yields u (MakeIntersect as) (within u (load a * load r))"
    "yields u (MakeIntersect bs) (within u (load b * load r))"
    using intersect2_within[OF u, of a r] intersect2_within[OF u, of r a]
      intersect2_within[OF u, of b r] intersect2_within[OF u, of r b] ab nf
    by (auto simp: mult.commute)
  from expand_within[OF u _ this, of c] nf(1) obtain t where
    t: "(do { a' \<leftarrow> final u (MakeIntersect as); b' \<leftarrow> final u (MakeIntersect bs);
      final u (MakeIf c a' b') }) = Some t" "within u (1 + load a * load r + load b * load r) t" by auto
  have "1 + load a * load r + load b * load r \<le> load (If c a b) * load r"
    by (simp add: algebra_simps Suc_le_eq)
  with t show ?thesis by auto
qed

lemma conditionals_within:
  assumes u: "hash_consed u" and nf: "tnf u (If lt la lb)" "tnf u (If rt ra rb)"
    and small: "\<And>k. k < load (If lt la lb) * load (If rt ra rb) \<Longrightarrow> pairs_within u k"
  shows "\<exists>t. transition_intersect_conditionals u (final u) lt la lb rt ra rb = Some t \<and>
    within u (load (If lt la lb) * load (If rt ra rb)) t"
proof -
  let ?K = "load (If lt la lb) * load (If rt ra rb)"
  have guard: "test_nf u (test_and u [lt, rt])" using u nf by (auto intro!: nf_intros)
  have aa: "yields u (MakeIntersect [la, ra]) (within u (load la * load ra))"
    and bb: "yields u (MakeIntersect [lb, rb]) (within u (load lb * load rb))"
    using nf by (auto intro!: intersect2_within[OF u] small simp: algebra_simps)
  have left: "\<exists>t. (do { a' \<leftarrow> final u (MakeIntersect [la, If rt ra rb]);
        b' \<leftarrow> final u (MakeIntersect [lb, If rt ra rb]); final u (MakeIf lt a' b') }) = Some t \<and> within u ?K t"
    by (rule if_pair_within[OF u nf small]) simp_all
  have right: "\<exists>t. (do { a' \<leftarrow> final u (MakeIntersect [If lt la lb, ra]);
        b' \<leftarrow> final u (MakeIntersect [If lt la lb, rb]); final u (MakeIf rt a' b') }) = Some t \<and> within u ?K t"
    using if_pair_within[OF u nf(2,1), of "[If lt la lb, ra]" "[If lt la lb, rb]"] small
    by (simp add: mult.commute)
  have same: "\<exists>t. (do { a' \<leftarrow> final u (MakeIntersect [la, ra]);
        b' \<leftarrow> final u (MakeIntersect [lb, rb]); final u (MakeIf lt a' b') }) = Some t \<and> within u ?K t"
    using expand_within[OF u _ aa bb, of lt] nf by (auto simp: algebra_simps)
  from aa obtain a' where a': "final u (MakeIntersect [la, ra]) = Some a'" "within u (load la * load ra) a'"
    by (rule yieldsE)
  from make_if_within[OF u guard, of a' "Const REmpty"] a'(2) obtain t where
    t: "final u (MakeIf (test_and u [lt, rt]) a' (Const REmpty)) = Some t"
      "within u (1 + load a' + 1) t" by (auto elim: yieldsE)
  have "within u ?K t" if "lb = Const REmpty" "rb = Const REmpty"
    using t(2) a'(2) that by (auto simp: algebra_simps)
  with a'(1) t(1) have guards: "lb = Const REmpty \<Longrightarrow> rb = Const REmpty \<Longrightarrow>
      \<exists>t. (do { a' \<leftarrow> final u (MakeIntersect [la, ra]);
        final u (MakeIf (test_and u [lt, rt]) a' (Const REmpty)) }) = Some t \<and> within u ?K t" by simp
  have "within u ?K (Const REmpty)" by simp
  with left right same guards show ?thesis
    unfolding transition_intersect_conditionals_def Let_def by auto
qed

lemma pair_within:
  assumes u: "hash_consed u"
  shows "tnf u l \<Longrightarrow> tnf u r \<Longrightarrow> yields u (IntersectPair l r) (within u (load l * load r))"
proof (induction "load l * load r" arbitrary: l r rule: less_induct)
  case less
  have small: "\<And>k. k < load l * load r \<Longrightarrow> pairs_within u k"
    unfolding pairs_within_def using less.hyps by (metis le_less_trans)
  have small': "\<And>k. k < load r * load l \<Longrightarrow> pairs_within u k"
    using small by (simp add: mult.commute)
  have prod: "1 \<le> load l * load r" "load l \<le> load l * load r" "load r \<le> load l * load r"
    by (simp_all add: Suc_le_eq)
  show ?case
  proof (cases "l = r \<or> l = Const REmpty \<or> r = Const REmpty \<or> l = Const RAll \<or> r = Const RAll")
    case True
    then have "\<exists>t. transition_intersect_pair u (final u) l r = Some t \<and> within u (load l * load r) t"
      using less.prems prod by (auto simp: transition_intersect_pair_def)
    then show ?thesis by (simp add: yields_def final_steps(4))
  next
    case False
    have "\<exists>t. transition_intersect_pair u (final u) l r = Some t \<and> within u (load l * load r) t"
      if "\<not> (lit u l \<and> lit u r)"
    proof (rule transition_shape[of l]; rule transition_shape[of r])
      fix ts ts' assume lr: "l = Union ts" "r = Union ts'"
      show ?thesis
        using union_pair_within[OF u lr(1) less.prems small, of "\<lambda>t. [t, r]"] False
        by (simp add: transition_intersect_pair_def lr)
    next
      fix ts c a b assume lr: "l = Union ts" "r = If c a b"
      show ?thesis
        using union_pair_within[OF u lr(1) less.prems small, of "\<lambda>t. [t, r]"] False
        by (simp add: transition_intersect_pair_def lr)
    next
      fix ts assume lr: "l = Union ts" "\<forall>ts. r \<noteq> Union ts" "\<forall>c a b. r \<noteq> If c a b"
      show ?thesis
        using union_pair_within[OF u lr(1) less.prems small, of "\<lambda>t. [t, r]"] False lr(2,3)
        by (cases r) (simp_all add: transition_intersect_pair_def lr(1))
    next
      fix c a b ts assume lr: "l = If c a b" "r = Union ts"
      show ?thesis
        using union_pair_within[OF u lr(2) less.prems(2,1) small', of "\<lambda>t. [l, t]"] False
        by (simp add: transition_intersect_pair_def lr mult.commute)
    next
      fix c a b c' a' b' assume lr: "l = If c a b" "r = If c' a' b'"
      have "transition_intersect_pair u (final u) l r =
          transition_intersect_conditionals u (final u) c a b c' a' b'"
        using False by (simp del: transition.inject add: lr transition_intersect_pair_def final_steps(5))
      then show ?thesis
        using conditionals_within[OF u, of c a b c' a' b'] less.prems small
        by (simp only: lr)
    next
      fix c a b assume lr: "l = If c a b" "\<forall>ts. r \<noteq> Union ts" "\<forall>c a b. r \<noteq> If c a b"
      show ?thesis
        using if_pair_within[OF u less.prems(1)[unfolded lr(1)] less.prems(2), of "[a, r]" "[b, r]"]
          small False lr(2,3)
        by (cases r) (simp_all add: transition_intersect_pair_def lr(1))
    next
      fix ts assume lr: "\<forall>ts. l \<noteq> Union ts" "\<forall>c a b. l \<noteq> If c a b" "r = Union ts"
      show ?thesis
        using union_pair_within[OF u lr(3) less.prems(2,1) small', of "\<lambda>t. [l, t]"] False lr(1,2)
        by (cases l) (simp_all add: transition_intersect_pair_def lr(3) mult.commute)
    next
      fix c a b assume lr: "\<forall>ts. l \<noteq> Union ts" "\<forall>c a b. l \<noteq> If c a b" "r = If c a b"
      show ?thesis
        using if_pair_within[OF u less.prems(2)[unfolded lr(3)] less.prems(1), of "[l, a]" "[l, b]"]
          small' False lr(1,2)
        by (cases l) (simp_all add: transition_intersect_pair_def lr(3) mult.commute)
    next
      assume lr: "\<forall>ts. l \<noteq> Union ts" "\<forall>c a b. l \<noteq> If c a b" "\<forall>ts. r \<noteq> Union ts" "\<forall>c a b. r \<noteq> If c a b"
      have "lit u l" using less.prems(1) lr(1,2) by (cases l) auto
      moreover have "lit u r" using less.prems(2) lr(3,4) by (cases r) auto
      ultimately show ?thesis using that by blast
    qed
    moreover have "yields u (IntersectPair l r) (within u (load l * load r))" if "lit u l" "lit u r"
    proof -
      from pair_lit[OF u that] obtain t where "final u (IntersectPair l r) = Some t" "lit u t"
        by (rule yieldsE)
      moreover from this have "within u (load l * load r) t" using lit_load[of u t] prod(1) lit_tnf by auto
      ultimately show ?thesis unfolding yields_def by blast
    qed
    ultimately show ?thesis by (auto simp: yields_def final_steps(4))
  qed
qed

lemma intersect_tnf:
  assumes "hash_consed u" "\<forall>t \<in> set ts. tnf u t"
  shows "yields u (MakeIntersect ts) (tnf u)"
proof -
  have "pairs_within u (prod_list (map load ts))"
    using pair_within[OF assms(1)] by (simp add: pairs_within_def)
  from intersect_within[OF assms(1) this assms(2)] show ?thesis by (auto simp: yields_def)
qed

lemma make_if_tnf:
  assumes "hash_consed u" "test_nf u c" "tnf u a" "tnf u b"
  shows "yields u (MakeIf c a b) (tnf u)"
  using make_if_within[OF assms] by (auto simp: yields_def)

lemma union_tnf: "hash_consed u \<Longrightarrow> \<forall>t \<in> set ts. tnf u t \<Longrightarrow> tnf u (transition_union u ts)"
  using union_within by blast

lemma yields_list:
  assumes "\<And>t. t \<in> set ts \<Longrightarrow> yields u (g t) (tnf u)"
  obtains ts' where "omap (\<lambda>t. final u (g t)) ts = Some ts'" "\<forall>t \<in> set ts'. tnf u t"
proof -
  from yields_map[of ts u g "\<lambda>_. tnf u", OF assms] obtain ts' where
    "omap (\<lambda>t. final u (g t)) ts = Some ts'" "list_all2 (\<lambda>_. tnf u) ts ts'" .
  then show ?thesis using that by (simp add: list_all2_conv_all_nth all_set_conv_all_nth)
qed

lemma not_tnf:
  assumes u: "hash_consed u"
  shows "tnf u t \<Longrightarrow> yields u (MakeNot t) (tnf u)"
proof (induction t)
  case (Const r)
  then have "regex_nf u (regex_not r)" by (intro nf_intros) simp
  then show ?case by (simp add: yields_def final_steps transition_not_def)
next
  case (If c a b)
  then obtain a' b' where ab: "final u (MakeNot a) = Some a'" "tnf u a'" "final u (MakeNot b) = Some b'" "tnf u b'"
    by (auto simp: yields_def)
  have not: "test_nf u (test_not u c)" using u If.prems by (auto intro!: nf_intros)
  from make_if_tnf[OF u not, of "Const RAll" "Const REmpty"] make_if_tnf[OF u _ ab(2,4), of c] If.prems ab
  show ?case by (auto simp: yields_def final_steps(7)[of u "If c a b"] transition_not_def)
next
  case (Union ts)
  then have "\<And>t. t \<in> set ts \<Longrightarrow> yields u (MakeNot t) (tnf u)" by simp
  from yields_list[OF this] obtain ts' where ts': "omap (\<lambda>t. final u (MakeNot t)) ts = Some ts'"
    "\<forall>t \<in> set ts'. tnf u t" .
  from intersect_tnf[OF u ts'(2)] ts'(1) show ?case
    by (auto simp: yields_def final_steps(7)[of u "Union ts"] transition_not_def)
next
  case (Intersect ts)
  then have "\<And>t. t \<in> set ts \<Longrightarrow> yields u (MakeNot t) (tnf u)" by (simp add: lit_tnf)
  from yields_list[OF this] obtain ts' where ts': "omap (\<lambda>t. final u (MakeNot t)) ts = Some ts'"
    "\<forall>t \<in> set ts'. tnf u t" .
  from union_tnf[OF u ts'(2)] ts'(1) show ?case
    by (auto simp: yields_def final_steps(7)[of u "Intersect ts"] transition_not_def)
qed (auto simp: yields_def final_steps transition_not_def)

lemma append_lit_tnf:
  assumes "hash_consed u" "lit u t" "\<forall>r \<in> set rs. regex_nf u r"
  shows "yields u (MakeAppend t rs) (tnf u)"
proof -
  from append_lit[OF assms] obtain t' where "final u (MakeAppend t rs) = Some t'" "lit u t'"
    by (auto elim: yieldsE)
  then show ?thesis unfolding yields_def using lit_tnf by blast
qed

lemma append_tnf:
  assumes u: "hash_consed u"
  shows "tnf u t \<Longrightarrow> \<forall>r \<in> set rs. regex_nf u r \<Longrightarrow> yields u (MakeAppend t rs) (tnf u)"
proof (induction t arbitrary: rs)
  case (If c a b)
  let ?fs = "suffix_factors (regex_concat rs)"
  have fs: "\<forall>r \<in> set ?fs. regex_nf u r"
    by (intro suffix_factors_sound nf_intros If.prems(2))
  have "yields u (MakeAppend a ?fs) (tnf u)" "yields u (MakeAppend b ?fs) (tnf u)"
    using If.prems(1) fs by (auto intro!: If.IH)
  then obtain a' b' where ab: "final u (MakeAppend a ?fs) = Some a'" "tnf u a'"
    "final u (MakeAppend b ?fs) = Some b'" "tnf u b'"
    by (elim yieldsE) blast
  from make_if_tnf[OF u _ ab(2,4), of c] If.prems ab show ?case
    by (auto simp: yields_def final_steps(8)[of u "If c a b"] transition_append_def Let_def)
next
  case (Union ts)
  let ?fs = "suffix_factors (regex_concat rs)"
  have fs: "\<forall>r \<in> set ?fs. regex_nf u r"
    by (intro suffix_factors_sound nf_intros Union.prems(2))
  with Union have "\<And>t. t \<in> set ts \<Longrightarrow> yields u (MakeAppend t ?fs) (tnf u)" by simp
  from yields_list[OF this] obtain ts' where ts': "omap (\<lambda>t. final u (MakeAppend t ?fs)) ts = Some ts'"
    "\<forall>t \<in> set ts'. tnf u t" .
  from union_tnf[OF u ts'(2)] ts'(1) Union.prems show ?case
    by (auto simp: yields_def final_steps(8)[of u "Union ts"] transition_append_def Let_def)
qed (use append_lit_tnf[OF u] in \<open>simp_all only: tnf.simps\<close>)

section \<open>Every constructor returns\<close>

text \<open>The calls on normal operands; the two private helpers are reached only through the others.\<close>

fun ready :: "'s uids \<Rightarrow> 's call \<Rightarrow> bool" where
  "ready u (CleanPath t path) = (tnf u t \<and> test_nf u path)"
| "ready u (MakeIf t a b) = (test_nf u t \<and> tnf u a \<and> tnf u b)"
| "ready u (IntersectPair l r) = (tnf u l \<and> tnf u r)"
| "ready u (MakeIntersect ts) = (\<forall>t \<in> set ts. tnf u t)"
| "ready u (MakeNot t) = tnf u t"
| "ready u (MakeAppend t rs) = (tnf u t \<and> (\<forall>r \<in> set rs. regex_nf u r))"
| "ready u (CleanIf _ _ _ _) = False"
| "ready u (IntersectIfs _ _ _ _ _ _) = False"

lemma ready_call_ok: "ready u c \<Longrightarrow> call_ok u c"
  by (cases c) (auto intro: tnf_tr_nf)

lemma ready_yields:
  assumes u: "hash_consed u" and c: "ready u c"
  shows "yields u c (tnf u)"
proof (cases c)
  case (CleanPath t path)
  with c clean_within[OF u, of t path] show ?thesis by (auto simp: yields_def)
next
  case (IntersectPair l r)
  with c pair_within[OF u, of l r] show ?thesis by (auto simp: yields_def)
qed (use c in \<open>auto intro: make_if_tnf[OF u] intersect_tnf[OF u] not_tnf[OF u] append_tnf[OF u]\<close>)

lemma ready_returns:
  assumes u: "hash_consed u" and c: "ready u c"
  shows "\<exists>t. settles (\<lambda>n. run u n c) (Some t) \<and> tnf u t \<and> (\<forall>x \<in> scope c. step_lang t x = meaning c x)"
proof -
  obtain t where t: "final u c = Some t" "tnf u t" using ready_yields[OF u c] by (auto simp: yields_def)
  moreover have "settles (\<lambda>n. run u n c) (Some t)" using settles_run[of u c] t(1) by simp
  ultimately show ?thesis using final_sound[OF u] ready_call_ok[OF c] unfolding sound_def by blast
qed

end
