(* ===== verification/Symbolic.thy ===== *)
theory Symbolic
  imports Totality
begin

unbundle bit_operations_syntax

text \<open>
  Symbolic derivatives and their interpretation: \<^verbatim>\<open>rust-validator/src/syntax/symbolic.rs\<close>, with
  the event tests of \<^verbatim>\<open>evaluate.rs\<close>.

  A rule keeps a cache of event-independent derivatives and of dense successor tables, filled by
  \<open>precompile\<close> within fixed budgets; a replay keeps a cache of successors for its one
  substitution. The lemmas show that no cache changes a result: the successor an instantiation
  returns is the one evaluating the transition returns, and the final state is nullable exactly
  when the history is in the language of the root.
\<close>

definition MAX_PRECOMPILED_ATOMS :: nat where "MAX_PRECOMPILED_ATOMS = 12"
definition MAX_PRECOMPILED_MINTERMS :: nat where "MAX_PRECOMPILED_MINTERMS = 4096"
definition MAX_PRECOMPILED_STATES :: nat where "MAX_PRECOMPILED_STATES = 64"

section \<open>Atoms of a transition\<close>

text \<open>
  The atoms are collected in first-seen order, each shared node visited once.
\<close>

fun collect_test_atoms ::
      "'s test \<Rightarrow> 's test set \<times> 's compiled_atom list \<Rightarrow> 's test set \<times> 's compiled_atom list"
  and collect_tests_atoms ::
      "'s test list \<Rightarrow> 's test set \<times> 's compiled_atom list \<Rightarrow> 's test set \<times> 's compiled_atom list"
where
  "collect_test_atoms t (visited, atoms) =
     (if t \<in> visited then (visited, atoms)
      else
        let visited' = insert t visited in
        case t of
          TTrue \<Rightarrow> (visited', atoms)
        | TFalse \<Rightarrow> (visited', atoms)
        | TAtom _ pattern \<Rightarrow> (visited', atoms @ [pattern])
        | TAnd ts \<Rightarrow> collect_tests_atoms ts (visited', atoms)
        | TOr ts \<Rightarrow> collect_tests_atoms ts (visited', atoms))"
| "collect_tests_atoms [] acc = acc"
| "collect_tests_atoms (t # ts) acc = collect_tests_atoms ts (collect_test_atoms t acc)"

type_synonym 's collection = "'s transition set \<times> 's test set \<times> 's compiled_atom list"

fun collect_transition_atoms_into :: "'s transition \<Rightarrow> 's collection \<Rightarrow> 's collection"
  and collect_transitions_atoms :: "'s transition list \<Rightarrow> 's collection \<Rightarrow> 's collection"
where
  "collect_transition_atoms_into t (visited, tests) =
     (if t \<in> visited then (visited, tests)
      else
        let visited' = insert t visited in
        case t of
          Const _ \<Rightarrow> (visited', tests)
        | If test a b \<Rightarrow>
            collect_transition_atoms_into b
              (collect_transition_atoms_into a (visited', collect_test_atoms test tests))
        | Union ts \<Rightarrow> collect_transitions_atoms ts (visited', tests)
        | Intersect ts \<Rightarrow> collect_transitions_atoms ts (visited', tests)
        | Not inner \<Rightarrow> collect_transition_atoms_into inner (visited', tests)
        | Append inner _ \<Rightarrow> collect_transition_atoms_into inner (visited', tests))"
| "collect_transitions_atoms [] acc = acc"
| "collect_transitions_atoms (t # ts) acc =
     collect_transitions_atoms ts (collect_transition_atoms_into t acc)"

text \<open>\<open>retain(|atom| seen.insert(*atom))\<close> keeps the first occurrence of each atom.\<close>

definition first_seen :: "'a list \<Rightarrow> 'a list" where
  "first_seen xs = rev (remdups (rev xs))"

definition collect_transition_atoms :: "'s transition \<Rightarrow> 's compiled_atom list" where
  "collect_transition_atoms t =
     first_seen (snd (snd (collect_transition_atoms_into t ({}, {}, []))))"

section \<open>Evaluation\<close>

text \<open>The test of one bit of a minterm; an atom outside the table is a failed \<open>expect\<close>.\<close>

definition minterm_bit :: "'s compiled_atom list \<Rightarrow> nat \<Rightarrow> 's compiled_atom \<Rightarrow> bool" where
  "minterm_bit atoms minterm atom =
     bit minterm (length (takeWhile (\<lambda>a. a \<noteq> atom) atoms))"

definition eval_test_minterm :: "'s test \<Rightarrow> 's compiled_atom list \<Rightarrow> nat \<Rightarrow> bool" where
  "eval_test_minterm t atoms minterm = test_under (minterm_bit atoms minterm) t"

text \<open>
  Both interpreters of a transition have one shape: they differ in how a test is decided.
\<close>

fun evaluate_with :: "'s uids \<Rightarrow> ('s test \<Rightarrow> bool) \<Rightarrow> 's transition \<Rightarrow> 's regex" where
  "evaluate_with u holds (Const r) = r"
| "evaluate_with u holds (If test a b) =
     (if holds test then evaluate_with u holds a else evaluate_with u holds b)"
| "evaluate_with u holds (Union ts) = regex_union u (map (evaluate_with u holds) ts)"
| "evaluate_with u holds (Intersect ts) = regex_intersect u (map (evaluate_with u holds) ts)"
| "evaluate_with u holds (Not t) = regex_not (evaluate_with u holds t)"
| "evaluate_with u holds (Append t suffix) = regex_concat (evaluate_with u holds t # suffix)"

definition evaluate_minterm ::
  "'s uids \<Rightarrow> 's transition \<Rightarrow> 's compiled_atom list \<Rightarrow> nat \<Rightarrow> 's regex" where
  "evaluate_minterm u t atoms minterm =
     evaluate_with u (\<lambda>test. eval_test_minterm test atoms minterm) t"

definition evaluate ::
  "'s uids \<Rightarrow> (string \<Rightarrow> 's) \<Rightarrow> 's transition \<Rightarrow> 's substitution \<Rightarrow> event \<Rightarrow> 's regex" where
  "evaluate u intern t \<sigma> e = evaluate_with u (\<lambda>test. eval_test intern test e \<sigma>) t"

section \<open>Derivatives\<close>

record 's derivative_cache =
  dc_derivatives :: "'s regex \<rightharpoonup> 's transition"
  dc_minterms :: "'s transition \<rightharpoonup> 's regex list"

definition empty_cache :: "'s derivative_cache" where
  "empty_cache = \<lparr>dc_derivatives = Map.empty, dc_minterms = Map.empty\<rparr>"

text \<open>
  The derivative of a regex, looked up in the cache first and recorded there. \<open>call\<close> is the
  transition constructors with the fuel they have; the recursion is on the regex.
\<close>

fun derivative ::
      "'s uids \<Rightarrow> 's caller \<Rightarrow> 's regex \<Rightarrow> 's derivative_cache \<Rightarrow> ('s transition \<times> 's derivative_cache) option"
  and derivatives ::
      "'s uids \<Rightarrow> 's caller \<Rightarrow> 's regex list \<Rightarrow> 's derivative_cache \<Rightarrow>
         ('s transition list \<times> 's derivative_cache) option"
  and concat_alternatives ::
      "'s uids \<Rightarrow> 's caller \<Rightarrow> 's regex list \<Rightarrow> 's derivative_cache \<Rightarrow>
         ('s transition list \<times> 's derivative_cache) option"
where
  "derivative u call r cache =
     (case dc_derivatives cache r of
        Some t \<Rightarrow> Some (t, cache)
      | None \<Rightarrow> do {
          (t, cache') \<leftarrow>
            (case r of
               REmpty \<Rightarrow> Some (Const REmpty, cache)
             | REpsilon \<Rightarrow> Some (Const REmpty, cache)
             | RAll \<Rightarrow> Some (Const RAll, cache)
             | RTest test \<Rightarrow> do {
                 t \<leftarrow> call (MakeIf test (Const REpsilon) (Const REmpty));
                 Some (t, cache) }
             | RUnion rs \<Rightarrow> do {
                 (ts, cache') \<leftarrow> derivatives u call rs cache;
                 Some (transition_union u ts, cache') }
             | RIntersect rs \<Rightarrow> do {
                 (ts, cache') \<leftarrow> derivatives u call rs cache;
                 t \<leftarrow> call (MakeIntersect ts);
                 Some (t, cache') }
             | RNot inner \<Rightarrow> do {
                 (t, cache') \<leftarrow> derivative u call inner cache;
                 t' \<leftarrow> call (MakeNot t);
                 Some (t', cache') }
             | RConcat factors \<Rightarrow> do {
                 (ts, cache') \<leftarrow> concat_alternatives u call factors cache;
                 Some (transition_union u ts, cache') }
             | RStar inner \<Rightarrow> do {
                 (t, cache') \<leftarrow> derivative u call inner cache;
                 t' \<leftarrow> call (MakeAppend t [r]);
                 Some (t', cache') });
          Some (t, cache'\<lparr>dc_derivatives := (dc_derivatives cache')(r \<mapsto> t)\<rparr>) })"
| "derivatives u call [] cache = Some ([], cache)"
| "derivatives u call (r # rs) cache = do {
     (t, cache') \<leftarrow> derivative u call r cache;
     (ts, cache'') \<leftarrow> derivatives u call rs cache';
     Some (t # ts, cache'') }"
| "concat_alternatives u call [] cache = Some ([], cache)"
| "concat_alternatives u call (factor # suffix) cache = do {
     (t, cache') \<leftarrow> derivative u call factor cache;
     t' \<leftarrow> call (MakeAppend t suffix);
     if nullable factor then do {
       (ts, cache'') \<leftarrow> concat_alternatives u call suffix cache';
       Some (t' # ts, cache'') }
     else Some ([t'], cache') }"

declare derivative.simps [simp del]

section \<open>Precompilation\<close>

text \<open>
  The body of the exploration loop for the state it just took from the queue: the queue, the
  states seen, the minterms compiled so far and the cache that it leaves.
\<close>

definition precompile_visit ::
  "'s uids \<Rightarrow> 's caller \<Rightarrow> 's regex \<Rightarrow> 's regex list \<Rightarrow> 's regex list \<Rightarrow> nat \<Rightarrow> 's derivative_cache \<Rightarrow>
   ('s regex list \<times> 's regex list \<times> nat \<times> 's derivative_cache) option" where
  "precompile_visit u call regex pending seen compiled cache =
     (if regex \<in> set seen then Some (pending, seen, compiled, cache)
      else do {
        (transition, cache') \<leftarrow> derivative u call regex cache;
        let seen' = regex # seen in
        if const_of transition \<noteq> None then Some (pending, seen', compiled, cache')
        else case dc_minterms cache' transition of
          Some successors \<Rightarrow> Some (pending @ successors, seen', compiled, cache')
        | None \<Rightarrow>
            let atoms = collect_transition_atoms transition in
            if length atoms > MAX_PRECOMPILED_ATOMS then Some (pending, seen', compiled, cache')
            else
              let minterm_count = 2 ^ length atoms in
              if compiled + minterm_count > MAX_PRECOMPILED_MINTERMS
              then Some (pending, seen', compiled, cache')
              else
                let successors = map (evaluate_minterm u transition atoms) [0..<minterm_count] in
                Some (pending @ successors, seen', compiled + minterm_count,
                      cache'\<lparr>dc_minterms := (dc_minterms cache')(transition \<mapsto> successors)\<rparr>) })"

lemma precompile_visit_progress:
  "precompile_visit u call regex pending seen compiled cache = Some (pending', seen', compiled', cache') \<Longrightarrow>
   seen' = regex # seen \<or> seen' = seen \<and> pending' = pending"
  by (auto simp: precompile_visit_def Let_def split: if_splits Option.bind_splits option.splits)

function precompile_loop ::
  "'s uids \<Rightarrow> 's caller \<Rightarrow> 's regex list \<Rightarrow> 's regex list \<Rightarrow> nat \<Rightarrow> 's derivative_cache \<Rightarrow>
   's derivative_cache option" where
  "precompile_loop u call pending seen compiled cache =
     (if length seen < MAX_PRECOMPILED_STATES then
        (case pending of
           [] \<Rightarrow> Some cache
         | regex # rest \<Rightarrow>
             (case precompile_visit u call regex rest seen compiled cache of
                None \<Rightarrow> None
              | Some (pending', seen', compiled', cache') \<Rightarrow>
                  precompile_loop u call pending' seen' compiled' cache'))
      else Some cache)"
  by pat_completeness auto
termination
  by (relation "measures [\<lambda>(u, call, pending, seen, compiled, cache). MAX_PRECOMPILED_STATES - length seen,
       \<lambda>(u, call, pending, seen, compiled, cache). length pending]")
    (auto dest!: precompile_visit_progress)

declare precompile_loop.simps [simp del]

definition precompile ::
  "'s uids \<Rightarrow> 's caller \<Rightarrow> 's regex \<Rightarrow> 's derivative_cache \<Rightarrow> 's derivative_cache option" where
  "precompile u call root cache = precompile_loop u call [root] [] 0 cache"

section \<open>Replay\<close>

text \<open>The successors selected under one substitution.\<close>

record 's instances =
  in_values :: "('s transition \<times> bool list) \<rightharpoonup> 's regex"
  in_last :: "('s transition \<times> event \<times> 's regex) option"

definition new_instances :: "'s instances" where
  "new_instances = \<lparr>in_values = Map.empty, in_last = None\<rparr>"

definition atom_truth_assignment ::
  "(string \<Rightarrow> 's) \<Rightarrow> 's transition \<Rightarrow> 's substitution \<Rightarrow> event \<Rightarrow> bool list" where
  "atom_truth_assignment intern t \<sigma> e =
     map (atom_matches intern \<sigma> e) (collect_transition_atoms t)"

text \<open>The bits of an assignment, atom \<open>i\<close> at bit \<open>i\<close>.\<close>

fun minterm_fold :: "bool list \<Rightarrow> nat \<Rightarrow> nat \<Rightarrow> nat" where
  "minterm_fold [] index assignment = assignment"
| "minterm_fold (b # bs) index assignment =
     minterm_fold bs (Suc index) (assignment OR push_bit index (of_bool b))"

definition repeated_instance :: "'s instances \<Rightarrow> 's transition \<Rightarrow> event \<Rightarrow> 's regex option" where
  "repeated_instance inst t e = (case in_last inst of
     Some (t', e', r) \<Rightarrow> if t' = t \<and> e' = e then Some r else None
   | None \<Rightarrow> None)"

definition instantiate ::
  "'s uids \<Rightarrow> (string \<Rightarrow> 's) \<Rightarrow> 's derivative_cache \<Rightarrow> 's transition \<Rightarrow> 's substitution \<Rightarrow> event \<Rightarrow>
   's instances \<Rightarrow> 's regex \<times> 's instances" where
  "instantiate u intern cache t \<sigma> e inst =
     (case const_of t of
        Some r \<Rightarrow> (r, inst)
      | None \<Rightarrow>
          case repeated_instance inst t e of
            Some r \<Rightarrow> (r, inst)
          | None \<Rightarrow>
              let assignment = atom_truth_assignment intern t \<sigma> e in
              (case dc_minterms cache t of
                 Some successors \<Rightarrow>
                   let r = successors ! minterm_fold assignment 0 0 in
                   (r, inst\<lparr>in_last := Some (t, e, r)\<rparr>)
               | None \<Rightarrow>
                   let key = (t, assignment) in
                   (case in_values inst key of
                      Some r \<Rightarrow> (r, inst\<lparr>in_last := Some (t, e, r)\<rparr>)
                    | None \<Rightarrow>
                        let r = evaluate u intern t \<sigma> e in
                        (r, inst\<lparr>in_values := (in_values inst)(key \<mapsto> r),
                                 in_last := Some (t, e, r)\<rparr>))))"

text \<open>
  The replay of a history. The derivative of the state before the last event is remembered, and
  the replay stops at the universal and the empty language.
\<close>

fun replay ::
  "'s uids \<Rightarrow> 's caller \<Rightarrow> (string \<Rightarrow> 's) \<Rightarrow> 's substitution \<Rightarrow> 's regex \<Rightarrow> ('s regex \<times> 's transition) option \<Rightarrow>
   event list \<Rightarrow> 's derivative_cache \<Rightarrow> 's instances \<Rightarrow> ('s regex \<times> 's derivative_cache) option"
where
  "replay u call intern \<sigma> state previous [] cache inst = Some (state, cache)"
| "replay u call intern \<sigma> state previous (e # history) cache inst =
     (if state = RAll \<or> state = REmpty then Some (state, cache)
      else do {
        (t, cache') \<leftarrow>
          (case previous of
             Some (previous_state, t) \<Rightarrow>
               if previous_state = state then Some (t, cache) else derivative u call state cache
           | None \<Rightarrow> derivative u call state cache);
        (let (state', inst') = instantiate u intern cache' t \<sigma> e inst in
         replay u call intern \<sigma> state' (Some (state, t)) history cache' inst') })"

definition accepts ::
  "'s uids \<Rightarrow> 's caller \<Rightarrow> (string \<Rightarrow> 's) \<Rightarrow> 's regex \<Rightarrow> event list \<Rightarrow> 's substitution \<Rightarrow>
   's derivative_cache \<Rightarrow> (bool \<times> 's derivative_cache) option" where
  "accepts u call intern root history \<sigma> cache = do {
     (state, cache') \<leftarrow> replay u call intern \<sigma> root None history cache new_instances;
     Some (nullable state, cache') }"

section \<open>The collected atoms are all the atoms\<close>

fun test_atoms :: "'s test \<Rightarrow> 's compiled_atom set" where
  "test_atoms (TAtom _ p) = {p}"
| "test_atoms (TAnd ts) = (\<Union>t \<in> set ts. test_atoms t)"
| "test_atoms (TOr ts) = (\<Union>t \<in> set ts. test_atoms t)"
| "test_atoms _ = {}"

fun transition_atoms :: "'s transition \<Rightarrow> 's compiled_atom set" where
  "transition_atoms (If test a b) = test_atoms test \<union> transition_atoms a \<union> transition_atoms b"
| "transition_atoms (Union ts) = (\<Union>t \<in> set ts. transition_atoms t)"
| "transition_atoms (Intersect ts) = (\<Union>t \<in> set ts. transition_atoms t)"
| "transition_atoms (Not t) = transition_atoms t"
| "transition_atoms (Append t _) = transition_atoms t"
| "transition_atoms (Const _) = {}"

text \<open>
  A visited node whose atoms are not all collected yet is an ancestor of the node being visited,
  hence larger.
\<close>

definition collected :: "('n \<Rightarrow> nat) \<Rightarrow> ('n \<Rightarrow> 'a set) \<Rightarrow> nat \<Rightarrow> 'n set \<Rightarrow> 'a list \<Rightarrow> bool" where
  "collected m at k visited atoms \<longleftrightarrow> (\<forall>v \<in> visited. m v < k \<longrightarrow> at v \<subseteq> set atoms)"

declare collect_test_atoms.simps [simp del] collect_transition_atoms_into.simps [simp del]

definition extends :: "('n \<Rightarrow> 'a set) \<Rightarrow> 'n set \<Rightarrow> 'a list \<Rightarrow> 'n set \<Rightarrow> 'a list \<Rightarrow> bool" where
  "extends at visited atoms visited' atoms' \<longleftrightarrow> visited \<subseteq> visited' \<and> set atoms \<subseteq> set atoms' \<and>
     (\<forall>v \<in> visited' - visited. at v \<subseteq> set atoms')"

lemma extends_refl: "extends at V A V A"
  by (simp add: extends_def)

lemma extends_trans: "extends at V A V' A' \<Longrightarrow> extends at V' A' V'' A'' \<Longrightarrow> extends at V A V'' A''"
  unfolding extends_def by blast

lemma collected_extends: "collected m at k V A \<Longrightarrow> extends at V A V' A' \<Longrightarrow> collected m at k V' A'"
  unfolding collected_def extends_def by blast

lemma collected_insert: "collected m at k V A \<Longrightarrow> m t < k \<Longrightarrow> collected m at (m t) (insert t V) A"
  unfolding collected_def by auto

lemma extends_insert:
  "extends at (insert t V) A V' A' \<Longrightarrow> at t \<subseteq> set A' \<Longrightarrow> extends at V A V' A'"
  unfolding extends_def by blast

lemma size_member: "t \<in> set ts \<Longrightarrow> size t \<le> size_list size ts"
  by (induction ts) auto

lemma collect_test_atoms_complete:
  "collect_test_atoms t (visited, atoms) = (visited', atoms') \<Longrightarrow> size t < k \<Longrightarrow>
     collected size test_atoms k visited atoms \<Longrightarrow>
     extends test_atoms visited atoms visited' atoms' \<and> test_atoms t \<subseteq> set atoms'"
  "collect_tests_atoms ts acc = (visited', atoms') \<Longrightarrow> (\<forall>t \<in> set ts. size t < k) \<Longrightarrow>
     collected size test_atoms k (fst acc) (snd acc) \<Longrightarrow>
     extends test_atoms (fst acc) (snd acc) visited' atoms' \<and> (\<forall>t \<in> set ts. test_atoms t \<subseteq> set atoms')"
proof (induction t "(visited, atoms)" and ts acc arbitrary: visited atoms visited' atoms' k and visited' atoms' k
    rule: collect_test_atoms_collect_tests_atoms.induct)
  case (1 t visited atoms)
  show ?case
  proof (cases "t \<in> visited")
    case True
    with 1 show ?thesis by (auto simp: collected_def extends_refl collect_test_atoms.simps)
  next
    case False
    note inner = collected_insert[OF 1(5,4)]
    have compound: ?thesis if "collect_tests_atoms ts (insert t visited, atoms) = (visited', atoms')"
      "\<forall>s \<in> set ts. size s < size t" "test_atoms t = (\<Union>s \<in> set ts. test_atoms s)"
      "\<And>V A k. collect_tests_atoms ts (insert t visited, atoms) = (V, A) \<Longrightarrow>
         \<forall>t\<in>set ts. size t < k \<Longrightarrow> collected size test_atoms k (insert t visited) atoms \<Longrightarrow>
         extends test_atoms (insert t visited) atoms V A \<and> (\<forall>t\<in>set ts. test_atoms t \<subseteq> set A)" for ts
      using that(4)[OF that(1,2) inner] that(3) by (auto intro: extends_insert)
    show ?thesis
    proof (cases t)
      case (TAnd ts)
      show ?thesis
        by (rule compound[of ts])
          (use 1(1)[OF False refl TAnd] 1(3) False in
            \<open>auto simp: TAnd collect_test_atoms.simps less_Suc_eq_le size_member\<close>)
    next
      case (TOr ts)
      show ?thesis
        by (rule compound[of ts])
          (use 1(2)[OF False refl TOr] 1(3) False in
            \<open>auto simp: TOr collect_test_atoms.simps less_Suc_eq_le size_member\<close>)
    qed (use 1(3) False in \<open>auto simp: extends_def collect_test_atoms.simps\<close>)
  qed
next
  case (3 t ts acc)
  obtain V A where acc: "acc = (V, A)" by (cases acc)
  obtain V1 A1 where one: "collect_test_atoms t (V, A) = (V1, A1)" by (cases "collect_test_atoms t (V, A)")
  have first: "extends test_atoms V A V1 A1 \<and> test_atoms t \<subseteq> set A1"
    using 3(1)[OF acc one, of k] 3(4,5) acc by simp
  have rest: "extends test_atoms V1 A1 visited' atoms' \<and> (\<forall>t \<in> set ts. test_atoms t \<subseteq> set atoms')"
    using 3(2)[of visited' atoms' k] 3(3,4,5) first acc one by (auto intro: collected_extends)
  have "extends test_atoms V A visited' atoms'" using first rest by (blast intro: extends_trans)
  moreover have "test_atoms t \<subseteq> set atoms'" using first rest unfolding extends_def by blast
  ultimately show ?case using rest by (simp add: acc)
qed (auto simp: extends_refl)

definition complete :: "'s test set \<Rightarrow> 's compiled_atom list \<Rightarrow> bool" where
  "complete T A \<longleftrightarrow> (\<forall>v \<in> T. test_atoms v \<subseteq> set A)"

lemma collect_test_complete:
  assumes "collect_test_atoms t (T, A) = (T', A')" "complete T A"
  shows "set A \<subseteq> set A'" "test_atoms t \<subseteq> set A'" "complete T' A'"
proof -
  have "collected size test_atoms (Suc (size t)) T A" using assms(2) by (auto simp: complete_def collected_def)
  from collect_test_atoms_complete(1)[OF assms(1) lessI this] assms(2)
  show "set A \<subseteq> set A'" "test_atoms t \<subseteq> set A'" "complete T' A'"
    unfolding extends_def complete_def by blast+
qed

definition gathers ::
  "'s collection \<Rightarrow> 's collection \<Rightarrow> bool" where
  "gathers acc acc' \<longleftrightarrow> (case acc of (V, T, A) \<Rightarrow> case acc' of (V', T', A') \<Rightarrow>
     extends transition_atoms V A V' A' \<and> (complete T A \<longrightarrow> complete T' A'))"

definition gathered :: "nat \<Rightarrow> 's collection \<Rightarrow> bool" where
  "gathered k acc \<longleftrightarrow> (case acc of (V, T, A) \<Rightarrow> collected size transition_atoms k V A \<and> complete T A)"

definition atoms_in :: "'s collection \<Rightarrow> 's compiled_atom set" where
  "atoms_in acc = set (snd (snd acc))"

lemma gathers_refl: "gathers acc acc"
  by (auto simp: gathers_def extends_refl)

lemma gathers_trans: "gathers a b \<Longrightarrow> gathers b c \<Longrightarrow> gathers a c"
  by (auto simp: gathers_def intro: extends_trans split: prod.splits)

lemma gathered_gathers: "gathered k a \<Longrightarrow> gathers a b \<Longrightarrow> gathered k b"
  by (auto simp: gathers_def gathered_def intro: collected_extends split: prod.splits)

lemma gathers_atoms: "gathers a b \<Longrightarrow> atoms_in a \<subseteq> atoms_in b"
  by (auto simp: gathers_def extends_def atoms_in_def split: prod.splits)

lemma gathers_insert:
  "gathers (insert t V, T) acc' \<Longrightarrow> transition_atoms t \<subseteq> atoms_in acc' \<Longrightarrow> gathers (V, T) acc'"
  by (auto simp: gathers_def atoms_in_def intro: extends_insert split: prod.splits)

lemma gathered_insert: "gathered k (V, T) \<Longrightarrow> size t < k \<Longrightarrow> gathered (size t) (insert t V, T)"
  by (auto simp: gathered_def intro: collected_insert split: prod.splits)

lemma gathers_test:
  assumes "gathered k (V, T)"
  shows "gathers (V, T) (V, collect_test_atoms t T)" "test_atoms t \<subseteq> atoms_in (V, collect_test_atoms t T)"
proof -
  obtain T0 A where T: "T = (T0, A)" by (cases T)
  obtain T' A' where r: "collect_test_atoms t (T0, A) = (T', A')" by (cases "collect_test_atoms t (T0, A)")
  have "complete T0 A" using assms by (simp add: gathered_def T)
  from collect_test_complete[OF r this]
  show "gathers (V, T) (V, collect_test_atoms t T)" "test_atoms t \<subseteq> atoms_in (V, collect_test_atoms t T)"
    by (auto simp: gathers_def extends_def atoms_in_def T r)
qed

lemma collect_transition_atoms_complete:
  "gathered k acc \<Longrightarrow> size t < k \<Longrightarrow>
     gathers acc (collect_transition_atoms_into t acc) \<and>
     transition_atoms t \<subseteq> atoms_in (collect_transition_atoms_into t acc)"
  "gathered k acc \<Longrightarrow> (\<forall>t \<in> set ts. size t < k) \<Longrightarrow>
     gathers acc (collect_transitions_atoms ts acc) \<and>
     (\<forall>t \<in> set ts. transition_atoms t \<subseteq> atoms_in (collect_transitions_atoms ts acc))"
proof (induction t acc and ts acc arbitrary: k and k
    rule: collect_transition_atoms_into_collect_transitions_atoms.induct)
  case (1 t visited tests)
  show ?case
  proof (cases "t \<in> visited")
    case True
    moreover have "transition_atoms t \<subseteq> atoms_in (visited, tests)"
      using True 1(7,8) unfolding gathered_def collected_def atoms_in_def by (cases tests) auto
    ultimately show ?thesis by (simp add: gathers_refl collect_transition_atoms_into.simps)
  next
    case False
    note inner = gathered_insert[OF 1(7,8)]
    note ih = 1(1-6)[OF False refl]
    show ?thesis
    proof (cases t)
      case (Const r)
      with False show ?thesis
        by (auto simp: gathers_def extends_def collect_transition_atoms_into.simps split: prod.splits)
    next
      case (If test a b)
      let ?tests = "(insert t visited, collect_test_atoms test tests)"
      let ?then = "collect_transition_atoms_into a ?tests"
      note c = gathers_test[OF inner, of test]
      note g1 = gathered_gathers[OF inner c(1)]
      have a: "gathers ?tests ?then \<and> transition_atoms a \<subseteq> atoms_in ?then"
        using ih(1)[OF If g1] by (simp add: If)
      note g2 = gathered_gathers[OF g1 conjunct1[OF a]]
      have b: "gathers ?then (collect_transition_atoms_into b ?then) \<and>
          transition_atoms b \<subseteq> atoms_in (collect_transition_atoms_into b ?then)"
        using ih(2)[OF If g2] by (simp add: If)
      have "gathers (insert t visited, tests) (collect_transition_atoms_into b ?then)"
        using a b c(1) by (blast intro: gathers_trans)
      moreover have "transition_atoms t \<subseteq> atoms_in (collect_transition_atoms_into b ?then)"
        using a b c(2) gathers_atoms[OF conjunct1[OF a]] gathers_atoms[OF conjunct1[OF b]]
        unfolding If transition_atoms.simps by blast
      moreover have "collect_transition_atoms_into t (visited, tests) = collect_transition_atoms_into b ?then"
        using False by (subst collect_transition_atoms_into.simps) (simp add: If)
      ultimately show ?thesis by (simp add: gathers_insert)
    next
      case (Union ts)
      have "gathers (insert t visited, tests) (collect_transitions_atoms ts (insert t visited, tests)) \<and>
        (\<forall>s \<in> set ts. transition_atoms s \<subseteq> atoms_in (collect_transitions_atoms ts (insert t visited, tests)))"
        using ih(3)[OF Union inner] by (simp add: Union less_Suc_eq_le size_member)
      moreover have "collect_transition_atoms_into t (visited, tests) =
          collect_transitions_atoms ts (insert t visited, tests)"
        using False by (subst collect_transition_atoms_into.simps) (simp add: Union)
      moreover have "transition_atoms t = (\<Union>s \<in> set ts. transition_atoms s)" by (simp add: Union)
      ultimately show ?thesis by (auto intro: gathers_insert)
    next
      case (Intersect ts)
      have "gathers (insert t visited, tests) (collect_transitions_atoms ts (insert t visited, tests)) \<and>
        (\<forall>s \<in> set ts. transition_atoms s \<subseteq> atoms_in (collect_transitions_atoms ts (insert t visited, tests)))"
        using ih(4)[OF Intersect inner] by (simp add: Intersect less_Suc_eq_le size_member)
      moreover have "collect_transition_atoms_into t (visited, tests) =
          collect_transitions_atoms ts (insert t visited, tests)"
        using False by (subst collect_transition_atoms_into.simps) (simp add: Intersect)
      moreover have "transition_atoms t = (\<Union>s \<in> set ts. transition_atoms s)" by (simp add: Intersect)
      ultimately show ?thesis by (auto intro: gathers_insert)
    next
      case (Not s)
      have "collect_transition_atoms_into t (visited, tests) =
          collect_transition_atoms_into s (insert t visited, tests)"
        using False by (subst collect_transition_atoms_into.simps) (simp add: Not)
      moreover have "transition_atoms t = transition_atoms s" "size s < size t" by (simp_all add: Not)
      ultimately show ?thesis using ih(5)[OF Not inner] by (auto intro: gathers_insert)
    next
      case (Append s rs)
      have "collect_transition_atoms_into t (visited, tests) =
          collect_transition_atoms_into s (insert t visited, tests)"
        using False by (subst collect_transition_atoms_into.simps) (simp add: Append)
      moreover have "transition_atoms t = transition_atoms s" "size s < size t" by (simp_all add: Append)
      ultimately show ?thesis using ih(6)[OF Append inner] by (auto intro: gathers_insert)
    qed
  qed
next
  case (3 t ts acc)
  let ?one = "collect_transition_atoms_into t acc"
  have one: "gathers acc ?one \<and> transition_atoms t \<subseteq> atoms_in ?one" using 3 by simp
  have rest: "gathers ?one (collect_transitions_atoms ts ?one) \<and>
      (\<forall>t \<in> set ts. transition_atoms t \<subseteq> atoms_in (collect_transitions_atoms ts ?one))"
    using 3(2)[of k] 3(3,4) one gathered_gathers[OF 3(3)] by simp
  have "gathers acc (collect_transitions_atoms ts ?one)" using one rest by (blast intro: gathers_trans)
  moreover have "transition_atoms t \<subseteq> atoms_in (collect_transitions_atoms ts ?one)"
    using one gathers_atoms[OF conjunct1[OF rest]] by blast
  ultimately show ?case using rest by simp
qed (auto simp: gathers_refl)

lemma collected_atoms: "transition_atoms t \<subseteq> set (collect_transition_atoms t)"
proof -
  have "gathered (Suc (size t)) ({}, {}, [])" by (simp add: gathered_def collected_def complete_def)
  from collect_transition_atoms_complete(1)[OF this, of t]
  show ?thesis by (simp add: collect_transition_atoms_def first_seen_def atoms_in_def)
qed

section \<open>Evaluation is determined by the atoms\<close>

lemma test_under_cong: "(\<And>p. p \<in> test_atoms t \<Longrightarrow> f p = g p) \<Longrightarrow> test_under f t = test_under g t"
  by (induction t) (auto simp: list_all_iff list_ex_iff split: comparison.splits)

definition evaluate_under :: "'s uids \<Rightarrow> ('s compiled_atom \<Rightarrow> bool) \<Rightarrow> 's transition \<Rightarrow> 's regex" where
  "evaluate_under u truth t = evaluate_with u (test_under truth) t"

lemma evaluate_under_cong:
  "(\<And>p. p \<in> transition_atoms t \<Longrightarrow> f p = g p) \<Longrightarrow> evaluate_under u f t = evaluate_under u g t"
proof (induction t)
  case (If c a b)
  have "test_under f c = test_under g c" using If.prems by (intro test_under_cong) simp
  with If show ?case by (simp add: evaluate_under_def)
next
  case (Union ts)
  have "map (evaluate_with u (test_under f)) ts = map (evaluate_with u (test_under g)) ts"
    by (rule map_cong[OF refl]) (use Union in \<open>auto simp: evaluate_under_def\<close>)
  then show ?case by (simp only: evaluate_under_def evaluate_with.simps)
next
  case (Intersect ts)
  have "map (evaluate_with u (test_under f)) ts = map (evaluate_with u (test_under g)) ts"
    by (rule map_cong[OF refl]) (use Intersect in \<open>auto simp: evaluate_under_def\<close>)
  then show ?case by (simp only: evaluate_under_def evaluate_with.simps)
qed (simp_all add: evaluate_under_def)

lemma evaluate_eq: "evaluate u intern t \<sigma> e = evaluate_under u (atom_matches intern \<sigma> e) t"
  by (simp add: evaluate_def evaluate_under_def eval_test_def)

lemma evaluate_minterm_eq:
  "evaluate_minterm u t atoms m = evaluate_under u (minterm_bit atoms m) t"
  by (simp add: evaluate_minterm_def evaluate_under_def eval_test_minterm_def)

lemma bit_minterm_fold:
  "bit (minterm_fold bs k m) i \<longleftrightarrow> bit m i \<or> (k \<le> i \<and> i < k + length bs \<and> bs ! (i - k))"
proof (induction bs arbitrary: k m)
  case (Cons b bs)
  have "bit (m OR push_bit k (of_bool b)) i \<longleftrightarrow> bit m i \<or> (i = k \<and> b)"
    by (auto simp: bit_simps)
  moreover have "(b # bs) ! (i - k) = (if i = k then b else bs ! (i - Suc k))" if "k \<le> i"
    using that by (simp add: nth_Cons')
  ultimately show ?case using Cons.IH[of "Suc k" "m OR push_bit k (of_bool b)"]
    by (cases "i = k") (auto simp: not_less_eq_eq)
qed auto

lemma minterm_bit_of_fold:
  assumes "p \<in> set atoms"
  shows "minterm_bit atoms (minterm_fold (map truth atoms) 0 0) p = truth p"
proof -
  let ?i = "length (takeWhile (\<lambda>a. a \<noteq> p) atoms)"
  have "?i < length atoms" using assms by (induction atoms) auto
  moreover have "atoms ! ?i = p" using nth_length_takeWhile[of "\<lambda>a. a \<noteq> p" atoms] calculation by simp
  ultimately show ?thesis by (simp add: minterm_bit_def bit_minterm_fold)
qed

lemma minterm_fold_less: "minterm_fold bs 0 0 < 2 ^ length bs"
proof -
  have "take_bit (length bs) (minterm_fold bs 0 0) = minterm_fold bs 0 0"
    by (rule bit_eqI) (auto simp: bit_take_bit_iff bit_minterm_fold)
  then show ?thesis by (metis take_bit_nat_less_exp)
qed

lemma evaluate_minterm_is_evaluate:
  "evaluate_minterm u t (collect_transition_atoms t)
     (minterm_fold (atom_truth_assignment intern t \<sigma> e) 0 0) = evaluate u intern t \<sigma> e"
  unfolding evaluate_eq evaluate_minterm_eq atom_truth_assignment_def
  by (rule evaluate_under_cong, rule minterm_bit_of_fold) (use collected_atoms in blast)

text \<open>What evaluation leads to is the language of the transition on the event.\<close>

lemma evaluate_under_sound:
  assumes u: "hash_consed u"
  shows "tr_nf u t \<Longrightarrow> regex_nf u (evaluate_under u (Rep_letter x) t) \<and>
    lang (evaluate_under u (Rep_letter x) t) = step_lang t x"
proof (induction t)
  case (Const r)
  then show ?case by (simp add: evaluate_under_def)
next
  case (If c a b)
  then show ?case by (simp add: evaluate_under_def letters_def)
next
  case (Union ts)
  let ?rs = "map (evaluate_under u (Rep_letter x)) ts"
  have nf: "\<forall>r \<in> set ?rs. regex_nf u r" using Union by auto
  have "lang (regex_union u ?rs) = (\<Union>t \<in> set ts. lang (evaluate_under u (Rep_letter x) t))"
    using lang_regex_union[OF u nf] by simp
  with Union nf_intros(4)[OF u nf] show ?case by (simp add: evaluate_under_def[abs_def] comp_def)
next
  case (Intersect ts)
  let ?rs = "map (evaluate_under u (Rep_letter x)) ts"
  have nf: "\<forall>r \<in> set ?rs. regex_nf u r" using Intersect by auto
  have "lang (regex_intersect u ?rs) = (\<Inter>t \<in> set ts. lang (evaluate_under u (Rep_letter x) t))"
    using lang_regex_intersect[OF u nf] by simp
  with Intersect nf_intros(5)[OF u nf] show ?case by (simp add: evaluate_under_def[abs_def] comp_def)
next
  case (Not t)
  then show ?case by (simp add: evaluate_under_def lang_simps regex_not_nf)
next
  case (Append t rs)
  then show ?case by (simp add: evaluate_under_def lang_simps regex_concat_nf)
qed

lemma evaluate_sound:
  assumes "hash_consed u" "tr_nf u t"
  shows "regex_nf u (evaluate u intern t \<sigma> e)"
    and "lang (evaluate u intern t \<sigma> e) = step_lang t (event_letter intern \<sigma> e)"
  using evaluate_under_sound[OF assms, of "event_letter intern \<sigma> e"] by (simp_all add: evaluate_eq)

section \<open>Derivatives are derivatives\<close>

text \<open>The callers that only return values the constructors settle on.\<close>

definition settled :: "'s uids \<Rightarrow> 's caller \<Rightarrow> bool" where
  "settled u call \<longleftrightarrow> (\<forall>c t. call c = Some t \<longrightarrow> final u c = Some t)"

lemma settled_run: "settled u (run u n)"
  by (auto simp: settled_def final_iff)

lemma settled_final: "settled u (final u)"
  by (simp add: settled_def)

lemma settled_yields: "settled u call \<Longrightarrow> call c = Some t \<Longrightarrow> yields u c P \<Longrightarrow> P t"
  by (auto simp: settled_def yields_def)

lemma settled_meaning:
  "hash_consed u \<Longrightarrow> settled u call \<Longrightarrow> call c = Some t \<Longrightarrow> call_ok u c \<Longrightarrow> x \<in> scope c \<Longrightarrow>
   step_lang t x = meaning c x"
  using sound_call(2)[OF final_sound, of u c t x] by (simp add: settled_def)

definition derived :: "'s uids \<Rightarrow> 's letter list set \<Rightarrow> 's transition \<Rightarrow> bool" where
  "derived u L t \<longleftrightarrow> tnf u t \<and> (\<forall>x. step_lang t x = after x L)"

definition table_ok :: "'s uids \<Rightarrow> 's transition \<Rightarrow> 's regex list \<Rightarrow> bool" where
  "table_ok u t ss \<longleftrightarrow> tnf u t \<and>
     ss = map (evaluate_minterm u t (collect_transition_atoms t)) [0..<2 ^ length (collect_transition_atoms t)]"

definition cache_ok :: "'s uids \<Rightarrow> 's derivative_cache \<Rightarrow> bool" where
  "cache_ok u cache \<longleftrightarrow>
     (\<forall>r t. dc_derivatives cache r = Some t \<longrightarrow> derived u (lang r) t) \<and>
     (\<forall>t ss. dc_minterms cache t = Some ss \<longrightarrow> table_ok u t ss)"

lemma cache_ok_empty: "cache_ok u empty_cache"
  by (simp add: cache_ok_def empty_cache_def)

lemma cache_ok_derivative:
  "cache_ok u cache \<Longrightarrow> derived u (lang r) t \<Longrightarrow>
   cache_ok u (cache\<lparr>dc_derivatives := (dc_derivatives cache)(r \<mapsto> t)\<rparr>)"
  by (auto simp: cache_ok_def)

lemma derived_union:
  assumes "hash_consed u" "\<forall>t \<in> set ts. tnf u t" "\<And>x. (\<Union>t \<in> set ts. step_lang t x) = after x L"
  shows "derived u L (transition_union u ts)"
proof -
  have "\<forall>t \<in> set ts. tr_nf u t" using assms(2) tnf_tr_nf by blast
  from transition_union_sound(2)[OF assms(1) this] show ?thesis
    using assms by (simp add: derived_def union_tnf)
qed

definition derivative_right :: "'s uids \<Rightarrow> 's caller \<Rightarrow> 's regex \<Rightarrow> bool" where
  "derivative_right u call r \<longleftrightarrow> (\<forall>cache t cache'. derivative u call r cache = Some (t, cache') \<longrightarrow>
     cache_ok u cache \<longrightarrow> cache_ok u cache' \<and> derived u (lang r) t)"

lemma derivative_rightD:
  "derivative_right u call r \<Longrightarrow> derivative u call r cache = Some (t, cache') \<Longrightarrow> cache_ok u cache \<Longrightarrow>
   cache_ok u cache' \<and> derived u (lang r) t"
  by (simp add: derivative_right_def)

lemma derivatives_right:
  "derivatives u call rs cache = Some (ts, cache') \<Longrightarrow> cache_ok u cache \<Longrightarrow>
   \<forall>r \<in> set rs. derivative_right u call r \<Longrightarrow>
   cache_ok u cache' \<and> list_all2 (\<lambda>r. derived u (lang r)) rs ts"
proof (induction rs arbitrary: cache ts)
  case (Cons r rs)
  from Cons.prems(1) obtain t c ts' where s: "derivative u call r cache = Some (t, c)"
    "derivatives u call rs c = Some (ts', cache')" "ts = t # ts'"
    by (auto split: Option.bind_splits)
  from derivative_rightD[OF _ s(1)] Cons.prems have "cache_ok u c \<and> derived u (lang r) t" by simp
  with Cons.IH[OF s(2)] Cons.prems s(3) show ?case by simp
qed simp

lemma derived_list:
  assumes "list_all2 (\<lambda>r. derived u (lang r)) rs ts"
  shows "\<forall>t \<in> set ts. tnf u t" "map (\<lambda>t. step_lang t x) ts = map (\<lambda>r. after x (lang r)) rs"
proof -
  show "map (\<lambda>t. step_lang t x) ts = map (\<lambda>r. after x (lang r)) rs"
    using assms by (induction rule: list_all2_induct) (auto simp: derived_def)
  show "\<forall>t \<in> set ts. tnf u t"
    using assms by (induction rule: list_all2_induct) (auto simp: derived_def)
qed

lemma concat_alternatives_right:
  assumes u: "hash_consed u" and call: "settled u call"
  shows "concat_alternatives u call rs cache = Some (ts, cache') \<Longrightarrow> cache_ok u cache \<Longrightarrow>
    \<forall>r \<in> set rs. derivative_right u call r \<and> regex_nf u r \<Longrightarrow>
    cache_ok u cache' \<and> (\<forall>t \<in> set ts. tnf u t) \<and>
    (\<forall>x. (\<Union>t \<in> set ts. step_lang t x) = after x (seqs_list (map lang rs)))"
proof (induction rs arbitrary: cache ts)
  case (Cons r rs)
  from Cons.prems(1) obtain t c t' where s: "derivative u call r cache = Some (t, c)"
    "call (MakeAppend t rs) = Some t'"
    by (auto split: Option.bind_splits)
  have t: "cache_ok u c" "derived u (lang r) t" using derivative_rightD[OF _ s(1)] Cons.prems by auto
  then have tnf: "tnf u t" by (simp add: derived_def)
  have t': "tnf u t'" using settled_yields[OF call s(2) append_tnf[OF u tnf]] Cons.prems by simp
  have step: "step_lang t' x = seqs (after x (lang r)) (seqs_list (map lang rs))" for x
    using settled_meaning[OF u call s(2), of x] tnf_tr_nf[OF tnf] t(2) Cons.prems
    by (simp add: derived_def)
  show ?case
  proof (cases "nullable r")
    case True
    with Cons.prems(1) s obtain ts' where rest: "concat_alternatives u call rs c = Some (ts', cache')"
      "ts = t' # ts'"
      by (auto split: Option.bind_splits)
    from Cons.IH[OF rest(1) t(1)] Cons.prems t' True show ?thesis
      by (simp add: rest(2) step after_seqs nullable_iff)
  next
    case False
    with Cons.prems(1) s have "ts = [t']" "cache' = c" by auto
    with t t' False show ?thesis by (simp add: step after_seqs nullable_iff)
  qed
qed simp

lemma derivative_rightI:
  assumes body: "\<And>cache. dc_derivatives cache r = None \<Longrightarrow> derivative u call r cache =
      Option.bind (body cache) (\<lambda>(t, c). Some (t, c\<lparr>dc_derivatives := (dc_derivatives c)(r \<mapsto> t)\<rparr>))"
    and right: "\<And>cache t c. body cache = Some (t, c) \<Longrightarrow> cache_ok u cache \<Longrightarrow>
      cache_ok u c \<and> derived u (lang r) t"
  shows "derivative_right u call r"
  unfolding derivative_right_def
proof (intro allI impI)
  fix cache t cache'
  assume d: "derivative u call r cache = Some (t, cache')" "cache_ok u cache"
  show "cache_ok u cache' \<and> derived u (lang r) t"
  proof (cases "dc_derivatives cache r")
    case None
    with d(1) body obtain c where "body cache = Some (t, c)"
      "cache' = c\<lparr>dc_derivatives := (dc_derivatives c)(r \<mapsto> t)\<rparr>"
      by (auto split: Option.bind_splits)
    with right d(2) show ?thesis by (auto intro: cache_ok_derivative)
  next
    case (Some s)
    with d show ?thesis by (auto simp: derivative.simps cache_ok_def)
  qed
qed

lemma derivative_correct:
  assumes u: "hash_consed u" and call: "settled u call"
  shows "regex_nf u r \<Longrightarrow> derivative_right u call r"
proof (induction r)
  case REmpty
  show ?case
    by (rule derivative_rightI[where body = "\<lambda>cache. Some (Const REmpty, cache)"])
      (subst derivative.simps, auto simp: derived_def)
next
  case REpsilon
  show ?case
    by (rule derivative_rightI[where body = "\<lambda>cache. Some (Const REmpty, cache)"])
      (subst derivative.simps, auto simp: derived_def)
next
  case RAll
  show ?case
    by (rule derivative_rightI[where body = "\<lambda>cache. Some (Const RAll, cache)"])
      (subst derivative.simps, auto simp: derived_def)
next
  case (RTest test)
  have "derived u (lang (RTest test)) s" if "call (MakeIf test (Const REpsilon) (Const REmpty)) = Some s" for s
    using settled_yields[OF call that make_if_tnf[OF u]] settled_meaning[OF u call that] RTest
    by (auto simp: derived_def after_def)
  then show ?case
    by (intro derivative_rightI[where body = "\<lambda>cache.
          do { t \<leftarrow> call (MakeIf test (Const REpsilon) (Const REmpty)); Some (t, cache) }"])
      (subst derivative.simps, auto split: Option.bind_splits)
next
  case (RUnion rs)
  then have ih: "\<forall>r \<in> set rs. derivative_right u call r" by simp
  show ?case
  proof (rule derivative_rightI[where body = "\<lambda>cache. do { (ts, cache') \<leftarrow> derivatives u call rs cache;
        Some (transition_union u ts, cache') }"], goal_cases)
    case (2 cache t c)
    then obtain ts where ts: "derivatives u call rs cache = Some (ts, c)" "t = transition_union u ts"
      by (auto split: Option.bind_splits)
    note right = derivatives_right[OF ts(1) 2(2) ih]
    have "(\<Union>t \<in> set ts. step_lang t x) = after x (lang (RUnion rs))" for x
      using arg_cong[OF derived_list(2)[OF conjunct2[OF right], of x], of set] by (simp add: after_UN)
    then show ?case
      using right derived_union[OF u derived_list(1)[OF conjunct2[OF right]]] by (simp add: ts(2))
  qed (subst derivative.simps, simp)
next
  case (RIntersect rs)
  then have ih: "\<forall>r \<in> set rs. derivative_right u call r" by simp
  show ?case
  proof (rule derivative_rightI[where body = "\<lambda>cache. do { (ts, cache') \<leftarrow> derivatives u call rs cache;
        t \<leftarrow> call (MakeIntersect ts); Some (t, cache') }"], goal_cases)
    case (2 cache t c)
    then obtain ts where ts: "derivatives u call rs cache = Some (ts, c)" "call (MakeIntersect ts) = Some t"
      by (auto split: Option.bind_splits)
    note right = derivatives_right[OF ts(1) 2(2) ih]
    note tnf = derived_list(1)[OF conjunct2[OF right]]
    have "(\<Inter>t \<in> set ts. step_lang t x) = after x (lang (RIntersect rs))" for x
      using arg_cong[OF derived_list(2)[OF conjunct2[OF right], of x], of set] by (simp add: after_INT)
    moreover have "step_lang t x = (\<Inter>t \<in> set ts. step_lang t x)" for x
      using settled_meaning[OF u call ts(2), of x] tnf by (simp add: tnf_tr_nf)
    moreover have "tnf u t" by (rule settled_yields[OF call ts(2) intersect_tnf[OF u tnf]])
    ultimately show ?case using right by (simp add: derived_def)
  qed (subst derivative.simps, simp)
next
  case (RNot r)
  then have ih: "derivative_right u call r" by simp
  show ?case
  proof (rule derivative_rightI[where body = "\<lambda>cache. do { (t, cache') \<leftarrow> derivative u call r cache;
        t' \<leftarrow> call (MakeNot t); Some (t', cache') }"], goal_cases)
    case (2 cache t' c)
    then obtain t where t: "derivative u call r cache = Some (t, c)" "call (MakeNot t) = Some t'"
      by (auto split: Option.bind_splits)
    have right: "cache_ok u c" "tnf u t" "\<And>x. step_lang t x = after x (lang r)"
      using derivative_rightD[OF ih t(1) 2(2)] by (simp_all add: derived_def)
    have "tnf u t'" by (rule settled_yields[OF call t(2) not_tnf[OF u right(2)]])
    moreover have "step_lang t' x = - step_lang t x" for x
      using settled_meaning[OF u call t(2), of x] tnf_tr_nf[OF right(2)] by simp
    ultimately show ?case using right by (simp add: derived_def)
  qed (subst derivative.simps, simp)
next
  case (RConcat rs)
  then have ih: "\<forall>r \<in> set rs. derivative_right u call r \<and> regex_nf u r" by simp
  show ?case
  proof (rule derivative_rightI[where body = "\<lambda>cache. do { (ts, cache') \<leftarrow> concat_alternatives u call rs cache;
        Some (transition_union u ts, cache') }"], goal_cases)
    case (2 cache t c)
    then obtain ts where ts: "concat_alternatives u call rs cache = Some (ts, c)" "t = transition_union u ts"
      by (auto split: Option.bind_splits)
    note right = concat_alternatives_right[OF u call ts(1) 2(2) ih]
    then show ?case by (auto simp: ts(2) intro!: derived_union[OF u])
  qed (subst derivative.simps, simp)
next
  case (RStar r)
  then have ih: "derivative_right u call r" by simp
  show ?case
  proof (rule derivative_rightI[where body = "\<lambda>cache. do { (t, cache') \<leftarrow> derivative u call r cache;
        t' \<leftarrow> call (MakeAppend t [RStar r]); Some (t', cache') }"], goal_cases)
    case (2 cache t' c)
    then obtain t where t: "derivative u call r cache = Some (t, c)" "call (MakeAppend t [RStar r]) = Some t'"
      by (auto split: Option.bind_splits)
    have right: "cache_ok u c" "tnf u t" "\<And>x. step_lang t x = after x (lang r)"
      using derivative_rightD[OF ih t(1) 2(2)] by (simp_all add: derived_def)
    have nf: "\<forall>s \<in> set [RStar r]. regex_nf u s" using RStar.prems by simp
    have "tnf u t'" by (rule settled_yields[OF call t(2) append_tnf[OF u right(2) nf]])
    moreover have "step_lang t' x = seqs (step_lang t x) (repeated (lang r))" for x
      using settled_meaning[OF u call t(2), of x] tnf_tr_nf[OF right(2)] nf by simp
    ultimately show ?case using right by (simp add: derived_def after_repeated)
  qed (subst derivative.simps, simp)
qed

text \<open>With enough fuel every derivative is computed.\<close>

definition derivable :: "'s uids \<Rightarrow> 's regex \<Rightarrow> bool" where
  "derivable u r \<longleftrightarrow> (\<forall>cache. cache_ok u cache \<longrightarrow> (\<exists>t c. derivative u (final u) r cache = Some (t, c)))"

lemma derivable_ex:
  assumes "hash_consed u" "derivable u r" "regex_nf u r" "cache_ok u cache"
  shows "\<exists>t c. derivative u (final u) r cache = Some (t, c) \<and> cache_ok u c \<and> derived u (lang r) t"
  using assms derivative_rightD[OF derivative_correct[OF assms(1) settled_final assms(3)]]
  unfolding derivable_def by blast

lemma derivatives_total:
  assumes u: "hash_consed u"
  shows "\<forall>r \<in> set rs. derivable u r \<and> regex_nf u r \<Longrightarrow> cache_ok u cache \<Longrightarrow>
    \<exists>ts c. derivatives u (final u) rs cache = Some (ts, c)"
proof (induction rs arbitrary: cache)
  case (Cons r rs)
  then obtain t c where t: "derivative u (final u) r cache = Some (t, c)" "cache_ok u c"
    using derivable_ex[OF u, of r cache] by auto
  with Cons.IH[OF _ t(2)] Cons.prems show ?case by auto
qed simp

lemma concat_alternatives_total:
  assumes u: "hash_consed u"
  shows "\<forall>r \<in> set rs. derivable u r \<and> regex_nf u r \<Longrightarrow> cache_ok u cache \<Longrightarrow>
    \<exists>ts c. concat_alternatives u (final u) rs cache = Some (ts, c)"
proof (induction rs arbitrary: cache)
  case (Cons r rs)
  then obtain t c where t: "derivative u (final u) r cache = Some (t, c)" "cache_ok u c" "derived u (lang r) t"
    using derivable_ex[OF u, of r cache] by auto
  then have "tnf u t" by (simp add: derived_def)
  from append_tnf[OF u this, of rs] Cons.prems obtain t' where
    "final u (MakeAppend t rs) = Some t'" by (auto elim: yieldsE)
  with t Cons.IH[OF _ t(2)] Cons.prems show ?case by (cases "nullable r") auto
qed simp

lemma derivative_total:
  assumes u: "hash_consed u"
  shows "regex_nf u r \<Longrightarrow> derivable u r"
proof (induction r)
  case (RTest test)
  from make_if_tnf[OF u, of test "Const REpsilon" "Const REmpty"] RTest
  show ?case by (auto simp: derivable_def yields_def derivative.simps split: option.split)
next
  case (RUnion rs)
  then show ?case using derivatives_total[OF u, of rs]
    by (fastforce simp: derivable_def derivative.simps[of u "final u" "RUnion rs"] split: option.split)
next
  case (RIntersect rs)
  then have rs: "\<forall>r \<in> set rs. derivable u r \<and> regex_nf u r" by simp
  show ?case
    unfolding derivable_def
  proof (intro allI impI)
    fix cache assume ok: "cache_ok u cache"
    from derivatives_total[OF u rs ok] obtain ts c where
      ts: "derivatives u (final u) rs cache = Some (ts, c)" by blast
    have "\<forall>r \<in> set rs. derivative_right u (final u) r"
      using rs derivative_correct[OF u settled_final] by blast
    from derivatives_right[OF ts ok this] have "\<forall>t \<in> set ts. tnf u t" using derived_list(1) by blast
    from intersect_tnf[OF u this] ts show "\<exists>t c. derivative u (final u) (RIntersect rs) cache = Some (t, c)"
      by (auto simp: yields_def derivative.simps[of u "final u" "RIntersect rs"] split: option.split)
  qed
next
  case (RConcat rs)
  then show ?case using concat_alternatives_total[OF u, of rs]
    by (fastforce simp: derivable_def derivative.simps[of u "final u" "RConcat rs"] split: option.split)
next
  case (RNot r)
  show ?case
    unfolding derivable_def
  proof (intro allI impI)
    fix cache assume ok: "cache_ok u cache"
    from RNot derivable_ex[OF u _ _ ok, of r] obtain t c where
      t: "derivative u (final u) r cache = Some (t, c)" "tnf u t" by (auto simp: derived_def)
    from not_tnf[OF u t(2)] t(1) show "\<exists>t c. derivative u (final u) (RNot r) cache = Some (t, c)"
      by (auto simp: yields_def derivative.simps[of u "final u" "RNot r"] split: option.split)
  qed
next
  case (RStar r)
  show ?case
    unfolding derivable_def
  proof (intro allI impI)
    fix cache assume ok: "cache_ok u cache"
    from RStar derivable_ex[OF u _ _ ok, of r] obtain t c where
      t: "derivative u (final u) r cache = Some (t, c)" "tnf u t" by (auto simp: derived_def)
    have "\<forall>s \<in> set [RStar r]. regex_nf u s" using RStar.prems by simp
    from append_tnf[OF u t(2) this] t(1) show "\<exists>t c. derivative u (final u) (RStar r) cache = Some (t, c)"
      by (auto simp: yields_def derivative.simps[of u "final u" "RStar r"] split: option.split)
  qed
qed (auto simp: derivable_def derivative.simps split: option.split)

text \<open>The computed derivative no longer changes once the fuel is large.\<close>

lemma settles_prod:
  "(\<And>a b. settles (\<lambda>n. F n a b) (f a b)) \<Longrightarrow> settles (\<lambda>n. case p of (a, b) \<Rightarrow> F n a b) (case p of (a, b) \<Rightarrow> f a b)"
  by (cases p) simp

definition settling :: "'s uids \<Rightarrow> 's regex \<Rightarrow> bool" where
  "settling u r \<longleftrightarrow> (\<forall>cache. settles (\<lambda>n. derivative u (run u n) r cache) (derivative u (final u) r cache))"

lemma settling_lists:
  assumes "\<forall>r \<in> set rs. settling u r"
  shows "settles (\<lambda>n. derivatives u (run u n) rs cache) (derivatives u (final u) rs cache)"
    and "settles (\<lambda>n. concat_alternatives u (run u n) rs cache) (concat_alternatives u (final u) rs cache)"
  using assms
  by (induction rs arbitrary: cache)
    (auto simp: settling_def intro!: settles_intros settles_prod settles_run)

lemma settles_derivative: "settles (\<lambda>n. derivative u (run u n) r cache) (derivative u (final u) r cache)"
proof -
  have "settling u r"
  proof (induction r)
    case (RUnion rs)
    then have "\<forall>r \<in> set rs. settling u r" by simp
    from settling_lists[OF this] show ?case
      unfolding settling_def derivative.simps[of _ _ "RUnion rs"]
      by (auto intro!: settles_intros settles_prod split: option.split)
  next
    case (RIntersect rs)
    then have "\<forall>r \<in> set rs. settling u r" by simp
    from settling_lists[OF this] show ?case
      unfolding settling_def derivative.simps[of _ _ "RIntersect rs"]
      by (auto intro!: settles_intros settles_prod settles_run split: option.split)
  next
    case (RConcat rs)
    then have "\<forall>r \<in> set rs. settling u r" by simp
    from settling_lists[OF this] show ?case
      unfolding settling_def derivative.simps[of _ _ "RConcat rs"]
      by (auto intro!: settles_intros settles_prod split: option.split)
  next
    case (RNot r)
    then show ?case
      unfolding settling_def derivative.simps[of _ _ "RNot r"]
      by (auto intro!: settles_intros settles_prod settles_run split: option.split)
  next
    case (RStar r)
    then show ?case
      unfolding settling_def derivative.simps[of _ _ "RStar r"]
      by (auto intro!: settles_intros settles_prod settles_run split: option.split)
  qed (auto simp: settling_def derivative.simps intro!: settles_intros settles_run split: option.split)
  then show ?thesis by (simp add: settling_def)
qed

section \<open>Precompilation keeps the cache right\<close>

lemma evaluate_under_nf: "hash_consed u \<Longrightarrow> tr_nf u t \<Longrightarrow> regex_nf u (evaluate_under u truth t)"
  by (induction t) (auto simp: evaluate_under_def intro!: nf_intros)

lemma table_nf: "hash_consed u \<Longrightarrow> table_ok u t ss \<Longrightarrow> \<forall>r \<in> set ss. regex_nf u r"
  by (auto simp: table_ok_def evaluate_minterm_eq intro!: evaluate_under_nf tnf_tr_nf)

lemma cache_ok_table:
  "cache_ok u cache \<Longrightarrow> table_ok u t ss \<Longrightarrow>
   cache_ok u (cache\<lparr>dc_minterms := (dc_minterms cache)(t \<mapsto> ss)\<rparr>)"
  by (auto simp: cache_ok_def)

lemma cache_ok_lookup: "cache_ok u cache \<Longrightarrow> dc_minterms cache t = Some ss \<Longrightarrow> table_ok u t ss"
  by (simp add: cache_ok_def)

lemma precompile_visit_right:
  assumes u: "hash_consed u" and ok: "cache_ok u cache" and nf: "regex_nf u r" "\<forall>r \<in> set pending. regex_nf u r"
  shows "\<exists>pending' seen' compiled' cache'.
    precompile_visit u (final u) r pending seen compiled cache = Some (pending', seen', compiled', cache') \<and>
    cache_ok u cache' \<and> (\<forall>r \<in> set pending'. regex_nf u r)"
proof (cases "r \<in> set seen")
  case True
  with ok nf show ?thesis by (simp add: precompile_visit_def)
next
  case False
  obtain t c where d: "derivative u (final u) r cache = Some (t, c)" "cache_ok u c" "derived u (lang r) t"
    using derivable_ex[OF u derivative_total[OF u nf(1)] nf(1) ok] by blast
  let ?atoms = "collect_transition_atoms t"
  have new: "table_ok u t (map (evaluate_minterm u t ?atoms) [0..<2 ^ length ?atoms])"
    using d(3) by (simp add: table_ok_def derived_def)
  have old: "dc_minterms c t = Some ss \<Longrightarrow> \<forall>r \<in> set ss. regex_nf u r" for ss
    using cache_ok_lookup[OF d(2)] table_nf[OF u] by blast
  show ?thesis
    using False d(1,2) nf(2) old table_nf[OF u new] cache_ok_table[OF d(2) new]
    by (cases "dc_minterms c t") (auto simp: precompile_visit_def Let_def)
qed

lemma settles_visit:
  "settles (\<lambda>n. precompile_visit u (run u n) r pending seen compiled cache)
     (precompile_visit u (final u) r pending seen compiled cache)"
  unfolding precompile_visit_def Let_def
  by (intro settles_intros settles_prod settles_derivative)

lemma precompile_loop_right:
  fixes u :: "'s uids" and call :: "'s caller"
  assumes "hash_consed u" "call = final u" "cache_ok u cache" "\<forall>r \<in> set pending. regex_nf u r"
  shows "\<exists>cache'. precompile_loop u call pending seen compiled cache = Some cache' \<and> cache_ok u cache' \<and>
      settles (\<lambda>n. precompile_loop u (run u n) pending seen compiled cache) (Some cache')"
  using assms
proof (induction u call pending seen compiled cache rule: precompile_loop.induct)
  case (1 u call pending seen compiled cache)
  show ?case
  proof (cases "length seen < MAX_PRECOMPILED_STATES \<and> pending \<noteq> []")
    case False
    with 1(4) show ?thesis
      by (cases pending) (auto simp: precompile_loop.simps settles_const)
  next
    case True
    then obtain r rest where pending: "pending = r # rest" by (cases pending) auto
    obtain p s k c where v: "precompile_visit u (final u) r rest seen compiled cache = Some (p, s, k, c)"
      "cache_ok u c" "\<forall>r \<in> set p. regex_nf u r"
      using precompile_visit_right[OF 1(2,4), of r rest seen compiled] 1(5) pending by auto
    have "\<exists>cache'. precompile_loop u call p s k c = Some cache' \<and> cache_ok u cache' \<and>
      settles (\<lambda>n. precompile_loop u (run u n) p s k c) (Some cache')"
      using 1(1)[OF _ pending _ refl refl refl, of p s k c] True v 1(2,3) by simp
    then obtain cache' where l: "precompile_loop u call p s k c = Some cache'" "cache_ok u cache'"
      "settles (\<lambda>n. precompile_loop u (run u n) p s k c) (Some cache')" by blast
    have "settles (\<lambda>n. precompile_loop u (run u n) pending seen compiled cache) (Some cache')"
      by (rule settles_comp2[OF settles_visit[of u r rest seen compiled cache] l(3)])
        (use True v(1) in \<open>simp add: pending precompile_loop.simps[of u _ "r # rest"]\<close>)
    with l(1,2) True v(1) 1(3) show ?thesis
      by (simp add: pending precompile_loop.simps[of u _ "r # rest"])
  qed
qed

section \<open>Replay\<close>

text \<open>Every cached successor is the one evaluation gives.\<close>

definition instances_ok ::
  "'s uids \<Rightarrow> (string \<Rightarrow> 's) \<Rightarrow> 's substitution \<Rightarrow> 's instances \<Rightarrow> bool" where
  "instances_ok u intern \<sigma> inst \<longleftrightarrow>
     (\<forall>t bits r. in_values inst (t, bits) = Some r \<longrightarrow>
        (\<forall>e. atom_truth_assignment intern t \<sigma> e = bits \<longrightarrow> r = evaluate u intern t \<sigma> e)) \<and>
     (\<forall>t e r. in_last inst = Some (t, e, r) \<longrightarrow> r = evaluate u intern t \<sigma> e)"

lemma evaluate_same_bits:
  assumes "atom_truth_assignment intern t \<sigma> e = atom_truth_assignment intern t \<sigma> e'"
  shows "evaluate u intern t \<sigma> e = evaluate u intern t \<sigma> e'"
  unfolding evaluate_eq
  by (rule evaluate_under_cong)
    (use assms collected_atoms[of t] in \<open>auto simp: atom_truth_assignment_def\<close>)

lemma instantiate_right:
  assumes ok: "cache_ok u cache" "instances_ok u intern \<sigma> inst"
    and i: "instantiate u intern cache t \<sigma> e inst = (r, inst')"
  shows "r = evaluate u intern t \<sigma> e \<and> instances_ok u intern \<sigma> inst'"
proof (cases "const_of t")
  case (Some s)
  with i ok show ?thesis by (simp add: instantiate_def const_of_Some evaluate_def)
next
  case None
  let ?bits = "atom_truth_assignment intern t \<sigma> e"
  let ?v = "evaluate u intern t \<sigma> e"
  have last: "instances_ok u intern \<sigma> (inst\<lparr>in_last := Some (t, e, ?v)\<rparr>)"
    using ok(2) by (simp add: instances_ok_def)
  show ?thesis
  proof (cases "repeated_instance inst t e")
    case (Some s)
    then have "in_last inst = Some (t, e, s)"
      by (auto simp: repeated_instance_def split: option.splits if_splits)
    moreover have "r = s" "inst' = inst" using i None Some by (simp_all add: instantiate_def)
    ultimately show ?thesis using ok(2) by (simp add: instances_ok_def)
  next
    case fresh: None
    show ?thesis
    proof (cases "dc_minterms cache t")
      case (Some ss)
      from cache_ok_lookup[OF ok(1) Some] have ss: "ss = map (evaluate_minterm u t (collect_transition_atoms t))
        [0..<2 ^ length (collect_transition_atoms t)]" by (simp add: table_ok_def)
      have "minterm_fold ?bits 0 0 < 2 ^ length (collect_transition_atoms t)"
        using minterm_fold_less[of ?bits] by (simp add: atom_truth_assignment_def)
      then have "ss ! minterm_fold ?bits 0 0 = ?v" using ss evaluate_minterm_is_evaluate by simp
      with i None fresh Some last show ?thesis by (auto simp: instantiate_def Let_def)
    next
      case no_table: None
      show ?thesis
      proof (cases "in_values inst (t, ?bits)")
        case (Some s)
        with ok(2) have "s = ?v" by (simp add: instances_ok_def)
        with i None fresh no_table Some last show ?thesis by (auto simp: instantiate_def Let_def)
      next
        case miss: None
        let ?inst = "inst\<lparr>in_values := (in_values inst)((t, ?bits) \<mapsto> ?v), in_last := Some (t, e, ?v)\<rparr>"
        have "instances_ok u intern \<sigma> ?inst"
          unfolding instances_ok_def
        proof (intro conjI allI impI)
          fix t' bits r' e'
          assume a: "in_values ?inst (t', bits) = Some r'" "atom_truth_assignment intern t' \<sigma> e' = bits"
          show "r' = evaluate u intern t' \<sigma> e'"
          proof (cases "(t', bits) = (t, ?bits)")
            case True
            with a show ?thesis using evaluate_same_bits[of intern t \<sigma> e e'] by simp
          next
            case False
            with a(1) have "in_values inst (t', bits) = Some r'" by auto
            with ok(2) a(2) show ?thesis by (simp add: instances_ok_def)
          qed
        next
          fix t' e' r' assume "in_last ?inst = Some (t', e', r')"
          then show "r' = evaluate u intern t' \<sigma> e'" by auto
        qed
        with i None fresh no_table miss show ?thesis by (auto simp: instantiate_def Let_def)
      qed
    qed
  qed
qed

text \<open>The state a replay ends in, without caches.\<close>

definition previous_ok :: "'s uids \<Rightarrow> ('s regex \<times> 's transition) option \<Rightarrow> bool" where
  "previous_ok u previous \<longleftrightarrow> (\<forall>s t. previous = Some (s, t) \<longrightarrow> derived u (lang s) t)"

lemma replay_right:
  assumes u: "hash_consed u"
  shows "cache_ok u cache \<Longrightarrow> instances_ok u intern \<sigma> inst \<Longrightarrow> previous_ok u previous \<Longrightarrow> regex_nf u state \<Longrightarrow>
    \<exists>state' cache'. replay u (final u) intern \<sigma> state previous history cache inst = Some (state', cache') \<and>
      cache_ok u cache' \<and>
      ([] \<in> lang state' \<longleftrightarrow> map (event_letter intern \<sigma>) history \<in> lang state) \<and>
      settles (\<lambda>n. replay u (run u n) intern \<sigma> state previous history cache inst) (Some (state', cache'))"
proof (induction history arbitrary: state previous cache inst)
  case Nil
  then show ?case by (simp add: settles_const)
next
  case (Cons e history)
  show ?case
  proof (cases "state = RAll \<or> state = REmpty")
    case True
    with Cons.prems show ?thesis by (auto simp: settles_const)
  next
    case False
    let ?deriv = "\<lambda>call. case previous of
        Some (previous_state, t) \<Rightarrow> if previous_state = state then Some (t, cache) else derivative u call state cache
      | None \<Rightarrow> derivative u call state cache"
    obtain t c where d: "?deriv (final u) = Some (t, c)" "cache_ok u c" "derived u (lang state) t"
    proof -
      obtain t0 c0 where fresh: "derivative u (final u) state cache = Some (t0, c0)" "cache_ok u c0"
        "derived u (lang state) t0"
        using derivable_ex[OF u derivative_total[OF u Cons.prems(4)] Cons.prems(4,1)] by blast
      show thesis
      proof (cases "\<exists>t. previous = Some (state, t)")
        case True
        then show thesis using that[of _ cache] Cons.prems(1,3) by (auto simp: previous_ok_def)
      next
        case False
        then show thesis using that[of t0 c0] fresh by (cases previous) auto
      qed
    qed
    have settle: "settles (\<lambda>n. ?deriv (run u n)) (?deriv (final u))"
      by (cases previous) (auto intro!: settles_const settles_derivative)
    obtain r inst' where i: "instantiate u intern c t \<sigma> e inst = (r, inst')"
      by (cases "instantiate u intern c t \<sigma> e inst")
    note inst = instantiate_right[OF d(2) Cons.prems(2) i]
    have tnf: "tr_nf u t" using d(3) by (simp add: derived_def tnf_tr_nf)
    have r: "regex_nf u r" "lang r = after (event_letter intern \<sigma> e) (lang state)"
      using inst evaluate_sound[OF u tnf] d(3) by (simp_all add: derived_def)
    have prev: "previous_ok u (Some (state, t))" using d(3) by (simp add: previous_ok_def)
    from Cons.IH[OF d(2) conjunct2[OF inst] prev r(1)] obtain state' cache' where
      ih: "replay u (final u) intern \<sigma> r (Some (state, t)) history c inst' = Some (state', cache')"
        "cache_ok u cache'" "[] \<in> lang state' \<longleftrightarrow> map (event_letter intern \<sigma>) history \<in> lang r"
        "settles (\<lambda>n. replay u (run u n) intern \<sigma> r (Some (state, t)) history c inst') (Some (state', cache'))"
      by blast
    have step: "replay u call intern \<sigma> state previous (e # history) cache inst =
        Option.bind (?deriv call) (\<lambda>(t, c). case instantiate u intern c t \<sigma> e inst of
          (r, inst') \<Rightarrow> replay u call intern \<sigma> r (Some (state, t)) history c inst')" for call
      using False by simp
    have "settles (\<lambda>n. replay u (run u n) intern \<sigma> state previous (e # history) cache inst) (Some (state', cache'))"
      unfolding step by (rule settles_comp2[OF settle ih(4)]) (simp add: d(1) i)
    moreover have "replay u (final u) intern \<sigma> state previous (e # history) cache inst = Some (state', cache')"
      unfolding step by (simp add: d(1) i ih(1))
    moreover have "[] \<in> lang state' \<longleftrightarrow> map (event_letter intern \<sigma>) (e # history) \<in> lang state"
      by (simp add: ih(3) r(2) after_def)
    ultimately show ?thesis using ih(2) by blast
  qed
qed

lemma accepts_right:
  assumes "hash_consed u" "cache_ok u cache" "regex_nf u root"
  obtains cache' where
    "accepts u (final u) intern root history \<sigma> cache =
       Some (map (event_letter intern \<sigma>) history \<in> lang root, cache')"
    "cache_ok u cache'"
    "settles (\<lambda>n. accepts u (run u n) intern root history \<sigma> cache)
       (Some (map (event_letter intern \<sigma>) history \<in> lang root, cache'))"
proof -
  have "instances_ok u intern \<sigma> new_instances" by (simp add: instances_ok_def new_instances_def)
  from replay_right[OF assms(1,2) this _ assms(3), of None history] obtain state' cache' where
    r: "replay u (final u) intern \<sigma> root None history cache new_instances = Some (state', cache')"
      "cache_ok u cache'" "[] \<in> lang state' \<longleftrightarrow> map (event_letter intern \<sigma>) history \<in> lang root"
      "settles (\<lambda>n. replay u (run u n) intern \<sigma> root None history cache new_instances) (Some (state', cache'))"
    by (auto simp: previous_ok_def)
  show ?thesis
  proof
    show "accepts u (final u) intern root history \<sigma> cache =
        Some (map (event_letter intern \<sigma>) history \<in> lang root, cache')"
      by (simp add: accepts_def r(1,3) nullable_iff)
    show "cache_ok u cache'" by (fact r(2))
    show "settles (\<lambda>n. accepts u (run u n) intern root history \<sigma> cache)
       (Some (map (event_letter intern \<sigma>) history \<in> lang root, cache'))"
      by (rule settles_comp2[OF r(4) r(4)]) (simp add: accepts_def r(3) nullable_iff)
  qed
qed

section \<open>The precompilation budget\<close>

text \<open>Derivatives add no table, and the loop charges every table it adds to the budget.\<close>

definition keeps_tables :: "'s uids \<Rightarrow> 's caller \<Rightarrow> 's regex \<Rightarrow> bool" where
  "keeps_tables u call r \<longleftrightarrow> (\<forall>cache t cache'. derivative u call r cache = Some (t, cache') \<longrightarrow>
     dc_minterms cache' = dc_minterms cache)"

lemma keeps_tables_lists:
  assumes "\<forall>r \<in> set rs. keeps_tables u call r"
  shows "derivatives u call rs cache = Some (ts, cache') \<Longrightarrow> dc_minterms cache' = dc_minterms cache"
    and "concat_alternatives u call rs cache = Some (ts, cache') \<Longrightarrow> dc_minterms cache' = dc_minterms cache"
  using assms
  by (induction rs arbitrary: cache ts)
    (fastforce simp: keeps_tables_def split: Option.bind_splits if_splits)+

lemma keeps_tables: "keeps_tables u call r"
proof (induction r)
  case (RUnion rs)
  then have "\<forall>r \<in> set rs. keeps_tables u call r" by simp
  from keeps_tables_lists(1)[OF this] show ?case
    by (auto simp: keeps_tables_def[of u call "RUnion rs"] derivative.simps[of u call "RUnion rs"]
        split: option.splits Option.bind_splits)
next
  case (RIntersect rs)
  then have "\<forall>r \<in> set rs. keeps_tables u call r" by simp
  from keeps_tables_lists(1)[OF this] show ?case
    by (auto simp: keeps_tables_def[of u call "RIntersect rs"] derivative.simps[of u call "RIntersect rs"]
        split: option.splits Option.bind_splits)
next
  case (RConcat rs)
  then have "\<forall>r \<in> set rs. keeps_tables u call r" by simp
  from keeps_tables_lists(2)[OF this] show ?case
    by (auto simp: keeps_tables_def[of u call "RConcat rs"] derivative.simps[of u call "RConcat rs"]
        split: option.splits Option.bind_splits)
next
  case (RNot r)
  then show ?case
    by (auto simp: keeps_tables_def derivative.simps[of u call "RNot r"] split: option.splits Option.bind_splits)
next
  case (RStar r)
  then show ?case
    by (auto simp: keeps_tables_def derivative.simps[of u call "RStar r"] split: option.splits Option.bind_splits)
qed (auto simp: keeps_tables_def derivative.simps split: option.splits Option.bind_splits)

definition table_entries :: "'s derivative_cache \<Rightarrow> nat" where
  "table_entries cache = (\<Sum>t \<in> dom (dc_minterms cache). length (the (dc_minterms cache t)))"

definition within_budget :: "'s regex list \<Rightarrow> nat \<Rightarrow> 's derivative_cache \<Rightarrow> bool" where
  "within_budget seen compiled cache \<longleftrightarrow>
     length seen \<le> MAX_PRECOMPILED_STATES \<and> compiled \<le> MAX_PRECOMPILED_MINTERMS \<and>
     finite (dom (dc_minterms cache)) \<and> card (dom (dc_minterms cache)) \<le> length seen \<and>
     table_entries cache = compiled \<and>
     (\<forall>t ss. dc_minterms cache t = Some ss \<longrightarrow> length (collect_transition_atoms t) \<le> MAX_PRECOMPILED_ATOMS \<and>
        length ss = 2 ^ length (collect_transition_atoms t))"

lemma table_entries_insert:
  assumes "dc_minterms cache t = None" "finite (dom (dc_minterms cache))"
  shows "table_entries (cache\<lparr>dc_minterms := (dc_minterms cache)(t \<mapsto> ss)\<rparr>) = length ss + table_entries cache"
proof -
  have "t \<notin> dom (dc_minterms cache)" using assms(1) by auto
  moreover have "(\<Sum>s \<in> dom (dc_minterms cache). length (the (((dc_minterms cache)(t \<mapsto> ss)) s))) =
      (\<Sum>s \<in> dom (dc_minterms cache). length (the (dc_minterms cache s)))"
    by (rule sum.cong) (use assms(1) in auto)
  ultimately show ?thesis using assms(2) by (simp add: table_entries_def)
qed

lemma table_entries_cong: "dc_minterms c = dc_minterms c' \<Longrightarrow> table_entries c = table_entries c'"
  by (simp add: table_entries_def)

lemma within_budget_cong:
  "dc_minterms c = dc_minterms c' \<Longrightarrow> within_budget seen compiled c = within_budget seen compiled c'"
  using table_entries_cong[of c c'] by (simp add: within_budget_def)

lemma precompile_visit_budget:
  assumes v: "precompile_visit u call r pending seen compiled cache = Some (pending', seen', compiled', cache')"
    and b: "within_budget seen compiled cache" and room: "length seen < MAX_PRECOMPILED_STATES"
  shows "within_budget seen' compiled' cache'"
proof (cases "r \<in> set seen")
  case True
  with v b show ?thesis by (simp add: precompile_visit_def)
next
  case False
  with v obtain t c where d: "derivative u call r cache = Some (t, c)"
    by (auto simp: precompile_visit_def split: Option.bind_splits)
  then have keep: "dc_minterms c = dc_minterms cache" using keeps_tables unfolding keeps_tables_def by blast
  with b room have grown: "within_budget (r # seen) compiled c"
    by (simp add: within_budget_def table_entries_cong[OF keep])
  let ?atoms = "collect_transition_atoms t"
  let ?ss = "map (evaluate_minterm u t ?atoms) [0..<2 ^ length ?atoms]"
  have new: "within_budget (r # seen) (compiled + 2 ^ length ?atoms) (c\<lparr>dc_minterms := (dc_minterms c)(t \<mapsto> ?ss)\<rparr>)"
    if "dc_minterms c t = None" "length ?atoms \<le> MAX_PRECOMPILED_ATOMS"
      "compiled + 2 ^ length ?atoms \<le> MAX_PRECOMPILED_MINTERMS"
  proof -
    have "finite (dom (dc_minterms c))" "t \<notin> dom (dc_minterms c)" "card (dom (dc_minterms c)) \<le> length seen"
      using grown b that(1) keep by (auto simp: within_budget_def)
    then show ?thesis
      using grown that table_entries_insert[OF that(1), of ?ss] by (simp add: within_budget_def)
  qed
  show ?thesis
    using v False d grown new
    by (auto simp: precompile_visit_def Let_def not_le not_less split: if_splits option.splits)
qed

lemma precompile_loop_budget:
  "precompile_loop u call pending seen compiled cache = Some cache' \<Longrightarrow> within_budget seen compiled cache \<Longrightarrow>
   \<exists>seen' compiled'. within_budget seen' compiled' cache'"
proof (induction u call pending seen compiled cache rule: precompile_loop.induct)
  case (1 u call pending seen compiled cache)
  show ?case
  proof (cases "length seen < MAX_PRECOMPILED_STATES \<and> pending \<noteq> []")
    case False
    with 1(2) have "cache' = cache"
      by (cases pending) (auto simp: precompile_loop.simps split: if_splits)
    with 1(3) show ?thesis by blast
  next
    case True
    then obtain r rest where pending: "pending = r # rest" by (cases pending) auto
    with True 1(2) obtain p s k c where v: "precompile_visit u call r rest seen compiled cache = Some (p, s, k, c)"
      "precompile_loop u call p s k c = Some cache'"
      by (auto simp: precompile_loop.simps[of u call "r # rest"] split: option.splits)
    with 1(1)[OF _ pending v(1) refl refl refl v(2)] precompile_visit_budget[OF v(1) 1(3)] True
    show ?thesis by blast
  qed
qed

lemma precompile_budget:
  assumes "precompile u call root empty_cache = Some cache"
  shows "finite (dom (dc_minterms cache))" "card (dom (dc_minterms cache)) \<le> MAX_PRECOMPILED_STATES"
    "table_entries cache \<le> MAX_PRECOMPILED_MINTERMS"
    "dc_minterms cache t = Some ss \<Longrightarrow> length ss = 2 ^ length (collect_transition_atoms t) \<and>
       length (collect_transition_atoms t) \<le> MAX_PRECOMPILED_ATOMS"
proof -
  have "within_budget [] 0 (empty_cache :: 'a derivative_cache)"
    by (simp add: within_budget_def empty_cache_def table_entries_def)
  from precompile_loop_budget[OF assms[unfolded precompile_def] this] obtain seen compiled where
    b: "within_budget seen compiled cache" by blast
  show "finite (dom (dc_minterms cache))" "card (dom (dc_minterms cache)) \<le> MAX_PRECOMPILED_STATES"
    "table_entries cache \<le> MAX_PRECOMPILED_MINTERMS"
    "dc_minterms cache t = Some ss \<Longrightarrow> length ss = 2 ^ length (collect_transition_atoms t) \<and>
       length (collect_transition_atoms t) \<le> MAX_PRECOMPILED_ATOMS"
    using b by (auto simp: within_budget_def)
qed

end
