(* ===== verification/Compile.thy ===== *)
theory Compile
  imports Symbolic
begin

text \<open>
  Compilation of source rules, \<^verbatim>\<open>rust-validator/src/syntax/compile.rs\<close>: heads declare the
  variables of a rule and their coordinates, tails may only use declared variables in the same
  coordinate, and expressions go through the smart constructors. The lemmas show when
  compilation succeeds, and that a compiled head and tail mean what the source means.
\<close>

section \<open>Errors\<close>

datatype compile_error =
    VariableComponentConflict string
  | UnboundVariable string

section \<open>Heads\<close>

definition compile_head_pattern ::
  "(string \<Rightarrow> 's) \<Rightarrow> ('t \<Rightarrow> 'r) \<Rightarrow> component \<Rightarrow> ('t, string) component_pattern \<Rightarrow> 's variable_environment \<Rightarrow>
   compile_error + ('r, 's) component_pattern \<times> 's variable_environment" where
  "compile_head_pattern intern resolve coord pat variables =
     (case pat of
        Constant v \<Rightarrow> Inr (Constant (resolve v), variables)
      | Variable name \<Rightarrow>
          (case env_bind variables (intern name) coord of
             Inl _ \<Rightarrow> Inl (VariableComponentConflict name)
           | Inr variables' \<Rightarrow> Inr (Variable (intern name), variables')))"

definition compile_head ::
  "(string \<Rightarrow> 's) \<Rightarrow> head \<Rightarrow> compile_error + 's compiled_head \<times> 's variable_environment" where
  "compile_head intern h =
     and_then (compile_head_pattern intern (resolve_principal intern) CompPrincipal (head_principal h) [])
       (\<lambda>(principal, env1).
     and_then (compile_head_pattern intern (resolve_action intern) CompAction (head_action h) env1)
       (\<lambda>(act, env2).
     and_then (compile_head_pattern intern (resolve_resource intern) CompResource (head_resource h) env2)
       (\<lambda>(resource, env3).
     Inr (\<lparr>ch_principal = principal, ch_action = act, ch_resource = resource\<rparr>, env3))))"

section \<open>Tails\<close>

definition compile_pattern ::
  "(string \<Rightarrow> 's) \<Rightarrow> ('t \<Rightarrow> 'r) \<Rightarrow> component \<Rightarrow> ('t, string) component_pattern \<Rightarrow> 's variable_environment \<Rightarrow>
   compile_error + ('r, 's) component_pattern" where
  "compile_pattern intern resolve coord pat variables =
     (case pat of
        Constant v \<Rightarrow> Inr (Constant (resolve v))
      | Variable name \<Rightarrow>
          (case env_resolve variables (intern name) coord of
             Inl Unbound \<Rightarrow> Inl (UnboundVariable name)
           | Inl ComponentConflict \<Rightarrow> Inl (VariableComponentConflict name)
           | Inr _ \<Rightarrow> Inr (Variable (intern name))))"

fun compile_atom_pattern ::
  "(string \<Rightarrow> 's) \<Rightarrow> 's variable_environment \<Rightarrow> atom_pattern \<Rightarrow> compile_error + 's compiled_atom" where
  "compile_atom_pattern intern variables (PrincipalAtom p) =
     and_then (compile_pattern intern (resolve_principal intern) CompPrincipal p variables)
       (\<lambda>p'. Inr (CompiledPrincipal p'))"
| "compile_atom_pattern intern variables (ActionAtom p) =
     and_then (compile_pattern intern (resolve_action intern) CompAction p variables)
       (\<lambda>p'. Inr (CompiledAction p'))"
| "compile_atom_pattern intern variables (ResourceAtom p) =
     and_then (compile_pattern intern (resolve_resource intern) CompResource p variables)
       (\<lambda>p'. Inr (CompiledResource p'))"

fun compile_test ::
  "'s uids \<Rightarrow> (string \<Rightarrow> 's) \<Rightarrow> 's variable_environment \<Rightarrow> test_expr \<Rightarrow> compile_error + 's test" where
  "compile_test u intern variables TrueT = Inr TTrue"
| "compile_test u intern variables FalseT = Inr TFalse"
| "compile_test u intern variables (AtomT cmp pat) =
     and_then (compile_atom_pattern intern variables pat) (\<lambda>pat'. Inr (TAtom cmp pat'))"
| "compile_test u intern variables (AndT ts) =
     and_then (try_map (compile_test u intern variables) ts) (\<lambda>ts'. Inr (test_and u ts'))"
| "compile_test u intern variables (OrT ts) =
     and_then (try_map (compile_test u intern variables) ts) (\<lambda>ts'. Inr (test_or u ts'))"

fun compile_regex ::
  "'s uids \<Rightarrow> (string \<Rightarrow> 's) \<Rightarrow> 's variable_environment \<Rightarrow> regex_expr \<Rightarrow> compile_error + 's regex" where
  "compile_regex u intern variables EmptyX = Inr REmpty"
| "compile_regex u intern variables AllX = Inr RAll"
| "compile_regex u intern variables EpsilonX = Inr REpsilon"
| "compile_regex u intern variables (TestX t) =
     and_then (compile_test u intern variables t) (\<lambda>t'. Inr (regex_test t'))"
| "compile_regex u intern variables (UnionX rs) =
     and_then (try_map (compile_regex u intern variables) rs) (\<lambda>rs'. Inr (regex_union u rs'))"
| "compile_regex u intern variables (ConcatX rs) =
     and_then (try_map (compile_regex u intern variables) rs) (\<lambda>rs'. Inr (regex_concat rs'))"
| "compile_regex u intern variables (StarX r) =
     and_then (compile_regex u intern variables r) (\<lambda>r'. Inr (regex_star r'))"
| "compile_regex u intern variables (IntersectX rs) =
     and_then (try_map (compile_regex u intern variables) rs) (\<lambda>rs'. Inr (regex_intersect u rs'))"
| "compile_regex u intern variables (NotX r) =
     and_then (compile_regex u intern variables r) (\<lambda>r'. Inr (regex_not r'))"

section \<open>Rules\<close>

record 's runtime_rule =
  rr_mode :: rule_mode
  rr_head :: "'s compiled_head"
  rr_tail :: "'s regex"
  rr_derivatives :: "'s derivative_cache"

definition compile_rule ::
  "'s uids \<Rightarrow> 's caller \<Rightarrow> (string \<Rightarrow> 's) \<Rightarrow> rule \<Rightarrow> (compile_error + 's runtime_rule) option" where
  "compile_rule u call intern source =
     (case and_then (compile_head intern (rule_head source)) (\<lambda>(h, variables).
             and_then (compile_regex u intern variables (rule_tail source)) (\<lambda>tail. Inr (h, tail))) of
        Inl e \<Rightarrow> Some (Inl e)
      | Inr (h, tail) \<Rightarrow> do {
          cache \<leftarrow> precompile u call tail empty_cache;
          Some (Inr \<lparr>rr_mode = rule_mode source, rr_head = h, rr_tail = tail, rr_derivatives = cache\<rparr>) })"

text \<open>
  Evaluating a rule on a candidate: \<open>None\<close> inside when the head does not match. The rule keeps
  the derivatives the evaluation added.
\<close>

definition accepts_history ::
  "'s uids \<Rightarrow> 's caller \<Rightarrow> (string \<Rightarrow> 's) \<Rightarrow> 's runtime_rule \<Rightarrow> event list \<Rightarrow> event \<Rightarrow>
   (bool option \<times> 's runtime_rule) option" where
  "accepts_history u call intern ru history candidate =
     (case match_candidate intern (rr_head ru) candidate of
        None \<Rightarrow> Some (None, ru)
      | Some \<sigma> \<Rightarrow> do {
          (accepted, cache) \<leftarrow> accepts u call intern (rr_tail ru) history \<sigma> (rr_derivatives ru);
          Some (Some accepted, ru\<lparr>rr_derivatives := cache\<rparr>) })"

section \<open>When a rule compiles\<close>

text \<open>The coordinates a head and a tail use each name in.\<close>

fun pattern_use :: "component \<Rightarrow> ('t, string) component_pattern \<Rightarrow> (string \<times> component) set" where
  "pattern_use coord (Constant _) = {}"
| "pattern_use coord (Variable x) = {(x, coord)}"

definition head_uses :: "head \<Rightarrow> (string \<times> component) set" where
  "head_uses h = pattern_use CompPrincipal (head_principal h) \<union> pattern_use CompAction (head_action h) \<union>
     pattern_use CompResource (head_resource h)"

fun atom_uses :: "atom_pattern \<Rightarrow> (string \<times> component) set" where
  "atom_uses (PrincipalAtom p) = pattern_use CompPrincipal p"
| "atom_uses (ActionAtom p) = pattern_use CompAction p"
| "atom_uses (ResourceAtom p) = pattern_use CompResource p"

fun test_uses :: "test_expr \<Rightarrow> (string \<times> component) set" where
  "test_uses (AtomT _ p) = atom_uses p"
| "test_uses (AndT ts) = (\<Union>t \<in> set ts. test_uses t)"
| "test_uses (OrT ts) = (\<Union>t \<in> set ts. test_uses t)"
| "test_uses _ = {}"

fun regex_uses :: "regex_expr \<Rightarrow> (string \<times> component) set" where
  "regex_uses (TestX t) = test_uses t"
| "regex_uses (UnionX rs) = (\<Union>r \<in> set rs. regex_uses r)"
| "regex_uses (ConcatX rs) = (\<Union>r \<in> set rs. regex_uses r)"
| "regex_uses (StarX r) = regex_uses r"
| "regex_uses (IntersectX rs) = (\<Union>r \<in> set rs. regex_uses r)"
| "regex_uses (NotX r) = regex_uses r"
| "regex_uses _ = {}"

text \<open>
  A rule is well typed when its head uses every name in one coordinate only and its tail uses
  names as the head does.
\<close>

definition well_typed :: "rule \<Rightarrow> bool" where
  "well_typed ru \<longleftrightarrow> single_valued (head_uses (rule_head ru)) \<and> regex_uses (rule_tail ru) \<subseteq> head_uses (rule_head ru)"

text \<open>An environment that declares exactly the uses \<open>U\<close>.\<close>

definition declares :: "(string \<Rightarrow> 's) \<Rightarrow> 's variable_environment \<Rightarrow> (string \<times> component) set \<Rightarrow> bool" where
  "declares intern env U \<longleftrightarrow> (\<forall>x c. map_of env (intern x) = Some c \<longleftrightarrow> (x, c) \<in> U)"

lemma compile_head_pattern_env:
  assumes inj: "inj intern" and env: "declares intern env U"
  shows "(case compile_head_pattern intern resolve coord p env of
      Inl e \<Rightarrow> \<not> single_valued (U \<union> pattern_use coord p)
    | Inr (p', env') \<Rightarrow> declares intern env' (U \<union> pattern_use coord p) \<and> p' = map_component_pattern resolve intern p)"
proof (cases p)
  case (Constant v)
  with env show ?thesis by (simp add: compile_head_pattern_def)
next
  case (Variable x)
  show ?thesis
  proof (cases "map_of env (intern x)")
    case None
    then have "\<And>c. (x, c) \<notin> U" using env unfolding declares_def by (metis option.distinct(1))
    with None env inj Variable show ?thesis
      by (auto simp: compile_head_pattern_def env_bind_def declares_def inj_eq)
  next
    case (Some c)
    with env have c: "(x, c) \<in> U" by (simp add: declares_def)
    show ?thesis
    proof (cases "c = coord")
      case True
      with c have "U \<union> pattern_use coord p = U" by (auto simp: Variable)
      with True Some env Variable show ?thesis by (simp add: compile_head_pattern_def env_bind_def)
    next
      case False
      with c have "\<not> single_valued (U \<union> pattern_use coord p)"
        by (auto simp: single_valued_def Variable)
      with False Some Variable show ?thesis by (simp add: compile_head_pattern_def env_bind_def)
    qed
  qed
qed

definition map_head :: "(string \<Rightarrow> 's) \<Rightarrow> head \<Rightarrow> 's compiled_head" where
  "map_head intern h = \<lparr>
     ch_principal = map_component_pattern (resolve_principal intern) intern (head_principal h),
     ch_action = map_component_pattern (resolve_action intern) intern (head_action h),
     ch_resource = map_component_pattern (resolve_resource intern) intern (head_resource h)\<rparr>"

lemma compile_head_iff:
  assumes inj: "inj intern"
  shows "case compile_head intern h of
      Inl e \<Rightarrow> \<not> single_valued (head_uses h)
    | Inr (ch, env) \<Rightarrow> single_valued (head_uses h) \<and> declares intern env (head_uses h) \<and> ch = map_head intern h"
proof -
  have none: "declares intern [] {}" by (simp add: declares_def)
  have sv: "single_valued (A \<union> B) \<Longrightarrow> single_valued A" for A B :: "(string \<times> component) set"
    by (auto simp: single_valued_def)
  have declared: "declares intern env U \<Longrightarrow> single_valued U" for env U
    by (auto simp: declares_def single_valued_def) (metis option.inject)
  note p1 = compile_head_pattern_env[OF inj none,
      where resolve = "resolve_principal intern" and coord = CompPrincipal and p = "head_principal h"]
  show ?thesis
  proof (cases "compile_head_pattern intern (resolve_principal intern) CompPrincipal (head_principal h) []")
    case (Inl e)
    with p1 show ?thesis by (auto simp: compile_head_def head_uses_def dest: sv)
  next
    case (Inr r1)
    obtain c1 env1 where r1: "r1 = (c1, env1)" by (cases r1)
    with Inr p1 have e1: "declares intern env1 (pattern_use CompPrincipal (head_principal h))"
      "c1 = map_component_pattern (resolve_principal intern) intern (head_principal h)" by auto
    note p2 = compile_head_pattern_env[OF inj e1(1),
      where resolve = "resolve_action intern" and coord = CompAction and p = "head_action h"]
    show ?thesis
    proof (cases "compile_head_pattern intern (resolve_action intern) CompAction (head_action h) env1")
      case (Inl e)
      with p2 Inr r1 show ?thesis by (auto simp: compile_head_def head_uses_def dest: sv)
    next
      case r2: (Inr r2)
      obtain c2 env2 where r2': "r2 = (c2, env2)" by (cases r2)
      with r2 p2 have e2: "declares intern env2 (pattern_use CompPrincipal (head_principal h) \<union>
          pattern_use CompAction (head_action h))"
        "c2 = map_component_pattern (resolve_action intern) intern (head_action h)" by auto
      note p3 = compile_head_pattern_env[OF inj e2(1),
      where resolve = "resolve_resource intern" and coord = CompResource and p = "head_resource h"]
      show ?thesis
        using p3 Inr r1 r2 r2' e1(2) e2(2) declared
        by (cases "compile_head_pattern intern (resolve_resource intern) CompResource (head_resource h) env2")
          (auto simp: compile_head_def head_uses_def map_head_def)
    qed
  qed
qed

lemma compile_pattern_iff:
  assumes "declares intern env U"
  shows "compile_pattern intern resolve coord p env = Inr p' \<longleftrightarrow>
    pattern_use coord p \<subseteq> U \<and> p' = map_component_pattern resolve intern p"
proof (cases p)
  case (Variable x)
  have "map_of env (intern x) = Some c \<longleftrightarrow> (x, c) \<in> U" for c using assms by (simp add: declares_def)
  then show ?thesis
    by (cases "map_of env (intern x)") (auto simp: Variable compile_pattern_def env_resolve_def)
qed (auto simp: compile_pattern_def)

lemma compile_atom_iff:
  assumes "declares intern env U"
  shows "(\<exists>p'. compile_atom_pattern intern env p = Inr p') \<longleftrightarrow> atom_uses p \<subseteq> U"
  by (cases p) (auto simp: and_then_Inr compile_pattern_iff[OF assms])

lemma compile_test_iff:
  assumes "declares intern env U"
  shows "(\<exists>t'. compile_test u intern env t = Inr t') \<longleftrightarrow> test_uses t \<subseteq> U"
proof (induction t)
  case (AtomT cmp p)
  then show ?case using compile_atom_iff[OF assms, of p] by (auto simp: and_then_Inr)
next
  case (AndT ts)
  then show ?case using try_map_succeeds[of "compile_test u intern env" ts] by (auto simp: and_then_Inr)
next
  case (OrT ts)
  then show ?case using try_map_succeeds[of "compile_test u intern env" ts] by (auto simp: and_then_Inr)
qed auto

lemma compile_regex_iff:
  assumes "declares intern env U"
  shows "(\<exists>r'. compile_regex u intern env r = Inr r') \<longleftrightarrow> regex_uses r \<subseteq> U"
proof (induction r)
  case (TestX t)
  then show ?case using compile_test_iff[OF assms, of u t] by (auto simp: and_then_Inr)
next
  case (UnionX rs)
  then show ?case using try_map_succeeds[of "compile_regex u intern env" rs] by (auto simp: and_then_Inr)
next
  case (ConcatX rs)
  then show ?case using try_map_succeeds[of "compile_regex u intern env" rs] by (auto simp: and_then_Inr)
next
  case (IntersectX rs)
  then show ?case using try_map_succeeds[of "compile_regex u intern env" rs] by (auto simp: and_then_Inr)
qed (auto simp: and_then_Inr)

section \<open>What a compiled rule means\<close>

text \<open>The compiled substitution of source bindings.\<close>

fun resolve_binding :: "(string \<Rightarrow> 's) \<Rightarrow> binding \<Rightarrow> 's resolved_value" where
  "resolve_binding intern (BoundPrincipal p) = PrincipalValue (resolve_principal intern p)"
| "resolve_binding intern (BoundAction a) = ActionValue (resolve_action intern a)"
| "resolve_binding intern (BoundResource r) = ResourceValue (resolve_resource intern r)"

definition corresponds :: "(string \<Rightarrow> 's) \<Rightarrow> 's substitution \<Rightarrow> bindings \<Rightarrow> bool" where
  "corresponds intern \<sigma> \<theta> \<longleftrightarrow> (\<forall>x. map_of \<sigma> (intern x) = map_option (resolve_binding intern) (\<theta> x)) \<and>
     fst ` set \<sigma> \<subseteq> range intern"

context interned
begin

lemma resolve_binding_eq: "resolve_binding intern b = resolve_binding intern b' \<longleftrightarrow> b = b'"
  by (cases b; cases b')
    (simp_all add: resolve_principal_eq resolve_action_eq resolve_resource_eq)

end

context component_domain
begin

text \<open>A compiled pattern matches a component as the source pattern does.\<close>

lemma pattern_matches:
  "pattern_subst project (map_component_pattern resolve intern p) \<sigma> = Some (resolve a) \<longleftrightarrow>
   (case p of Constant c \<Rightarrow> a = c | Variable x \<Rightarrow> map_of \<sigma> (intern x) = Some (inject (resolve a)))"
  using resolve_faithful project_resolved
  by (cases p) (auto split: Option.bind_splits simp: project_inject)

lemma head_pattern_matches:
  "match_head_pattern resolve inject (map_component_pattern resolve intern p) a =
   (case p of Constant c \<Rightarrow> if c = a then Some [] else None
    | Variable x \<Rightarrow> Some [(intern x, inject (resolve a))])"
  using resolve_faithful by (cases p) (auto simp: match_head_pattern_def singleton_def)

end

lemma list_all2_strong:
  "list_all2 P xs ys \<Longrightarrow> (\<And>x y. x \<in> set xs \<Longrightarrow> P x y \<Longrightarrow> Q x y) \<Longrightarrow> list_all2 Q xs ys"
  by (induction rule: list_all2_induct) auto

text \<open>Reading a compiled language through the events of one substitution.\<close>

definition seen_by :: "('e \<Rightarrow> 'x) \<Rightarrow> 'x list set \<Rightarrow> 'e list set" where
  "seen_by f L = {w. map f w \<in> L}"

lemma seen_by_seqs: "seen_by f (seqs A B) = seqs (seen_by f A) (seen_by f B)"
  by (auto simp: seen_by_def seqs_def take_map drop_map)

lemma seen_by_seqs_list: "seen_by f (seqs_list As) = seqs_list (map (seen_by f) As)"
  by (induction As) (auto simp: seen_by_seqs, auto simp: seen_by_def)

lemma seen_by_repeated: "seen_by f (repeated A) = repeated (seen_by f A)"
proof
  have "v \<in> repeated A \<Longrightarrow> map f w = v \<Longrightarrow> w \<in> repeated (seen_by f A)" for v w
  proof (induction arbitrary: w rule: repeated.induct)
    case none
    then show ?case by (simp add: repeated.none)
  next
    case (more u v)
    then obtain w1 w2 where "w = w1 @ w2" "map f w1 = u" "map f w2 = v"
      by (auto simp: map_eq_append_conv)
    with more show ?case by (auto simp: seen_by_def intro!: repeated.more)
  qed
  then show "seen_by f (repeated A) \<subseteq> repeated (seen_by f A)" by (auto simp: seen_by_def)
  have "w \<in> repeated (seen_by f A) \<Longrightarrow> map f w \<in> repeated A" for w
    by (induction rule: repeated.induct) (auto simp: seen_by_def intro: repeated.intros)
  then show "repeated (seen_by f A) \<subseteq> seen_by f (repeated A)" by (auto simp: seen_by_def)
qed

lemma seen_by_sets:
  "seen_by f {} = {}" "seen_by f UNIV = UNIV" "seen_by f {[]} = {[]}"
  "seen_by f (- A) = - seen_by f A" "seen_by f (\<Union>(g ` I)) = (\<Union>i \<in> I. seen_by f (g i))"
  "seen_by f (\<Inter>(g ` I)) = (\<Inter>i \<in> I. seen_by f (g i))"
  "seen_by f {[x] |x. x \<in> X} = {[e] |e. f e \<in> X}"
  by (auto simp: seen_by_def)

lemma atom_matches_patterns:
  "atom_matches intern \<sigma> e (CompiledPrincipal q) \<longleftrightarrow>
     pattern_subst project_principal q \<sigma> = Some (resolve_principal intern (ev_principal e))"
  "atom_matches intern \<sigma> e (CompiledAction r) \<longleftrightarrow>
     pattern_subst project_action r \<sigma> = Some (resolve_action intern (ev_action e))"
  "atom_matches intern \<sigma> e (CompiledResource s) \<longleftrightarrow>
     pattern_subst project_resource s \<sigma> = Some (resolve_resource intern (ev_resource e))"
  by (auto simp: atom_matches_def split: option.split)

context interned
begin

lemma corresponds_lookup:
  "corresponds intern \<sigma> \<theta> \<Longrightarrow>
   map_of \<sigma> (intern x) = Some (resolve_binding intern b) \<longleftrightarrow> \<theta> x = Some b"
  using resolve_binding_eq by (cases "\<theta> x") (auto simp: corresponds_def)

lemma atom_matches_source:
  assumes corr: "corresponds intern \<sigma> \<theta>" and env: "declares intern env U"
    and c: "compile_atom_pattern intern env p = Inr p'"
  shows "atom_matches intern \<sigma> e p' \<longleftrightarrow> atom_holds \<theta> p e"
proof (cases p)
  case (PrincipalAtom q)
  with c env have p': "p' = CompiledPrincipal (map_component_pattern (resolve_principal intern) intern q)"
    by (auto simp: and_then_Inr compile_pattern_iff)
  show ?thesis
    unfolding p' PrincipalAtom atom_matches_patterns principal_domain.pattern_matches atom_holds.simps
    using corresponds_lookup[OF corr, of _ "BoundPrincipal (ev_principal e)"]
    by (simp split: component_pattern.split)
next
  case (ActionAtom q)
  with c env have p': "p' = CompiledAction (map_component_pattern (resolve_action intern) intern q)"
    by (auto simp: and_then_Inr compile_pattern_iff)
  show ?thesis
    unfolding p' ActionAtom atom_matches_patterns action_domain.pattern_matches atom_holds.simps
    using corresponds_lookup[OF corr, of _ "BoundAction (ev_action e)"]
    by (simp split: component_pattern.split)
next
  case (ResourceAtom q)
  with c env have p': "p' = CompiledResource (map_component_pattern (resolve_resource intern) intern q)"
    by (auto simp: and_then_Inr compile_pattern_iff)
  show ?thesis
    unfolding p' ResourceAtom atom_matches_patterns resource_domain.pattern_matches atom_holds.simps
    using corresponds_lookup[OF corr, of _ "BoundResource (ev_resource e)"]
    by (simp split: component_pattern.split)
qed

lemma compile_test_correct:
  assumes u: "hash_consed u" and corr: "corresponds intern \<sigma> \<theta>" and env: "declares intern env U"
  shows "compile_test u intern env t = Inr t' \<Longrightarrow>
    test_nf u t' \<and> (event_letter intern \<sigma> e \<in> letters t' \<longleftrightarrow> test_holds \<theta> t e)"
proof (induction t arbitrary: t')
  case (AtomT cmp p)
  then obtain p' where "compile_atom_pattern intern env p = Inr p'" "t' = TAtom cmp p'"
    by (auto simp: and_then_Inr)
  with atom_matches_source[OF corr env] show ?case by (cases cmp) auto
next
  case (AndT ts)
  then obtain ts' where ts': "list_all2 (\<lambda>t t'. compile_test u intern env t = Inr t') ts ts'" "t' = test_and u ts'"
    by (auto simp: and_then_Inr try_map_Inr)
  have "list_all2 (\<lambda>t t'. test_nf u t' \<and> (event_letter intern \<sigma> e \<in> letters t' \<longleftrightarrow> test_holds \<theta> t e)) ts ts'"
    using ts'(1) by (rule list_all2_strong) (use AndT.IH in blast)
  then have "(\<forall>t' \<in> set ts'. test_nf u t') \<and>
      ((\<forall>t' \<in> set ts'. event_letter intern \<sigma> e \<in> letters t') \<longleftrightarrow> (\<forall>t \<in> set ts. test_holds \<theta> t e))"
    by (induction rule: list_all2_induct) auto
  with hash_consedD(1)[OF u] show ?case by (simp add: ts'(2) lang_simps list_all_iff nf_intros)
next
  case (OrT ts)
  then obtain ts' where ts': "list_all2 (\<lambda>t t'. compile_test u intern env t = Inr t') ts ts'" "t' = test_or u ts'"
    by (auto simp: and_then_Inr try_map_Inr)
  have "list_all2 (\<lambda>t t'. test_nf u t' \<and> (event_letter intern \<sigma> e \<in> letters t' \<longleftrightarrow> test_holds \<theta> t e)) ts ts'"
    using ts'(1) by (rule list_all2_strong) (use OrT.IH in blast)
  then have "(\<forall>t' \<in> set ts'. test_nf u t') \<and>
      ((\<exists>t' \<in> set ts'. event_letter intern \<sigma> e \<in> letters t') \<longleftrightarrow> (\<exists>t \<in> set ts. test_holds \<theta> t e))"
    by (induction rule: list_all2_induct) auto
  with hash_consedD(1)[OF u] show ?case by (simp add: ts'(2) lang_simps list_ex_iff nf_intros)
qed auto

lemma compile_regex_correct:
  assumes u: "hash_consed u" and corr: "corresponds intern \<sigma> \<theta>" and env: "declares intern env U"
  shows "compile_regex u intern env r = Inr r' \<Longrightarrow>
    regex_nf u r' \<and> seen_by (event_letter intern \<sigma>) (lang r') = expr_lang \<theta> r"
proof (induction r arbitrary: r')
  case (TestX t)
  then obtain t' where t': "compile_test u intern env t = Inr t'" "r' = regex_test t'"
    by (auto simp: and_then_Inr)
  note c = compile_test_correct[OF u corr env t'(1)]
  show ?case using c by (auto simp: t'(2) lang_regex_test seen_by_sets intro!: nf_intros)
next
  case (UnionX rs)
  then obtain rs' where rs': "list_all2 (\<lambda>r r'. compile_regex u intern env r = Inr r') rs rs'"
    "r' = regex_union u rs'" by (auto simp: and_then_Inr try_map_Inr)
  have "list_all2 (\<lambda>r r'. regex_nf u r' \<and> seen_by (event_letter intern \<sigma>) (lang r') = expr_lang \<theta> r) rs rs'"
    using rs'(1) by (rule list_all2_strong) (use UnionX.IH in blast)
  then have "(\<forall>r' \<in> set rs'. regex_nf u r') \<and>
      (\<lambda>r'. seen_by (event_letter intern \<sigma>) (lang r')) ` set rs' = expr_lang \<theta> ` set rs"
    by (induction rule: list_all2_induct) auto
  with u show ?case by (simp add: rs'(2) lang_simps nf_intros seen_by_sets)
next
  case (IntersectX rs)
  then obtain rs' where rs': "list_all2 (\<lambda>r r'. compile_regex u intern env r = Inr r') rs rs'"
    "r' = regex_intersect u rs'" by (auto simp: and_then_Inr try_map_Inr)
  have "list_all2 (\<lambda>r r'. regex_nf u r' \<and> seen_by (event_letter intern \<sigma>) (lang r') = expr_lang \<theta> r) rs rs'"
    using rs'(1) by (rule list_all2_strong) (use IntersectX.IH in blast)
  then have "(\<forall>r' \<in> set rs'. regex_nf u r') \<and>
      (\<lambda>r'. seen_by (event_letter intern \<sigma>) (lang r')) ` set rs' = expr_lang \<theta> ` set rs"
    by (induction rule: list_all2_induct) auto
  with u show ?case by (simp add: rs'(2) lang_simps nf_intros seen_by_sets)
next
  case (ConcatX rs)
  then obtain rs' where rs': "list_all2 (\<lambda>r r'. compile_regex u intern env r = Inr r') rs rs'"
    "r' = regex_concat rs'" by (auto simp: and_then_Inr try_map_Inr)
  have "list_all2 (\<lambda>r r'. regex_nf u r' \<and> seen_by (event_letter intern \<sigma>) (lang r') = expr_lang \<theta> r) rs rs'"
    using rs'(1) by (rule list_all2_strong) (use ConcatX.IH in blast)
  then have "(\<forall>r' \<in> set rs'. regex_nf u r') \<and>
      map (\<lambda>r'. seen_by (event_letter intern \<sigma>) (lang r')) rs' = map (expr_lang \<theta>) rs"
    by (induction rule: list_all2_induct) auto
  then show ?case by (simp add: rs'(2) lang_simps nf_intros seen_by_seqs_list comp_def)
next
  case (StarX r)
  then show ?case
    by (auto simp: and_then_Inr lang_simps seen_by_repeated intro: nf_intros)
next
  case (NotX r)
  then show ?case
    by (auto simp: and_then_Inr lang_simps seen_by_sets intro: nf_intros)
qed (auto simp: seen_by_sets)

text \<open>A compiled head matches a candidate as the source head does.\<close>

lemma corresponds_singleton:
  "corresponds intern [(intern x, resolve_binding intern b)] [x \<mapsto> b]" "corresponds intern [] Map.empty"
  using intern_inj by (auto simp: corresponds_def inj_eq)

lemma merge_corresponds:
  assumes f: "corresponds intern f \<phi>" and g: "corresponds intern g \<gamma>" and d: "distinct (map fst g)"
  shows "(agree \<phi> \<gamma> \<longleftrightarrow> merge_substitutions f g \<noteq> None) \<and>
    (\<forall>h. merge_substitutions f g = Some h \<longrightarrow> corresponds intern h (\<phi> ++ \<gamma>))"
proof
  have look: "map_of f (intern x) = map_option (resolve_binding intern) (\<phi> x)"
    "map_of g (intern x) = map_option (resolve_binding intern) (\<gamma> x)" for x
    using f g by (simp_all add: corresponds_def)
  show "agree \<phi> \<gamma> \<longleftrightarrow> merge_substitutions f g \<noteq> None"
  proof
    assume a: "agree \<phi> \<gamma>"
    show "merge_substitutions f g \<noteq> None"
    proof
      assume "merge_substitutions f g = None"
      then obtain s a b where s: "map_of f s = Some a" "map_of g s = Some b" "a \<noteq> b"
        using merge_substitutions_None[OF d] by blast
      then have "s \<in> fst ` set f" by (metis map_of_SomeD fst_conv image_eqI)
      then obtain x where "s = intern x" using f by (auto simp: corresponds_def)
      with s look[of x] a show False by (auto simp: agree_def)
    qed
  next
    assume "merge_substitutions f g \<noteq> None"
    then have no: "map_of f s = Some a \<Longrightarrow> map_of g s = Some b \<Longrightarrow> a = b" for s a b
      unfolding merge_substitutions_None[OF d] by blast
    show "agree \<phi> \<gamma>"
      unfolding agree_def
    proof (intro allI impI)
      fix x a b assume "\<phi> x = Some a" "\<gamma> x = Some b"
      with no[of "intern x"] look[of x] resolve_binding_eq show "a = b" by auto
    qed
  qed
  show "\<forall>h. merge_substitutions f g = Some h \<longrightarrow> corresponds intern h (\<phi> ++ \<gamma>)"
  proof (intro allI impI)
    fix h assume h: "merge_substitutions f g = Some h"
    then have maps: "map_of h = map_of f ++ map_of g" by (rule merge_substitutions_Some)
    have "h = g @ f" using h by (auto simp: merge_substitutions_def split: if_splits)
    then have "fst ` set h \<subseteq> fst ` set f \<union> fst ` set g" by (simp add: image_Un)
    moreover have "fst ` set f \<union> fst ` set g \<subseteq> range intern"
      by (rule Un_least) (use f g in \<open>simp_all only: corresponds_def\<close>)
    ultimately have "fst ` set h \<subseteq> range intern" by (rule order_trans)
    note dom = this
    show "corresponds intern h (\<phi> ++ \<gamma>)"
      using look dom maps by (simp add: corresponds_def map_add_def split: option.split)
  qed
qed

lemma head_pattern_corresponds:
  "match_head_pattern (resolve_principal intern) PrincipalValue
     (map_component_pattern (resolve_principal intern) intern p) x = Some \<sigma> \<Longrightarrow>
   \<exists>\<theta>. bind_pattern BoundPrincipal p x = Some \<theta> \<and> corresponds intern \<sigma> \<theta> \<and> distinct (map fst \<sigma>)"
  "match_head_pattern (resolve_action intern) ActionValue
     (map_component_pattern (resolve_action intern) intern q) y = Some \<sigma> \<Longrightarrow>
   \<exists>\<theta>. bind_pattern BoundAction q y = Some \<theta> \<and> corresponds intern \<sigma> \<theta> \<and> distinct (map fst \<sigma>)"
  "match_head_pattern (resolve_resource intern) ResourceValue
     (map_component_pattern (resolve_resource intern) intern r) z = Some \<sigma> \<Longrightarrow>
   \<exists>\<theta>. bind_pattern BoundResource r z = Some \<theta> \<and> corresponds intern \<sigma> \<theta> \<and> distinct (map fst \<sigma>)"
  using corresponds_singleton(1)[of _ "BoundPrincipal x"] corresponds_singleton(1)[of _ "BoundAction y"]
    corresponds_singleton(1)[of _ "BoundResource z"] corresponds_singleton(2)
  by (auto simp: principal_domain.head_pattern_matches action_domain.head_pattern_matches
      resource_domain.head_pattern_matches bind_pattern_def split: component_pattern.splits if_splits)

lemma head_pattern_None:
  "match_head_pattern (resolve_principal intern) PrincipalValue
     (map_component_pattern (resolve_principal intern) intern p) x = None \<longleftrightarrow> bind_pattern BoundPrincipal p x = None"
  "match_head_pattern (resolve_action intern) ActionValue
     (map_component_pattern (resolve_action intern) intern q) y = None \<longleftrightarrow> bind_pattern BoundAction q y = None"
  "match_head_pattern (resolve_resource intern) ResourceValue
     (map_component_pattern (resolve_resource intern) intern r) z = None \<longleftrightarrow> bind_pattern BoundResource r z = None"
  by (auto simp: principal_domain.head_pattern_matches action_domain.head_pattern_matches
      resource_domain.head_pattern_matches bind_pattern_def split: component_pattern.splits)

lemma merge_pair:
  assumes "corresponds intern f \<phi>" "corresponds intern g \<gamma>" "distinct (map fst g)"
  shows "if agree \<phi> \<gamma> then \<exists>h. merge_substitutions f g = Some h \<and> corresponds intern h (\<phi> ++ \<gamma>)
    else merge_substitutions f g = None"
  using merge_corresponds[OF assms] by auto

lemma match_candidate_correct:
  "case head_bindings h e of
     None \<Rightarrow> match_candidate intern (map_head intern h) e = None
   | Some \<theta> \<Rightarrow> \<exists>\<sigma>. match_candidate intern (map_head intern h) e = Some \<sigma> \<and> corresponds intern \<sigma> \<theta>"
proof -
  let ?P = "match_head_pattern (resolve_principal intern) PrincipalValue
     (map_component_pattern (resolve_principal intern) intern (head_principal h)) (ev_principal e)"
  let ?A = "match_head_pattern (resolve_action intern) ActionValue
     (map_component_pattern (resolve_action intern) intern (head_action h)) (ev_action e)"
  let ?R = "match_head_pattern (resolve_resource intern) ResourceValue
     (map_component_pattern (resolve_resource intern) intern (head_resource h)) (ev_resource e)"
  have match: "match_candidate intern (map_head intern h) e = do {
      p \<leftarrow> ?P; a \<leftarrow> ?A; pa \<leftarrow> merge_substitutions p a; r \<leftarrow> ?R; merge_substitutions pa r }"
    by (simp add: match_candidate_def map_head_def)
  show ?thesis
  proof (cases "?P = None \<or> ?A = None \<or> ?R = None")
    case True
    then have "head_bindings h e = None"
      unfolding head_bindings_def head_pattern_None by (auto split: Option.bind_splits)
    moreover have "match_candidate intern (map_head intern h) e = None"
      using True unfolding match by (auto split: Option.bind_splits)
    ultimately show ?thesis by simp
  next
    case False
    then obtain p a r where some: "?P = Some p" "?A = Some a" "?R = Some r" by auto
    obtain \<pi> where p: "bind_pattern BoundPrincipal (head_principal h) (ev_principal e) = Some \<pi>"
      "corresponds intern p \<pi>" using head_pattern_corresponds(1)[OF some(1)] by blast
    obtain \<alpha> where a: "bind_pattern BoundAction (head_action h) (ev_action e) = Some \<alpha>"
      "corresponds intern a \<alpha>" "distinct (map fst a)" using head_pattern_corresponds(2)[OF some(2)] by blast
    obtain \<rho> where r: "bind_pattern BoundResource (head_resource h) (ev_resource e) = Some \<rho>"
      "corresponds intern r \<rho>" "distinct (map fst r)" using head_pattern_corresponds(3)[OF some(3)] by blast
    have src: "head_bindings h e = (if agree \<pi> \<alpha> \<and> agree (\<pi> ++ \<alpha>) \<rho> then Some (\<pi> ++ \<alpha> ++ \<rho>) else None)"
      by (simp add: head_bindings_def p(1) a(1) r(1))
    show ?thesis
    proof (cases "agree \<pi> \<alpha>")
      case False
      with merge_pair[OF p(2) a(2,3)] show ?thesis by (simp add: src match some)
    next
      case True
      with merge_pair[OF p(2) a(2,3)] obtain pa where
        pa: "merge_substitutions p a = Some pa" "corresponds intern pa (\<pi> ++ \<alpha>)" by auto
      from merge_pair[OF pa(2) r(2,3)] True show ?thesis by (auto simp: src match some pa(1))
    qed
  qed
qed

end

section \<open>Compiled rules\<close>

text \<open>A runtime rule that implements a source rule.\<close>

definition implements_rule ::
  "'s uids \<Rightarrow> (string \<Rightarrow> 's) \<Rightarrow> rule \<Rightarrow> 's runtime_rule \<Rightarrow> bool" where
  "implements_rule u intern source ru \<longleftrightarrow>
     rr_mode ru = rule_mode source \<and> rr_head ru = map_head intern (rule_head source) \<and>
     regex_nf u (rr_tail ru) \<and> cache_ok u (rr_derivatives ru) \<and>
     (\<forall>\<sigma> \<theta>. corresponds intern \<sigma> \<theta> \<longrightarrow>
        seen_by (event_letter intern \<sigma>) (lang (rr_tail ru)) = expr_lang \<theta> (rule_tail source))"

lemma compile_rule_correct:
  assumes u: "hash_consed u" and inj: "inj intern"
  shows "\<exists>r. compile_rule u (final u) intern source = Some r \<and>
    settles (\<lambda>n. compile_rule u (run u n) intern source) (Some r) \<and>
    (case r of Inl e \<Rightarrow> \<not> well_typed source
     | Inr ru \<Rightarrow> well_typed source \<and> implements_rule u intern source ru)"
proof -
  note interned = interned.intro[OF inj]
  note head = compile_head_iff[OF inj, of "rule_head source"]
  show ?thesis
  proof (cases "compile_head intern (rule_head source)")
    case (Inl e)
    with head show ?thesis by (simp add: compile_rule_def well_typed_def settles_const)
  next
    case (Inr he)
    then obtain h env where he: "compile_head intern (rule_head source) = Inr (h, env)" by (cases he) simp
    with head have env: "single_valued (head_uses (rule_head source))"
      "declares intern env (head_uses (rule_head source))" "h = map_head intern (rule_head source)"
      by auto
    show ?thesis
    proof (cases "compile_regex u intern env (rule_tail source)")
      case (Inl e)
      with compile_regex_iff[OF env(2), of u "rule_tail source"] have "\<not> well_typed source"
        by (auto simp: well_typed_def)
      with Inl he show ?thesis by (simp add: compile_rule_def settles_const)
    next
      case tail: (Inr tail)
      have wt: "well_typed source"
        using compile_regex_iff[OF env(2), of u "rule_tail source"] tail env(1) by (auto simp: well_typed_def)
      have nf: "regex_nf u tail"
        using interned.compile_regex_correct[OF interned u interned.corresponds_singleton(2)[OF interned] env(2) tail]
        by blast
      from precompile_loop_right[OF u refl cache_ok_empty, of "[tail]" "[]" 0] nf obtain cache where
        c: "precompile u (final u) tail empty_cache = Some cache" "cache_ok u cache"
          "settles (\<lambda>n. precompile u (run u n) tail empty_cache) (Some cache)"
        by (auto simp: precompile_def)
      let ?ru = "\<lparr>rr_mode = rule_mode source, rr_head = h, rr_tail = tail, rr_derivatives = cache\<rparr>"
      have impl: "implements_rule u intern source ?ru"
        using nf c(2) env(3) interned.compile_regex_correct[OF interned u _ env(2) tail]
        by (simp add: implements_rule_def)
      have "settles (\<lambda>n. compile_rule u (run u n) intern source) (Some (Inr ?ru))"
        by (rule settles_comp2[OF c(3) c(3)]) (simp add: compile_rule_def he tail)
      moreover have "compile_rule u (final u) intern source = Some (Inr ?ru)"
        by (simp add: compile_rule_def he tail c(1))
      ultimately show ?thesis using wt impl by auto
    qed
  qed
qed

text \<open>Evaluating it decides whether the head matches and the history is in the tail's language.\<close>

definition source_accepts :: "rule \<Rightarrow> event list \<Rightarrow> event \<Rightarrow> bool option" where
  "source_accepts source history e =
     map_option (\<lambda>\<theta>. history \<in> expr_lang \<theta> (rule_tail source)) (head_bindings (rule_head source) e)"

lemma accepts_history_correct:
  assumes u: "hash_consed u" and inj: "inj intern" and impl: "implements_rule u intern source ru"
  shows "\<exists>ru'. accepts_history u (final u) intern ru history e = Some (source_accepts source history e, ru') \<and>
    implements_rule u intern source ru' \<and>
    settles (\<lambda>n. accepts_history u (run u n) intern ru history e) (Some (source_accepts source history e, ru'))"
proof -
  note interned = interned.intro[OF inj]
  note head = interned.match_candidate_correct[OF interned, of "rule_head source" e]
  have rr: "rr_head ru = map_head intern (rule_head source)" "regex_nf u (rr_tail ru)"
    "cache_ok u (rr_derivatives ru)"
    "\<And>\<sigma> \<theta>. corresponds intern \<sigma> \<theta> \<Longrightarrow>
        seen_by (event_letter intern \<sigma>) (lang (rr_tail ru)) = expr_lang \<theta> (rule_tail source)"
    using impl by (auto simp: implements_rule_def)
  show ?thesis
  proof (cases "head_bindings (rule_head source) e")
    case None
    with head have "accepts_history u call intern ru history e = Some (source_accepts source history e, ru)" for call
      by (simp add: accepts_history_def source_accepts_def rr(1))
    with impl show ?thesis by (simp add: settles_const)
  next
    case (Some \<theta>)
    with head obtain \<sigma> where \<sigma>: "match_candidate intern (rr_head ru) e = Some \<sigma>" "corresponds intern \<sigma> \<theta>"
      by (auto simp: rr(1))
    have acc: "map (event_letter intern \<sigma>) history \<in> lang (rr_tail ru) \<longleftrightarrow> history \<in> expr_lang \<theta> (rule_tail source)"
      using rr(4)[OF \<sigma>(2)] by (auto simp: seen_by_def)
    from accepts_right[OF u rr(3,2), of intern history \<sigma>] obtain cache where
      a: "accepts u (final u) intern (rr_tail ru) history \<sigma> (rr_derivatives ru) =
          Some (history \<in> expr_lang \<theta> (rule_tail source), cache)" "cache_ok u cache"
        "settles (\<lambda>n. accepts u (run u n) intern (rr_tail ru) history \<sigma> (rr_derivatives ru))
           (Some (history \<in> expr_lang \<theta> (rule_tail source), cache))"
      unfolding acc by metis
    have "settles (\<lambda>n. accepts_history u (run u n) intern ru history e)
        (Some (source_accepts source history e, ru\<lparr>rr_derivatives := cache\<rparr>))"
      by (rule settles_comp2[OF a(3) a(3)])
        (simp add: accepts_history_def source_accepts_def Some \<sigma>(1))
    moreover have "implements_rule u intern source (ru\<lparr>rr_derivatives := cache\<rparr>)"
      using impl a(2) by (simp add: implements_rule_def)
    moreover have "accepts_history u (final u) intern ru history e =
        Some (source_accepts source history e, ru\<lparr>rr_derivatives := cache\<rparr>)"
      by (simp add: accepts_history_def source_accepts_def Some \<sigma>(1) a(1))
    ultimately show ?thesis by blast
  qed
qed

end
