(* ===== verification/Validator.thy ===== *)
theory Validator
  imports Compile
begin

text \<open>
  The validator, \<^verbatim>\<open>rust-validator/src/validator.rs\<close>: a builder that compiles source rules, a
  check that evaluates them in order against the committed history and appends the candidate on
  success, and checkpoints of the history.

  Its contract is a trace monitor over source rules: the first violated rule denies, and nothing
  but a grant changes the history.
\<close>

section \<open>The validator\<close>

record denial =
  de_mode :: rule_mode
  de_event :: event
  de_message :: string

datatype 'm decision = Grant "'m grant" | Denied denial

fun is_grant :: "'m decision \<Rightarrow> bool" where
  "is_grant (Grant _) = True"
| "is_grant (Denied _) = False"

record 's validator =
  va_rules :: "'s runtime_rule list"
  va_history :: "event list"

type_synonym 's builder = "'s runtime_rule list"

definition new_builder :: "'s builder" where
  "new_builder = []"

text \<open>\<open>None\<close> is running out of fuel; \<open>Inl\<close> the compile error, which leaves the builder as it was.\<close>

definition add_rule ::
  "'s uids \<Rightarrow> 's caller \<Rightarrow> (string \<Rightarrow> 's) \<Rightarrow> 's builder \<Rightarrow> rule \<Rightarrow> (compile_error + 's builder) option" where
  "add_rule u call intern rules source = do {
     compiled \<leftarrow> compile_rule u call intern source;
     Some (and_then compiled (\<lambda>ru. Inr (rules @ [ru]))) }"

definition finish :: "'s builder \<Rightarrow> 's validator" where
  "finish rules = \<lparr>va_rules = rules, va_history = []\<rparr>"

definition violated :: "rule_mode \<Rightarrow> bool \<Rightarrow> bool" where
  "violated mode accepted = (case mode of Require \<Rightarrow> \<not> accepted | Forbid \<Rightarrow> accepted)"

definition denial_message :: "rule_mode \<Rightarrow> string" where
  "denial_message mode = ''committed history '' @
     (case mode of Require \<Rightarrow> ''does not satisfy required'' | Forbid \<Rightarrow> ''satisfies forbidden'')
     @ '' past-regex rule''"

text \<open>The loop over the rules, which keep the derivatives they computed.\<close>

fun check_rules ::
  "'s uids \<Rightarrow> 's caller \<Rightarrow> (string \<Rightarrow> 's) \<Rightarrow> event list \<Rightarrow> event \<Rightarrow> 's runtime_rule list \<Rightarrow>
   (rule_mode option \<times> 's runtime_rule list) option" where
  "check_rules u call intern history e [] = Some (None, [])"
| "check_rules u call intern history e (ru # rules) = do {
     (accepted, ru') \<leftarrow> accepts_history u call intern ru history e;
     (case accepted of
        None \<Rightarrow> do {
          (result, rules') \<leftarrow> check_rules u call intern history e rules;
          Some (result, ru' # rules') }
      | Some a \<Rightarrow>
          if violated (rr_mode ru) a then Some (Some (rr_mode ru), ru' # rules)
          else do {
            (result, rules') \<leftarrow> check_rules u call intern history e rules;
            Some (result, ru' # rules') }) }"

definition check ::
  "'s uids \<Rightarrow> 's caller \<Rightarrow> (string \<Rightarrow> 's) \<Rightarrow> 's validator \<Rightarrow> 'm request \<Rightarrow>
   ('m decision \<times> 's validator) option" where
  "check u call intern v rq = do {
     (violation, rules) \<leftarrow> check_rules u call intern (va_history v) (req_event rq) (va_rules v);
     (case violation of
        Some mode \<Rightarrow>
          Some (Denied \<lparr>de_mode = mode, de_event = req_event rq, de_message = denial_message mode\<rparr>,
                v\<lparr>va_rules := rules\<rparr>)
      | None \<Rightarrow>
          Some (Grant \<lparr>grant_event = req_event rq, grant_metadata = req_metadata rq\<rparr>,
                v\<lparr>va_rules := rules, va_history := va_history v @ [req_event rq]\<rparr>)) }"

definition checkpoint :: "'s validator \<Rightarrow> nat" where
  "checkpoint v = length (va_history v)"

text \<open>\<open>None\<close> is the panic of the assertion.\<close>

definition rollback :: "nat \<Rightarrow> 's validator \<Rightarrow> 's validator option" where
  "rollback c v =
     (if c \<le> length (va_history v) then Some (v\<lparr>va_history := take c (va_history v)\<rparr>) else None)"

section \<open>The contract\<close>

text \<open>The first source rule the history violates.\<close>

fun first_violation :: "rule list \<Rightarrow> event list \<Rightarrow> event \<Rightarrow> rule_mode option" where
  "first_violation [] history e = None"
| "first_violation (ru # rules) history e =
     (if rule_violated ru history e = Some True then Some (rule_mode ru)
      else first_violation rules history e)"

definition implements_rules ::
  "'s uids \<Rightarrow> (string \<Rightarrow> 's) \<Rightarrow> rule list \<Rightarrow> 's runtime_rule list \<Rightarrow> bool" where
  "implements_rules u intern sources rules \<longleftrightarrow> list_all2 (implements_rule u intern) sources rules"

lemma rule_violated_eq:
  "rule_violated source history e = map_option (violated (rule_mode source)) (source_accepts source history e)"
  by (auto simp: rule_violated_def source_accepts_def violated_def split: option.split rule_mode.split)

lemma check_rules_correct:
  assumes u: "hash_consed u" and inj: "inj intern"
  shows "list_all2 (implements_rule u intern) sources rules \<Longrightarrow>
    \<exists>rules'. check_rules u (final u) intern history e rules = Some (first_violation sources history e, rules') \<and>
      list_all2 (implements_rule u intern) sources rules' \<and>
      settles (\<lambda>n. check_rules u (run u n) intern history e rules)
        (Some (first_violation sources history e, rules'))"
proof (induction rule: list_all2_induct)
  case Nil
  then show ?case by (simp add: settles_const)
next
  case (Cons source sources ru rules)
  from accepts_history_correct[OF u inj Cons.hyps(1), of history e] obtain ru' where
    a: "accepts_history u (final u) intern ru history e = Some (source_accepts source history e, ru')"
      "implements_rule u intern source ru'"
      "settles (\<lambda>n. accepts_history u (run u n) intern ru history e) (Some (source_accepts source history e, ru'))"
    by blast
  from Cons.IH obtain rules' where
    c: "check_rules u (final u) intern history e rules = Some (first_violation sources history e, rules')"
      "list_all2 (implements_rule u intern) sources rules'"
      "settles (\<lambda>n. check_rules u (run u n) intern history e rules)
        (Some (first_violation sources history e, rules'))" by blast
  have mode: "rr_mode ru = rule_mode source" using Cons.hyps(1) by (simp add: implements_rule_def)
  let ?violated = "rule_violated source history e = Some True"
  let ?out = "if ?violated then ru' # rules else ru' # rules'"
  have step: "check_rules u call intern history e (ru # rules) =
      Some (first_violation (source # sources) history e, ?out)"
    if "accepts_history u call intern ru history e = Some (source_accepts source history e, ru')"
      "check_rules u call intern history e rules = Some (first_violation sources history e, rules')" for call
    using that by (cases "source_accepts source history e") (auto simp: rule_violated_eq mode)
  have "settles (\<lambda>n. check_rules u (run u n) intern history e (ru # rules))
      (Some (first_violation (source # sources) history e, ?out))"
    by (rule settles_comp2[OF a(3) c(3)]) (rule step)
  moreover have "list_all2 (implements_rule u intern) (source # sources) ?out"
    using a(2) c(2) Cons.hyps(2) by simp
  ultimately show ?case using step[OF a(1) c(1)] by blast
qed

lemma check_correct:
  assumes "hash_consed u" "inj intern" "implements_rules u intern sources (va_rules v)"
  shows "\<exists>rules'. implements_rules u intern sources rules' \<and>
    settles (\<lambda>n. check u (run u n) intern v rq)
      (Some (case first_violation sources (va_history v) (req_event rq) of
         Some mode \<Rightarrow>
           (Denied \<lparr>de_mode = mode, de_event = req_event rq, de_message = denial_message mode\<rparr>,
            v\<lparr>va_rules := rules'\<rparr>)
       | None \<Rightarrow>
           (Grant \<lparr>grant_event = req_event rq, grant_metadata = req_metadata rq\<rparr>,
            v\<lparr>va_rules := rules', va_history := va_history v @ [req_event rq]\<rparr>)))"
proof -
  from check_rules_correct[OF assms(1,2) assms(3)[unfolded implements_rules_def], of "va_history v" "req_event rq"]
  obtain rules' where r: "list_all2 (implements_rule u intern) sources rules'"
    "settles (\<lambda>n. check_rules u (run u n) intern (va_history v) (req_event rq) (va_rules v))
        (Some (first_violation sources (va_history v) (req_event rq), rules'))" by blast
  show ?thesis
    by (intro exI[of _ rules'] conjI, simp add: implements_rules_def r(1), rule settles_comp2[OF r(2) r(2)])
      (simp add: check_def split: option.split)
qed

lemma add_rule_correct:
  assumes "hash_consed u" "inj intern" "implements_rules u intern sources rules"
  shows "\<exists>r. settles (\<lambda>n. add_rule u (run u n) intern rules source) (Some r) \<and>
    (case r of Inl e \<Rightarrow> \<not> well_typed source
     | Inr rules' \<Rightarrow> well_typed source \<and> implements_rules u intern (sources @ [source]) rules')"
proof -
  from compile_rule_correct[OF assms(1,2), of source] obtain r where
    r: "settles (\<lambda>n. compile_rule u (run u n) intern source) (Some r)"
      "case r of Inl e \<Rightarrow> \<not> well_typed source
       | Inr ru \<Rightarrow> well_typed source \<and> implements_rule u intern source ru" by blast
  have "settles (\<lambda>n. add_rule u (run u n) intern rules source) (Some (and_then r (\<lambda>ru. Inr (rules @ [ru]))))"
    by (rule settles_comp2[OF r(1) r(1)]) (simp add: add_rule_def)
  with r(2) assms(3) show ?thesis
    by (intro exI[of _ "and_then r (\<lambda>ru. Inr (rules @ [ru]))"])
      (auto simp: implements_rules_def intro: list_all2_appendI split: sum.splits)
qed

section \<open>Sessions\<close>

text \<open>
  A caller adds its rules one after the other, stops at the first that does not compile, and
  sends requests to the finished validator.
\<close>

fun add_rules ::
  "'s uids \<Rightarrow> 's caller \<Rightarrow> (string \<Rightarrow> 's) \<Rightarrow> 's builder \<Rightarrow> rule list \<Rightarrow> (compile_error + 's builder) option" where
  "add_rules u call intern rules [] = Some (Inr rules)"
| "add_rules u call intern rules (source # sources) = do {
     added \<leftarrow> add_rule u call intern rules source;
     (case added of Inl e \<Rightarrow> Some (Inl e) | Inr rules' \<Rightarrow> add_rules u call intern rules' sources) }"

fun check_all ::
  "'s uids \<Rightarrow> 's caller \<Rightarrow> (string \<Rightarrow> 's) \<Rightarrow> 's validator \<Rightarrow> 'm request list \<Rightarrow>
   ('m decision list \<times> 's validator) option" where
  "check_all u call intern v [] = Some ([], v)"
| "check_all u call intern v (rq # rqs) = do {
     (d, v') \<leftarrow> check u call intern v rq;
     (ds, v'') \<leftarrow> check_all u call intern v' rqs;
     Some (d # ds, v'') }"

definition session ::
  "'s uids \<Rightarrow> 's caller \<Rightarrow> (string \<Rightarrow> 's) \<Rightarrow> rule list \<Rightarrow> 'm request list \<Rightarrow>
   (compile_error + 'm decision list \<times> event list) option" where
  "session u call intern sources rqs = do {
     built \<leftarrow> add_rules u call intern new_builder sources;
     (case built of
        Inl e \<Rightarrow> Some (Inl e)
      | Inr rules \<Rightarrow> do {
          (ds, v) \<leftarrow> check_all u call intern (finish rules) rqs;
          Some (Inr (ds, va_history v)) }) }"

text \<open>
  The monitor a session is meant to be: the history is the accepted events, and every decision
  is the first violation of the source rules by that history.
\<close>

fun monitor :: "rule list \<Rightarrow> event list \<Rightarrow> 'm request list \<Rightarrow> 'm decision list \<times> event list" where
  "monitor sources history [] = ([], history)"
| "monitor sources history (rq # rqs) =
     (case first_violation sources history (req_event rq) of
        Some mode \<Rightarrow>
          (let (ds, h) = monitor sources history rqs in
           (Denied \<lparr>de_mode = mode, de_event = req_event rq, de_message = denial_message mode\<rparr> # ds, h))
      | None \<Rightarrow>
          (let (ds, h) = monitor sources (history @ [req_event rq]) rqs in
           (Grant \<lparr>grant_event = req_event rq, grant_metadata = req_metadata rq\<rparr> # ds, h)))"

lemma add_rules_correct:
  assumes u: "hash_consed u" and inj: "inj intern"
  shows "implements_rules u intern sources rules \<Longrightarrow>
    \<exists>r. settles (\<lambda>n. add_rules u (run u n) intern rules later) (Some r) \<and>
      (case r of Inl e \<Rightarrow> \<exists>source \<in> set later. \<not> well_typed source
       | Inr rules' \<Rightarrow> (\<forall>source \<in> set later. well_typed source) \<and>
           implements_rules u intern (sources @ later) rules')"
proof (induction later arbitrary: sources rules)
  case Nil
  then show ?case by (intro exI[of _ "Inr rules"]) (simp add: settles_const)
next
  case (Cons source later)
  from add_rule_correct[OF u inj Cons.prems, of source] obtain r where
    r: "settles (\<lambda>n. add_rule u (run u n) intern rules source) (Some r)"
      "case r of Inl e \<Rightarrow> \<not> well_typed source
       | Inr rules' \<Rightarrow> well_typed source \<and> implements_rules u intern (sources @ [source]) rules'" by blast
  show ?case
  proof (cases r)
    case (Inl e)
    have "settles (\<lambda>n. add_rules u (run u n) intern rules (source # later)) (Some (Inl e))"
      by (rule settles_comp2[OF r(1) r(1)]) (simp add: Inl)
    with r(2) Inl show ?thesis by (intro exI[of _ "Inl e"]) simp
  next
    case (Inr rules')
    have list: "(sources @ [source]) @ later = sources @ source # later" by simp
    from r(2) Inr have "implements_rules u intern (sources @ [source]) rules'" by simp
    from Cons.IH[OF this, unfolded list] obtain r' where
      r': "settles (\<lambda>n. add_rules u (run u n) intern rules' later) (Some r')"
        "case r' of Inl e \<Rightarrow> \<exists>source \<in> set later. \<not> well_typed source
         | Inr rules'' \<Rightarrow> (\<forall>source \<in> set later. well_typed source) \<and>
             implements_rules u intern (sources @ source # later) rules''" by auto
    have "settles (\<lambda>n. add_rules u (run u n) intern rules (source # later)) (Some r')"
      by (rule settles_comp2[OF r(1) r'(1)]) (simp add: Inr)
    with r(2) r'(2) Inr show ?thesis by (intro exI[of _ r']) (simp split: sum.splits)
  qed
qed

lemma check_all_correct:
  assumes u: "hash_consed u" and inj: "inj intern"
  shows "implements_rules u intern sources (va_rules v) \<Longrightarrow>
    \<exists>v'. va_history v' = snd (monitor sources (va_history v) rqs) \<and>
      settles (\<lambda>n. check_all u (run u n) intern v rqs)
        (Some (fst (monitor sources (va_history v) rqs), v'))"
proof (induction rqs arbitrary: v)
  case Nil
  then show ?case by (intro exI[of _ v]) (simp add: settles_const)
next
  case (Cons rq rqs)
  from check_correct[OF u inj Cons.prems, of rq] obtain rules' where
    impl: "implements_rules u intern sources rules'" and
    c: "settles (\<lambda>n. check u (run u n) intern v rq)
      (Some (case first_violation sources (va_history v) (req_event rq) of
         Some mode \<Rightarrow>
           (Denied \<lparr>de_mode = mode, de_event = req_event rq, de_message = denial_message mode\<rparr>,
            v\<lparr>va_rules := rules'\<rparr>)
       | None \<Rightarrow>
           (Grant \<lparr>grant_event = req_event rq, grant_metadata = req_metadata rq\<rparr>,
            v\<lparr>va_rules := rules', va_history := va_history v @ [req_event rq]\<rparr>)))"
    (is "settles _ (Some ?dv)") by blast
  have "implements_rules u intern sources (va_rules (snd ?dv))" using impl by (simp split: option.split)
  from Cons.IH[OF this] obtain v' where
    v': "va_history v' = snd (monitor sources (va_history (snd ?dv)) rqs)"
      "settles (\<lambda>n. check_all u (run u n) intern (snd ?dv) rqs)
        (Some (fst (monitor sources (va_history (snd ?dv)) rqs), v'))" by blast
  have "settles (\<lambda>n. check_all u (run u n) intern v (rq # rqs))
      (Some (fst (monitor sources (va_history v) (rq # rqs)), v'))"
    by (rule settles_comp2[OF c v'(2)]) (auto simp: case_prod_beta split: option.splits)
  moreover have "va_history v' = snd (monitor sources (va_history v) (rq # rqs))"
    using v'(1) by (auto simp: case_prod_beta split: option.splits)
  ultimately show ?case by blast
qed

lemma session_correct:
  assumes u: "hash_consed u" and inj: "inj intern"
  shows "\<exists>r. settles (\<lambda>n. session u (run u n) intern sources rqs) (Some r) \<and>
    (case r of Inl e \<Rightarrow> \<exists>source \<in> set sources. \<not> well_typed source
     | Inr out \<Rightarrow> (\<forall>source \<in> set sources. well_typed source) \<and> out = monitor sources [] rqs)"
proof -
  have "implements_rules u intern [] new_builder" by (simp add: implements_rules_def new_builder_def)
  from add_rules_correct[OF u inj this, of sources, unfolded append_Nil] obtain r where
    r: "settles (\<lambda>n. add_rules u (run u n) intern new_builder sources) (Some r)"
      "case r of Inl e \<Rightarrow> \<exists>source \<in> set sources. \<not> well_typed source
       | Inr rules \<Rightarrow> (\<forall>source \<in> set sources. well_typed source) \<and> implements_rules u intern sources rules"
    by (elim exE conjE)
  show ?thesis
  proof (cases r)
    case (Inl e)
    have "settles (\<lambda>n. session u (run u n) intern sources rqs) (Some (Inl e))"
      by (rule settles_comp2[OF r(1) r(1)]) (simp add: session_def Inl)
    with r(2) Inl show ?thesis by (intro exI[of _ "Inl e"]) simp
  next
    case (Inr rules)
    with r(2) check_all_correct[OF u inj, of sources "finish rules" rqs] obtain v where
      v: "va_history v = snd (monitor sources [] rqs)"
        "settles (\<lambda>n. check_all u (run u n) intern (finish rules) rqs)
          (Some (fst (monitor sources [] rqs), v))" by (auto simp: finish_def)
    have "settles (\<lambda>n. session u (run u n) intern sources rqs) (Some (Inr (monitor sources [] rqs)))"
      by (rule settles_comp2[OF r(1) v(2)]) (simp add: session_def Inr v(1))
    with r(2) Inr show ?thesis by (intro exI[of _ "Inr (monitor sources [] rqs)"]) simp
  qed
qed

text \<open>What a monitor commits is what it granted, in order.\<close>

fun granted :: "'m decision list \<Rightarrow> event list" where
  "granted [] = []"
| "granted (Grant g # ds) = grant_event g # granted ds"
| "granted (Denied d # ds) = granted ds"

lemma monitor_history: "snd (monitor sources history rqs) = history @ granted (fst (monitor sources history rqs))"
  by (induction rqs arbitrary: history) (auto simp: case_prod_beta Let_def split: option.split)

lemma check_all_history:
  "check_all u call intern v rqs = Some (ds, v') \<Longrightarrow> va_history v' = va_history v @ granted ds"
proof (induction rqs arbitrary: v ds)
  case (Cons rq rqs)
  then obtain d w ds' where s: "check u call intern v rq = Some (d, w)"
    "check_all u call intern w rqs = Some (ds', v')" "ds = d # ds'"
    by (auto split: Option.bind_splits)
  from s(1) have "va_history w = va_history v @ granted [d]"
    by (auto simp: check_def split: Option.bind_splits option.splits)
  with Cons.IH[OF s(2)] s(3) show ?case by (cases d) simp_all
qed simp

end
