(* ===== verification/Policy.thy ===== *)
theory Policy
  imports Validator
begin

text \<open>
  The policy kernel, \<^verbatim>\<open>rust-validator/src/policy/\<close>: the atoms and tail shapes a policy table is
  written with, rules paired with diagnostics, and the evaluator that walks a compiled table and
  renders the first violation. A trace policy is a table whose rules compile; the locale states
  that and proves the evaluator against the table once.
\<close>

section \<open>Atoms and tail shapes\<close>

definition PRINCIPAL_VAR :: string where "PRINCIPAL_VAR = ''p''"
definition RESOURCE_VAR :: string where "RESOURCE_VAR = ''r''"

definition principal_is :: "comparison \<Rightarrow> test_expr" where
  "principal_is cmp = AtomT cmp (PrincipalAtom (Variable PRINCIPAL_VAR))"

definition resource_is :: "comparison \<Rightarrow> test_expr" where
  "resource_is cmp = AtomT cmp (ResourceAtom (Variable RESOURCE_VAR))"

definition action_is :: "action \<Rightarrow> comparison \<Rightarrow> test_expr" where
  "action_is a cmp = AtomT cmp (ActionAtom (Constant a))"

definition last_state_change :: "test_expr \<Rightarrow> test_expr \<Rightarrow> regex_expr" where
  "last_state_change setter steady = ConcatX [AllX, TestX setter, StarX (TestX steady)]"

definition never_state_change :: "test_expr \<Rightarrow> regex_expr" where
  "never_state_change steady = StarX (TestX steady)"

section \<open>Rules and verdicts\<close>

datatype policy_decision =
    PolicyGrant
  | PolicyDeny string "string list"

type_synonym 'c diagnostic = "'c \<Rightarrow> string \<times> string list"

record 'c policy_rule =
  pr_rule :: rule
  pr_diagnostic :: "'c diagnostic"

definition forbid :: "action \<Rightarrow> regex_expr \<Rightarrow> 'c diagnostic \<Rightarrow> 'c policy_rule" where
  "forbid a tail diagnostic =
     \<lparr>pr_rule = \<lparr>rule_mode = Forbid,
        rule_head = \<lparr>head_principal = Variable PRINCIPAL_VAR, head_action = Constant a,
          head_resource = Variable RESOURCE_VAR\<rparr>,
        rule_tail = tail\<rparr>,
      pr_diagnostic = diagnostic\<rparr>"

section \<open>Compiled tables\<close>

record ('s, 'c) compiled_policy_rule =
  cp_runtime :: "'s runtime_rule"
  cp_diagnostic :: "'c diagnostic"

type_synonym ('s, 'c) compiled_policy = "('s, 'c) compiled_policy_rule list"

fun compile_policy ::
  "'s uids \<Rightarrow> 's caller \<Rightarrow> (string \<Rightarrow> 's) \<Rightarrow> 'c policy_rule list \<Rightarrow>
   (compile_error + ('s, 'c) compiled_policy) option" where
  "compile_policy u call intern [] = Some (Inr [])"
| "compile_policy u call intern (pr # prs) = do {
     compiled \<leftarrow> compile_rule u call intern (pr_rule pr);
     (case compiled of
        Inl e \<Rightarrow> Some (Inl e)
      | Inr runtime \<Rightarrow> do {
          rest \<leftarrow> compile_policy u call intern prs;
          Some (and_then rest (\<lambda>rules.
            Inr (\<lparr>cp_runtime = runtime, cp_diagnostic = pr_diagnostic pr\<rparr> # rules))) }) }"

text \<open>
  The context is built at most once and only for a violation; it is a value here because building
  it has no effect.
\<close>

fun policy_decide ::
  "'s uids \<Rightarrow> 's caller \<Rightarrow> (string \<Rightarrow> 's) \<Rightarrow> event list \<Rightarrow> event \<Rightarrow> 'c \<Rightarrow> ('s, 'c) compiled_policy \<Rightarrow>
   (policy_decision \<times> ('s, 'c) compiled_policy) option" where
  "policy_decide u call intern history probe ctx [] = Some (PolicyGrant, [])"
| "policy_decide u call intern history probe ctx (cp # cps) = do {
     (inside, runtime) \<leftarrow> accepts_history u call intern (cp_runtime cp) history probe;
     let cp' = cp\<lparr>cp_runtime := runtime\<rparr>;
     (case inside of
        None \<Rightarrow> do {
          (d, cps') \<leftarrow> policy_decide u call intern history probe ctx cps;
          Some (d, cp' # cps') }
      | Some accepted \<Rightarrow>
          if violated (rr_mode (cp_runtime cp)) accepted
          then let (failed_precondition, allowed_fixes) = cp_diagnostic cp ctx in
               Some (PolicyDeny failed_precondition allowed_fixes, cp' # cps)
          else do {
            (d, cps') \<leftarrow> policy_decide u call intern history probe ctx cps;
            Some (d, cp' # cps') }) }"

section \<open>The contract of a table\<close>

text \<open>The first rule of the table that the history violates, with its diagnostic.\<close>

fun verdict :: "'c policy_rule list \<Rightarrow> event list \<Rightarrow> event \<Rightarrow> 'c \<Rightarrow> policy_decision" where
  "verdict [] history probe ctx = PolicyGrant"
| "verdict (pr # prs) history probe ctx =
     (if rule_violated (pr_rule pr) history probe = Some True
      then let (f, a) = pr_diagnostic pr ctx in PolicyDeny f a
      else verdict prs history probe ctx)"

definition implements_policy ::
  "'s uids \<Rightarrow> (string \<Rightarrow> 's) \<Rightarrow> 'c policy_rule list \<Rightarrow> ('s, 'c) compiled_policy \<Rightarrow> bool" where
  "implements_policy u intern = list_all2 (\<lambda>pr cp.
     implements_rule u intern (pr_rule pr) (cp_runtime cp) \<and> cp_diagnostic cp = pr_diagnostic pr)"

lemma compile_policy_correct:
  assumes u: "hash_consed u" and inj: "inj intern"
  shows "\<forall>pr \<in> set prs. well_typed (pr_rule pr) \<Longrightarrow>
    \<exists>cps. settles (\<lambda>n. compile_policy u (run u n) intern prs) (Some (Inr cps)) \<and>
      implements_policy u intern prs cps"
proof (induction prs)
  case Nil
  then show ?case by (intro exI[of _ "[]"]) (simp add: settles_const implements_policy_def)
next
  case (Cons pr prs)
  then obtain cps where cps: "settles (\<lambda>n. compile_policy u (run u n) intern prs) (Some (Inr cps))"
    "implements_policy u intern prs cps" by auto
  from compile_rule_correct[OF u inj, of "pr_rule pr"] obtain r where
    r: "settles (\<lambda>n. compile_rule u (run u n) intern (pr_rule pr)) (Some r)"
      "case r of Inl e \<Rightarrow> \<not> well_typed (pr_rule pr)
       | Inr ru \<Rightarrow> well_typed (pr_rule pr) \<and> implements_rule u intern (pr_rule pr) ru" by blast
  with Cons.prems obtain ru where ru: "r = Inr ru" "implements_rule u intern (pr_rule pr) ru"
    by (cases r) auto
  let ?cp = "\<lparr>cp_runtime = ru, cp_diagnostic = pr_diagnostic pr\<rparr>"
  have "settles (\<lambda>n. compile_policy u (run u n) intern (pr # prs)) (Some (Inr (?cp # cps)))"
    by (rule settles_comp2[OF r(1) cps(1)]) (simp add: ru(1))
  moreover have "implements_policy u intern (pr # prs) (?cp # cps)"
    using ru(2) cps(2) by (simp add: implements_policy_def)
  ultimately show ?case by blast
qed

lemma policy_decide_correct:
  assumes u: "hash_consed u" and inj: "inj intern"
  shows "implements_policy u intern prs cps \<Longrightarrow>
    \<exists>cps'. implements_policy u intern prs cps' \<and>
      settles (\<lambda>n. policy_decide u (run u n) intern history probe ctx cps)
        (Some (verdict prs history probe ctx, cps'))"
  unfolding implements_policy_def
proof (induction rule: list_all2_induct)
  case Nil
  show ?case by (simp add: settles_const)
next
  case (Cons pr prs cp cps)
  then obtain cps' where rest: "list_all2 (\<lambda>pr cp. implements_rule u intern (pr_rule pr) (cp_runtime cp) \<and>
      cp_diagnostic cp = pr_diagnostic pr) prs cps'"
    "settles (\<lambda>n. policy_decide u (run u n) intern history probe ctx cps)
        (Some (verdict prs history probe ctx, cps'))" by blast
  have impl: "implements_rule u intern (pr_rule pr) (cp_runtime cp)" using Cons.hyps(1) by simp
  from accepts_history_correct[OF u inj impl, of history probe] obtain ru where
    ru: "settles (\<lambda>n. accepts_history u (run u n) intern (cp_runtime cp) history probe)
        (Some (source_accepts (pr_rule pr) history probe, ru))"
      "implements_rule u intern (pr_rule pr) ru" by blast
  have mode: "rr_mode (cp_runtime cp) = rule_mode (pr_rule pr)" using impl by (simp add: implements_rule_def)
  let ?cps = "if rule_violated (pr_rule pr) history probe = Some True then cp\<lparr>cp_runtime := ru\<rparr> # cps
    else cp\<lparr>cp_runtime := ru\<rparr> # cps'"
  have "settles (\<lambda>n. policy_decide u (run u n) intern history probe ctx (cp # cps))
      (Some (verdict (pr # prs) history probe ctx, ?cps))"
    by (rule settles_comp2[OF ru(1) rest(2)], cases "source_accepts (pr_rule pr) history probe")
      (use Cons.hyps(1) in \<open>auto simp: rule_violated_eq mode split: prod.split\<close>)
  moreover have "list_all2 (\<lambda>pr cp. implements_rule u intern (pr_rule pr) (cp_runtime cp) \<and>
      cp_diagnostic cp = pr_diagnostic pr) (pr # prs) ?cps"
    using rest(1) ru(2) Cons.hyps by simp
  ultimately show ?case by blast
qed

section \<open>Trace policies\<close>

text \<open>
  What a policy promises its evaluator is a table that compiles; what it gets is a decision for
  every history and candidate, the same whatever was decided before.
\<close>

locale trace_policy =
  fixes table :: "'c policy_rule list"
  assumes table_typed: "\<forall>pr \<in> set table. well_typed (pr_rule pr)"
begin

lemma compiles:
  "hash_consed u \<Longrightarrow> inj intern \<Longrightarrow>
   \<exists>cps. settles (\<lambda>n. compile_policy u (run u n) intern table) (Some (Inr cps)) \<and>
     implements_policy u intern table cps"
  using compile_policy_correct[OF _ _ table_typed] .

lemma decides:
  "hash_consed u \<Longrightarrow> inj intern \<Longrightarrow> implements_policy u intern table cps \<Longrightarrow>
   \<exists>cps'. implements_policy u intern table cps' \<and>
     settles (\<lambda>n. policy_decide u (run u n) intern history probe ctx cps)
       (Some (verdict table history probe ctx, cps'))"
  using policy_decide_correct .

end

section \<open>What the tail shapes say\<close>

text \<open>
  Histories are extended at the end, so the shapes are characterised by their last event.
\<close>

lemma seqs_three: "w \<in> seqs UNIV (seqs S T) \<longleftrightarrow> (\<exists>pre. \<exists>v \<in> S. \<exists>post \<in> T. w = pre @ v @ post)"
proof
  assume "w \<in> seqs UNIV (seqs S T)"
  then show "\<exists>pre. \<exists>v \<in> S. \<exists>post \<in> T. w = pre @ v @ post" by (auto elim!: seqs_splitE)
next
  assume "\<exists>pre. \<exists>v \<in> S. \<exists>post \<in> T. w = pre @ v @ post"
  then show "w \<in> seqs UNIV (seqs S T)" by (auto intro!: seqs_appendI)
qed

lemma last_state_change_lang:
  "expr_lang \<theta> (last_state_change setter steady) =
     {pre @ e # post |pre e post. test_holds \<theta> setter e \<and> (\<forall>x \<in> set post. test_holds \<theta> steady x)}"
proof (intro set_eqI)
  fix w
  let ?S = "expr_lang \<theta> (TestX setter)" and ?T = "expr_lang \<theta> (StarX (TestX steady))"
  have "w \<in> expr_lang \<theta> (last_state_change setter steady) \<longleftrightarrow> w \<in> seqs UNIV (seqs ?S ?T)"
    by (simp add: last_state_change_def)
  also have "\<dots> \<longleftrightarrow> (\<exists>pre. \<exists>v \<in> ?S. \<exists>post \<in> ?T. w = pre @ v @ post)"
    by (rule seqs_three)
  also have "\<dots> \<longleftrightarrow> w \<in> {pre @ e # post |pre e post. test_holds \<theta> setter e \<and> (\<forall>x \<in> set post. test_holds \<theta> steady x)}"
  proof
    assume "\<exists>pre. \<exists>v \<in> ?S. \<exists>post \<in> ?T. w = pre @ v @ post"
    then obtain pre e post where "test_holds \<theta> setter e" "\<forall>x \<in> set post. test_holds \<theta> steady x"
      "w = pre @ e # post" unfolding test_star_lang by auto
    then show "w \<in> {pre @ e # post |pre e post. test_holds \<theta> setter e \<and> (\<forall>x \<in> set post. test_holds \<theta> steady x)}"
      by blast
  next
    assume "w \<in> {pre @ e # post |pre e post. test_holds \<theta> setter e \<and> (\<forall>x \<in> set post. test_holds \<theta> steady x)}"
    then obtain pre e post where "w = pre @ [e] @ post" "[e] \<in> ?S" "post \<in> ?T" unfolding test_star_lang by auto
    then show "\<exists>pre. \<exists>v \<in> ?S. \<exists>post \<in> ?T. w = pre @ v @ post" by blast
  qed
  finally show "w \<in> expr_lang \<theta> (last_state_change setter steady) \<longleftrightarrow>
      w \<in> {pre @ e # post |pre e post. test_holds \<theta> setter e \<and> (\<forall>x \<in> set post. test_holds \<theta> steady x)}" .
qed

lemma last_state_change_Nil: "[] \<notin> expr_lang \<theta> (last_state_change setter steady)"
  by (simp add: last_state_change_lang)

lemma last_state_change_snoc:
  "h @ [e] \<in> expr_lang \<theta> (last_state_change setter steady) \<longleftrightarrow>
     test_holds \<theta> setter e \<or> h \<in> expr_lang \<theta> (last_state_change setter steady) \<and> test_holds \<theta> steady e"
proof
  assume "h @ [e] \<in> expr_lang \<theta> (last_state_change setter steady)"
  then obtain pre x post where w: "h @ [e] = pre @ x # post" "test_holds \<theta> setter x"
    "\<forall>x \<in> set post. test_holds \<theta> steady x" by (auto simp: last_state_change_lang)
  show "test_holds \<theta> setter e \<or> h \<in> expr_lang \<theta> (last_state_change setter steady) \<and> test_holds \<theta> steady e"
  proof (cases post rule: rev_cases)
    case Nil
    with w show ?thesis by simp
  next
    case (snoc ys y)
    with w show ?thesis by (auto simp: last_state_change_lang)
  qed
next
  assume "test_holds \<theta> setter e \<or> h \<in> expr_lang \<theta> (last_state_change setter steady) \<and> test_holds \<theta> steady e"
  then show "h @ [e] \<in> expr_lang \<theta> (last_state_change setter steady)"
  proof
    assume "test_holds \<theta> setter e"
    then have "h @ [e] = h @ e # [] \<and> test_holds \<theta> setter e \<and> (\<forall>x \<in> set []. test_holds \<theta> steady x)" by simp
    then show ?thesis unfolding last_state_change_lang by blast
  next
    assume "h \<in> expr_lang \<theta> (last_state_change setter steady) \<and> test_holds \<theta> steady e"
    then obtain pre x post where "h = pre @ x # post" "test_holds \<theta> setter x"
      "\<forall>x \<in> set post. test_holds \<theta> steady x" "test_holds \<theta> steady e" by (auto simp: last_state_change_lang)
    then have "h @ [e] = pre @ x # (post @ [e])" "\<forall>x \<in> set (post @ [e]). test_holds \<theta> steady x" by auto
    with \<open>test_holds \<theta> setter x\<close> show ?thesis unfolding last_state_change_lang by blast
  qed
qed

lemma never_state_change_snoc:
  "h @ [e] \<in> expr_lang \<theta> (never_state_change steady) \<longleftrightarrow>
     h \<in> expr_lang \<theta> (never_state_change steady) \<and> test_holds \<theta> steady e"
  "[] \<in> expr_lang \<theta> (never_state_change steady)"
  unfolding never_state_change_def test_star_lang by auto

lemma forbid_violated:
  "rule_violated (pr_rule (forbid a tail diagnostic)) history e =
     (if ev_action e = a
      then Some (history \<in> expr_lang [PRINCIPAL_VAR \<mapsto> BoundPrincipal (ev_principal e),
                                       RESOURCE_VAR \<mapsto> BoundResource (ev_resource e)] tail)
      else None)"
  by (auto simp: forbid_def rule_violated_def head_bindings_def bind_pattern_def agree_def
      PRINCIPAL_VAR_def RESOURCE_VAR_def)

end
