(* ===== verification/Capabilities.thy ===== *)
theory Capabilities
  imports Policy
begin

text \<open>
  The active capabilities of a git history, \<^verbatim>\<open>rust-validator/src/policy/git/capabilities.rs\<close>: per
  resource, the last event that defines its row while the row is not settled, and the last read.
  The reference is the row and the last reader of a resource as a fold of the history.
\<close>

section \<open>Claims\<close>

record claims =
  cl_row :: "nat option"
  cl_read :: "nat option"

definition no_claims :: claims where
  "no_claims = \<lparr>cl_row = None, cl_read = None\<rparr>"

fun apply_action :: "claims \<Rightarrow> action \<Rightarrow> nat \<Rightarrow> claims" where
  "apply_action c Edit i = c\<lparr>cl_row := Some i\<rparr>"
| "apply_action c Unstage i = c\<lparr>cl_row := Some i\<rparr>"
| "apply_action c Stage i = c\<lparr>cl_row := Some i\<rparr>"
| "apply_action c Delete i = c\<lparr>cl_row := Some i\<rparr>"
| "apply_action c (Commit _) i = c\<lparr>cl_row := None\<rparr>"
| "apply_action c Checkout i = c\<lparr>cl_row := None\<rparr>"
| "apply_action c Stash i = c\<lparr>cl_row := None\<rparr>"
| "apply_action c Read i = c\<lparr>cl_read := Some i\<rparr>"
| "apply_action c Clean i = c"
| "apply_action c Diff i = c"
| "apply_action c History i = c"

definition claims_for :: "event list \<Rightarrow> resource \<Rightarrow> claims" where
  "claims_for history r = fold (\<lambda>(i, e) c. if ev_resource e = r then apply_action c (ev_action e) i else c)
     (enumerate 0 history) no_claims"

text \<open>
  The hash map of the projection, as an association list; \<open>entry(k).or_default()\<close> updates in
  place or appends. The order in which the code iterates it is unspecified, and sorting the
  indices makes it irrelevant (\<open>active_any_order\<close>).
\<close>

fun update_entry :: "'k \<Rightarrow> ('v \<Rightarrow> 'v) \<Rightarrow> 'v \<Rightarrow> ('k \<times> 'v) list \<Rightarrow> ('k \<times> 'v) list" where
  "update_entry k f d [] = [(k, f d)]"
| "update_entry k f d ((k', v) # kvs) =
     (if k' = k then (k', f v) # kvs else (k', v) # update_entry k f d kvs)"

definition claims_by_resource :: "event list \<Rightarrow> (resource \<times> claims) list" where
  "claims_by_resource history = fold (\<lambda>(i, e).
     update_entry (ev_resource e) (\<lambda>c. apply_action c (ev_action e) i) no_claims)
     (enumerate 0 history) []"

definition claim_indices :: "claims \<Rightarrow> nat list" where
  "claim_indices c = List.map_filter (\<lambda>i. i) [cl_row c, cl_read c]"

definition active_git_capability_indices :: "event list \<Rightarrow> nat list" where
  "active_git_capability_indices history =
     sort (concat (map (\<lambda>(r, c). claim_indices c) (claims_by_resource history)))"

section \<open>Rows and readers\<close>

datatype row = CleanRow | StagedRow | UnstagedRow principal

definition row_effect :: "event \<Rightarrow> row option" where
  "row_effect e = (case ev_action e of
     Edit \<Rightarrow> Some (UnstagedRow (ev_principal e))
   | Unstage \<Rightarrow> Some (UnstagedRow (ev_principal e))
   | Stage \<Rightarrow> Some StagedRow
   | Delete \<Rightarrow> Some StagedRow
   | Commit _ \<Rightarrow> Some CleanRow
   | Checkout \<Rightarrow> Some CleanRow
   | Stash \<Rightarrow> Some CleanRow
   | _ \<Rightarrow> None)"

definition row_step :: "resource \<Rightarrow> event \<Rightarrow> row \<Rightarrow> row" where
  "row_step r e row = (if ev_resource e = r then case row_effect e of None \<Rightarrow> row | Some row' \<Rightarrow> row' else row)"

definition row_of :: "event list \<Rightarrow> resource \<Rightarrow> row" where
  "row_of history r = fold (row_step r) history CleanRow"

definition reader_of :: "event list \<Rightarrow> resource \<Rightarrow> principal option" where
  "reader_of history r = fold (\<lambda>e s. if ev_resource e = r \<and> ev_action e = Read then Some (ev_principal e) else s)
     history None"

lemma row_of_simps [simp]:
  "row_of [] r = CleanRow" "row_of (h @ [e]) r = row_step r e (row_of h r)"
  by (simp_all add: row_of_def)

lemma reader_of_simps [simp]:
  "reader_of [] r = None"
  "reader_of (h @ [e]) r =
     (if ev_resource e = r \<and> ev_action e = Read then Some (ev_principal e) else reader_of h r)"
  by (simp_all add: reader_of_def)

lemma claims_for_simps [simp]:
  "claims_for [] r = no_claims"
  "claims_for (h @ [e]) r =
     (if ev_resource e = r then apply_action (claims_for h r) (ev_action e) (length h) else claims_for h r)"
  by (simp_all add: claims_for_def enumerate_append_eq)

text \<open>The claims on a resource are its row and its reader.\<close>

definition unsettled :: "event list \<Rightarrow> resource \<Rightarrow> nat \<Rightarrow> bool" where
  "unsettled h r i \<longleftrightarrow> i < length h \<and> ev_resource (h ! i) = r \<and> ev_action (h ! i) \<noteq> Read \<and>
     row_effect (h ! i) = Some (row_of h r)"

definition last_read :: "event list \<Rightarrow> resource \<Rightarrow> nat \<Rightarrow> bool" where
  "last_read h r i \<longleftrightarrow> i < length h \<and> ev_resource (h ! i) = r \<and> ev_action (h ! i) = Read \<and>
     reader_of h r = Some (ev_principal (h ! i))"

lemma claims_for_row:
  "case cl_row (claims_for h r) of None \<Rightarrow> row_of h r = CleanRow
   | Some i \<Rightarrow> unsettled h r i \<and> row_of h r \<noteq> CleanRow"
proof (induction h rule: rev_induct)
  case (snoc e h)
  then show ?case
    by (cases "ev_action e")
      (auto simp: row_step_def row_effect_def unsettled_def nth_append no_claims_def split: option.splits if_splits)
qed (simp add: no_claims_def)

lemma claims_for_read:
  "case cl_read (claims_for h r) of None \<Rightarrow> reader_of h r = None | Some i \<Rightarrow> last_read h r i"
proof (induction h rule: rev_induct)
  case (snoc e h)
  then show ?case
    by (cases "ev_action e") (auto simp: last_read_def nth_append split: option.splits if_splits)
qed (simp add: no_claims_def)

lemma row_claim: "cl_row (claims_for h r) = Some i \<Longrightarrow> unsettled h r i"
  using claims_for_row[of h r] by simp

lemma read_claim: "cl_read (claims_for h r) = Some i \<Longrightarrow> last_read h r i"
  using claims_for_read[of h r] by simp

lemma no_row_claim: "cl_row (claims_for h r) = None \<Longrightarrow> row_of h r = CleanRow"
  using claims_for_row[of h r] by simp

lemma no_read_claim: "cl_read (claims_for h r) = None \<Longrightarrow> reader_of h r = None"
  using claims_for_read[of h r] by simp

lemma claim_owner:
  "cl_row (claims_for h r) = Some i \<or> cl_read (claims_for h r) = Some i \<Longrightarrow> i < length h \<and> ev_resource (h ! i) = r"
  by (auto dest!: row_claim read_claim simp: unsettled_def last_read_def)

section \<open>The projection\<close>

lemma update_entry_map_of:
  "map_of (update_entry k f d kvs) =
     (map_of kvs)(k \<mapsto> f (case map_of kvs k of None \<Rightarrow> d | Some v \<Rightarrow> v))"
  by (induction kvs) auto

lemma update_entry_keys:
  "map fst (update_entry k f d kvs) = (if k \<in> fst ` set kvs then map fst kvs else map fst kvs @ [k])"
  by (induction kvs) force+

lemma claims_by_resource_snoc:
  "claims_by_resource [] = []"
  "claims_by_resource (h @ [e]) = update_entry (ev_resource e) (\<lambda>c. apply_action c (ev_action e) (length h))
     no_claims (claims_by_resource h)"
  by (simp_all add: claims_by_resource_def enumerate_append_eq)

lemma claims_by_resource_distinct: "distinct (map fst (claims_by_resource h))"
  by (induction h rule: rev_induct) (auto simp: claims_by_resource_snoc update_entry_keys)

lemma claims_for_absent: "r \<notin> ev_resource ` set h \<Longrightarrow> claims_for h r = no_claims"
  by (induction h rule: rev_induct) auto

lemma claims_by_resource_lookup:
  "map_of (claims_by_resource h) r = (if r \<in> ev_resource ` set h then Some (claims_for h r) else None)"
proof (induction h rule: rev_induct)
  case (snoc e h)
  then show ?case by (auto simp: claims_by_resource_snoc update_entry_map_of claims_for_absent)
qed (simp add: claims_by_resource_snoc)

definition active :: "event list \<Rightarrow> nat \<Rightarrow> bool" where
  "active h i \<longleftrightarrow> i < length h \<and>
     (let c = claims_for h (ev_resource (h ! i)) in cl_row c = Some i \<or> cl_read c = Some i)"

lemma claim_indices_set: "i \<in> set (claim_indices c) \<longleftrightarrow> cl_row c = Some i \<or> cl_read c = Some i"
  by (auto simp: claim_indices_def List.map_filter_def)

lemma claim_index_owner: "i \<in> set (claim_indices (claims_for h r)) \<Longrightarrow> i < length h \<and> ev_resource (h ! i) = r"
  using claim_owner by (simp add: claim_indices_set)

lemma active_set: "i \<in> set (active_git_capability_indices h) \<longleftrightarrow> active h i"
proof -
  have "i \<in> set (active_git_capability_indices h) \<longleftrightarrow>
      (\<exists>r c. map_of (claims_by_resource h) r = Some c \<and> i \<in> set (claim_indices c))"
    using claims_by_resource_distinct[of h] by (auto simp: active_git_capability_indices_def)
  also have "\<dots> \<longleftrightarrow> (\<exists>r \<in> ev_resource ` set h. i \<in> set (claim_indices (claims_for h r)))"
    by (auto simp: claims_by_resource_lookup split: if_splits)
  also have "\<dots> \<longleftrightarrow> active h i"
  proof
    assume "\<exists>r \<in> ev_resource ` set h. i \<in> set (claim_indices (claims_for h r))"
    then obtain r where r: "i \<in> set (claim_indices (claims_for h r))" by blast
    with claim_owner[of h r i] have "i < length h" "ev_resource (h ! i) = r" by (simp_all add: claim_indices_set)
    with r show "active h i" by (simp add: active_def claim_indices_set)
  qed (auto simp: active_def claim_indices_set Let_def)
  finally show ?thesis .
qed

lemma claim_indices_distinct: "distinct (claim_indices (claims_for h r))"
proof -
  have "cl_row (claims_for h r) = Some i \<Longrightarrow> cl_read (claims_for h r) \<noteq> Some i" for i
    by (auto dest!: row_claim read_claim simp: unsettled_def last_read_def row_effect_def)
  then show ?thesis by (auto simp: claim_indices_def List.map_filter_def)
qed

lemma active_distinct: "distinct (active_git_capability_indices h)"
proof -
  let ?kvs = "claims_by_resource h"
  have claims: "c = claims_for h r" if "(r, c) \<in> set ?kvs" for r c
    using map_of_is_SomeI[OF claims_by_resource_distinct that] by (simp add: claims_by_resource_lookup split: if_splits)
  have "distinct (concat (map (\<lambda>(r, c). claim_indices c) kvs))"
    if "distinct (map fst kvs)" "set kvs \<subseteq> set ?kvs" for kvs
    using that
  proof (induction kvs)
    case (Cons rc kvs)
    obtain r c where rc: "rc = (r, c)" by (cases rc)
    have "set (claim_indices c) \<inter> set (claim_indices c') = {}" if "(r', c') \<in> set kvs" for r' c'
    proof -
      have "r \<noteq> r'" using Cons.prems(1) that rc by force
      moreover have "c = claims_for h r" "c' = claims_for h r'" using claims Cons.prems(2) that rc by auto
      ultimately show ?thesis using claim_index_owner[of _ h r] claim_index_owner[of _ h r'] by blast
    qed
    moreover have "distinct (claim_indices c)" using claims Cons.prems(2) rc claim_indices_distinct by auto
    ultimately show ?case using Cons rc by fastforce
  qed simp
  from this[OF claims_by_resource_distinct] show ?thesis by (simp add: active_git_capability_indices_def)
qed

lemma active_indices_filter: "active_git_capability_indices h = filter (active h) [0..<length h]"
proof (rule sorted_distinct_set_unique)
  show "set (active_git_capability_indices h) = set (filter (active h) [0..<length h])"
    by (auto simp: active_set) (simp add: active_def)
  show "sorted (active_git_capability_indices h)" by (simp add: active_git_capability_indices_def)
  show "sorted (filter (active h) [0..<length h])" by (simp add: sorted_filter[where f = "\<lambda>i. i", simplified])
qed (simp_all add: active_distinct)

text \<open>Iterating the map in another order gives the same indices.\<close>

lemma active_any_order:
  assumes "mset kvs = mset (claims_by_resource h)"
  shows "sort (concat (map (\<lambda>(r, c). claim_indices c) kvs)) = active_git_capability_indices h"
proof -
  have "mset (concat (map f kvs)) = mset (concat (map f (claims_by_resource h)))" for f :: "_ \<Rightarrow> nat list"
  proof -
    have "mset (concat (map f xs)) = \<Sum>\<^sub># (image_mset (\<lambda>x. mset (f x)) (mset xs))" for xs
      by (induction xs) auto
    then show ?thesis using assms by simp
  qed
  then show ?thesis
    unfolding active_git_capability_indices_def by (metis mset_sort sorted_list_of_multiset_mset)
qed

section \<open>The projection keeps rows and readers\<close>

text \<open>The events a consumer retains.\<close>

definition project :: "event list \<Rightarrow> event list" where
  "project h = map (nth h) (active_git_capability_indices h)"

lemma row_of_filter:
  "row_of h r = (let es = filter (\<lambda>e. ev_resource e = r \<and> row_effect e \<noteq> None) h in
     if es = [] then CleanRow else the (row_effect (last es)))"
proof (induction h rule: rev_induct)
  case (snoc e h)
  then show ?case by (cases "row_effect e") (auto simp: row_step_def Let_def)
qed simp

lemma reader_of_filter:
  "reader_of h r = (let es = filter (\<lambda>e. ev_resource e = r \<and> ev_action e = Read) h in
     if es = [] then None else Some (ev_principal (last es)))"
  by (induction h rule: rev_induct) (auto simp: Let_def)

lemma filter_project:
  "filter P (project h) = map (nth h) (filter (\<lambda>i. active h i \<and> P (h ! i)) [0..<length h])"
  by (simp add: project_def active_indices_filter filter_map o_def conj_commute)

lemma filter_one: "(\<And>i. i < n \<Longrightarrow> P i \<longleftrightarrow> i = k) \<Longrightarrow> k < n \<Longrightarrow> filter P [0..<n] = [k]"
proof -
  assume P: "\<And>i. i < n \<Longrightarrow> P i \<longleftrightarrow> i = k" and k: "k < n"
  have "filter P [0..<n] = filter (\<lambda>i. i = k) [0..<n]" using P by (intro filter_cong) auto
  also have "\<dots> = [k]" using k by (induction n) auto
  finally show ?thesis .
qed

lemma row_of_project: "row_of (project h) r = row_of h r"
proof -
  let ?P = "\<lambda>e. ev_resource e = r \<and> row_effect e \<noteq> None"
  have P: "active h i \<and> ?P (h ! i) \<longleftrightarrow> cl_row (claims_for h r) = Some i" if "i < length h" for i
  proof
    assume a: "active h i \<and> ?P (h ! i)"
    then have "cl_row (claims_for h r) = Some i \<or> cl_read (claims_for h r) = Some i"
      by (auto simp: active_def Let_def)
    moreover have "cl_read (claims_for h r) \<noteq> Some i"
      using a read_claim[of h r i] by (auto simp: last_read_def unsettled_def row_effect_def)
    ultimately show "cl_row (claims_for h r) = Some i" by simp
  next
    assume a: "cl_row (claims_for h r) = Some i"
    with row_claim[OF a] show "active h i \<and> ?P (h ! i)"
      by (auto simp: active_def Let_def unsettled_def last_read_def)
  qed
  show ?thesis
  proof (cases "cl_row (claims_for h r)")
    case None
    then have "filter ?P (project h) = []" using P by (auto simp: filter_project filter_empty_conv)
    with no_row_claim[OF None] show ?thesis by (simp add: row_of_filter[of "project h"])
  next
    case (Some k)
    from row_claim[OF this] have k: "unsettled h r k" .
    have "filter (\<lambda>i. active h i \<and> ?P (h ! i)) [0..<length h] = [k]"
      by (rule filter_one) (use P Some k in \<open>auto simp: unsettled_def\<close>)
    then have "filter ?P (project h) = [h ! k]" by (simp add: filter_project)
    with k show ?thesis by (simp add: row_of_filter[of "project h"] unsettled_def)
  qed
qed

lemma reader_of_project: "reader_of (project h) r = reader_of h r"
proof -
  let ?P = "\<lambda>e. ev_resource e = r \<and> ev_action e = Read"
  have P: "active h i \<and> ?P (h ! i) \<longleftrightarrow> cl_read (claims_for h r) = Some i" if "i < length h" for i
  proof
    assume a: "active h i \<and> ?P (h ! i)"
    then have "cl_row (claims_for h r) = Some i \<or> cl_read (claims_for h r) = Some i"
      by (auto simp: active_def Let_def)
    moreover have "cl_row (claims_for h r) \<noteq> Some i"
      using a row_claim[of h r i] by (auto simp: last_read_def unsettled_def row_effect_def)
    ultimately show "cl_read (claims_for h r) = Some i" by simp
  next
    assume a: "cl_read (claims_for h r) = Some i"
    with read_claim[OF a] show "active h i \<and> ?P (h ! i)"
      by (auto simp: active_def Let_def unsettled_def last_read_def)
  qed
  show ?thesis
  proof (cases "cl_read (claims_for h r)")
    case None
    then have "filter ?P (project h) = []" using P by (auto simp: filter_project filter_empty_conv)
    with no_read_claim[OF None] show ?thesis by (simp add: reader_of_filter[of "project h"])
  next
    case (Some k)
    from read_claim[OF this] have k: "last_read h r k" .
    have "filter (\<lambda>i. active h i \<and> ?P (h ! i)) [0..<length h] = [k]"
      by (rule filter_one) (use P Some k in \<open>auto simp: last_read_def\<close>)
    then have "filter ?P (project h) = [h ! k]" by (simp add: filter_project)
    with k show ?thesis by (simp add: reader_of_filter[of "project h"] last_read_def)
  qed
qed

end
