(* ===== verification/GitRules.thy ===== *)
theory GitRules
  imports Capabilities
begin

text \<open>
  The git legality table, \<^verbatim>\<open>rust-validator/src/policy/git/\<close>: one-event predicates
  (\<^verbatim>\<open>predicates.rs\<close>), row languages (\<^verbatim>\<open>languages.rs\<close>), the context a denial is rendered from
  (\<^verbatim>\<open>diagnostics.rs\<close>), and the 23 rules (\<^verbatim>\<open>rules.rs\<close>).
\<close>

section \<open>Predicates\<close>

definition read_only_not_r :: test_expr where
  "read_only_not_r = OrT [resource_is Neq, action_is Read Eq, action_is Diff Eq, action_is History Eq,
     action_is Clean Eq]"

definition stage_delete_on_r :: test_expr where
  "stage_delete_on_r = AndT [resource_is Eq, OrT [action_is Stage Eq, action_is Delete Eq]]"

definition edit_unstage_on_r_on_p :: test_expr where
  "edit_unstage_on_r_on_p =
     AndT [resource_is Eq, OrT [action_is Edit Eq, action_is Unstage Eq], principal_is Eq]"

definition edit_unstage_on_r_not_p :: test_expr where
  "edit_unstage_on_r_not_p =
     AndT [resource_is Eq, OrT [action_is Edit Eq, action_is Unstage Eq], principal_is Neq]"

definition commit_checkout_stash_on_r :: test_expr where
  "commit_checkout_stash_on_r = AndT [resource_is Eq, action_is Read Neq, action_is Diff Neq,
     action_is History Neq, action_is Edit Neq, action_is Stage Neq, action_is Unstage Neq,
     action_is Delete Neq, action_is Clean Neq]"

definition read_on_r_not_p :: test_expr where
  "read_on_r_not_p = AndT [resource_is Eq, action_is Read Eq, principal_is Neq]"

definition not_read_on_r :: test_expr where
  "not_read_on_r = OrT [resource_is Neq, action_is Read Neq]"

section \<open>Languages\<close>

definition clean_lang :: regex_expr where
  "clean_lang = UnionX [never_state_change read_only_not_r,
     last_state_change commit_checkout_stash_on_r read_only_not_r]"

definition staged_lang :: regex_expr where
  "staged_lang = last_state_change stage_delete_on_r read_only_not_r"

definition unstaged_self_lang :: regex_expr where
  "unstaged_self_lang = last_state_change edit_unstage_on_r_on_p read_only_not_r"

definition unstaged_other_lang :: regex_expr where
  "unstaged_other_lang = last_state_change edit_unstage_on_r_not_p read_only_not_r"

definition read_claimed_other_lang :: regex_expr where
  "read_claimed_other_lang = last_state_change read_on_r_not_p not_read_on_r"

section \<open>Diagnostics\<close>

record git_context =
  gc_principal :: string
  gc_resource :: string
  gc_owner :: string
  gc_reader :: string

text \<open>\<open>history.get(index)\<close>.\<close>

definition event_at :: "event list \<Rightarrow> nat \<Rightarrow> event option" where
  "event_at history i = (if i < length history then Some (history ! i) else None)"

definition git_context_of :: "event list \<Rightarrow> event \<Rightarrow> git_context" where
  "git_context_of history candidate =
     (let c = claims_for history (ev_resource candidate);
          owner = do {
            i \<leftarrow> cl_row c;
            e \<leftarrow> event_at history i;
            if ev_action e = Edit \<or> ev_action e = Unstage then Some (ev_principal e) else None };
          reader = do {
            i \<leftarrow> cl_read c;
            e \<leftarrow> event_at history i;
            Some (ev_principal e) }
      in \<lparr>gc_principal = ev_principal candidate,
          gc_resource = join ''/'' (ev_resource candidate),
          gc_owner = (case owner of None \<Rightarrow> ''another principal'' | Some q \<Rightarrow> q),
          gc_reader = (case reader of None \<Rightarrow> ''another principal'' | Some s \<Rightarrow> s)\<rparr>)"

definition opf :: "string \<Rightarrow> string \<Rightarrow> string \<Rightarrow> string list" where
  "opf p r q = [q @ '' stage '' @ r, q @ '' checkout '' @ r, q @ '' stash '' @ r,
     p @ '' only reads, diffs, or histories '' @ r]"

definition rcf :: "string \<Rightarrow> string \<Rightarrow> string list" where
  "rcf p r = [p @ '' read '' @ r]"

section \<open>Rules\<close>

text \<open>
  A diagnostic destructures the context into the principal \<open>p\<close>, the resource \<open>r\<close>, the owner \<open>q\<close>
  and the reader \<open>s\<close>.
\<close>

definition render :: "(string \<Rightarrow> string \<Rightarrow> string \<Rightarrow> string \<Rightarrow> string \<times> string list) \<Rightarrow> git_context diagnostic" where
  "render f c = f (gc_principal c) (gc_resource c) (gc_owner c) (gc_reader c)"

definition edit_and_checkout_row_rules :: "git_context policy_rule list" where
  "edit_and_checkout_row_rules = [
     forbid Edit unstaged_other_lang (render (\<lambda>p r q s.
       (r @ '' is unstaged by '' @ q @ ''; '' @ p @ '' may read, diff, or history it but may not edit it'',
        opf p r q))),
     forbid Checkout unstaged_other_lang (render (\<lambda>p r q s.
       (r @ '' is unstaged by '' @ q @ ''; checkout would discard or replace '' @ q @ [CHR 0x27] @ ''s dirty resource'',
        opf p r q)))]"

definition stage_row_rules :: "git_context policy_rule list" where
  "stage_row_rules = [
     forbid Stage clean_lang (render (\<lambda>p r q s.
       (''stage requires an unstaged resource owned by the acting principal'',
        [p @ '' edit '' @ r @ '' before staging'']))),
     forbid Stage staged_lang (render (\<lambda>p r q s.
       (''stage requires an unstaged resource owned by the acting principal'',
        [p @ '' unstage '' @ r @ '' before staging again'']))),
     forbid Stage unstaged_other_lang (render (\<lambda>p r q s.
       (r @ '' is unstaged by '' @ q @ ''; only '' @ q @ '' may stage it'',
        opf p r q)))]"

definition stash_row_rules :: "git_context policy_rule list" where
  "stash_row_rules = [
     forbid Stash clean_lang (render (\<lambda>p r q s.
       (''stash requires an unstaged resource owned by the acting principal'',
        [p @ '' edit '' @ r @ '' before stashing'']))),
     forbid Stash staged_lang (render (\<lambda>p r q s.
       (''stash requires an unstaged resource owned by the acting principal'',
        [p @ '' unstage '' @ r @ '' before stashing'']))),
     forbid Stash unstaged_other_lang (render (\<lambda>p r q s.
       (r @ '' is unstaged by '' @ q @ ''; only '' @ q @ '' may stash it'',
        opf p r q)))]"

definition unstage_row_rules :: "git_context policy_rule list" where
  "unstage_row_rules = [
     forbid Unstage unstaged_other_lang (render (\<lambda>p r q s.
       (''unstage requires a staged resource'',
        opf p r q))),
     forbid Unstage clean_lang (render (\<lambda>p r q s.
       (''unstage requires a staged resource'',
        [p @ '' stage '' @ r @ '' before unstaging'']))),
     forbid Unstage unstaged_self_lang (render (\<lambda>p r q s.
       (''unstage requires a staged resource'',
        [p @ '' stage '' @ r @ '' before unstaging''])))]"

definition commit_row_rules :: "git_context policy_rule list" where
  "commit_row_rules = [
     forbid commit_without_message clean_lang (render (\<lambda>p r q s.
       (''commit requires a staged resource'',
        [p @ '' edit '' @ r, p @ '' stage '' @ r @ '' before committing'']))),
     forbid commit_without_message unstaged_self_lang (render (\<lambda>p r q s.
       (''commit requires a staged resource'',
        [p @ '' stage '' @ r @ '' before committing'']))),
     forbid commit_without_message unstaged_other_lang (render (\<lambda>p r q s.
       (''commit requires a staged resource'',
        opf p r q)))]"

definition delete_and_clean_row_rules :: "git_context policy_rule list" where
  "delete_and_clean_row_rules = [
     forbid Delete staged_lang (render (\<lambda>p r q s.
       (''delete requires a resource with no staged or unstaged changes'',
        [p @ '' commit '' @ r @ '' before deleting'', p @ '' checkout '' @ r @ '' before deleting'']))),
     forbid Delete unstaged_self_lang (render (\<lambda>p r q s.
       (''delete requires a resource with no staged or unstaged changes'',
        [p @ '' checkout '' @ r @ '' before deleting'', p @ '' stash '' @ r @ '' before deleting'']))),
     forbid Delete unstaged_other_lang (render (\<lambda>p r q s.
       (r @ '' is unstaged by '' @ q @ ''; delete would discard '' @ q @ [CHR 0x27] @ ''s dirty resource'',
        opf p r q))),
     forbid Clean unstaged_other_lang (render (\<lambda>p r q s.
       (r @ '' is unstaged by '' @ q @ ''; clean would discard '' @ q @ [CHR 0x27] @ ''s dirty resource'',
        opf p r q)))]"

definition read_claim_rules :: "git_context policy_rule list" where
  "read_claim_rules = [
     forbid Edit read_claimed_other_lang (render (\<lambda>p r q s.
       (r @ '' was last read by '' @ s @ ''; '' @ p @ '' must read it before editing it'',
        rcf p r))),
     forbid Delete read_claimed_other_lang (render (\<lambda>p r q s.
       (r @ '' was last read by '' @ s @ ''; '' @ p @ '' must read it before deleting it'',
        rcf p r))),
     forbid Clean read_claimed_other_lang (render (\<lambda>p r q s.
       (r @ '' was last read by '' @ s @ ''; '' @ p @ '' must read it before cleaning it'',
        rcf p r))),
     forbid Checkout read_claimed_other_lang (render (\<lambda>p r q s.
       (r @ '' was last read by '' @ s @ ''; '' @ p @ '' must read it before checking it out'',
        rcf p r))),
     forbid Stash read_claimed_other_lang (render (\<lambda>p r q s.
       (r @ '' was last read by '' @ s @ ''; '' @ p @ '' must read it before stashing it'',
        rcf p r)))]"

definition git_rules :: "git_context policy_rule list" where
  "git_rules = edit_and_checkout_row_rules @ stage_row_rules @ stash_row_rules @ unstage_row_rules @
     commit_row_rules @ delete_and_clean_row_rules @ read_claim_rules"

end
