(* ===== verification/GitPolicy.thy ===== *)
theory GitPolicy
  imports GitRules
begin

text \<open>
  The git policy, \<^verbatim>\<open>rust-validator/src/policy/git/mod.rs\<close>: the table compiled once, a decision per
  candidate. The lemmas show that the languages classify a history by the row and the reader of
  the resource, that a decision is the legality table on them, and what the table protects.
\<close>

section \<open>The policy\<close>

text \<open>The outer option is fuel; the inner one is the panic of \<open>expect\<close> on a compile error.\<close>

definition git_policy_new ::
  "'s uids \<Rightarrow> 's caller \<Rightarrow> (string \<Rightarrow> 's) \<Rightarrow> ('s, git_context) compiled_policy option option" where
  "git_policy_new u call intern = do {
     compiled \<leftarrow> compile_policy u call intern git_rules;
     Some (case compiled of Inl _ \<Rightarrow> None | Inr rules \<Rightarrow> Some rules) }"

definition git_probe :: "event \<Rightarrow> event" where
  "git_probe candidate = (case ev_action candidate of
     Commit _ \<Rightarrow> candidate\<lparr>ev_action := commit_without_message\<rparr>
   | _ \<Rightarrow> candidate)"

definition git_policy_decide ::
  "'s uids \<Rightarrow> 's caller \<Rightarrow> (string \<Rightarrow> 's) \<Rightarrow> ('s, git_context) compiled_policy \<Rightarrow> event list \<Rightarrow> event \<Rightarrow>
   (policy_decision \<times> ('s, git_context) compiled_policy) option" where
  "git_policy_decide u call intern rules history candidate =
     policy_decide u call intern history (git_probe candidate) (git_context_of history candidate) rules"

definition git_decision ::
  "'s uids \<Rightarrow> 's caller \<Rightarrow> (string \<Rightarrow> 's) \<Rightarrow> event list \<Rightarrow> event \<Rightarrow> policy_decision option option" where
  "git_decision u call intern history candidate = do {
     policy \<leftarrow> git_policy_new u call intern;
     (case policy of
        None \<Rightarrow> Some None
      | Some rules \<Rightarrow> do {
          (d, rules') \<leftarrow> git_policy_decide u call intern rules history candidate;
          Some (Some d) }) }"

section \<open>The table\<close>

text \<open>
  The cell of the legality table a candidate falls in: the number of the rule that denies it, by
  the row and the last reader of the resource.
\<close>

definition claimed_by_other :: "principal \<Rightarrow> principal option \<Rightarrow> bool" where
  "claimed_by_other p reader \<longleftrightarrow> (case reader of None \<Rightarrow> False | Some s \<Rightarrow> s \<noteq> p)"

fun cell :: "row \<Rightarrow> principal option \<Rightarrow> principal \<Rightarrow> action \<Rightarrow> nat option" where
  "cell row reader p Edit = (case row of
     UnstagedRow q \<Rightarrow> if q \<noteq> p then Some 1 else if claimed_by_other p reader then Some 19 else None
   | _ \<Rightarrow> if claimed_by_other p reader then Some 19 else None)"
| "cell row reader p Checkout = (case row of
     UnstagedRow q \<Rightarrow> if q \<noteq> p then Some 2 else if claimed_by_other p reader then Some 22 else None
   | _ \<Rightarrow> if claimed_by_other p reader then Some 22 else None)"
| "cell row reader p Stage = (case row of
     CleanRow \<Rightarrow> Some 3 | StagedRow \<Rightarrow> Some 4 | UnstagedRow q \<Rightarrow> if q \<noteq> p then Some 5 else None)"
| "cell row reader p Stash = (case row of
     CleanRow \<Rightarrow> Some 6 | StagedRow \<Rightarrow> Some 7
   | UnstagedRow q \<Rightarrow> if q \<noteq> p then Some 8 else if claimed_by_other p reader then Some 23 else None)"
| "cell row reader p Unstage = (case row of
     CleanRow \<Rightarrow> Some 10 | StagedRow \<Rightarrow> None | UnstagedRow q \<Rightarrow> if q \<noteq> p then Some 9 else Some 11)"
| "cell row reader p (Commit _) = (case row of
     CleanRow \<Rightarrow> Some 12 | StagedRow \<Rightarrow> None | UnstagedRow q \<Rightarrow> if q \<noteq> p then Some 14 else Some 13)"
| "cell row reader p Delete = (case row of
     CleanRow \<Rightarrow> if claimed_by_other p reader then Some 20 else None
   | StagedRow \<Rightarrow> Some 15
   | UnstagedRow q \<Rightarrow> if q \<noteq> p then Some 17 else Some 16)"
| "cell row reader p Clean = (case row of
     UnstagedRow q \<Rightarrow> if q \<noteq> p then Some 18 else if claimed_by_other p reader then Some 21 else None
   | _ \<Rightarrow> if claimed_by_other p reader then Some 21 else None)"
| "cell row reader p Read = None"
| "cell row reader p Diff = None"
| "cell row reader p History = None"

text \<open>What a denial says, with the owner and the reader the history determines.\<close>

fun owner_name :: "row \<Rightarrow> string" where
  "owner_name (UnstagedRow q) = q"
| "owner_name _ = ''another principal''"

definition table_context :: "row \<Rightarrow> principal option \<Rightarrow> event \<Rightarrow> git_context" where
  "table_context row reader e =
     \<lparr>gc_principal = ev_principal e, gc_resource = display_resource (ev_resource e),
      gc_owner = owner_name row,
      gc_reader = (case reader of None \<Rightarrow> ''another principal'' | Some s \<Rightarrow> s)\<rparr>"

definition deny_cell :: "nat \<Rightarrow> git_context \<Rightarrow> policy_decision" where
  "deny_cell k ctx = (let (f, a) = pr_diagnostic (git_rules ! (k - 1)) ctx in PolicyDeny f a)"

definition git_table :: "event list \<Rightarrow> event \<Rightarrow> policy_decision" where
  "git_table history e =
     (let row = row_of history (ev_resource e); reader = reader_of history (ev_resource e) in
      case cell row reader (ev_principal e) (ev_action e) of
        None \<Rightarrow> PolicyGrant
      | Some k \<Rightarrow> deny_cell k (table_context row reader e))"

section \<open>The languages classify histories\<close>

definition rule_bindings :: "principal \<Rightarrow> resource \<Rightarrow> bindings" where
  "rule_bindings p r = [PRINCIPAL_VAR \<mapsto> BoundPrincipal p, RESOURCE_VAR \<mapsto> BoundResource r]"

lemma atoms_hold [simp]:
  "test_holds (rule_bindings p r) (principal_is Eq) e \<longleftrightarrow> ev_principal e = p"
  "test_holds (rule_bindings p r) (principal_is Neq) e \<longleftrightarrow> ev_principal e \<noteq> p"
  "test_holds (rule_bindings p r) (resource_is Eq) e \<longleftrightarrow> ev_resource e = r"
  "test_holds (rule_bindings p r) (resource_is Neq) e \<longleftrightarrow> ev_resource e \<noteq> r"
  "test_holds \<theta> (action_is a Eq) e \<longleftrightarrow> ev_action e = a"
  "test_holds \<theta> (action_is a Neq) e \<longleftrightarrow> ev_action e \<noteq> a"
  by (auto simp: rule_bindings_def principal_is_def resource_is_def action_is_def PRINCIPAL_VAR_def
      RESOURCE_VAR_def)

lemmas predicates = read_only_not_r_def stage_delete_on_r_def edit_unstage_on_r_on_p_def
  edit_unstage_on_r_not_p_def commit_checkout_stash_on_r_def read_on_r_not_p_def not_read_on_r_def

lemma keeps_row:
  "test_holds (rule_bindings p r) read_only_not_r e \<longleftrightarrow> ev_resource e \<noteq> r \<or> row_effect e = None"
  by (cases "ev_action e") (auto simp: predicates row_effect_def)

lemma sets_row:
  "test_holds (rule_bindings p r) stage_delete_on_r e \<longleftrightarrow> ev_resource e = r \<and> row_effect e = Some StagedRow"
  "test_holds (rule_bindings p r) commit_checkout_stash_on_r e \<longleftrightarrow>
     ev_resource e = r \<and> row_effect e = Some CleanRow"
  "test_holds (rule_bindings p r) edit_unstage_on_r_on_p e \<longleftrightarrow>
     ev_resource e = r \<and> row_effect e = Some (UnstagedRow p)"
  "test_holds (rule_bindings p r) edit_unstage_on_r_not_p e \<longleftrightarrow>
     ev_resource e = r \<and> (\<exists>q. q \<noteq> p \<and> row_effect e = Some (UnstagedRow q))"
  by (cases "ev_action e"; auto simp: predicates row_effect_def)+

lemma clean_lang_row: "h \<in> expr_lang (rule_bindings p r) clean_lang \<longleftrightarrow> row_of h r = CleanRow"
proof (induction h rule: rev_induct)
  case Nil
  show ?case by (simp add: clean_lang_def never_state_change_snoc(2)[simplified])
next
  case (snoc e h)
  then show ?case
    by (auto simp: clean_lang_def never_state_change_snoc last_state_change_snoc keeps_row sets_row row_step_def
        split: option.splits)
qed

lemma staged_lang_row: "h \<in> expr_lang (rule_bindings p r) staged_lang \<longleftrightarrow> row_of h r = StagedRow"
  unfolding staged_lang_def
  by (induction h rule: rev_induct)
    (auto simp: last_state_change_Nil last_state_change_snoc keeps_row sets_row row_step_def split: option.splits)

lemma unstaged_self_lang_row:
  "h \<in> expr_lang (rule_bindings p r) unstaged_self_lang \<longleftrightarrow> row_of h r = UnstagedRow p"
  unfolding unstaged_self_lang_def
  by (induction h rule: rev_induct)
    (auto simp: last_state_change_Nil last_state_change_snoc keeps_row sets_row row_step_def split: option.splits)

lemma unstaged_other_lang_row:
  "h \<in> expr_lang (rule_bindings p r) unstaged_other_lang \<longleftrightarrow> (\<exists>q. q \<noteq> p \<and> row_of h r = UnstagedRow q)"
  unfolding unstaged_other_lang_def
  by (induction h rule: rev_induct)
    (auto simp: last_state_change_Nil last_state_change_snoc keeps_row sets_row row_step_def split: option.splits)

lemma read_claimed_lang_reader:
  "h \<in> expr_lang (rule_bindings p r) read_claimed_other_lang \<longleftrightarrow> claimed_by_other p (reader_of h r)"
  unfolding read_claimed_other_lang_def claimed_by_other_def
  by (induction h rule: rev_induct)
    (auto simp: last_state_change_Nil last_state_change_snoc predicates split: option.splits)

lemmas language_rows = clean_lang_row staged_lang_row unstaged_self_lang_row unstaged_other_lang_row
  read_claimed_lang_reader

section \<open>The context names the owner and the reader\<close>

lemma event_at_less: "i < length h \<Longrightarrow> event_at h i = Some (h ! i)"
  by (simp add: event_at_def)

lemma row_effect_unstaged:
  "row_effect e = Some (UnstagedRow q) \<longleftrightarrow> (ev_action e = Edit \<or> ev_action e = Unstage) \<and> ev_principal e = q"
  by (cases "ev_action e") (auto simp: row_effect_def)

lemma git_context_table:
  "git_context_of h e = table_context (row_of h (ev_resource e)) (reader_of h (ev_resource e)) e"
proof -
  let ?r = "ev_resource e" and ?c = "claims_for h (ev_resource e)"
  have owner: "(case do { i \<leftarrow> cl_row ?c; e \<leftarrow> event_at h i;
        if ev_action e = Edit \<or> ev_action e = Unstage then Some (ev_principal e) else None } of
      None \<Rightarrow> ''another principal'' | Some q \<Rightarrow> q) = owner_name (row_of h ?r)"
  proof (cases "cl_row ?c")
    case None
    then show ?thesis using no_row_claim[OF None] by simp
  next
    case (Some i)
    from row_claim[OF this] have i: "i < length h" "row_effect (h ! i) = Some (row_of h ?r)"
      by (simp_all add: unsettled_def)
    then show ?thesis using Some row_effect_unstaged[of "h ! i"]
      by (cases "row_of h ?r") (auto simp: event_at_less)
  qed
  have reader: "(case do { i \<leftarrow> cl_read ?c; e \<leftarrow> event_at h i; Some (ev_principal e) } of
      None \<Rightarrow> ''another principal'' | Some s \<Rightarrow> s) =
      (case reader_of h ?r of None \<Rightarrow> ''another principal'' | Some s \<Rightarrow> s)"
  proof (cases "cl_read ?c")
    case None
    then show ?thesis using no_read_claim[OF None] by simp
  next
    case (Some i)
    from read_claim[OF this] show ?thesis using Some by (simp add: last_read_def event_at_less)
  qed
  show ?thesis
    unfolding git_context_of_def Let_def table_context_def display_resource_def owner reader by simp
qed

section \<open>The rules are the table\<close>

lemmas rule_groups = edit_and_checkout_row_rules_def stage_row_rules_def stash_row_rules_def
  unstage_row_rules_def commit_row_rules_def delete_and_clean_row_rules_def read_claim_rules_def

lemma forbid_diagnostic [simp]: "pr_diagnostic (forbid a tail d) = d"
  by (simp add: forbid_def)

lemma verdict_append:
  "verdict (xs @ ys) h e ctx = (if verdict xs h e ctx = PolicyGrant then verdict ys h e ctx else verdict xs h e ctx)"
  by (induction xs) (auto split: prod.split)

lemma verdict_forbid [simp]:
  "verdict (forbid a tail d # prs) h e ctx =
     (if ev_action e = a \<and> h \<in> expr_lang (rule_bindings (ev_principal e) (ev_resource e)) tail
      then let (f, fixes) = d ctx in PolicyDeny f fixes
      else verdict prs h e ctx)"
  by (simp add: forbid_violated rule_bindings_def)

lemma git_probe_sel [simp]:
  "ev_principal (git_probe e) = ev_principal e" "ev_resource (git_probe e) = ev_resource e"
  "ev_action (git_probe e) = (case ev_action e of Commit _ \<Rightarrow> commit_without_message | a \<Rightarrow> a)"
  by (auto simp: git_probe_def split: action.split)

text \<open>The shape of the table, with the diagnostics left open.\<close>

lemma git_rules_shape:
  obtains d1 d2 d3 d4 d5 d6 d7 d8 d9 d10 d11 d12 d13 d14 d15 d16 d17 d18 d19 d20 d21 d22 d23 where "git_rules = [
     forbid Edit unstaged_other_lang d1,
     forbid Checkout unstaged_other_lang d2,
     forbid Stage clean_lang d3,
     forbid Stage staged_lang d4,
     forbid Stage unstaged_other_lang d5,
     forbid Stash clean_lang d6,
     forbid Stash staged_lang d7,
     forbid Stash unstaged_other_lang d8,
     forbid Unstage unstaged_other_lang d9,
     forbid Unstage clean_lang d10,
     forbid Unstage unstaged_self_lang d11,
     forbid commit_without_message clean_lang d12,
     forbid commit_without_message unstaged_self_lang d13,
     forbid commit_without_message unstaged_other_lang d14,
     forbid Delete staged_lang d15,
     forbid Delete unstaged_self_lang d16,
     forbid Delete unstaged_other_lang d17,
     forbid Clean unstaged_other_lang d18,
     forbid Edit read_claimed_other_lang d19,
     forbid Delete read_claimed_other_lang d20,
     forbid Clean read_claimed_other_lang d21,
     forbid Checkout read_claimed_other_lang d22,
     forbid Stash read_claimed_other_lang d23]"
  by (rule that, unfold git_rules_def rule_groups append.simps, rule refl)

lemma git_rules_table: "verdict git_rules h (git_probe e) (git_context_of h e) = git_table h e"
proof -
  let ?ctx = "table_context (row_of h (ev_resource e)) (reader_of h (ev_resource e)) e"
  have "verdict git_rules h (git_probe e) ?ctx = git_table h e"
  proof (rule git_rules_shape)
    fix d1 d2 d3 d4 d5 d6 d7 d8 d9 d10 d11 d12 d13 d14 d15 d16 d17 d18 d19 d20 d21 d22 d23 assume shape: "git_rules = [
     forbid Edit unstaged_other_lang d1,
     forbid Checkout unstaged_other_lang d2,
     forbid Stage clean_lang d3,
     forbid Stage staged_lang d4,
     forbid Stage unstaged_other_lang d5,
     forbid Stash clean_lang d6,
     forbid Stash staged_lang d7,
     forbid Stash unstaged_other_lang d8,
     forbid Unstage unstaged_other_lang d9,
     forbid Unstage clean_lang d10,
     forbid Unstage unstaged_self_lang d11,
     forbid commit_without_message clean_lang d12,
     forbid commit_without_message unstaged_self_lang d13,
     forbid commit_without_message unstaged_other_lang d14,
     forbid Delete staged_lang d15,
     forbid Delete unstaged_self_lang d16,
     forbid Delete unstaged_other_lang d17,
     forbid Clean unstaged_other_lang d18,
     forbid Edit read_claimed_other_lang d19,
     forbid Delete read_claimed_other_lang d20,
     forbid Clean read_claimed_other_lang d21,
     forbid Checkout read_claimed_other_lang d22,
     forbid Stash read_claimed_other_lang d23]"
    show ?thesis
      by (cases "ev_action e"; cases "row_of h (ev_resource e)")
        (simp_all add: shape language_rows git_table_def deny_cell_def commit_without_message_def
          del: verdict.simps(2))
  qed
  then show ?thesis by (simp add: git_context_table)
qed

text \<open>What the rules say of a candidate, by their source meaning.\<close>

definition git_verdict :: "event list \<Rightarrow> event \<Rightarrow> policy_decision" where
  "git_verdict h e = verdict git_rules h (git_probe e) (git_context_of h e)"

lemma git_verdict_table: "git_verdict h e = git_table h e"
  by (simp add: git_verdict_def git_rules_table)

section \<open>The table compiles\<close>

interpretation git: trace_policy git_rules
  by unfold_locales
    (simp add: git_rules_def rule_groups forbid_def well_typed_def head_uses_def single_valued_def
      PRINCIPAL_VAR_def RESOURCE_VAR_def clean_lang_def staged_lang_def unstaged_self_lang_def
      unstaged_other_lang_def read_claimed_other_lang_def last_state_change_def never_state_change_def
      predicates principal_is_def resource_is_def action_is_def)

lemma git_policy_new_correct:
  assumes "hash_consed u" "inj intern"
  shows "\<exists>rules. settles (\<lambda>n. git_policy_new u (run u n) intern) (Some (Some rules)) \<and>
    implements_policy u intern git_rules rules"
proof -
  from git.compiles[OF assms] obtain rules where
    r: "settles (\<lambda>n. compile_policy u (run u n) intern git_rules) (Some (Inr rules))"
      "implements_policy u intern git_rules rules" by blast
  have "settles (\<lambda>n. git_policy_new u (run u n) intern) (Some (Some rules))"
    by (rule settles_comp2[OF r(1) r(1)]) (simp add: git_policy_new_def)
  with r(2) show ?thesis by blast
qed

lemma git_policy_decide_correct:
  assumes "hash_consed u" "inj intern" "implements_policy u intern git_rules rules"
  shows "\<exists>rules'. implements_policy u intern git_rules rules' \<and>
    settles (\<lambda>n. git_policy_decide u (run u n) intern rules h e) (Some (git_table h e, rules'))"
  using git.decides[OF assms, of h "git_probe e" "git_context_of h e"]
  by (simp add: git_policy_decide_def git_rules_table)

lemma git_decision_correct:
  assumes "hash_consed u" "inj intern"
  shows "settles (\<lambda>n. git_decision u (run u n) intern h e) (Some (Some (git_table h e)))"
proof -
  from git_policy_new_correct[OF assms] obtain rules where
    new: "settles (\<lambda>n. git_policy_new u (run u n) intern) (Some (Some rules))"
      "implements_policy u intern git_rules rules" by blast
  from git_policy_decide_correct[OF assms new(2)] obtain rules' where
    d: "settles (\<lambda>n. git_policy_decide u (run u n) intern rules h e) (Some (git_table h e, rules'))" by blast
  show ?thesis by (rule settles_comp2[OF new(1) d]) (simp add: git_decision_def)
qed

text \<open>Decisions over the projection of the history are the decisions over the history.\<close>

lemma git_verdict_project: "git_verdict (project h) e = git_verdict h e"
  by (simp add: git_verdict_table git_table_def row_of_project reader_of_project)

section \<open>What the table protects\<close>

text \<open>
  Histories in which every event was granted when it was appended.
\<close>

inductive legal :: "event list \<Rightarrow> bool" where
  legal_Nil: "legal []"
| legal_snoc: "legal h \<Longrightarrow> git_verdict h e = PolicyGrant \<Longrightarrow> legal (h @ [e])"

inductive_cases legal_snocE: "legal (h @ [e])"

lemma deny_cell_not_grant: "deny_cell k ctx \<noteq> PolicyGrant"
  by (simp add: deny_cell_def split: prod.split)

lemma git_table_grant:
  "git_table h e = PolicyGrant \<longleftrightarrow>
     cell (row_of h (ev_resource e)) (reader_of h (ev_resource e)) (ev_principal e) (ev_action e) = None"
  by (auto simp: git_table_def Let_def deny_cell_not_grant split: option.split)

text \<open>Only its owner takes a resource out of the unstaged row.\<close>

lemma only_owner_settles:
  assumes "git_table h e = PolicyGrant" "row_of h r = UnstagedRow q" "ev_principal e \<noteq> q"
  shows "row_of (h @ [e]) r = UnstagedRow q"
  using assms by (cases "ev_action e") (auto simp: git_table_grant row_step_def row_effect_def split: if_splits)

text \<open>A legal commit takes a resource from the staged row, and nothing else stages but its owner.\<close>

lemma legal_commit_staged:
  assumes "git_table h e = PolicyGrant" "ev_action e = Commit m"
  shows "row_of h (ev_resource e) = StagedRow"
  using assms by (auto simp: git_table_grant split: row.splits if_splits)

lemma legal_append: "legal (h @ later) \<Longrightarrow> legal h"
proof (induction later rule: rev_induct)
  case (snoc e later)
  then show ?case by (auto simp flip: append_assoc elim: legal_snocE)
qed simp

lemma legal_at: "legal (h @ e # later) \<Longrightarrow> git_table h e = PolicyGrant"
  using legal_append[of "h @ [e]" later] by (auto simp flip: git_verdict_table elim: legal_snocE)

text \<open>
  While a resource is unstaged by \<open>q\<close> and \<open>q\<close> does not act, it stays so.
\<close>

lemma owner_keeps:
  "legal (h @ later) \<Longrightarrow> row_of h r = UnstagedRow q \<Longrightarrow> \<forall>e \<in> set later. ev_principal e \<noteq> q \<Longrightarrow>
   row_of (h @ later) r = UnstagedRow q"
proof (induction later rule: rev_induct)
  case (snoc e later)
  then have l: "legal (h @ later)" "git_table (h @ later) e = PolicyGrant"
    using legal_append[of "h @ later" "[e]"] legal_at[of "h @ later" e "[]"] by simp_all
  with snoc have "row_of (h @ later) r = UnstagedRow q" by simp
  from only_owner_settles[OF l(2) this] snoc.prems(3) show ?case by simp
qed simp

end
