(* ===== verification/GitValidator.thy ===== *)
theory GitValidator
  imports GitPolicy
begin

text \<open>
  The stateful git authorizer handed to a JavaScript host, \<^verbatim>\<open>rust-validator/src/napi.rs\<close>: it
  unmarshals an action, decides the event with the policy it compiled once, and appends the event
  to its history exactly when it is granted.
\<close>

section \<open>Marshalling\<close>

record js_action =
  ja_kind :: string
  ja_message :: "string option"

definition action_of_js :: "js_action \<Rightarrow> string + action" where
  "action_of_js a =
     (if ja_kind a = ''read'' then Inr Read
      else if ja_kind a = ''edit'' then Inr Edit
      else if ja_kind a = ''stage'' then Inr Stage
      else if ja_kind a = ''unstage'' then Inr Unstage
      else if ja_kind a = ''commit'' then Inr (Commit (ja_message a))
      else if ja_kind a = ''checkout'' then Inr Checkout
      else if ja_kind a = ''stash'' then Inr Stash
      else if ja_kind a = ''delete'' then Inr Delete
      else if ja_kind a = ''clean'' then Inr Clean
      else if ja_kind a = ''diff'' then Inr Diff
      else if ja_kind a = ''history'' then Inr History
      else Inl (''unknown git action kind: '' @ ja_kind a))"

record js_git_decision =
  jd_kind :: string
  jd_failed_precondition :: "string option"
  jd_allowed_fixes :: "string list option"

section \<open>The authorizer\<close>

record 's git_validator =
  gv_policy :: "('s, git_context) compiled_policy"
  gv_history :: "event list"

definition git_validator_new ::
  "'s uids \<Rightarrow> 's caller \<Rightarrow> (string \<Rightarrow> 's) \<Rightarrow> 's git_validator option option" where
  "git_validator_new u call intern =
     map_option (map_option (\<lambda>rules. \<lparr>gv_policy = rules, gv_history = []\<rparr>)) (git_policy_new u call intern)"

definition git_validator_check ::
  "'s uids \<Rightarrow> 's caller \<Rightarrow> (string \<Rightarrow> 's) \<Rightarrow> 's git_validator \<Rightarrow> string \<Rightarrow> js_action \<Rightarrow> string list \<Rightarrow>
   ((string + js_git_decision) \<times> 's git_validator) option" where
  "git_validator_check u call intern gv p a r =
     (case action_of_js a of
        Inl e \<Rightarrow> Some (Inl e, gv)
      | Inr act \<Rightarrow> do {
          let event = new_event p act r;
          (d, rules) \<leftarrow> git_policy_decide u call intern (gv_policy gv) (gv_history gv) event;
          (case d of
             PolicyGrant \<Rightarrow>
               Some (Inr \<lparr>jd_kind = ''grant'', jd_failed_precondition = None, jd_allowed_fixes = None\<rparr>,
                     gv\<lparr>gv_policy := rules, gv_history := gv_history gv @ [event]\<rparr>)
           | PolicyDeny failed_precondition allowed_fixes \<Rightarrow>
               Some (Inr \<lparr>jd_kind = ''soft-error'', jd_failed_precondition = Some failed_precondition,
                          jd_allowed_fixes = Some allowed_fixes\<rparr>,
                     gv\<lparr>gv_policy := rules\<rparr>)) })"

fun git_validator_session ::
  "'s uids \<Rightarrow> 's caller \<Rightarrow> (string \<Rightarrow> 's) \<Rightarrow> 's git_validator \<Rightarrow> (string \<times> js_action \<times> string list) list \<Rightarrow>
   ((string + js_git_decision) list \<times> 's git_validator) option" where
  "git_validator_session u call intern gv [] = Some ([], gv)"
| "git_validator_session u call intern gv ((p, a, r) # calls) = do {
     (d, gv') \<leftarrow> git_validator_check u call intern gv p a r;
     (ds, gv'') \<leftarrow> git_validator_session u call intern gv' calls;
     Some (d # ds, gv'') }"

section \<open>Its contract\<close>

text \<open>One answer of the legality table, and the history it leaves.\<close>

definition table_answer :: "event list \<Rightarrow> string \<times> js_action \<times> string list \<Rightarrow> (string + js_git_decision) \<times> event list" where
  "table_answer h c = (case c of (p, a, r) \<Rightarrow> case action_of_js a of
     Inl e \<Rightarrow> (Inl e, h)
   | Inr act \<Rightarrow> let event = new_event p act r in case git_table h event of
       PolicyGrant \<Rightarrow>
         (Inr \<lparr>jd_kind = ''grant'', jd_failed_precondition = None, jd_allowed_fixes = None\<rparr>, h @ [event])
     | PolicyDeny f fixes \<Rightarrow>
         (Inr \<lparr>jd_kind = ''soft-error'', jd_failed_precondition = Some f, jd_allowed_fixes = Some fixes\<rparr>, h))"

fun table_session :: "event list \<Rightarrow> (string \<times> js_action \<times> string list) list \<Rightarrow> (string + js_git_decision) list \<times> event list" where
  "table_session h [] = ([], h)"
| "table_session h (c # calls) =
     (let (d, h') = table_answer h c; (ds, h'') = table_session h' calls in (d # ds, h''))"

lemma git_validator_check_correct:
  assumes "hash_consed u" "inj intern" "implements_policy u intern git_rules (gv_policy gv)"
  shows "\<exists>gv'. implements_policy u intern git_rules (gv_policy gv') \<and>
    gv_history gv' = snd (table_answer (gv_history gv) (p, a, r)) \<and>
    settles (\<lambda>n. git_validator_check u (run u n) intern gv p a r)
      (Some (fst (table_answer (gv_history gv) (p, a, r)), gv'))"
proof (cases "action_of_js a")
  case (Inl e)
  with assms(3) show ?thesis
    by (intro exI[of _ gv]) (simp add: git_validator_check_def table_answer_def settles_const)
next
  case (Inr act)
  let ?e = "new_event p act r" and ?h = "gv_history gv"
  from git_policy_decide_correct[OF assms, of ?h ?e] obtain rules where
    d: "implements_policy u intern git_rules rules"
      "settles (\<lambda>n. git_policy_decide u (run u n) intern (gv_policy gv) ?h ?e) (Some (git_table ?h ?e, rules))"
    by blast
  let ?gv = "gv\<lparr>gv_policy := rules, gv_history := snd (table_answer ?h (p, a, r))\<rparr>"
  have "settles (\<lambda>n. git_validator_check u (run u n) intern gv p a r)
      (Some (fst (table_answer ?h (p, a, r)), ?gv))"
    by (rule settles_comp2[OF d(2) d(2)], cases "git_table ?h ?e")
      (simp_all add: git_validator_check_def table_answer_def Inr Let_def)
  with d(1) show ?thesis by (intro exI[of _ ?gv]) simp
qed

lemma git_validator_session_correct:
  assumes "hash_consed u" "inj intern"
  shows "implements_policy u intern git_rules (gv_policy gv) \<Longrightarrow>
    \<exists>gv'. gv_history gv' = snd (table_session (gv_history gv) calls) \<and>
      settles (\<lambda>n. git_validator_session u (run u n) intern gv calls)
        (Some (fst (table_session (gv_history gv) calls), gv'))"
proof (induction calls arbitrary: gv)
  case Nil
  show ?case by (intro exI[of _ gv]) (simp add: settles_const)
next
  case (Cons c calls)
  obtain p a r where c: "c = (p, a, r)" by (cases c)
  from git_validator_check_correct[OF assms Cons.prems, of p a r] obtain gv' where
    one: "implements_policy u intern git_rules (gv_policy gv')"
      "gv_history gv' = snd (table_answer (gv_history gv) c)"
      "settles (\<lambda>n. git_validator_check u (run u n) intern gv p a r)
        (Some (fst (table_answer (gv_history gv) c), gv'))" unfolding c by blast
  from Cons.IH[OF one(1)] obtain gv'' where
    rest: "gv_history gv'' = snd (table_session (gv_history gv') calls)"
      "settles (\<lambda>n. git_validator_session u (run u n) intern gv' calls)
        (Some (fst (table_session (gv_history gv') calls), gv''))" by blast
  have "settles (\<lambda>n. git_validator_session u (run u n) intern gv (c # calls))
      (Some (fst (table_session (gv_history gv) (c # calls)), gv''))"
    by (rule settles_comp2[OF one(3) rest(2)]) (simp add: c one(2)[unfolded c] case_prod_beta)
  moreover have "gv_history gv'' = snd (table_session (gv_history gv) (c # calls))"
    using rest(1) one(2) by (simp add: case_prod_beta)
  ultimately show ?case by blast
qed

text \<open>A session started empty answers as the table does, and never panics.\<close>

lemma git_validator_runs:
  assumes "hash_consed u" "inj intern"
  shows "\<exists>gv gv'. gv_history gv' = snd (table_session [] calls) \<and>
    settles (\<lambda>n. git_validator_new u (run u n) intern) (Some (Some gv)) \<and>
    settles (\<lambda>n. git_validator_session u (run u n) intern gv calls) (Some (fst (table_session [] calls), gv'))"
proof -
  from git_policy_new_correct[OF assms] obtain rules where
    new: "settles (\<lambda>n. git_policy_new u (run u n) intern) (Some (Some rules))"
      "implements_policy u intern git_rules rules" by blast
  let ?gv = "\<lparr>gv_policy = rules, gv_history = []\<rparr> :: 'a git_validator"
  have "settles (\<lambda>n. git_validator_new u (run u n) intern) (Some (Some ?gv))"
    by (rule settles_comp2[OF new(1) new(1)]) (simp add: git_validator_new_def)
  moreover from git_validator_session_correct[OF assms, of ?gv calls] new(2) obtain gv' where
    "gv_history gv' = snd (table_session [] calls)"
    "settles (\<lambda>n. git_validator_session u (run u n) intern ?gv calls) (Some (fst (table_session [] calls), gv'))"
    by auto
  ultimately show ?thesis by blast
qed

text \<open>Its history is legal at every moment.\<close>

lemma table_answer_legal: "legal h \<Longrightarrow> legal (snd (table_answer h c))"
  by (auto simp: table_answer_def Let_def git_verdict_table split: prod.split sum.split policy_decision.split intro: legal_snoc)

lemma table_session_legal: "legal h \<Longrightarrow> legal (snd (table_session h calls))"
  by (induction calls arbitrary: h) (simp_all add: case_prod_beta table_answer_legal)

lemma table_answer_extends: "\<exists>new. snd (table_answer h c) = h @ new"
  by (auto simp: table_answer_def Let_def split: prod.split sum.split policy_decision.split)

end
