(* ===== verification/Files.thy ===== *)
theory Files
  imports GitValidator "HOL-Library.Word" "HOL-Library.AList" "HOL-Library.Sublist" "HOL-Library.List_Lexorder" "HOL-Library.Char_ord"
begin

text \<open>
  The trees the multiplexer works on and the part of \<^verbatim>\<open>std::fs\<close> it calls on them: a directory is its
  list of named entries, in the order the operating system lists them. A path is the list of its
  components below the root of its tree. Calls return the error or the tree they leave; a call
  that fails leaves the tree as it was. A path that continues below a symbolic link is outside the
  model and is the error \<open>BeyondLink\<close>, which the operating system would resolve instead; permission
  checks and exhausted storage are outside it too.
\<close>

type_synonym bytes = "8 word list"
type_synonym path = "string list"

text \<open>The inode number and the modification and change times of a regular file.\<close>

type_synonym file_id = "64 word \<times> (64 word \<times> 64 word) \<times> (64 word \<times> 64 word)"

datatype node =
    Dir "(string \<times> node) list"
  | Regular bytes "32 word" file_id
  | Link string
  | Special "32 word"

datatype io_error = NotFound | NotADirectory | IsADirectory | DirectoryNotEmpty | AlreadyExists
  | InvalidInput | Busy | BeyondLink

section \<open>Paths\<close>

text \<open>
  The components of a slash-joined relative path, as \<^verbatim>\<open>Path::join\<close> reads it: empty components and
  single dots are dropped.
\<close>

fun split_on :: "'a \<Rightarrow> 'a list \<Rightarrow> 'a list list" where
  "split_on d [] = [[]]"
| "split_on d (c # cs) =
     (if c = d then [] # split_on d cs
      else case split_on d cs of [] \<Rightarrow> [[c]] | w # ws \<Rightarrow> (c # w) # ws)"

definition components :: "string \<Rightarrow> path" where
  "components s = filter (\<lambda>c. c \<noteq> [] \<and> c \<noteq> ''.'') (split_on (CHR ''/'') s)"

definition good_name :: "string \<Rightarrow> bool" where
  "good_name x \<longleftrightarrow> x \<noteq> [] \<and> x \<noteq> ''.'' \<and> CHR ''/'' \<notin> set x"

lemma split_on_not_Nil [simp]: "split_on d cs \<noteq> []"
  by (cases cs) (auto split: list.split)

lemma split_on_single: "d \<notin> set x \<Longrightarrow> split_on d x = [x]"
  by (induction x) auto

lemma split_on_append: "d \<notin> set x \<Longrightarrow> split_on d (x @ d # rest) = x # split_on d rest"
  by (induction x) auto

lemma split_on_join: "xs \<noteq> [] \<Longrightarrow> \<forall>x \<in> set xs. CHR ''/'' \<notin> set x \<Longrightarrow> split_on (CHR ''/'') (join ''/'' xs) = xs"
proof (induction xs)
  case (Cons x xs)
  then show ?case by (cases xs) (simp_all add: split_on_single split_on_append)
qed simp

lemma components_join [simp]: "\<forall>x \<in> set xs. good_name x \<Longrightarrow> components (join ''/'' xs) = xs"
proof (cases "xs = []")
  case True
  then show ?thesis by (simp add: components_def)
next
  case False
  assume g: "\<forall>x \<in> set xs. good_name x"
  then have "split_on (CHR ''/'') (join ''/'' xs) = xs"
    using False by (intro split_on_join) (auto simp: good_name_def)
  with g show ?thesis by (simp add: components_def good_name_def)
qed

lemma join_snoc: "xs \<noteq> [] \<Longrightarrow> join sep (xs @ [x]) = join sep xs @ sep @ x"
  by (induction sep xs rule: join.induct) auto

lemma join_eq_Nil: "\<forall>x \<in> set xs. good_name x \<Longrightarrow> join ''/'' xs = [] \<longleftrightarrow> xs = []"
  by (induction "''/''" xs rule: join.induct) (auto simp: good_name_def)

section \<open>Reading a tree\<close>

text \<open>\<open>symlink_metadata\<close>: the node a path names, without following a final link.\<close>

fun look :: "node \<Rightarrow> path \<Rightarrow> io_error + node" where
  "look n [] = Inr n"
| "look (Dir es) (x # xs) = (case map_of es x of None \<Rightarrow> Inl NotFound | Some c \<Rightarrow> look c xs)"
| "look (Link t) (x # xs) = Inl BeyondLink"
| "look (Regular c m i) (x # xs) = Inl NotADirectory"
| "look (Special m) (x # xs) = Inl NotADirectory"

fun is_dir :: "node \<Rightarrow> bool" where
  "is_dir (Dir es) = True"
| "is_dir _ = False"

section \<open>Changing a tree\<close>

text \<open>
  Every call that changes one entry of a directory: \<open>f\<close> is given the entry, if there is one, and
  returns the entry to leave, if any.
\<close>

fun alter :: "(node option \<Rightarrow> io_error + node option) \<Rightarrow> node \<Rightarrow> path \<Rightarrow> io_error + node" where
  "alter f t [] = Inl Busy"
| "alter f (Dir es) [x] = (case f (map_of es x) of
     Inl e \<Rightarrow> Inl e
   | Inr None \<Rightarrow> Inr (Dir (AList.delete x es))
   | Inr (Some n) \<Rightarrow> Inr (Dir (AList.update x n es)))"
| "alter f (Dir es) (x # y # ys) = (case map_of es x of
     None \<Rightarrow> Inl NotFound
   | Some c \<Rightarrow> (case alter f c (y # ys) of
       Inl e \<Rightarrow> Inl e
     | Inr c' \<Rightarrow> Inr (Dir (AList.update x c' es))))"
| "alter f (Link t) (x # xs) = Inl BeyondLink"
| "alter f (Regular c m i) (x # xs) = Inl NotADirectory"
| "alter f (Special m) (x # xs) = Inl NotADirectory"

fun new_dirs :: "path \<Rightarrow> node" where
  "new_dirs [] = Dir []"
| "new_dirs (x # xs) = Dir [(x, new_dirs xs)]"

fun create_dir_all :: "node \<Rightarrow> path \<Rightarrow> io_error + node" where
  "create_dir_all (Dir es) [] = Inr (Dir es)"
| "create_dir_all (Dir es) (x # xs) = (case map_of es x of
     None \<Rightarrow> Inr (Dir (AList.update x (new_dirs xs) es))
   | Some c \<Rightarrow> (case create_dir_all c xs of
       Inl e \<Rightarrow> Inl e
     | Inr c' \<Rightarrow> Inr (Dir (AList.update x c' es))))"
| "create_dir_all (Link t) xs = Inl BeyondLink"
| "create_dir_all (Regular c m i) xs = Inl (if xs = [] then AlreadyExists else NotADirectory)"
| "create_dir_all (Special m) xs = Inl (if xs = [] then AlreadyExists else NotADirectory)"

definition remove_file :: "node \<Rightarrow> path \<Rightarrow> io_error + node" where
  "remove_file = alter (\<lambda>old. case old of
     None \<Rightarrow> Inl NotFound | Some (Dir es) \<Rightarrow> Inl IsADirectory | Some n \<Rightarrow> Inr None)"

definition remove_dir :: "node \<Rightarrow> path \<Rightarrow> io_error + node" where
  "remove_dir = alter (\<lambda>old. case old of
     None \<Rightarrow> Inl NotFound
   | Some (Dir es) \<Rightarrow> if es = [] then Inr None else Inl DirectoryNotEmpty
   | Some n \<Rightarrow> Inl NotADirectory)"

definition remove_dir_all :: "node \<Rightarrow> path \<Rightarrow> io_error + node" where
  "remove_dir_all = alter (\<lambda>old. case old of
     None \<Rightarrow> Inl NotFound | Some (Regular c m i) \<Rightarrow> Inl NotADirectory
   | Some (Special m) \<Rightarrow> Inl NotADirectory | Some n \<Rightarrow> Inr None)"

definition symlink :: "string \<Rightarrow> node \<Rightarrow> path \<Rightarrow> io_error + node" where
  "symlink target = alter (\<lambda>old. case old of
     None \<Rightarrow> Inr (Some (Link target)) | Some n \<Rightarrow> Inl AlreadyExists)"

unbundle bit_operations_syntax

text \<open>Permission bits of an entry: \<open>mode() & 0o7777\<close>.\<close>

definition permissions :: "32 word \<Rightarrow> 32 word" where
  "permissions m = m AND 0xFFF"

text \<open>
  \<open>std::fs::copy\<close> onto a path: only a regular file can be copied, an existing regular file keeps
  its inode, and the permission bits go along. \<open>fresh\<close> is the identity of an inode created.
\<close>

definition copy_file :: "file_id \<Rightarrow> node \<Rightarrow> node \<Rightarrow> path \<Rightarrow> io_error + node" where
  "copy_file fresh source t p = (case source of
     Regular c m i \<Rightarrow> alter (\<lambda>old. case old of
         None \<Rightarrow> Inr (Some (Regular c (permissions m) fresh))
       | Some (Regular c' m' i') \<Rightarrow> Inr (Some (Regular c (permissions m) i'))
       | Some (Dir es) \<Rightarrow> Inl IsADirectory
       | Some (Link target) \<Rightarrow> Inl BeyondLink
       | Some (Special m') \<Rightarrow> Inl InvalidInput) t p
   | _ \<Rightarrow> Inl InvalidInput)"

text \<open>\<open>rename(2)\<close> of a non-directory onto a path of the same directory.\<close>

definition rename :: "node \<Rightarrow> path \<Rightarrow> path \<Rightarrow> io_error + node" where
  "rename t from onto = (case look t from of
     Inl e \<Rightarrow> Inl e
   | Inr n \<Rightarrow> (case alter (\<lambda>old. case old of
         Some (Dir es) \<Rightarrow> Inl IsADirectory | _ \<Rightarrow> Inr (Some n)) t onto of
       Inl e \<Rightarrow> Inl e
     | Inr t' \<Rightarrow> alter (\<lambda>_. Inr None) t' from))"


section \<open>What is at a path\<close>

text \<open>
  The content of a non-directory entry that the multiplexer compares: the bytes and permission
  bits of a file, the target of a link, the permission bits of anything else.
\<close>

datatype leaf = FileLeaf bytes "32 word" | LinkLeaf string | SpecialLeaf "32 word"

fun leaf_of :: "node \<Rightarrow> leaf option" where
  "leaf_of (Dir es) = None"
| "leaf_of (Regular c m i) = Some (FileLeaf c (permissions m))"
| "leaf_of (Link t) = Some (LinkLeaf t)"
| "leaf_of (Special m) = Some (SpecialLeaf (permissions m))"

text \<open>Nothing, a directory (\<open>Some None\<close>) or a leaf.\<close>

fun seen :: "node \<Rightarrow> path \<Rightarrow> leaf option option" where
  "seen n [] = Some (leaf_of n)"
| "seen (Dir es) (x # xs) = (case map_of es x of None \<Rightarrow> None | Some c \<Rightarrow> seen c xs)"
| "seen _ (x # xs) = None"

definition leaf_at :: "node \<Rightarrow> path \<Rightarrow> leaf option" where
  "leaf_at t p = (case seen t p of Some l \<Rightarrow> l | None \<Rightarrow> None)"

definition entry :: "node \<Rightarrow> path \<Rightarrow> node option" where
  "entry t p = (case look t p of Inr n \<Rightarrow> Some n | Inl e \<Rightarrow> None)"

lemma leaf_of_None: "leaf_of n = None \<longleftrightarrow> (\<exists>es. n = Dir es)"
  by (cases n) simp_all

lemma permissions_idem [simp]: "permissions (permissions m) = permissions m"
  by (simp add: permissions_def and.assoc)

lemma seen_entry: "seen t p = map_option leaf_of (entry t p)"
  by (induction t p rule: look.induct) (auto simp: entry_def split: option.split sum.split)

lemma look_append: "look t (p @ q) = (case look t p of Inl e \<Rightarrow> Inl e | Inr n \<Rightarrow> look n q)"
  by (induction t p rule: look.induct) (auto split: option.split)

lemma look_seen_error: "look t p = Inl e \<Longrightarrow> seen t p = None"
  by (simp add: seen_entry entry_def)

lemma look_seen: "look t p = Inr n \<Longrightarrow> seen t p = Some (leaf_of n)"
  by (simp add: seen_entry entry_def)

lemma leaf_at_look: "look t p = Inr n \<Longrightarrow> leaf_at t p = leaf_of n"
  by (simp add: leaf_at_def look_seen)

lemma leaf_at_Some: "leaf_at t p = Some l \<longleftrightarrow> seen t p = Some (Some l)"
  by (simp add: leaf_at_def split: option.split)

lemma leaf_at_Nil [simp]: "leaf_at (Dir es) [] = None"
  by (simp add: leaf_at_def)

lemma seen_dir: "seen t p = Some None \<longleftrightarrow> (\<exists>es. look t p = Inr (Dir es))"
  by (auto simp: seen_entry entry_def leaf_of_None split: sum.splits)

text \<open>Below a leaf there is nothing, and above anything there are directories.\<close>

lemma seen_above: "seen t (p @ x # q) \<noteq> None \<Longrightarrow> seen t p = Some None"
  by (induction t p rule: look.induct) (auto split: option.splits elim: seen.elims)

lemma seen_prefix: "seen t q \<noteq> None \<Longrightarrow> strict_prefix p q \<Longrightarrow> seen t p = Some None"
  by (erule strict_prefixE', hypsubst) (rule seen_above)

lemma leaves_prefix_free: "leaf_at t p \<noteq> None \<Longrightarrow> leaf_at t q \<noteq> None \<Longrightarrow> \<not> strict_prefix p q"
  using seen_prefix[of t q p] by (auto simp: leaf_at_Some)

text \<open>A lookup fails because the entry is absent, unless a leaf is in the way.\<close>

lemma look_missing:
  "look t p = Inl e \<Longrightarrow> (\<And>q. strict_prefix q p \<Longrightarrow> leaf_at t q = None) \<Longrightarrow> e = NotFound"
proof (induction t p rule: look.induct)
  case (2 es x xs)
  show ?case
  proof (cases "map_of es x")
    case (Some c)
    have "leaf_at c q = None" if "strict_prefix q xs" for q
      using 2(3)[of "x # q"] that Some by (simp add: leaf_at_def)
    with 2 Some show ?thesis by simp
  qed (use 2 in simp)
next
  case (3 t x xs)
  from 3(2)[of "[]"] show ?case by (simp add: leaf_at_def)
next
  case (4 c m i x xs)
  from 4(2)[of "[]"] show ?case by (simp add: leaf_at_def)
next
  case (5 m x xs)
  from 5(2)[of "[]"] show ?case by (simp add: leaf_at_def)
qed simp

lemma look_blocked: "strict_prefix q p \<Longrightarrow> leaf_at t q \<noteq> None \<Longrightarrow> \<exists>e. look t p = Inl e \<and> e \<noteq> NotFound"
proof (induction t q arbitrary: p rule: seen.induct)
  case (1 n)
  then show ?case by (cases n; cases p) (auto simp: leaf_at_def)
next
  case (2 es x xs)
  then show ?case by (cases p) (auto simp: leaf_at_def split: option.splits)
qed (simp_all add: leaf_at_def)

section \<open>What a change leaves\<close>

lemma entry_Nil [simp]: "entry t [] = Some t"
  by (simp add: entry_def)

lemma entry_Cons [simp]: "entry (Dir es) (x # xs) = Option.bind (map_of es x) (\<lambda>c. entry c xs)"
  by (simp add: entry_def split: option.split)

lemma alter_seen:
  "alter f t p = Inr t' \<Longrightarrow>
   \<exists>r. f (entry t p) = Inr r \<and>
     (\<forall>q. seen t' q = (if prefix p q then Option.bind r (\<lambda>n. seen n (drop (length p) q)) else seen t q))"
proof (induction f t p arbitrary: t' rule: alter.induct)
  case (2 f es x)
  then obtain r where r: "f (map_of es x) = Inr r"
    "t' = Dir (case r of None \<Rightarrow> AList.delete x es | Some n \<Rightarrow> AList.update x n es)"
    by (auto split: sum.splits option.splits)
  have "seen t' q = (if prefix [x] q then Option.bind r (\<lambda>n. seen n (drop 1 q)) else seen (Dir es) q)" for q
    by (cases q; cases r) (auto simp: r(2) AList.update_conv' AList.delete_conv')
  with r(1) show ?case by (intro exI[of _ r]) simp
next
  case (3 f es x y ys)
  then obtain c c' where c: "map_of es x = Some c" "alter f c (y # ys) = Inr c'"
    "t' = Dir (AList.update x c' es)" by (auto split: sum.splits option.splits)
  from 3(1)[OF c(1,2)] obtain r where r: "f (entry c (y # ys)) = Inr r"
    "\<And>q. seen c' q = (if prefix (y # ys) q then Option.bind r (\<lambda>n. seen n (drop (length (y # ys)) q)) else seen c q)"
    by blast
  have "seen t' q = (if prefix (x # y # ys) q then Option.bind r (\<lambda>n. seen n (drop (length (x # y # ys)) q)) else seen (Dir es) q)" for q
    by (cases q) (auto simp: c r(2) AList.update_conv')
  with r(1) c(1) show ?case by (intro exI[of _ r]) simp
qed simp_all

lemma alter_parent:
  "p \<noteq> [] \<Longrightarrow> seen t (butlast p) = Some None \<Longrightarrow>
   (case alter f t p of Inl e \<Rightarrow> f (entry t p) = Inl e | Inr t' \<Rightarrow> \<exists>r. f (entry t p) = Inr r)"
proof (induction f t p rule: alter.induct)
  case (3 f es x y ys)
  then show ?case by (auto split: option.splits sum.splits)
qed (auto split: option.splits sum.splits if_splits)

lemma alter_succeeds:
  "p \<noteq> [] \<Longrightarrow> seen t (butlast p) = Some None \<Longrightarrow> f (entry t p) = Inr r \<Longrightarrow> \<exists>t'. alter f t p = Inr t'"
  using alter_parent[of p t f] by (auto split: sum.splits)


lemma seen_new_dirs: "seen (new_dirs p) q = (if prefix q p then Some None else None)"
  by (induction p arbitrary: q; case_tac q) auto

lemma create_dir_all_seen:
  "create_dir_all t p = Inr t' \<Longrightarrow> seen t' q = (if prefix q p then Some None else seen t q)"
proof (induction t p arbitrary: t' q rule: create_dir_all.induct)
  case (2 es x xs)
  show ?case
  proof (cases "map_of es x")
    case None
    with 2(2) show ?thesis
      by (cases q) (auto simp: AList.update_conv' seen_new_dirs)
  next
    case (Some c)
    with 2(2) obtain c' where "create_dir_all c xs = Inr c'" "t' = Dir (AList.update x c' es)"
      by (auto split: sum.splits)
    with 2(1)[OF Some this(1)] Some show ?thesis by (cases q) (auto simp: AList.update_conv')
  qed
qed (auto simp: prefix_Nil)

lemma create_dir_all_succeeds:
  "(\<And>q. prefix q p \<Longrightarrow> leaf_at t q = None) \<Longrightarrow> \<exists>t'. create_dir_all t p = Inr t'"
proof (induction t p rule: create_dir_all.induct)
  case (2 es x xs)
  show ?case
  proof (cases "map_of es x")
    case (Some c)
    have "leaf_at c q = None" if "prefix q xs" for q
      using 2(2)[of "x # q"] that Some by (simp add: leaf_at_def)
    with 2(1)[OF Some] Some show ?thesis by auto
  qed simp
next
  case (3 t xs)
  from 3[of "[]"] show ?case by (simp add: leaf_at_def)
next
  case (4 c m i xs)
  from 4[of "[]"] show ?case by (simp add: leaf_at_def)
next
  case (5 m xs)
  from 5[of "[]"] show ?case by (simp add: leaf_at_def)
qed simp

lemma create_dir_all_fails: "prefix q p \<Longrightarrow> leaf_at t q \<noteq> None \<Longrightarrow> \<exists>e. create_dir_all t p = Inl e"
proof (induction t q arbitrary: p rule: seen.induct)
  case (1 n)
  then show ?case by (cases n; cases p) (auto simp: leaf_at_def)
next
  case (2 es x xs)
  then show ?case by (cases p) (fastforce simp: leaf_at_def split: option.splits)+
qed (simp_all add: leaf_at_def)

text \<open>Two paths of the same directory.\<close>

lemma siblings_apart:
  assumes "a \<noteq> []" "b \<noteq> []" "butlast a = butlast b" "a \<noteq> b"
  shows "\<not> prefix a b" "\<not> prefix b a"
proof -
  from assms obtain p x y where "a = p @ [x]" "b = p @ [y]" "x \<noteq> y"
    by (metis append_butlast_last_id)
  then show "\<not> prefix a b" "\<not> prefix b a" by (simp_all add: prefix_def)
qed

lemma remove_file_seen:
  "remove_file t p = Inr t' \<Longrightarrow> seen t' q = (if prefix p q then None else seen t q)"
  using alter_seen[of _ t p t'] unfolding remove_file_def
  by (fastforce split: option.splits node.splits)

lemma remove_dir_seen:
  "remove_dir t p = Inr t' \<Longrightarrow> seen t' q = (if prefix p q then None else seen t q)"
  using alter_seen[of _ t p t'] unfolding remove_dir_def
  by (fastforce split: option.splits node.splits if_splits)

lemma remove_dir_all_seen:
  "remove_dir_all t p = Inr t' \<Longrightarrow> seen t' q = (if prefix p q then None else seen t q)"
  using alter_seen[of _ t p t'] unfolding remove_dir_all_def
  by (fastforce split: option.splits node.splits)

lemma seen_leaf_below: "leaf_of n \<noteq> None \<Longrightarrow> seen n q = (if q = [] then Some (leaf_of n) else None)"
  by (cases n; cases q) simp_all

lemma rename_seen:
  assumes siblings: "a \<noteq> []" "b \<noteq> []" "butlast a = butlast b" "a \<noteq> b"
    and l: "seen t a = Some (Some l)" "seen t b \<noteq> Some None"
  shows "\<exists>t'. rename t a b = Inr t' \<and>
    (\<forall>q. seen t' q = (if q = b then Some (Some l) else if prefix b q \<or> prefix a q then None else seen t q))"
proof -
  have apart: "\<not> prefix a b" "\<not> prefix b a" using siblings_apart[OF siblings] by blast+
  have short: "\<not> prefix b (butlast b)" using prefix_length_le[of b "butlast b"] siblings(2) by (cases b) auto
  from l(1) obtain n where n: "look t a = Inr n" "leaf_of n = Some l"
    by (auto simp: seen_entry entry_def split: sum.splits)
  have "seen t (butlast a) = Some None"
    using seen_above[of t "butlast a" "last a" "[]"] siblings(1) l(1) by simp
  then have above: "seen t (butlast b) = Some None" by (simp add: siblings(3))
  let ?f = "\<lambda>old. case old of Some (Dir es) \<Rightarrow> Inl IsADirectory | _ \<Rightarrow> Inr (Some n)"
  from l(2) have put: "?f (entry t b) = Inr (Some n)"
    by (auto simp: seen_entry split: option.splits node.splits)
  with alter_succeeds[OF siblings(2) above] obtain t1 where t1: "alter ?f t b = Inr t1" by blast
  have s1: "seen t1 q = (if q = b then Some (Some l) else if prefix b q then None else seen t q)" for q
    using alter_seen[OF t1] put n(2) by (auto simp: seen_leaf_below prefix_def)
  have "seen t1 (butlast a) = Some None"
    using above short siblings(3) by (auto simp: s1)
  from alter_succeeds[OF siblings(1) this, of "\<lambda>_. Inr None"] obtain t2 where
    t2: "alter (\<lambda>_. Inr None) t1 a = Inr t2" by blast
  have "seen t2 q = (if prefix a q then None else seen t1 q)" for q
    using alter_seen[OF t2] by auto
  with t1 t2 n(1) show ?thesis
    using apart by (intro exI[of _ t2]) (auto simp: rename_def s1)
qed


lemma strict_prefix_butlast: "p \<noteq> [] \<Longrightarrow> strict_prefix q p \<longleftrightarrow> prefix q (butlast p)"
  by (cases p rule: rev_cases) (auto simp: strict_prefix_def)

lemma not_prefix_butlast: "p \<noteq> [] \<Longrightarrow> \<not> prefix p (butlast p)"
  by (simp flip: strict_prefix_butlast)

lemma seen_below: "seen t p = None \<Longrightarrow> prefix p q \<Longrightarrow> seen t q = None"
  using seen_prefix[of t q p] by (cases "q = p"; cases "seen t q") (auto simp: strict_prefix_def)

lemma alter_absent:
  assumes "p \<noteq> []" "seen t (butlast p) = Some None" "seen t p = None" "f None = Inl e"
  shows "alter f t p = Inl e"
  using alter_parent[OF assms(1,2), of f] assms(3,4) by (simp add: seen_entry split: sum.splits)

text \<open>A call that creates a leaf where nothing was.\<close>

lemma alter_creates:
  assumes p: "p \<noteq> []" "seen t (butlast p) = Some None" "seen t p = None"
    and n: "f None = Inr (Some n)" "leaf_of n = Some l"
  shows "\<exists>t'. alter f t p = Inr t' \<and> (\<forall>q. seen t' q = (if q = p then Some (Some l) else seen t q))"
proof -
  from p(3) have e: "entry t p = None" by (simp add: seen_entry)
  with alter_succeeds[OF p(1,2)] n(1) obtain t' where t': "alter f t p = Inr t'" by metis
  note below = seen_below[OF p(3)]
  have "seen t' q = (if q = p then Some (Some l) else seen t q)" for q
    using alter_seen[OF t'] e n below by (auto simp: seen_leaf_below prefix_def)
  with t' show ?thesis by blast
qed

end
