(* ===== verification/Wal.thy ===== *)
theory Wal
  imports Files
begin

text \<open>
  The durable-log primitives of \<^verbatim>\<open>shellmux/src/wal.rs\<close> and the errors of \<^verbatim>\<open>shellmux/src/error.rs\<close>: the
  append-only JSON Lines log over the bytes of its file, and the moves that put an entry into the
  seed or take one out of it. The JSON encoding of a record is a parameter, \<open>ser\<close> and \<open>de\<close>. A message
  that the code formats is kept as the values it is formatted from.
\<close>

section \<open>Errors\<close>

datatype wal_fault =
    SerializeRecord
  | CorruptRecord bytes
  | TargetNoParent path
  | MissingSource path io_error
  | WrongOperationCount nat nat nat
  | UnfinishedLegacy nat
  | SourceGone path path

datatype mux_error =
    NoSubvolume string
  | SeedIsMountRoot string
  | SeedDir string string
  | SessionBusy string
  | SandboxDir string string
  | JobExists string
  | NoSuchJob string
  | JobBusy string
  | JobClosing string
  | InvalidTerminalSize nat nat
  | JobTermination string mux_error
  | NotBtrfs string
  | NotUserSubvolRmAllowed string
  | StateNotDirectory string
  | SnapshotFailed string
  | Exec string
  | TraceParse string
  | WalFailure wal_fault
  | Io io_error
  | Brush string

section \<open>The JSON Lines log\<close>

definition newline :: "8 word" where
  "newline = 10"

text \<open>\<open>JsonLog::open\<close>: the file, created empty when absent.\<close>

definition log_open :: "bytes option \<Rightarrow> bytes" where
  "log_open file = (case file of None \<Rightarrow> [] | Some bytes \<Rightarrow> bytes)"

fun log_lines :: "('r \<Rightarrow> bytes option) \<Rightarrow> 'r list \<Rightarrow> mux_error + bytes" where
  "log_lines ser [] = Inr []"
| "log_lines ser (r # rs) = (case ser r of
     None \<Rightarrow> Inl (WalFailure SerializeRecord)
   | Some line \<Rightarrow> and_then (log_lines ser rs) (\<lambda>rest. Inr (line @ newline # rest)))"

definition log_append :: "('r \<Rightarrow> bytes option) \<Rightarrow> 'r list \<Rightarrow> bytes \<Rightarrow> (mux_error + unit) \<times> bytes" where
  "log_append ser records file =
     (if records = [] then (Inr (), file)
      else case log_lines ser records of
        Inl e \<Rightarrow> (Inl e, file)
      | Inr bytes \<Rightarrow> (Inr (), file @ bytes))"

text \<open>\<open>split_inclusive\<close> on the newline byte.\<close>

fun split_inclusive :: "bytes \<Rightarrow> bytes list" where
  "split_inclusive [] = []"
| "split_inclusive (b # bs) =
     (if b = newline then [b] # split_inclusive bs
      else case split_inclusive bs of [] \<Rightarrow> [[b]] | line # ls \<Rightarrow> (b # line) # ls)"

text \<open>
  The loop of \<open>JsonLog::read\<close>: the records so far, and the durable length the file is truncated to
  when the last line is torn.
\<close>

fun read_lines :: "(bytes \<Rightarrow> 'r option) \<Rightarrow> bytes list \<Rightarrow> 'r list \<Rightarrow> nat \<Rightarrow> (mux_error + 'r list) \<times> nat option" where
  "read_lines de [] records durable_len = (Inr records, None)"
| "read_lines de (line # ls) records durable_len =
     (if line = [] \<or> last line \<noteq> newline then (Inr records, Some durable_len)
      else let record = butlast line in
        if record = [] then read_lines de ls records (durable_len + length line)
        else case de record of
          None \<Rightarrow> (Inl (WalFailure (CorruptRecord record)), None)
        | Some parsed \<Rightarrow> read_lines de ls (records @ [parsed]) (durable_len + length line))"

definition log_read :: "(bytes \<Rightarrow> 'r option) \<Rightarrow> bytes option \<Rightarrow> (mux_error + 'r list) \<times> bytes option" where
  "log_read de file = (case file of
     None \<Rightarrow> (Inr [], None)
   | Some bytes \<Rightarrow> (case read_lines de (split_inclusive bytes) [] 0 of
       (result, None) \<Rightarrow> (result, Some bytes)
     | (result, Some durable_len) \<Rightarrow> (result, Some (take durable_len bytes))))"

section \<open>Moving entries\<close>

definition TEMPORARY_SUFFIX :: string where
  "TEMPORARY_SUFFIX = ''.tmp-wal''"

definition temporary :: "path \<Rightarrow> path" where
  "temporary target = butlast target @ [last target @ TEMPORARY_SUFFIX]"

text \<open>A call whose error stops the function, and one whose error is ignored.\<close>

definition try_io :: "io_error + node \<Rightarrow> node \<Rightarrow> (node \<Rightarrow> (mux_error + unit) \<times> node) \<Rightarrow> (mux_error + unit) \<times> node" where
  "try_io r t k = (case r of Inl e \<Rightarrow> (Inl (Io e), t) | Inr t' \<Rightarrow> k t')"

definition ignore_io :: "io_error + node \<Rightarrow> node \<Rightarrow> node" where
  "ignore_io r t = (case r of Inl e \<Rightarrow> t | Inr t' \<Rightarrow> t')"

definition apply_write :: "file_id \<Rightarrow> node \<Rightarrow> path \<Rightarrow> node \<Rightarrow> path \<Rightarrow> (mux_error + unit) \<times> node" where
  "apply_write fresh work source seed target =
     (if target = [] then (Inl (WalFailure (TargetNoParent target)), seed)
      else try_io (create_dir_all seed (butlast target)) seed (\<lambda>t1.
        case look work source of
          Inl e \<Rightarrow> (Inl (WalFailure (MissingSource source e)), t1)
        | Inr n \<Rightarrow>
            let t2 = ignore_io (remove_file t1 (temporary target)) t1 in
            try_io (case n of
                Link to \<Rightarrow> symlink to t2 (temporary target)
              | _ \<Rightarrow> copy_file fresh n t2 (temporary target)) t2 (\<lambda>t3.
            try_io (case look t3 target of
                Inr (Dir es) \<Rightarrow> remove_dir_all t3 target
              | _ \<Rightarrow> Inr t3) t3 (\<lambda>t4.
            try_io (rename t4 (temporary target) target) t4 (\<lambda>t5. (Inr (), t5))))))"

text \<open>The directories left empty above a removed path, up to the root.\<close>

function prune_from :: "node \<Rightarrow> path \<Rightarrow> node" where
  "prune_from t directory =
     (if directory = [] then t
      else case look t directory of
        Inr (Dir []) \<Rightarrow> (case remove_dir t directory of
            Inl e \<Rightarrow> t
          | Inr t' \<Rightarrow> prune_from t' (butlast directory))
      | _ \<Rightarrow> t)"
  by auto
termination by (relation "measure (\<lambda>(t, d). length d)") auto

declare prune_from.simps [simp del]

definition prune_empty_parents :: "node \<Rightarrow> path \<Rightarrow> node" where
  "prune_empty_parents t target = prune_from t (butlast target)"

definition apply_remove :: "node \<Rightarrow> path \<Rightarrow> (mux_error + unit) \<times> node" where
  "apply_remove seed target =
     (let removal = (case look seed target of
          Inr (Dir es) \<Rightarrow> remove_dir_all seed target
        | Inr n \<Rightarrow> remove_file seed target
        | Inl NotFound \<Rightarrow> Inr seed
        | Inl e \<Rightarrow> Inl e) in
      case removal of
        Inl e \<Rightarrow> if e \<noteq> NotFound then (Inl (Io e), seed) else (Inr (), prune_empty_parents seed target)
      | Inr t \<Rightarrow> (Inr (), prune_empty_parents t target))"


section \<open>What the log promises\<close>

text \<open>
  The contract of the JSON encoding: every record is written as one non-empty line, and reading
  the line gives the record back.
\<close>

definition codec :: "('r \<Rightarrow> bytes option) \<Rightarrow> (bytes \<Rightarrow> 'r option) \<Rightarrow> bool" where
  "codec ser de \<longleftrightarrow> (\<forall>r. \<exists>b. ser r = Some b \<and> b \<noteq> [] \<and> newline \<notin> set b \<and> de b = Some r)"

definition stored :: "('r \<Rightarrow> bytes option) \<Rightarrow> 'r list \<Rightarrow> bytes" where
  "stored ser rs = concat (map (\<lambda>r. (case ser r of None \<Rightarrow> [] | Some b \<Rightarrow> b) @ [newline]) rs)"

lemma stored_simps [simp]:
  "stored ser [] = []"
  "stored ser (r # rs) = (case ser r of None \<Rightarrow> [] | Some b \<Rightarrow> b) @ newline # stored ser rs"
  "stored ser (rs @ ss) = stored ser rs @ stored ser ss"
  by (simp_all add: stored_def)

lemma codecE:
  assumes "codec ser de"
  obtains b where "ser r = Some b" "b \<noteq> []" "newline \<notin> set b" "de b = Some r"
  using assms unfolding codec_def by blast

lemma log_lines_stored: "codec ser de \<Longrightarrow> log_lines ser rs = Inr (stored ser rs)"
proof (induction rs)
  case (Cons r rs)
  from codecE[OF Cons.prems, of r] obtain b where "ser r = Some b" by blast
  with Cons show ?case by simp
qed simp

lemma log_append_stored: "codec ser de \<Longrightarrow> log_append ser rs file = (Inr (), file @ stored ser rs)"
  by (simp add: log_append_def log_lines_stored)

lemma split_inclusive_line:
  "newline \<notin> set b \<Longrightarrow> split_inclusive (b @ newline # rest) = (b @ [newline]) # split_inclusive rest"
  by (induction b) auto

lemma split_inclusive_torn:
  "newline \<notin> set b \<Longrightarrow> split_inclusive b = (if b = [] then [] else [b])"
  by (induction b) auto

lemma read_lines_stored:
  assumes "codec ser de"
  shows "newline \<notin> set torn \<Longrightarrow> read_lines de (split_inclusive (stored ser rs @ torn)) acc n =
    (Inr (acc @ rs), if torn = [] then None else Some (n + length (stored ser rs)))"
proof (induction rs arbitrary: acc n)
  case Nil
  then have "torn = [] \<or> last torn \<noteq> newline" using last_in_set[of torn] by metis
  with Nil show ?case by (auto simp: split_inclusive_torn)
next
  case (Cons r rs)
  from codecE[OF assms, of r] obtain b where b: "ser r = Some b" "b \<noteq> []" "newline \<notin> set b" "de b = Some r" .
  with Cons show ?case by (simp add: split_inclusive_line)
qed

text \<open>
  A log whose complete lines are \<open>rs\<close> reads as \<open>rs\<close>, and a torn tail is truncated away.
\<close>

lemma log_read_stored:
  "codec ser de \<Longrightarrow> newline \<notin> set torn \<Longrightarrow>
   log_read de (Some (stored ser rs @ torn)) = (Inr rs, Some (stored ser rs))"
  by (simp add: log_read_def read_lines_stored)

lemma log_read_absent [simp]: "log_read de None = (Inr [], None)"
  by (simp add: log_read_def)

text \<open>What is on disk when an append is interrupted: some complete lines and one torn line.\<close>

lemma prefix_stored:
  assumes "codec ser de"
  shows "prefix bs (stored ser rs) \<Longrightarrow>
    \<exists>k torn. k \<le> length rs \<and> bs = stored ser (take k rs) @ torn \<and> newline \<notin> set torn \<and>
      (k = length rs \<longrightarrow> torn = [])"
proof (induction rs arbitrary: bs)
  case (Cons r rs)
  from codecE[OF assms, of r] obtain b where b: "ser r = Some b" "newline \<notin> set b" by blast
  show ?case
  proof (cases "prefix bs b")
    case True
    with b(2) have "newline \<notin> set bs" by (auto dest: set_mono_prefix)
    then show ?thesis by (intro exI[of _ 0] exI[of _ bs]) simp
  next
    case False
    with Cons.prems b(1) obtain bs' where bs': "bs = (b @ [newline]) @ bs'" "prefix bs' (stored ser rs)"
      by (auto simp: prefix_append prefix_Cons)
    from Cons.IH[OF bs'(2)] obtain k torn where
      "k \<le> length rs" "bs' = stored ser (take k rs) @ torn" "newline \<notin> set torn" "k = length rs \<longrightarrow> torn = []"
      by blast
    with bs'(1) b(1) show ?thesis by (intro exI[of _ "Suc k"] exI[of _ torn]) simp
  qed
qed simp

lemma log_read_interrupted:
  assumes "codec ser de" "prefix bs (stored ser new)"
  shows "\<exists>k \<le> length new. log_read de (Some (stored ser old @ bs)) =
      (Inr (old @ take k new), Some (stored ser (old @ take k new))) \<and>
    (k = length new \<longrightarrow> bs = stored ser new)"
proof -
  from prefix_stored[OF assms] obtain k torn where
    k: "k \<le> length new" "bs = stored ser (take k new) @ torn" "newline \<notin> set torn" "k = length new \<longrightarrow> torn = []"
    by blast
  have "stored ser old @ bs = stored ser (old @ take k new) @ torn" by (simp add: k(2))
  with log_read_stored[OF assms(1) k(3), of "old @ take k new"] k show ?thesis
    by (intro exI[of _ k]) simp
qed

text \<open>A complete line that does not decode is an error, and the file keeps it.\<close>

lemma read_lines_corrupt:
  assumes "codec ser de" "b \<noteq> []" "newline \<notin> set b" "de b = None"
  shows "read_lines de (split_inclusive (stored ser rs @ b @ newline # rest)) acc n =
    (Inl (WalFailure (CorruptRecord b)), None)"
proof (induction rs arbitrary: acc n)
  case Nil
  then show ?case using assms(2-4) by (simp add: split_inclusive_line)
next
  case (Cons r rs)
  from codecE[OF assms(1), of r] obtain b' where "ser r = Some b'" "b' \<noteq> []" "newline \<notin> set b'" "de b' = Some r" .
  with Cons show ?case by (simp add: split_inclusive_line)
qed

lemma log_read_corrupt:
  "codec ser de \<Longrightarrow> b \<noteq> [] \<Longrightarrow> newline \<notin> set b \<Longrightarrow> de b = None \<Longrightarrow>
   log_read de (Some (stored ser rs @ b @ newline # rest)) =
     (Inl (WalFailure (CorruptRecord b)), Some (stored ser rs @ b @ newline # rest))"
  by (simp add: log_read_def read_lines_corrupt)


section \<open>What the moves do\<close>

lemma look_Inr: "seen t p = Some (Some l) \<Longrightarrow> \<exists>n. look t p = Inr n \<and> leaf_of n = Some l"
  by (auto simp: seen_entry entry_def split: sum.splits)

lemma seen_parent: "p \<noteq> [] \<Longrightarrow> seen t p \<noteq> None \<Longrightarrow> seen t (butlast p) = Some None"
  using seen_above[of t "butlast p" "last p" "[]"] by simp

lemma temporary_sibling:
  "p \<noteq> [] \<Longrightarrow> temporary p \<noteq> []" "p \<noteq> [] \<Longrightarrow> butlast (temporary p) = butlast p"
  "p \<noteq> [] \<Longrightarrow> temporary p \<noteq> p"
proof -
  show "temporary p \<noteq> p" if "p \<noteq> []"
  proof
    assume "temporary p = p"
    then have "last (temporary p) = last p" by simp
    then show False by (simp add: temporary_def TEMPORARY_SUFFIX_def)
  qed
qed (simp_all add: temporary_def)

lemma prune_from_leaf:
  "leaf_at (prune_from t d) q = leaf_at t q \<and> (seen (prune_from t d) q = None \<or> seen (prune_from t d) q = seen t q)"
proof (induction t d rule: prune_from.induct)
  case (1 t d)
  show ?case
  proof (cases "d \<noteq> [] \<and> look t d = Inr (Dir [])")
    case True
    show ?thesis
    proof (cases "remove_dir t d")
      case (Inr t')
      have empty: "leaf_at t (d @ r) = None" for r
        using True by (cases r) (auto simp: leaf_at_def seen_entry entry_def look_append)
      have "leaf_at t' q = leaf_at t q" "seen t' q = None \<or> seen t' q = seen t q"
        using remove_dir_seen[OF Inr, of q] empty by (auto simp: leaf_at_def prefix_def split: if_splits)
      moreover have "leaf_at (prune_from t' (butlast d)) q = leaf_at t' q \<and>
          (seen (prune_from t' (butlast d)) q = None \<or> seen (prune_from t' (butlast d)) q = seen t' q)"
        by (rule 1) (use True Inr in simp_all)
      moreover have "prune_from t d = prune_from t' (butlast d)"
        using True Inr by (simp add: prune_from.simps[of t d])
      ultimately show ?thesis by auto
    qed (use True in \<open>simp add: prune_from.simps[of t d]\<close>)
  next
    case False
    then have "prune_from t d = t"
      by (auto simp: prune_from.simps[of t d] split: sum.split node.split list.split)
    then show ?thesis by simp
  qed
qed

text \<open>
  A removal succeeds unless a leaf is above its path; it takes away what is at and below the path
  and no other leaf, and it creates nothing.
\<close>

lemma apply_remove_succeeds:
  assumes "p \<noteq> []" "\<forall>q. strict_prefix q p \<longrightarrow> leaf_at t q = None"
  shows "\<exists>t'. apply_remove t p = (Inr (), t') \<and>
    (\<forall>q. leaf_at t' q = (if prefix p q then None else leaf_at t q)) \<and>
    (\<forall>q. seen t' q = None \<or> seen t' q = seen t q)"
proof (cases "look t p")
  case (Inl e)
  with assms(2) have e: "look t p = Inl NotFound" using look_missing[OF Inl] by blast
  have none: "leaf_at t q = None" if "prefix p q" for q
    using seen_below[OF look_seen_error[OF Inl] that] by (simp add: leaf_at_def)
  show ?thesis
    using prune_from_leaf[of t "butlast p"] none by (auto simp: apply_remove_def e prune_empty_parents_def)
next
  case (Inr n)
  let ?removal = "if is_dir n then remove_dir_all t p else remove_file t p"
  from Inr assms(1) have parent: "seen t (butlast p) = Some None"
    using seen_parent[of p t] by (simp add: look_seen)
  have en: "entry t p = Some n" using Inr by (simp add: entry_def)
  have "\<exists>t'. ?removal = Inr t'"
    using alter_succeeds[OF assms(1) parent] en
    by (cases n) (auto simp: remove_dir_all_def remove_file_def)
  then obtain t' where t': "?removal = Inr t'" by blast
  have s: "seen t' q = (if prefix p q then None else seen t q)" for q
    using t' remove_dir_all_seen[of t p t'] remove_file_seen[of t p t'] by (auto split: if_splits)
  have "apply_remove t p = (Inr (), prune_empty_parents t' p)"
    using Inr t' by (cases n) (simp_all add: apply_remove_def)
  moreover have "leaf_at (prune_empty_parents t' p) q = (if prefix p q then None else leaf_at t q)" for q
    using prune_from_leaf[of t' "butlast p" q] by (simp add: prune_empty_parents_def leaf_at_def[of t'] leaf_at_def[of t] s)
  moreover have "seen (prune_empty_parents t' p) q = None \<or> seen (prune_empty_parents t' p) q = seen t q" for q
    using prune_from_leaf[of t' "butlast p" q] by (auto simp: prune_empty_parents_def s split: if_splits)
  ultimately show ?thesis by blast
qed

lemma apply_remove_blocked:
  assumes "strict_prefix q p" "leaf_at t q \<noteq> None"
  shows "\<exists>e. e \<noteq> NotFound \<and> apply_remove t p = (Inl (Io e), t)"
  using look_blocked[OF assms] by (auto simp: apply_remove_def split: io_error.split)


text \<open>
  A write puts the source's content at its path, with the directories it needs above and nothing
  below, and changes nothing else: it needs that no leaf is above the path, that its temporary is
  free and that the source is a file or a link.
\<close>

definition movable :: "node \<Rightarrow> bool" where
  "movable n \<longleftrightarrow> (\<exists>c m i. n = Regular c m i) \<or> (\<exists>to. n = Link to)"

lemma write_temporary:
  assumes "movable n" "p \<noteq> []" "seen t (butlast p) = Some None" "seen t p = None"
  shows "\<exists>t'. (case n of Link to \<Rightarrow> symlink to t p | _ \<Rightarrow> copy_file fresh n t p) = Inr t' \<and>
    (\<forall>q. seen t' q = (if q = p then Some (leaf_of n) else seen t q))"
  using assms(1) unfolding movable_def
proof (elim disjE exE)
  fix c m i
  assume n: "n = Regular c m i"
  have "\<exists>t'. copy_file fresh n t p = Inr t' \<and>
      (\<forall>q. seen t' q = (if q = p then Some (Some (FileLeaf c (permissions m))) else seen t q))"
    unfolding n copy_file_def node.case
    by (rule alter_creates[OF assms(2-4), where n = "Regular c (permissions m) fresh"]) simp_all
  then show ?thesis by (simp only: n node.case leaf_of.simps)
next
  fix to
  assume n: "n = Link to"
  have "\<exists>t'. symlink to t p = Inr t' \<and>
      (\<forall>q. seen t' q = (if q = p then Some (Some (LinkLeaf to)) else seen t q))"
    unfolding symlink_def by (rule alter_creates[OF assms(2-4), where n = "Link to"]) simp_all
  then show ?thesis by (simp only: n node.case leaf_of.simps)
qed

lemma clear_directory:
  assumes "p \<noteq> []"
  shows "\<exists>t'. (case look t p of Inr (Dir es) \<Rightarrow> remove_dir_all t p | _ \<Rightarrow> Inr t) = Inr t' \<and>
    seen t' p \<noteq> Some None \<and> (\<forall>q. \<not> prefix p q \<longrightarrow> seen t' q = seen t q)"
proof (cases "seen t p = Some None")
  case True
  then obtain es where es: "look t p = Inr (Dir es)" by (auto simp: seen_dir)
  have "\<exists>t'. remove_dir_all t p = Inr t'"
    unfolding remove_dir_all_def
    using alter_succeeds[OF assms, of t] seen_parent[OF assms, of t] True es
    by (simp add: entry_def)
  then obtain t' where t': "remove_dir_all t p = Inr t'" by blast
  from remove_dir_all_seen[OF this] t' es show ?thesis by auto
next
  case False
  then have "(case look t p of Inr (Dir es) \<Rightarrow> remove_dir_all t p | _ \<Rightarrow> Inr t) = Inr t"
    by (auto simp: seen_dir split: sum.split node.split)
  with False show ?thesis by auto
qed

text \<open>The temporary a crash left behind, or nothing.\<close>

lemma clear_temporary:
  assumes "p \<noteq> []" "seen t (butlast p) = Some None" "seen t p \<noteq> Some None"
  shows "seen (ignore_io (remove_file t p) t) q = (if prefix p q then None else seen t q)"
proof (cases "seen t p")
  case None
  with seen_below[OF None, of q] show ?thesis
    unfolding remove_file_def using alter_absent[OF assms(1,2) None] by (simp add: ignore_io_def)
next
  case (Some l)
  with assms(3) obtain n where "entry t p = Some n" "\<not> is_dir n"
    by (cases "entry t p"; cases "the (entry t p)") (auto simp: seen_entry)
  then obtain t' where "remove_file t p = Inr t'"
    unfolding remove_file_def using alter_succeeds[OF assms(1,2)] by (cases n) fastforce+
  with remove_file_seen[OF this] show ?thesis by (simp add: ignore_io_def)
qed

lemma apply_write_succeeds:
  assumes p: "p \<noteq> []" "\<forall>q. strict_prefix q p \<longrightarrow> leaf_at t q = None"
    and tmp: "seen t (temporary p) \<noteq> Some None"
    and n: "look work source = Inr n" "movable n"
  shows "\<exists>t'. apply_write fresh work source t p = (Inr (), t') \<and>
    (\<forall>q. seen t' q = (if q = p then Some (leaf_of n) else if q = temporary p \<or> strict_prefix p q then None
      else if strict_prefix q p then Some None else seen t q))"
proof -
  let ?tmp = "temporary p"
  note sib = temporary_sibling[OF p(1)]
  have apart: "\<not> prefix p ?tmp" "\<not> prefix ?tmp p"
    using siblings_apart[OF sib(1) p(1) sib(2,3)] by blast+
  have short: "\<not> prefix p (butlast p)" "\<not> prefix ?tmp (butlast p)"
    using not_prefix_butlast[OF p(1)] not_prefix_butlast[OF sib(1)] sib(2) by simp_all
  from create_dir_all_succeeds[of "butlast p" t] p obtain t1 where
    t1: "create_dir_all t (butlast p) = Inr t1" by (auto simp: strict_prefix_butlast)
  have s1: "seen t1 q = (if strict_prefix q p then Some None else seen t q)" for q
    using create_dir_all_seen[OF t1] p(1) by (simp add: strict_prefix_butlast)
  have par1: "seen t1 (butlast ?tmp) = Some None" and tmp1: "seen t1 ?tmp \<noteq> Some None"
    using s1[of ?tmp] tmp apart sib(2) create_dir_all_seen[OF t1, of "butlast p"]
    by (auto simp: strict_prefix_def)
  define t2 where "t2 = ignore_io (remove_file t1 ?tmp) t1"
  have s2: "seen t2 q = (if prefix ?tmp q then None else seen t1 q)" for q
    unfolding t2_def by (rule clear_temporary[OF sib(1) par1 tmp1])
  have par2: "seen t2 (butlast ?tmp) = Some None" "seen t2 ?tmp = None"
    using par1 short(2) sib(2) by (simp_all add: s2)
  from write_temporary[OF n(2) sib(1) par2, of fresh] obtain t3 where
    t3: "(case n of Link to \<Rightarrow> symlink to t2 ?tmp | _ \<Rightarrow> copy_file fresh n t2 ?tmp) = Inr t3"
      "\<And>q. seen t3 q = (if q = ?tmp then Some (leaf_of n) else seen t2 q)" by blast
  from clear_directory[OF p(1), of t3] obtain t4 where
    t4: "(case look t3 p of Inr (Dir es) \<Rightarrow> remove_dir_all t3 p | _ \<Rightarrow> Inr t3) = Inr t4"
      "seen t4 p \<noteq> Some None" "\<And>q. \<not> prefix p q \<Longrightarrow> seen t4 q = seen t3 q" by blast
  obtain l where l: "leaf_of n = Some l" using n(2) by (auto simp: movable_def)
  have "seen t4 ?tmp = Some (Some l)" using t4(3)[OF apart(1)] t3(2) l by simp
  from rename_seen[OF sib(1) p(1) sib(2,3) this t4(2)] obtain t5 where
    t5: "rename t4 ?tmp p = Inr t5"
      "\<And>q. seen t5 q = (if q = p then Some (Some l) else if prefix p q \<or> prefix ?tmp q then None else seen t4 q)"
    by blast
  have "apply_write fresh work source t p = (Inr (), t5)"
    using p(1)
    by (simp add: apply_write_def try_io_def t1 n(1) flip: t2_def)
      (simp add: t3(1) t4(1) t5(1) Let_def cong del: node.case_cong_weak)
  moreover have "seen t5 q = (if q = p then Some (leaf_of n) else if q = ?tmp \<or> strict_prefix p q then None
      else if strict_prefix q p then Some None else seen t q)" for q
  proof -
    have "seen t q = None" if "strict_prefix ?tmp q"
      using seen_prefix[OF _ that, of t] tmp by (cases "seen t q") auto
    moreover have "\<not> prefix ?tmp q" if "prefix q p" using that apart(2) by (auto dest: prefix_order.trans)
    ultimately show ?thesis
      using l apart by (auto simp: t5(2) t4(3) t3(2) s2 s1 strict_prefix_def)
  qed
  ultimately show ?thesis by blast
qed

end
