(* ===== verification/Diff.thy ===== *)
theory Diff
  imports Wal "HOL-Library.Product_Lexorder"
begin

text \<open>
  What a command changed, \<^verbatim>\<open>shellmux/src/diff.rs\<close>: the walk that indexes the non-directory entries of
  a tree, the comparison of two entries, and the ordered list of operations that turn the seed into
  the command's snapshot. An ordered map is its sorted association list.
\<close>

datatype commit_op = Write string | Remove string

text \<open>\<open>CommitOp::path\<close>.\<close>

fun op_path :: "commit_op \<Rightarrow> string" where
  "op_path (Write path) = path"
| "op_path (Remove path) = path"

record file_meta =
  fm_len :: nat
  fm_mode :: "32 word"
  fm_id :: file_id

datatype tree_entry = EntryFile file_meta | EntrySymlink string | EntryOther "32 word"

section \<open>Walking a tree\<close>

fun btree_insert :: "'k::linorder \<Rightarrow> 'v \<Rightarrow> ('k \<times> 'v) list \<Rightarrow> ('k \<times> 'v) list" where
  "btree_insert k v [] = [(k, v)]"
| "btree_insert k v ((k', v') # m) =
     (if k < k' then (k, v) # (k', v') # m
      else if k = k' then (k, v) # m
      else (k', v') # btree_insert k v m)"

text \<open>
  The directories still to list, each with its relative path; the last one pushed is the next one
  listed.
\<close>

type_synonym walk_stack = "((string \<times> node) list \<times> string) list"

definition relative_to :: "string \<Rightarrow> string \<Rightarrow> string" where
  "relative_to pre name = (if pre = [] then name else pre @ ''/'' @ name)"

fun visit :: "string \<Rightarrow> (string \<times> node) list \<Rightarrow> walk_stack \<Rightarrow> (string \<times> tree_entry) list \<Rightarrow>
    walk_stack \<times> (string \<times> tree_entry) list" where
  "visit pre [] stack entries = (stack, entries)"
| "visit pre ((name, n) # es) stack entries =
     (let relative = relative_to pre name in
      case n of
        Dir sub \<Rightarrow> visit pre es ((sub, relative) # stack) entries
      | Link target \<Rightarrow> visit pre es stack (btree_insert relative (EntrySymlink target) entries)
      | Regular c m i \<Rightarrow> visit pre es stack (btree_insert relative
          (EntryFile \<lparr>fm_len = length c, fm_mode = permissions m, fm_id = i\<rparr>) entries)
      | Special m \<Rightarrow> visit pre es stack (btree_insert relative (EntryOther (permissions m)) entries))"

fun weight :: "node \<Rightarrow> nat" where
  "weight (Dir es) = Suc (\<Sum>e\<leftarrow>es. weight (snd e))"
| "weight _ = 1"

definition stack_weight :: "walk_stack \<Rightarrow> nat" where
  "stack_weight stack = (\<Sum>f\<leftarrow>stack. Suc (\<Sum>e\<leftarrow>fst f. weight (snd e)))"

lemma visit_weight:
  "stack_weight (fst (visit pre es stack entries)) \<le> stack_weight stack + (\<Sum>e\<leftarrow>es. weight (snd e))"
proof (induction pre es stack entries rule: visit.induct)
  case (2 pre name n es stack entries)
  then show ?case by (cases n) (fastforce simp: stack_weight_def)+
qed simp

function collect_loop :: "walk_stack \<Rightarrow> (string \<times> tree_entry) list \<Rightarrow> (string \<times> tree_entry) list" where
  "collect_loop [] entries = entries"
| "collect_loop ((es, pre) # stack) entries =
     (let (stack', entries') = visit pre es stack entries in collect_loop stack' entries')"
  by pat_completeness auto
termination
proof (relation "measure (\<lambda>(stack, entries). stack_weight stack)", goal_cases)
  case (2 es pre stack entries x stack' entries')
  from this(2)[symmetric] visit_weight[of pre es stack entries] 2(1) show ?case
    by (simp add: stack_weight_def)
qed simp

definition collect :: "node \<Rightarrow> mux_error + (string \<times> tree_entry) list" where
  "collect root = (case root of
     Dir es \<Rightarrow> Inr (collect_loop [(es, [])] [])
   | Link target \<Rightarrow> Inl (Io BeyondLink)
   | _ \<Rightarrow> Inl (Io NotADirectory))"

section \<open>Comparing entries\<close>

definition CHUNK :: nat where
  "CHUNK = 64 * 1024"

text \<open>A buffered reader: the bytes of its buffer and the bytes of the file not read yet.\<close>

type_synonym reader = "bytes \<times> bytes"

definition fill_buf :: "reader \<Rightarrow> reader" where
  "fill_buf r = (case r of (buffer, rest) \<Rightarrow>
     if buffer = [] then (take CHUNK rest, drop CHUNK rest) else (buffer, rest))"

lemma fill_buf_append: "fill_buf r = (buffer, rest) \<Longrightarrow> buffer @ rest = fst r @ snd r"
  by (auto simp: fill_buf_def split: prod.splits if_splits)

function differ_loop :: "reader \<Rightarrow> reader \<Rightarrow> bool" where
  "differ_loop seed work =
     (let (left, seed_rest) = fill_buf seed; (right, work_rest) = fill_buf work in
      if left = [] \<or> right = [] then length left \<noteq> length right
      else let len = min (length left) (length right) in
        if take len left \<noteq> take len right then True
        else differ_loop (drop len left, seed_rest) (drop len right, work_rest))"
  by auto
termination
proof (relation "measure (\<lambda>((b, r), w). length (b @ r))", goal_cases)
  case (2 seed work x left seed_rest y right work_rest len)
  then have "left @ seed_rest = fst seed @ snd seed" "0 < len" "len \<le> length left"
    using fill_buf_append[of seed left seed_rest] by auto
  then have "length (fst seed @ snd seed) = length left + length seed_rest" "0 < len" "len \<le> length left"
    by (metis length_append)+
  then show ?case by (simp add: case_prod_beta)
qed simp

declare differ_loop.simps [simp del]

text \<open>\<open>File::open\<close> of a regular file.\<close>

definition open_file :: "node \<Rightarrow> path \<Rightarrow> mux_error + bytes" where
  "open_file t p = (case look t p of
     Inl e \<Rightarrow> Inl (Io e) | Inr (Regular c m i) \<Rightarrow> Inr c | Inr n \<Rightarrow> Inl (Io InvalidInput))"

definition contents_differ :: "node \<Rightarrow> node \<Rightarrow> path \<Rightarrow> mux_error + bool" where
  "contents_differ seed work p =
     and_then (open_file seed p) (\<lambda>s. and_then (open_file work p) (\<lambda>w. Inr (differ_loop ([], s) ([], w))))"

fun changed :: "node \<Rightarrow> node \<Rightarrow> path \<Rightarrow> tree_entry \<Rightarrow> tree_entry \<Rightarrow> mux_error + bool" where
  "changed seed work p (EntryFile seed_file) (EntryFile work_file) =
     (if fm_mode seed_file \<noteq> fm_mode work_file then Inr True
      else if fm_id seed_file = fm_id work_file then Inr False
      else if fm_len seed_file \<noteq> fm_len work_file then Inr True
      else contents_differ seed work p)"
| "changed seed work p (EntrySymlink seed_target) (EntrySymlink work_target) = Inr (seed_target \<noteq> work_target)"
| "changed seed work p (EntryOther seed_mode) (EntryOther work_mode) = Inr (seed_mode \<noteq> work_mode)"
| "changed seed work p _ _ = Inr True"

section \<open>The operations\<close>

definition depth_key :: "string \<Rightarrow> nat \<times> string" where
  "depth_key path = (length (split_on (CHR ''/'') path), path)"

text \<open>The first loop of \<open>diff_trees\<close>: the seed's paths that are gone and the ones that changed.\<close>

fun scan_seed :: "node \<Rightarrow> node \<Rightarrow> (string \<times> tree_entry) list \<Rightarrow> (string \<times> tree_entry) list \<Rightarrow>
    string list \<Rightarrow> string list \<Rightarrow> mux_error + string list \<times> string list" where
  "scan_seed seed work work_entries [] removes writes = Inr (removes, writes)"
| "scan_seed seed work work_entries ((path, seed_entry) # es) removes writes =
     (case map_of work_entries path of
        None \<Rightarrow> scan_seed seed work work_entries es (removes @ [path]) writes
      | Some work_entry \<Rightarrow>
          and_then (changed seed work (components path) seed_entry work_entry) (\<lambda>differs.
            scan_seed seed work work_entries es removes (if differs then writes @ [path] else writes)))"

text \<open>A stable sort in descending order of a key.\<close>

definition sort_descending :: "('a \<Rightarrow> 'k::linorder) \<Rightarrow> 'a list \<Rightarrow> 'a list" where
  "sort_descending key xs = rev (sort_key key (rev xs))"

definition diff_trees :: "node \<Rightarrow> node \<Rightarrow> mux_error + commit_op list" where
  "diff_trees seed work =
     and_then (collect seed) (\<lambda>seed_entries. and_then (collect work) (\<lambda>work_entries.
     and_then (scan_seed seed work work_entries seed_entries [] []) (\<lambda>(removes, writes).
       let writes = writes @ filter (\<lambda>path. map_of seed_entries path = None) (map fst work_entries) in
       Inr (map Remove (sort_descending depth_key removes) @ map Write (sort_key depth_key writes)))))"


section \<open>Byte comparison\<close>

lemma fill_buf_empty: "fill_buf r = ([], rest) \<Longrightarrow> fst r @ snd r = []"
  by (auto simp: fill_buf_def CHUNK_def split: prod.splits if_splits)

lemma differ_loop_correct: "differ_loop seed work \<longleftrightarrow> fst seed @ snd seed \<noteq> fst work @ snd work"
proof (induction seed work rule: differ_loop.induct)
  case (1 seed work)
  obtain left seed_rest right work_rest where
    f: "fill_buf seed = (left, seed_rest)" "fill_buf work = (right, work_rest)" by fastforce
  note all = fill_buf_append[OF f(1)] fill_buf_append[OF f(2)]
  show ?case
  proof (cases "left = [] \<or> right = []")
    case True
    with f have "left = [] \<and> fst seed @ snd seed = [] \<or> right = [] \<and> fst work @ snd work = []"
      using fill_buf_empty by metis
    moreover have "differ_loop seed work \<longleftrightarrow> length left \<noteq> length right"
      using True by (simp add: differ_loop.simps[of seed] f)
    moreover have "left = [] \<longleftrightarrow> fst seed @ snd seed = []" "right = [] \<longleftrightarrow> fst work @ snd work = []"
      using f fill_buf_empty all by (metis append_is_Nil_conv)+
    ultimately show ?thesis by auto
  next
    case False
    let ?len = "min (length left) (length right)"
    have split: "fst seed @ snd seed = take ?len left @ drop ?len left @ seed_rest"
      "fst work @ snd work = take ?len right @ drop ?len right @ work_rest" by (simp_all flip: all)
    show ?thesis
    proof (cases "take ?len left = take ?len right")
      case True
      have "differ_loop seed work \<longleftrightarrow> differ_loop (drop ?len left, seed_rest) (drop ?len right, work_rest)"
        using False True by (simp add: differ_loop.simps[of seed] f Let_def)
      with 1[OF f(1)[symmetric] refl f(2)[symmetric] refl False refl] True show ?thesis
        by (simp add: split)
    next
      case differ: False
      then have "differ_loop seed work" using False by (simp add: differ_loop.simps[of seed] f Let_def)
      moreover have "fst seed @ snd seed \<noteq> fst work @ snd work"
        using differ unfolding split by (simp add: append_eq_append_conv)
      ultimately show ?thesis by simp
    qed
  qed
qed

lemma contents_differ_correct:
  "look seed p = Inr (Regular c m i) \<Longrightarrow> look work p = Inr (Regular c' m' i') \<Longrightarrow>
   contents_differ seed work p = Inr (c \<noteq> c')"
  by (simp add: contents_differ_def open_file_def differ_loop_correct)

section \<open>What the walk finds\<close>

lemma btree_insert_lookup: "map_of (btree_insert k v m) = (map_of m)(k \<mapsto> v)"
  by (induction k v m rule: btree_insert.induct) (auto simp: fun_eq_iff)

lemma btree_insert_set: "set (map fst (btree_insert k v m)) = insert k (set (map fst m))"
  by (induction k v m rule: btree_insert.induct) auto

lemma btree_insert_sorted: "sorted_wrt (<) (map fst m) \<Longrightarrow> sorted_wrt (<) (map fst (btree_insert k v m))"
proof (induction k v m rule: btree_insert.induct)
  case (2 k v k' v' m)
  then show ?case using btree_insert_set[of k v m] by (fastforce dest: order.strict_trans)
qed simp

text \<open>
  A tree as the operating system keeps it: the entries of a directory have different names, and
  a name is a path component.
\<close>

fun well_formed :: "node \<Rightarrow> bool" where
  "well_formed (Dir es) \<longleftrightarrow> distinct (map fst es) \<and> (\<forall>e \<in> set es. good_name (fst e) \<and> well_formed (snd e))"
| "well_formed _ \<longleftrightarrow> True"

lemma well_formed_look: "look t p = Inr n \<Longrightarrow> well_formed t \<Longrightarrow> well_formed n \<and> (\<forall>x \<in> set p. good_name x)"
  by (induction t p rule: look.induct) (auto split: option.splits dest: map_of_SomeD)

fun entry_of :: "node \<Rightarrow> tree_entry option" where
  "entry_of (Dir es) = None"
| "entry_of (Link target) = Some (EntrySymlink target)"
| "entry_of (Regular c m i) = Some (EntryFile \<lparr>fm_len = length c, fm_mode = permissions m, fm_id = i\<rparr>)"
| "entry_of (Special m) = Some (EntryOther (permissions m))"

text \<open>The relative path of every non-directory entry below a directory listed under \<open>pre\<close>.\<close>

definition below :: "string \<Rightarrow> (string \<times> node) list \<Rightarrow> (string \<times> tree_entry) set" where
  "below pre es = {(join ''/'' (if pre = [] then q else pre # q), e) |q e n.
     q \<noteq> [] \<and> look (Dir es) q = Inr n \<and> entry_of n = Some e}"

definition stack_below :: "walk_stack \<Rightarrow> (string \<times> tree_entry) set" where
  "stack_below stack = (\<Union>f \<in> set stack. below (snd f) (fst f))"

definition stack_formed :: "walk_stack \<Rightarrow> bool" where
  "stack_formed stack \<longleftrightarrow> (\<forall>f \<in> set stack. well_formed (Dir (fst f)))"

lemma below_Nil [simp]: "below pre [] = {}"
  by (auto simp: below_def elim: look.elims)

lemma join_relative:
  "good_name name \<Longrightarrow> q \<noteq> [] \<Longrightarrow>
   join ''/'' (if pre = [] then name # q else pre # name # q) = join ''/'' (relative_to pre name # q)"
  by (cases q) (simp_all add: relative_to_def)

lemma below_iff:
  "(s, e) \<in> below pre es \<longleftrightarrow> (\<exists>x q c n. s = join ''/'' (if pre = [] then x # q else pre # x # q) \<and>
     map_of es x = Some c \<and> look c q = Inr n \<and> entry_of n = Some e)"
proof
  assume "(s, e) \<in> below pre es"
  then obtain q n where q: "s = join ''/'' (if pre = [] then q else pre # q)" "q \<noteq> []"
    "look (Dir es) q = Inr n" "entry_of n = Some e" by (auto simp: below_def)
  then obtain x q' where "q = x # q'" by (cases q) auto
  with q show "\<exists>x q c n. s = join ''/'' (if pre = [] then x # q else pre # x # q) \<and>
     map_of es x = Some c \<and> look c q = Inr n \<and> entry_of n = Some e"
    by (intro exI[of _ x] exI[of _ q']) (auto split: option.splits)
next
  assume "\<exists>x q c n. s = join ''/'' (if pre = [] then x # q else pre # x # q) \<and>
     map_of es x = Some c \<and> look c q = Inr n \<and> entry_of n = Some e"
  then obtain x q c n where "s = join ''/'' (if pre = [] then x # q else pre # x # q)"
    "map_of es x = Some c" "look c q = Inr n" "entry_of n = Some e" by blast
  then show "(s, e) \<in> below pre es"
    unfolding below_def by (intro CollectI exI[of _ "x # q"] exI[of _ e] exI[of _ n]) simp
qed

definition below_entry :: "string \<Rightarrow> node \<Rightarrow> (string \<times> tree_entry) set" where
  "below_entry relative n = (case n of
     Dir sub \<Rightarrow> below relative sub
   | _ \<Rightarrow> (case entry_of n of Some e \<Rightarrow> {(relative, e)} | None \<Rightarrow> {}))"

lemma below_entry_iff:
  assumes "good_name name"
  shows "(s, e) \<in> below_entry (relative_to pre name) n \<longleftrightarrow>
    (\<exists>q n'. s = join ''/'' (if pre = [] then name # q else pre # name # q) \<and> look n q = Inr n' \<and> entry_of n' = Some e)"
proof (cases "is_dir n")
  case True
  then obtain sub where n: "n = Dir sub" by (cases n) simp_all
  have "relative_to pre name \<noteq> []" using assms by (simp add: relative_to_def good_name_def)
  then have "(s, e) \<in> below_entry (relative_to pre name) n \<longleftrightarrow>
      (\<exists>q n'. s = join ''/'' (relative_to pre name # q) \<and> q \<noteq> [] \<and> look n q = Inr n' \<and> entry_of n' = Some e)"
    by (auto simp: below_entry_def n below_def)
  also have "\<dots> \<longleftrightarrow> (\<exists>q n'. s = join ''/'' (if pre = [] then name # q else pre # name # q) \<and>
      q \<noteq> [] \<and> look n q = Inr n' \<and> entry_of n' = Some e)"
    using join_relative[OF assms, of _ pre] by metis
  also have "\<dots> \<longleftrightarrow> (\<exists>q n'. s = join ''/'' (if pre = [] then name # q else pre # name # q) \<and>
      look n q = Inr n' \<and> entry_of n' = Some e)"
    by (metis n entry_of.simps(1) look.simps(1) option.distinct(1) sum.inject(2))
  finally show ?thesis .
next
  case False
  have rel: "relative_to pre name = join ''/'' (if pre = [] then [name] else pre # [name])"
    by (simp add: relative_to_def)
  have "look n q = Inr n' \<longleftrightarrow> q = [] \<and> n' = n" for q n'
    using False by (cases n; cases q) auto
  with False rel show ?thesis by (cases n) (auto simp: below_entry_def)
qed

lemma below_Cons:
  assumes "good_name name" "name \<notin> fst ` set es"
  shows "below pre ((name, n) # es) = below_entry (relative_to pre name) n \<union> below pre es"
proof -
  have "map_of es name = None" using assms(2) by (simp add: map_of_eq_None_iff)
  then have "(s, e) \<in> below pre ((name, n) # es) \<longleftrightarrow>
      (s, e) \<in> below_entry (relative_to pre name) n \<or> (s, e) \<in> below pre es" for s e
    unfolding below_iff below_entry_iff[OF assms(1)]
    by (auto split: if_splits) (metis option.distinct(1))+
  then show ?thesis by auto
qed


lemma btree_insert_pairs:
  "(\<And>v'. (k, v') \<in> set m \<Longrightarrow> v' = v) \<Longrightarrow> set (btree_insert k v m) = insert (k, v) (set m)"
  by (induction k v m rule: btree_insert.induct) auto

lemma stack_below_simps [simp]:
  "stack_below [] = {}"
  "stack_below ((es, pre) # stack) = below pre es \<union> stack_below stack"
  by (simp_all add: stack_below_def)

lemma visit_leaf:
  "\<not> is_dir n \<Longrightarrow> \<exists>e. entry_of n = Some e \<and> below_entry s n = {(s, e)} \<and>
     visit pre ((name, n) # es) stack entries = visit pre es stack (btree_insert (relative_to pre name) e entries)"
  by (cases n) (simp_all add: below_entry_def)

lemma visit_spec:
  "well_formed (Dir es) \<Longrightarrow> stack_formed stack \<Longrightarrow> sorted_wrt (<) (map fst entries) \<Longrightarrow>
   single_valued (set entries \<union> below pre es \<union> stack_below stack) \<Longrightarrow>
   visit pre es stack entries = (stack', entries') \<Longrightarrow>
   stack_formed stack' \<and> sorted_wrt (<) (map fst entries') \<and>
   set entries' \<union> stack_below stack' = set entries \<union> below pre es \<union> stack_below stack"
proof (induction es arbitrary: stack entries)
  case (Cons f es)
  obtain name n where f: "f = (name, n)" by (cases f)
  from Cons.prems(1) have w: "good_name name" "name \<notin> fst ` set es" "well_formed n" "well_formed (Dir es)"
    by (auto simp: f)
  note cons = below_Cons[OF w(1,2), of pre n]
  show ?case
  proof (cases "is_dir n")
    case True
    then obtain sub where n: "n = Dir sub" by (cases n) simp_all
    have "stack_formed ((sub, relative_to pre name) # stack)"
      using Cons.prems(2) w(3) by (simp add: stack_formed_def n)
    from Cons.IH[OF w(4) this Cons.prems(3)] Cons.prems(4,5) show ?thesis
      by (simp add: f n cons[unfolded n] below_entry_def Un_ac)
  next
    case False
    from visit_leaf[OF False, of "relative_to pre name" pre name es stack entries] obtain e where
      e: "below_entry (relative_to pre name) n = {(relative_to pre name, e)}"
        "visit pre ((name, n) # es) stack entries = visit pre es stack (btree_insert (relative_to pre name) e entries)"
      by blast
    have new: "set (btree_insert (relative_to pre name) e entries) = insert (relative_to pre name, e) (set entries)"
      using Cons.prems(4) by (intro btree_insert_pairs) (auto simp: f cons e(1) single_valued_def)
    have "sorted_wrt (<) (map fst (btree_insert (relative_to pre name) e entries))"
      by (rule btree_insert_sorted[OF Cons.prems(3)])
    from Cons.IH[OF w(4) Cons.prems(2) this] Cons.prems(4,5) show ?thesis
      by (simp add: f e new cons del: visit.simps)
  qed
qed auto

lemma collect_loop_spec:
  "stack_formed stack \<Longrightarrow> sorted_wrt (<) (map fst entries) \<Longrightarrow> single_valued (set entries \<union> stack_below stack) \<Longrightarrow>
   sorted_wrt (<) (map fst (collect_loop stack entries)) \<and>
   set (collect_loop stack entries) = set entries \<union> stack_below stack"
proof (induction stack entries rule: collect_loop.induct)
  case (2 es pre stack entries)
  obtain stack' entries' where v: "visit pre es stack entries = (stack', entries')" by fastforce
  have "stack_formed stack' \<and> sorted_wrt (<) (map fst entries') \<and>
      set entries' \<union> stack_below stack' = set entries \<union> below pre es \<union> stack_below stack"
    using 2(2-4) by (intro visit_spec[OF _ _ _ _ v]) (auto simp: stack_formed_def Un_assoc)
  with 2(1)[OF v[symmetric] refl] 2(4) v show ?case by (simp add: Un_assoc)
qed simp

lemma sorted_map_of:
  "sorted_wrt (<) (map fst m) \<Longrightarrow> map_of (m :: ('k::linorder \<times> 'v) list) k = Some v \<longleftrightarrow> (k, v) \<in> set m"
  by (simp add: strict_sorted_iff)

text \<open>
  The index has exactly the non-directory entries of the tree, under their slash-joined paths.
\<close>

lemma below_root: "below [] es = {(join ''/'' p, e) |p e n. p \<noteq> [] \<and> look (Dir es) p = Inr n \<and> entry_of n = Some e}"
  by (simp add: below_def)

lemma collect_spec:
  assumes "well_formed (Dir es)"
  obtains m where "collect (Dir es) = Inr m" "sorted_wrt (<) (map fst m)"
    "\<And>s e. map_of m s = Some e \<longleftrightarrow> (\<exists>p n. s = join ''/'' p \<and> p \<noteq> [] \<and> look (Dir es) p = Inr n \<and> entry_of n = Some e)"
proof -
  have good: "\<forall>x \<in> set p. good_name x" if "look (Dir es) p = Inr n" for p n
    using well_formed_look[OF that assms] by blast
  have single: "single_valued (below [] es)"
  proof (rule single_valuedI)
    fix s e e'
    assume "(s, e) \<in> below [] es" "(s, e') \<in> below [] es"
    then obtain p n p' n' where "s = join ''/'' p" "look (Dir es) p = Inr n" "entry_of n = Some e"
      "s = join ''/'' p'" "look (Dir es) p' = Inr n'" "entry_of n' = Some e'" unfolding below_root by blast
    moreover from this good have "p = p'" by (metis components_join)
    ultimately show "e = e'" by simp
  qed
  let ?m = "collect_loop [(es, [])] []"
  from collect_loop_spec[of "[(es, [])]" "[]"] assms single have
    m: "sorted_wrt (<) (map fst ?m)" "set ?m = below [] es" by (simp_all add: stack_formed_def)
  show ?thesis
  proof (rule that)
    show "collect (Dir es) = Inr ?m" by (simp add: collect_def)
    show "sorted_wrt (<) (map fst ?m)" by (rule m(1))
    show "map_of ?m s = Some e \<longleftrightarrow> (\<exists>p n. s = join ''/'' p \<and> p \<noteq> [] \<and> look (Dir es) p = Inr n \<and> entry_of n = Some e)"
      for s e unfolding sorted_map_of[OF m(1)] m(2) below_root by blast
  qed
qed


section \<open>What the comparison decides\<close>

text \<open>
  What the inode identity promises: a path that has the same identity in both trees has the same
  bytes in both.
\<close>

definition identity_sound :: "node \<Rightarrow> node \<Rightarrow> bool" where
  "identity_sound seed work \<longleftrightarrow> (\<forall>p c m i c' m'.
     look seed p = Inr (Regular c m i) \<longrightarrow> look work p = Inr (Regular c' m' i) \<longrightarrow> c = c')"

lemma changed_correct:
  assumes "identity_sound seed work"
    and "look seed p = Inr n" "look work p = Inr n'" "entry_of n = Some e" "entry_of n' = Some e'"
  shows "changed seed work p e e' = Inr (leaf_of n \<noteq> leaf_of n')"
proof (cases n)
  case (Regular c m i)
  then show ?thesis
  proof (cases n')
    case (Regular c' m' i')
    note regular = \<open>n = Regular c m i\<close> Regular
    from assms(1-3) regular have "i = i' \<Longrightarrow> c = c'" unfolding identity_sound_def by blast
    moreover have "contents_differ seed work p = Inr (c \<noteq> c')"
      using assms(2,3) regular by (simp add: contents_differ_correct)
    ultimately show ?thesis using assms(4,5) regular by auto
  qed (use \<open>n = Regular c m i\<close> assms in auto)
qed (cases n'; use assms in auto)+

lemma scan_seed_correct:
  "(\<And>s e w. (s, e) \<in> set es \<Longrightarrow> map_of we s = Some w \<Longrightarrow> changed seed work (components s) e w = Inr (d s)) \<Longrightarrow>
   scan_seed seed work we es removes writes =
     Inr (removes @ filter (\<lambda>s. map_of we s = None) (map fst es),
          writes @ filter (\<lambda>s. map_of we s \<noteq> None \<and> d s) (map fst es))"
proof (induction es arbitrary: removes writes)
  case (Cons f es)
  then show ?case by (cases f) (auto split: option.split)
qed simp

text \<open>
  The operations of a diff: the paths of the leaves to remove, deepest first, then the paths of
  the leaves to write, shallowest first, each path once.
\<close>

definition removed_paths :: "node \<Rightarrow> node \<Rightarrow> path set" where
  "removed_paths seed work = {p. leaf_at seed p \<noteq> None \<and> leaf_at work p = None}"

definition written_paths :: "node \<Rightarrow> node \<Rightarrow> path set" where
  "written_paths seed work = {p. leaf_at work p \<noteq> None \<and> leaf_at work p \<noteq> leaf_at seed p}"

definition slashed :: "path \<Rightarrow> string" where
  "slashed p = join ''/'' p"

lemma sort_descending_sorted:
  "distinct (map key xs) \<Longrightarrow> sorted_wrt (\<lambda>a b. key a > key b) (sort_descending key xs)"
proof -
  assume "distinct (map key xs)"
  then have "distinct (map key (sort_key key (rev xs)))"
    by (simp add: distinct_map)
  then have "sorted_wrt (<) (map key (sort_key key (rev xs)))" by (simp add: strict_sorted_iff)
  then show ?thesis by (simp add: sort_descending_def sorted_wrt_rev sorted_wrt_map)
qed

lemma sort_key_sorted: "distinct (map key xs) \<Longrightarrow> sorted_wrt (\<lambda>a b. key a < key b) (sort_key key xs)"
proof -
  assume "distinct (map key xs)"
  then have "sorted_wrt (<) (map key (sort_key key xs))" by (simp add: strict_sorted_iff distinct_map)
  then show ?thesis by (simp add: sorted_wrt_map)
qed

lemma depth_key_distinct: "distinct xs \<Longrightarrow> distinct (map depth_key xs)"
  by (auto simp: distinct_map inj_on_def depth_key_def)

lemma leaf_entry: "look t p = Inr n \<Longrightarrow> leaf_at t p = None \<longleftrightarrow> entry_of n = None"
  by (cases n) (simp_all add: leaf_at_look)

lemma leaf_at_iff: "leaf_at t p \<noteq> None \<longleftrightarrow> (\<exists>n e. look t p = Inr n \<and> entry_of n = Some e)"
proof (cases "look t p")
  case (Inr n)
  then show ?thesis using leaf_entry[OF Inr] by auto
qed (simp add: leaf_at_def look_seen_error)

lemma leaf_at_root:
  assumes "well_formed t" "is_dir t" "leaf_at t p \<noteq> None"
  shows "p \<noteq> [] \<and> (\<forall>x \<in> set p. good_name x)"
proof -
  from assms(3) obtain n e where n: "look t p = Inr n" "entry_of n = Some e" unfolding leaf_at_iff by blast
  from n assms(2) have "p \<noteq> []" by (cases t) auto
  with well_formed_look[OF n(1) assms(1)] show ?thesis by blast
qed

lemma collected:
  assumes "well_formed t" "is_dir t"
  obtains m where "collect t = Inr m" "sorted_wrt (<) (map fst m)"
    "\<And>s e. map_of m s = Some e \<longleftrightarrow> (\<exists>p n. s = slashed p \<and> p \<noteq> [] \<and> look t p = Inr n \<and> entry_of n = Some e)"
    "fst ` set m = slashed ` {p. leaf_at t p \<noteq> None}"
proof -
  obtain es where t: "t = Dir es" using assms(2) by (cases t) simp_all
  from collect_spec[OF assms(1)[unfolded t]] obtain m where
    m: "collect (Dir es) = Inr m" "sorted_wrt (<) (map fst m)"
    "\<And>s e. map_of m s = Some e \<longleftrightarrow> (\<exists>p n. s = join ''/'' p \<and> p \<noteq> [] \<and> look (Dir es) p = Inr n \<and> entry_of n = Some e)"
    by blast
  have keys: "s \<in> fst ` set m \<longleftrightarrow> (\<exists>p. s = slashed p \<and> leaf_at t p \<noteq> None)" for s
  proof -
    have "s \<in> fst ` set m \<longleftrightarrow> (\<exists>e. map_of m s = Some e)"
      using map_of_eq_None_iff[of m s] by (cases "map_of m s") simp_all
    also have "\<dots> \<longleftrightarrow> (\<exists>p n e. s = slashed p \<and> p \<noteq> [] \<and> look t p = Inr n \<and> entry_of n = Some e)"
      unfolding m(3) t slashed_def by blast
    also have "\<dots> \<longleftrightarrow> (\<exists>p. s = slashed p \<and> leaf_at t p \<noteq> None)"
      unfolding leaf_at_iff using leaf_at_root[OF assms] unfolding leaf_at_iff by blast
    finally show ?thesis .
  qed
  have "fst ` set m = slashed ` {p. leaf_at t p \<noteq> None}"
    by (rule set_eqI, unfold keys) blast
  with m that show ?thesis unfolding t slashed_def by blast
qed


lemma slashed_components [simp]: "\<forall>x \<in> set p. good_name x \<Longrightarrow> components (slashed p) = p"
  by (simp add: slashed_def)

lemma diff_trees_spec:
  assumes "well_formed seed" "is_dir seed" "well_formed work" "is_dir work" "identity_sound seed work"
  obtains R W where "diff_trees seed work = Inr (map Remove R @ map Write W)"
    "set R = slashed ` removed_paths seed work" "set W = slashed ` written_paths seed work"
    "sorted_wrt (\<lambda>a b. depth_key a > depth_key b) R" "sorted_wrt (\<lambda>a b. depth_key a < depth_key b) W"
proof -
  let ?leaves = "\<lambda>t. {p. leaf_at t p \<noteq> None}" and ?comp = components
  from collected[OF assms(1,2)] obtain sm where sm: "collect seed = Inr sm" "sorted_wrt (<) (map fst sm)"
    "\<And>s e. map_of sm s = Some e \<longleftrightarrow> (\<exists>p n. s = slashed p \<and> p \<noteq> [] \<and> look seed p = Inr n \<and> entry_of n = Some e)"
    "fst ` set sm = slashed ` ?leaves seed" by blast
  from collected[OF assms(3,4)] obtain wm where wm: "collect work = Inr wm" "sorted_wrt (<) (map fst wm)"
    "\<And>s e. map_of wm s = Some e \<longleftrightarrow> (\<exists>p n. s = slashed p \<and> p \<noteq> [] \<and> look work p = Inr n \<and> entry_of n = Some e)"
    "fst ` set wm = slashed ` ?leaves work" by blast
  note good = leaf_at_root[OF assms(1,2)] leaf_at_root[OF assms(3,4)]
  have undo: "?comp (slashed p) = p" if "p \<in> ?leaves seed \<union> ?leaves work" for p
    using that good[of p] by auto
  have inj: "inj_on slashed (?leaves seed \<union> ?leaves work)" using undo by (rule inj_on_inverseI)
  let ?d = "\<lambda>s. leaf_at seed (?comp s) \<noteq> leaf_at work (?comp s)"
  have "changed seed work (?comp s) e w = Inr (?d s)" if "(s, e) \<in> set sm" "map_of wm s = Some w" for s e w
  proof -
    from that(1) have "map_of sm s = Some e" using sm(2) by (simp add: sorted_map_of)
    then obtain p n where p: "s = slashed p" "look seed p = Inr n" "entry_of n = Some e" unfolding sm(3) by blast
    from that(2) obtain p' n' where p': "s = slashed p'" "look work p' = Inr n'" "entry_of n' = Some w"
      unfolding wm(3) by blast
    have "leaf_at seed p \<noteq> None" "leaf_at work p' \<noteq> None" using p p' unfolding leaf_at_iff by blast+
    with p(1) p'(1) undo have c: "?comp s = p" "?comp s = p'" by (metis Un_iff mem_Collect_eq)+
    from changed_correct[OF assms(5) p(2) p'(2)[folded c(2)[unfolded c(1)]] p(3) p'(3)] c p(2) p'(2)
    show ?thesis by (simp add: leaf_at_look)
  qed
  note scan = scan_seed_correct[of sm wm seed work ?d "[]" "[]", OF this]
  let ?R = "filter (\<lambda>s. map_of wm s = None) (map fst sm)"
  let ?W = "filter (\<lambda>s. map_of wm s \<noteq> None \<and> ?d s) (map fst sm) @ filter (\<lambda>s. map_of sm s = None) (map fst wm)"
  have "diff_trees seed work = Inr (map Remove (sort_descending depth_key ?R) @ map Write (sort_key depth_key ?W))"
    by (simp add: diff_trees_def sm(1) wm(1) scan)
  moreover have "set ?R = slashed ` removed_paths seed work"
  proof -
    have "set ?R = slashed ` ?leaves seed - slashed ` ?leaves work"
      unfolding sm(4)[symmetric] wm(4)[symmetric] by (auto simp: map_of_eq_None_iff)
    also have "\<dots> = slashed ` (?leaves seed - ?leaves work)"
      by (rule inj_on_image_set_diff[OF inj, symmetric]) auto
    also have "?leaves seed - ?leaves work = removed_paths seed work" by (auto simp: removed_paths_def)
    finally show ?thesis .
  qed
  moreover have "set ?W = slashed ` written_paths seed work"
  proof -
    have "set ?W = {s \<in> slashed ` ?leaves seed \<inter> slashed ` ?leaves work. ?d s} \<union> (slashed ` ?leaves work - slashed ` ?leaves seed)"
      unfolding sm(4)[symmetric] wm(4)[symmetric] by (auto simp: map_of_eq_None_iff)
    also have "slashed ` ?leaves seed \<inter> slashed ` ?leaves work = slashed ` (?leaves seed \<inter> ?leaves work)"
      by (rule inj_on_image_Int[OF inj, symmetric]) auto
    also have "slashed ` ?leaves work - slashed ` ?leaves seed = slashed ` (?leaves work - ?leaves seed)"
      by (rule inj_on_image_set_diff[OF inj, symmetric]) auto
    also have "{s \<in> slashed ` (?leaves seed \<inter> ?leaves work). ?d s} =
        slashed ` {p \<in> ?leaves seed \<inter> ?leaves work. leaf_at seed p \<noteq> leaf_at work p}"
      using undo by auto
    also have "slashed ` {p \<in> ?leaves seed \<inter> ?leaves work. leaf_at seed p \<noteq> leaf_at work p} \<union>
        slashed ` (?leaves work - ?leaves seed) = slashed ` written_paths seed work"
      unfolding image_Un[symmetric] by (rule arg_cong[of _ _ "image slashed"]) (auto simp: written_paths_def)
    finally show ?thesis .
  qed
  moreover have keys: "distinct (map fst sm)" "distinct (map fst wm)"
    using sm(2) wm(2) by (simp_all add: strict_sorted_iff)
  have "distinct ?R" "distinct ?W" using keys by (auto simp: map_of_eq_None_iff)
  then have "sorted_wrt (\<lambda>a b. depth_key a > depth_key b) (sort_descending depth_key ?R)"
    "sorted_wrt (\<lambda>a b. depth_key a < depth_key b) (sort_key depth_key ?W)"
    by (blast intro: sort_descending_sorted sort_key_sorted depth_key_distinct)+
  ultimately show ?thesis
    by (intro that[of "sort_descending depth_key ?R" "sort_key depth_key ?W"]) (simp_all add: sort_descending_def)
qed

end
