(* ===== verification/History.thy ===== *)
theory History
  imports Diff
begin

text \<open>
  The capability history, \<^verbatim>\<open>shellmux/src/history.rs\<close>: one record per transaction in a JSON Lines log,
  the serializable forms of events and actions, and what the authority rebuilds at startup. The
  directories of a session are \<open>store\<close>: the seed, the snapshots by job, and the two logs under
  \<^verbatim>\<open>meta/\<close>; a snapshot that was swept reads as an empty directory, where every path is absent too.
\<close>

record store =
  st_seed :: node
  st_snap :: "string \<rightharpoonup> node"
  st_wal :: "bytes option"
  st_history :: "bytes option"

definition work_of :: "store \<Rightarrow> string \<Rightarrow> node" where
  "work_of st uid = (case st_snap st uid of None \<Rightarrow> Dir [] | Some work \<Rightarrow> work)"

section \<open>Serializable events\<close>

datatype history_action =
    HRead | HEdit | HStage | HUnstage
  | HCommit "string option"
  | HCheckout | HStash | HDelete | HClean | HDiff | HHistory

record history_event =
  he_principal :: string
  he_action :: history_action
  he_resource :: "string list"

record history_record =
  hr_seq :: nat
  hr_principal :: string
  hr_cmd :: string
  hr_events :: "history_event list"
  hr_paths :: "string list"

fun history_action_of :: "action \<Rightarrow> history_action" where
  "history_action_of Read = HRead"
| "history_action_of Edit = HEdit"
| "history_action_of Stage = HStage"
| "history_action_of Unstage = HUnstage"
| "history_action_of (Commit message) = HCommit message"
| "history_action_of Checkout = HCheckout"
| "history_action_of Stash = HStash"
| "history_action_of Delete = HDelete"
| "history_action_of Clean = HClean"
| "history_action_of Diff = HDiff"
| "history_action_of History = HHistory"

fun action_of_history :: "history_action \<Rightarrow> action" where
  "action_of_history HRead = Read"
| "action_of_history HEdit = Edit"
| "action_of_history HStage = Stage"
| "action_of_history HUnstage = Unstage"
| "action_of_history (HCommit message) = Commit message"
| "action_of_history HCheckout = Checkout"
| "action_of_history HStash = Stash"
| "action_of_history HDelete = Delete"
| "action_of_history HClean = Clean"
| "action_of_history HDiff = Diff"
| "action_of_history HHistory = History"

definition history_event_of :: "event \<Rightarrow> history_event" where
  "history_event_of e =
     \<lparr>he_principal = ev_principal e, he_action = history_action_of (ev_action e), he_resource = ev_resource e\<rparr>"

definition event_of_history :: "history_event \<Rightarrow> event" where
  "event_of_history e = new_event (he_principal e) (action_of_history (he_action e)) (he_resource e)"

lemma action_of_history_inverse [simp]: "action_of_history (history_action_of a) = a"
  by (cases a) simp_all

lemma event_of_history_inverse [simp]: "event_of_history (history_event_of e) = e"
  by (simp add: event_of_history_def history_event_of_def)

section \<open>The log\<close>

definition history_record_of :: "nat \<Rightarrow> string \<Rightarrow> string \<Rightarrow> event list \<Rightarrow> commit_op list \<Rightarrow> history_record" where
  "history_record_of seq who cmd events ops =
     \<lparr>hr_seq = seq, hr_principal = who, hr_cmd = cmd,
      hr_events = map history_event_of events, hr_paths = map op_path ops\<rparr>"

text \<open>\<open>HistoryLog::append\<close>, and the free \<open>append\<close> that opens the log first.\<close>

definition history_append ::
  "(history_record \<Rightarrow> bytes option) \<Rightarrow> store \<Rightarrow> nat \<Rightarrow> string \<Rightarrow> string \<Rightarrow> event list \<Rightarrow> commit_op list \<Rightarrow>
   (mux_error + unit) \<times> store" where
  "history_append ser st seq who cmd events ops =
     (let record = history_record_of seq who cmd events ops;
          (result, file) = log_append ser [record] (log_open (st_history st)) in
      (result, st\<lparr>st_history := Some file\<rparr>))"

definition committed_sequences ::
  "(bytes \<Rightarrow> history_record option) \<Rightarrow> store \<Rightarrow> (mux_error + nat set) \<times> store" where
  "committed_sequences de st =
     (let (result, file) = log_read de (st_history st) in
      (and_then result (\<lambda>records. Inr (set (map hr_seq records))), st\<lparr>st_history := file\<rparr>))"

record loaded =
  ld_history :: "event list"
  ld_generations :: "string \<rightharpoonup> nat"
  ld_seq :: nat

text \<open>One turn of the loop of \<open>load\<close>.\<close>

definition load_record :: "loaded \<Rightarrow> history_record \<Rightarrow> loaded" where
  "load_record ld r =
     \<lparr>ld_history = ld_history ld @ map event_of_history (hr_events r),
      ld_generations = foldl (\<lambda>g path. g(path \<mapsto> hr_seq r)) (ld_generations ld) (hr_paths r),
      ld_seq = max (ld_seq ld) (hr_seq r)\<rparr>"

definition nothing_loaded :: loaded where
  "nothing_loaded = \<lparr>ld_history = [], ld_generations = Map.empty, ld_seq = 0\<rparr>"

definition load :: "(bytes \<Rightarrow> history_record option) \<Rightarrow> store \<Rightarrow> (mux_error + loaded) \<times> store" where
  "load de st =
     (let (result, file) = log_read de (st_history st) in
      case result of
        Inl e \<Rightarrow> (Inl e, st\<lparr>st_history := file\<rparr>)
      | Inr records \<Rightarrow>
          (Inr (foldl load_record nothing_loaded records), st\<lparr>st_history := Some (log_open file)\<rparr>))"

section \<open>What it remembers\<close>

text \<open>The bytes of a log that may not exist yet, with a torn tail or without.\<close>

definition log_holds :: "('r \<Rightarrow> bytes option) \<Rightarrow> bytes option \<Rightarrow> 'r list \<Rightarrow> bool" where
  "log_holds ser bs rs \<longleftrightarrow> (\<exists>torn. newline \<notin> set torn \<and> log_open bs = stored ser rs @ torn)"

lemma log_read_holds:
  assumes "codec ser de" "log_holds ser bs rs"
  shows "\<exists>bs'. log_read de bs = (Inr rs, bs') \<and> log_open bs' = stored ser rs"
proof (cases bs)
  case None
  with assms(2) have "stored ser rs = []" by (auto simp: log_holds_def log_open_def)
  then have "rs = []" by (cases rs) simp_all
  with None show ?thesis by (simp add: log_open_def)
next
  case (Some b)
  with assms(2) obtain torn where t: "newline \<notin> set torn" "b = stored ser rs @ torn"
    by (auto simp: log_holds_def log_open_def)
  show ?thesis using log_read_stored[OF assms(1) t(1)] by (simp add: Some t(2) log_open_def)
qed

lemma log_holds_exact: "log_open bs = stored ser rs \<Longrightarrow> log_holds ser bs rs"
  unfolding log_holds_def by (intro exI[of _ "[]"]) simp

lemma load_returns:
  assumes "codec ser de" "log_holds ser (st_history st) rs"
  shows "load de st = (Inr (foldl load_record nothing_loaded rs), st\<lparr>st_history := Some (stored ser rs)\<rparr>)"
proof -
  from log_read_holds[OF assms] obtain bs' where
    "log_read de (st_history st) = (Inr rs, bs')" "log_open bs' = stored ser rs" by blast
  then show ?thesis by (simp add: load_def)
qed

lemma history_append_holds:
  assumes "codec ser de" "log_open (st_history st) = stored ser rs"
  shows "history_append ser st seq who cmd events ops =
    (Inr (), st\<lparr>st_history := Some (stored ser (rs @ [history_record_of seq who cmd events ops]))\<rparr>)"
  by (simp add: history_append_def log_append_stored[OF assms(1)] assms(2))

text \<open>Loading one more record adds its events, makes its paths its own and raises the number.\<close>

lemma foldl_generations: "foldl (\<lambda>g path. g(path \<mapsto> n)) g ps q = (if q \<in> set ps then Some n else g q)"
  by (induction ps arbitrary: g) auto

lemma loaded_append:
  "foldl load_record nothing_loaded (rs @ [history_record_of seq who cmd events ops]) =
   (let ld = foldl load_record nothing_loaded rs in
    \<lparr>ld_history = ld_history ld @ events,
     ld_generations = (\<lambda>q. if q \<in> op_path ` set ops then Some seq else ld_generations ld q),
     ld_seq = max (ld_seq ld) seq\<rparr>)"
  by (simp add: load_record_def history_record_of_def Let_def fun_eq_iff foldl_generations comp_def)

end
