(* ===== verification/Commit.thy ===== *)
theory Commit
  imports History
begin

text \<open>
  The write-ahead log, \<^verbatim>\<open>shellmux/src/commit.rs\<close>: a transaction is logged whole, applied to the seed
  record by record, and closed; recovery finishes what a crash left open and re-derives the history
  entries that did not land. The hash of a content is the parameter \<open>sha1\<close>; the identities of the
  inodes a replay creates are the parameter \<open>fresh\<close>.
\<close>

datatype wal_record =
    Begin nat string string string "history_event list" "nat option"
  | Move string string string
  | Delete string
  | End nat

text \<open>\<open>WalRecord::operation\<close>.\<close>

fun wal_operation :: "wal_record \<Rightarrow> commit_op option" where
  "wal_operation (Move from onto sha1) = Some (Write onto)"
| "wal_operation (Delete path) = Some (Remove path)"
| "wal_operation (Begin seq uid who cmd events op_count) = None"
| "wal_operation (End seq) = None"

record transaction =
  tr_seq :: nat
  tr_uid :: string
  tr_principal :: string
  tr_cmd :: string
  tr_events :: "history_event list"
  tr_op_count :: "nat option"
  tr_records :: "wal_record list"
  tr_finished :: bool

section \<open>Applying a record\<close>

definition string_bytes :: "string \<Rightarrow> bytes" where
  "string_bytes s = map of_char s"

definition content_hash :: "(bytes \<Rightarrow> string) \<Rightarrow> node \<Rightarrow> path \<Rightarrow> mux_error + string" where
  "content_hash sha1 t p = (case look t p of
     Inl e \<Rightarrow> Inl (Io e)
   | Inr (Link target) \<Rightarrow> Inr (sha1 (string_bytes target))
   | Inr (Regular c m i) \<Rightarrow> Inr (sha1 c)
   | Inr n \<Rightarrow> Inr (sha1 []))"

text \<open>\<open>write\<close>: a source that is gone is no error when the target carries its content.\<close>

definition write_record ::
  "(bytes \<Rightarrow> string) \<Rightarrow> (string \<Rightarrow> file_id) \<Rightarrow> node \<Rightarrow> node \<Rightarrow> string \<Rightarrow> string \<Rightarrow> string \<Rightarrow>
   (mux_error + unit) \<times> node" where
  "write_record sha1 fresh seed work from onto hash =
     (let source = components from; target = components onto in
      case look work source of
        Inr n \<Rightarrow> apply_write (fresh onto) work source seed target
      | Inl e \<Rightarrow> (case look seed target of
          Inl e' \<Rightarrow> (Inl (WalFailure (SourceGone source target)), seed)
        | Inr n \<Rightarrow> (case content_hash sha1 seed target of
            Inl e' \<Rightarrow> (Inl e', seed)
          | Inr h \<Rightarrow> if h = hash then (Inr (), seed)
                    else (Inl (WalFailure (SourceGone source target)), seed))))"

fun apply_record ::
  "(bytes \<Rightarrow> string) \<Rightarrow> (string \<Rightarrow> file_id) \<Rightarrow> node \<Rightarrow> node \<Rightarrow> wal_record \<Rightarrow> (mux_error + unit) \<times> node" where
  "apply_record sha1 fresh work seed (Begin seq uid who cmd events op_count) = (Inr (), seed)"
| "apply_record sha1 fresh work seed (End seq) = (Inr (), seed)"
| "apply_record sha1 fresh work seed (Delete path) = apply_remove seed (components path)"
| "apply_record sha1 fresh work seed (Move from onto hash) = write_record sha1 fresh seed work from onto hash"

text \<open>The loop over the records, which stops at the first that fails.\<close>

fun apply_records ::
  "(bytes \<Rightarrow> string) \<Rightarrow> (string \<Rightarrow> file_id) \<Rightarrow> node \<Rightarrow> node \<Rightarrow> wal_record list \<Rightarrow> (mux_error + unit) \<times> node" where
  "apply_records sha1 fresh work seed [] = (Inr (), seed)"
| "apply_records sha1 fresh work seed (r # rs) = (case apply_record sha1 fresh work seed r of
     (Inl e, seed') \<Rightarrow> (Inl e, seed')
   | (Inr u, seed') \<Rightarrow> apply_records sha1 fresh work seed' rs)"

section \<open>Committing\<close>

definition op_record :: "(bytes \<Rightarrow> string) \<Rightarrow> node \<Rightarrow> commit_op \<Rightarrow> mux_error + wal_record" where
  "op_record sha1 work op = (case op of
     Remove path \<Rightarrow> Inr (Delete path)
   | Write path \<Rightarrow> and_then (content_hash sha1 work (components path)) (\<lambda>hash. Inr (Move path path hash)))"

definition commit_apply ::
  "(bytes \<Rightarrow> string) \<Rightarrow> (string \<Rightarrow> file_id) \<Rightarrow> (wal_record \<Rightarrow> bytes option) \<Rightarrow> store \<Rightarrow>
   string \<Rightarrow> nat \<Rightarrow> string \<Rightarrow> string \<Rightarrow> event list \<Rightarrow> commit_op list \<Rightarrow> (mux_error + unit) \<times> store" where
  "commit_apply sha1 fresh ser st uid seq who cmd events ops =
     (let work = work_of st uid in
      case try_map (op_record sha1 work) ops of
        Inl e \<Rightarrow> (Inl e, st)
      | Inr op_records \<Rightarrow>
          let records = Begin seq uid who cmd (map history_event_of events) (Some (length ops)) # op_records in
          case log_append ser records (log_open (st_wal st)) of
            (Inl e, file) \<Rightarrow> (Inl e, st\<lparr>st_wal := Some file\<rparr>)
          | (Inr u, file) \<Rightarrow> (case apply_records sha1 fresh work (st_seed st) records of
              (Inl e, seed) \<Rightarrow> (Inl e, st\<lparr>st_wal := Some file, st_seed := seed\<rparr>)
            | (Inr u, seed) \<Rightarrow>
                let (result, file') = log_append ser [End seq] file in
                (result, st\<lparr>st_wal := Some file', st_seed := seed\<rparr>)))"

section \<open>Recovering\<close>

text \<open>Marks the last transaction of a sequence number as finished; the list is the reversed log.\<close>

fun finish_first :: "nat \<Rightarrow> transaction list \<Rightarrow> transaction list" where
  "finish_first seq [] = []"
| "finish_first seq (t # ts) =
     (if tr_seq t = seq then t\<lparr>tr_finished := True\<rparr> # ts else t # finish_first seq ts)"

definition push_record :: "wal_record \<Rightarrow> transaction list \<Rightarrow> transaction list" where
  "push_record operation ts = (case rev ts of
     [] \<Rightarrow> []
   | t # earlier \<Rightarrow> rev (t\<lparr>tr_records := tr_records t @ [operation]\<rparr> # earlier))"

fun track :: "transaction list \<Rightarrow> wal_record \<Rightarrow> transaction list" where
  "track ts (Begin seq uid who cmd events op_count) =
     ts @ [\<lparr>tr_seq = seq, tr_uid = uid, tr_principal = who, tr_cmd = cmd, tr_events = events,
            tr_op_count = op_count, tr_records = [], tr_finished = False\<rparr>]"
| "track ts (End seq) = rev (finish_first seq (rev ts))"
| "track ts operation = push_record operation ts"

definition transactions_of :: "wal_record list \<Rightarrow> transaction list" where
  "transactions_of records = foldl track [] records"

definition validate :: "transaction \<Rightarrow> wal_fault option" where
  "validate t = (let actual = length (tr_records t) in
     case tr_op_count t of
       Some expected \<Rightarrow>
         if actual > expected \<or> (tr_finished t \<and> actual \<noteq> expected)
         then Some (WrongOperationCount (tr_seq t) expected actual) else None
     | None \<Rightarrow> if \<not> tr_finished t then Some (UnfinishedLegacy (tr_seq t)) else None)"

fun validate_all :: "transaction list \<Rightarrow> mux_error + unit" where
  "validate_all [] = Inr ()"
| "validate_all (t # ts) = (case validate t of Some fault \<Rightarrow> Inl (WalFailure fault) | None \<Rightarrow> validate_all ts)"

definition incomplete :: "transaction \<Rightarrow> bool" where
  "incomplete t \<longleftrightarrow> (case tr_op_count t of Some expected \<Rightarrow> length (tr_records t) < expected | None \<Rightarrow> False)"

text \<open>The two halves of one turn of the replay loop: the seed, then the history.\<close>

definition finish_transaction ::
  "(bytes \<Rightarrow> string) \<Rightarrow> (string \<Rightarrow> file_id) \<Rightarrow> (wal_record \<Rightarrow> bytes option) \<Rightarrow> store \<Rightarrow> transaction \<Rightarrow>
   (mux_error + unit) \<times> store" where
  "finish_transaction sha1 fresh ser st t =
     (if tr_finished t then (Inr (), st)
      else case apply_records sha1 fresh (work_of st (tr_uid t)) (st_seed st) (tr_records t) of
        (Inl e, seed) \<Rightarrow> (Inl e, st\<lparr>st_seed := seed\<rparr>)
      | (Inr u, seed) \<Rightarrow>
          let (result, file) = log_append ser [End (tr_seq t)] (log_open (st_wal st)) in
          (result, st\<lparr>st_seed := seed, st_wal := Some file\<rparr>))"

definition remember_transaction ::
  "(history_record \<Rightarrow> bytes option) \<Rightarrow> nat set \<Rightarrow> store \<Rightarrow> transaction \<Rightarrow> (mux_error + unit) \<times> store" where
  "remember_transaction hser remembered st t =
     (if tr_seq t \<in> remembered then (Inr (), st)
      else history_append hser st (tr_seq t) (tr_principal t) (tr_cmd t)
        (map event_of_history (tr_events t)) (List.map_filter wal_operation (tr_records t)))"

fun replay ::
  "(bytes \<Rightarrow> string) \<Rightarrow> (string \<Rightarrow> file_id) \<Rightarrow> (wal_record \<Rightarrow> bytes option) \<Rightarrow> (history_record \<Rightarrow> bytes option) \<Rightarrow>
   nat set \<Rightarrow> store \<Rightarrow> transaction list \<Rightarrow> (mux_error + unit) \<times> store" where
  "replay sha1 fresh ser hser remembered st [] = (Inr (), st)"
| "replay sha1 fresh ser hser remembered st (t # ts) =
     (if incomplete t then replay sha1 fresh ser hser remembered st ts
      else case finish_transaction sha1 fresh ser st t of
        (Inl e, st') \<Rightarrow> (Inl e, st')
      | (Inr u, st') \<Rightarrow> (case remember_transaction hser remembered st' t of
          (Inl e, st'') \<Rightarrow> (Inl e, st'')
        | (Inr u, st'') \<Rightarrow> replay sha1 fresh ser hser remembered st'' ts))"

definition recover ::
  "(bytes \<Rightarrow> string) \<Rightarrow> (string \<Rightarrow> file_id) \<Rightarrow> (wal_record \<Rightarrow> bytes option) \<Rightarrow> (bytes \<Rightarrow> wal_record option) \<Rightarrow>
   (history_record \<Rightarrow> bytes option) \<Rightarrow> (bytes \<Rightarrow> history_record option) \<Rightarrow> store \<Rightarrow> (mux_error + unit) \<times> store" where
  "recover sha1 fresh ser de hser hde st =
     (let (result, file) = log_read de (st_wal st); st1 = st\<lparr>st_wal := file\<rparr> in
      case result of
        Inl e \<Rightarrow> (Inl e, st1)
      | Inr records \<Rightarrow>
          if records = [] then (Inr (), st1)
          else let transactions = transactions_of records in
            case validate_all transactions of
              Inl e \<Rightarrow> (Inl e, st1)
            | Inr u \<Rightarrow> (case committed_sequences hde st1 of
                (Inl e, st2) \<Rightarrow> (Inl e, st2)
              | (Inr remembered, st2) \<Rightarrow>
                  replay sha1 fresh ser hser remembered (st2\<lparr>st_wal := Some (log_open (st_wal st2))\<rparr>) transactions))"

end
