(* ===== verification/Replay.thy ===== *)
theory Replay
  imports Commit
begin

text \<open>
  What applying the operations of a diff does to a seed that may already carry a part of them: the
  invariant of every state between the seed and the snapshot, and the effect of one removal and of
  one write on it.
\<close>

section \<open>Trees a commit can merge\<close>

text \<open>No entry is named as the temporary of another.\<close>

definition clean_name :: "string \<Rightarrow> bool" where
  "clean_name x \<longleftrightarrow> \<not> suffix TEMPORARY_SUFFIX x"

definition clean_path :: "path \<Rightarrow> bool" where
  "clean_path p \<longleftrightarrow> (\<forall>x \<in> set p. clean_name x)"

fun clean_tree :: "node \<Rightarrow> bool" where
  "clean_tree (Dir es) \<longleftrightarrow> (\<forall>e \<in> set es. clean_name (fst e) \<and> clean_tree (snd e))"
| "clean_tree _ \<longleftrightarrow> True"

lemma clean_tree_seen: "clean_tree t \<Longrightarrow> seen t p \<noteq> None \<Longrightarrow> clean_path p"
proof (induction t p rule: seen.induct)
  case (2 es x xs)
  then obtain c where c: "map_of es x = Some c" by (auto split: option.splits)
  with map_of_SomeD[OF c] 2 show ?case by (fastforce simp: clean_path_def)
qed (auto simp: clean_path_def)

lemma temporary_not_clean: "p \<noteq> [] \<Longrightarrow> \<not> clean_path (temporary p @ q)"
  by (simp add: temporary_def clean_path_def clean_name_def suffix_def)

lemma temporary_prefix_clean: "p \<noteq> [] \<Longrightarrow> clean_path q \<Longrightarrow> \<not> prefix (temporary p) q"
  using temporary_not_clean by (auto simp: prefix_def)

lemma clean_prefix: "clean_path q \<Longrightarrow> prefix p q \<Longrightarrow> clean_path p"
  by (auto simp: prefix_def clean_path_def)

text \<open>
  The seed and the snapshot of a transaction whose operations the code can apply: both are proper
  trees, no name ends in the suffix of temporaries, and every entry to write is a file or a link.
\<close>

definition mergeable :: "node \<Rightarrow> node \<Rightarrow> bool" where
  "mergeable seed work \<longleftrightarrow> well_formed seed \<and> is_dir seed \<and> well_formed work \<and> is_dir work \<and>
     clean_tree seed \<and> clean_tree work \<and>
     (\<forall>p \<in> written_paths seed work. \<forall>m. leaf_at work p \<noteq> Some (SpecialLeaf m))"

lemma leaf_apart: "leaf_at t p = Some l \<Longrightarrow> strict_prefix q p \<or> strict_prefix p q \<Longrightarrow> leaf_at t q = None"
  using leaves_prefix_free[of t p q] leaves_prefix_free[of t q p] by (cases "leaf_at t q") auto

definition leaves :: "node \<Rightarrow> path set" where
  "leaves t = {p. leaf_at t p \<noteq> None}"

text \<open>
  A state on the way: its leaves are those of \<open>D\<close> and temporaries of writes, every path that the
  diff does not touch is as in the snapshot, and no directory is named as a temporary.
\<close>

definition temporaries :: "node \<Rightarrow> node \<Rightarrow> path set" where
  "temporaries seed work = temporary ` written_paths seed work"

definition partly :: "node \<Rightarrow> node \<Rightarrow> path set \<Rightarrow> node \<Rightarrow> bool" where
  "partly seed work D t \<longleftrightarrow>
     leaves t \<subseteq> D \<union> temporaries seed work \<and>
     (\<forall>p. p \<notin> removed_paths seed work \<union> written_paths seed work \<union> temporaries seed work \<longrightarrow>
        leaf_at t p = leaf_at work p) \<and>
     (\<forall>q. seen t q = Some None \<longrightarrow> clean_path q)"

lemma partlyD:
  assumes "partly seed work D t"
  shows "leaf_at t p \<noteq> None \<Longrightarrow> p \<in> D \<or> p \<in> temporaries seed work"
    and "p \<notin> removed_paths seed work \<Longrightarrow> p \<notin> written_paths seed work \<Longrightarrow> p \<notin> temporaries seed work \<Longrightarrow>
      leaf_at t p = leaf_at work p"
    and "seen t q = Some None \<Longrightarrow> clean_path q"
  using assms by (auto simp: partly_def leaves_def)

lemma partly_mono: "partly seed work D t \<Longrightarrow> D \<subseteq> E \<Longrightarrow> partly seed work E t"
  by (auto simp: partly_def)

lemma mergeable_clean:
  assumes "mergeable seed work"
  shows "p \<in> leaves seed \<Longrightarrow> clean_path p \<and> p \<noteq> []" "p \<in> leaves work \<Longrightarrow> clean_path p \<and> p \<noteq> []"
  using assms leaf_at_root clean_tree_seen by (auto simp: mergeable_def leaves_def leaf_at_Some)

lemma touched_leaves:
  "p \<in> removed_paths seed work \<Longrightarrow> p \<in> leaves seed" "p \<in> written_paths seed work \<Longrightarrow> p \<in> leaves work"
  by (auto simp: removed_paths_def written_paths_def leaves_def)

lemma written_leaf:
  assumes "mergeable seed work" "p \<in> temporaries seed work"
  shows "\<not> clean_path p" "p \<notin> leaves seed" "p \<notin> leaves work"
proof -
  from assms(2) obtain w where w: "p = temporary w" "w \<in> written_paths seed work"
    by (auto simp: temporaries_def)
  with mergeable_clean[OF assms(1)] touched_leaves show n: "\<not> clean_path p"
    using temporary_not_clean[of w "[]"] by auto
  with mergeable_clean[OF assms(1)] show "p \<notin> leaves seed" "p \<notin> leaves work" by blast+
qed

lemma seed_partly:
  assumes "mergeable seed work"
  shows "partly seed work (leaves seed) seed"
proof -
  have "leaf_at seed p = leaf_at work p" if "p \<notin> removed_paths seed work" "p \<notin> written_paths seed work" for p
    using that by (cases "leaf_at work p") (auto simp: removed_paths_def written_paths_def)
  moreover have "clean_path q" if "seen seed q = Some None" for q
    using clean_tree_seen[of seed q] assms that by (simp add: mergeable_def)
  ultimately show ?thesis by (auto simp: partly_def)
qed

section \<open>One removal\<close>

lemma remove_partly:
  assumes m: "mergeable seed work" and t: "partly seed work D t"
    and p: "p \<in> removed_paths seed work" "\<And>d. d \<in> D \<Longrightarrow> \<not> strict_prefix d p"
  shows "\<exists>t'. apply_remove t p = (Inr (), t') \<and> partly seed work D t' \<and>
    (\<forall>q. leaf_at t' q = (if prefix p q then None else leaf_at t q))"
proof -
  note clean = mergeable_clean(1)[OF m touched_leaves(1)[OF p(1)]]
  have "leaf_at t q = None" if "strict_prefix q p" for q
  proof (rule ccontr)
    assume "leaf_at t q \<noteq> None"
    with partlyD(1)[OF t] p(2) that have "q \<in> temporaries seed work" by blast
    with written_leaf(1)[OF m] clean_prefix[of p q] clean that show False by (auto simp: strict_prefix_def)
  qed
  with apply_remove_succeeds[of p t] clean obtain t' where t': "apply_remove t p = (Inr (), t')"
    "\<And>q. leaf_at t' q = (if prefix p q then None else leaf_at t q)"
    "\<And>q. seen t' q = None \<or> seen t' q = seen t q" by blast
  have "leaf_at t' q = leaf_at work q"
    if q: "q \<notin> removed_paths seed work" "q \<notin> written_paths seed work" "q \<notin> temporaries seed work" for q
  proof (cases "prefix p q")
    case True
    with p(1) q(1) have "strict_prefix p q" by (auto simp: strict_prefix_def)
    then have "leaf_at seed q = None"
      using leaf_apart[of seed p _ q] p(1) by (auto simp: removed_paths_def)
    with q(2) have "leaf_at work q = None" by (auto simp: written_paths_def)
    with True show ?thesis by (simp add: t'(2))
  qed (use partlyD(2)[OF t q] t'(2) in simp)
  moreover have "leaves t' \<subseteq> D \<union> temporaries seed work"
    using t by (auto simp: partly_def leaves_def t'(2) split: if_splits)
  moreover have "clean_path q" if "seen t' q = Some None" for q
    using t'(3)[of q] that partlyD(3)[OF t, of q] by auto
  ultimately have "partly seed work D t'" by (simp add: partly_def)
  with t' show ?thesis by blast
qed

section \<open>One write\<close>

lemma write_partly:
  assumes m: "mergeable seed work" and t: "partly seed work (leaves seed \<union> leaves work) t"
    and gone: "\<And>r. r \<in> removed_paths seed work \<Longrightarrow> leaf_at t r = None"
    and p: "p \<in> written_paths seed work"
  shows "\<exists>t'. apply_write fresh work p t p = (Inr (), t') \<and>
    partly seed work (leaves seed \<union> leaves work) t' \<and>
    (\<forall>q. leaf_at t' q = (if q = p then leaf_at work p
       else if q = temporary p \<or> prefix p q \<or> prefix q p then None else leaf_at t q))"
proof -
  note clean = mergeable_clean(2)[OF m touched_leaves(2)[OF p]]
  obtain l where l: "leaf_at work p = Some l" using p by (auto simp: written_paths_def)
  then obtain n where n: "look work p = Inr n" "leaf_of n = Some l"
    by (auto simp: leaf_at_Some dest: look_Inr)
  with l p m have movable: "movable n" by (cases n) (auto simp: mergeable_def movable_def)
  have above: "leaf_at t q = None" if "strict_prefix q p" for q
  proof (rule ccontr)
    assume leaf: "leaf_at t q \<noteq> None"
    have q: "q \<in> leaves seed \<union> leaves work \<or> q \<in> temporaries seed work"
      using partlyD(1)[OF t leaf] .
    have "q \<notin> removed_paths seed work" using gone leaf by auto
    note q = q this
    have "q \<notin> leaves work"
      using leaf_apart[OF l] that by (auto simp: leaves_def)
    moreover have "q \<notin> temporaries seed work"
      using written_leaf(1)[OF m] clean_prefix[of p q] clean that by (auto simp: strict_prefix_def)
    ultimately show False using q by (auto simp: removed_paths_def leaves_def)
  qed
  have "seen t (temporary p) \<noteq> Some None"
    using partlyD(3)[OF t, of "temporary p"] temporary_not_clean[of p "[]"] clean by auto
  from apply_write_succeeds[OF _ _ this n(1) movable, of fresh] clean above obtain t' where
    t': "apply_write fresh work p t p = (Inr (), t')"
      "\<And>q. seen t' q = (if q = p then Some (leaf_of n) else if q = temporary p \<or> strict_prefix p q then None
        else if strict_prefix q p then Some None else seen t q)" by blast
  have leaf: "leaf_at t' q = (if q = p then leaf_at work p
      else if q = temporary p \<or> prefix p q \<or> prefix q p then None else leaf_at t q)" for q
    using l n(2) by (auto simp: leaf_at_def[of t'] leaf_at_def[of t] t'(2) strict_prefix_def)
  have "leaf_at t' q = leaf_at work q"
    if q: "q \<notin> removed_paths seed work" "q \<notin> written_paths seed work" "q \<notin> temporaries seed work" for q
  proof (cases "prefix p q \<or> prefix q p")
    case True
    with p q(2) have "strict_prefix p q \<or> strict_prefix q p" by (auto simp: strict_prefix_def)
    then have "leaf_at work q = None"
      using leaf_apart[OF l, of q] by blast
    with True q(2) p show ?thesis by (auto simp: leaf)
  next
    case False
    moreover have "q \<noteq> temporary p" using q(3) p by (auto simp: temporaries_def)
    ultimately show ?thesis using partlyD(2)[OF t q] q(2) p by (auto simp: leaf)
  qed
  moreover have "leaves t' \<subseteq> leaves seed \<union> leaves work \<union> temporaries seed work"
    using t touched_leaves(2)[OF p] by (auto simp: partly_def leaves_def leaf split: if_splits)
  moreover have "clean_path q" if "seen t' q = Some None" for q
    using that t'(2)[of q] n(2) partlyD(3)[OF t, of q] clean clean_prefix[of p q]
    by (auto simp: strict_prefix_def split: if_splits)
  ultimately have "partly seed work (leaves seed \<union> leaves work) t'" by (simp add: partly_def)
  with t'(1) leaf show ?thesis by blast
qed


section \<open>All the records\<close>

lemma apply_records_append:
  "apply_records sha1 fresh work t (rs @ ss) = (case apply_records sha1 fresh work t rs of
     (Inl e, t') \<Rightarrow> (Inl e, t') | (Inr u, t') \<Rightarrow> apply_records sha1 fresh work t' ss)"
  by (induction rs arbitrary: t) (auto split: prod.split sum.split)

lemma touched_components:
  assumes "mergeable seed work" "p \<in> removed_paths seed work \<union> written_paths seed work"
  shows "components (slashed p) = p"
proof -
  from assms(2) touched_leaves have "p \<in> leaves seed \<or> p \<in> leaves work" by blast
  with assms(1) leaf_at_root[of seed p] leaf_at_root[of work p] have "\<forall>x \<in> set p. good_name x"
    unfolding mergeable_def leaves_def by blast
  then show ?thesis by simp
qed

lemma removes_partly:
  assumes m: "mergeable seed work"
    and above: "\<forall>p \<in> removed_paths seed work. \<forall>d \<in> D. \<not> strict_prefix d p"
  shows "partly seed work D t \<Longrightarrow> set R \<subseteq> slashed ` removed_paths seed work \<Longrightarrow>
    \<exists>t'. apply_records sha1 fresh work t (map Delete R) = (Inr (), t') \<and> partly seed work D t' \<and>
      (\<forall>p. slashed p \<in> set R \<longrightarrow> p \<in> removed_paths seed work \<longrightarrow> leaf_at t' p = None) \<and>
      (\<forall>q. leaf_at t q = None \<longrightarrow> leaf_at t' q = None)"
proof (induction R arbitrary: t)
  case (Cons s R)
  then obtain p where p: "s = slashed p" "p \<in> removed_paths seed work" by auto
  from remove_partly[OF m Cons.prems(1) p(2)] above p(2) obtain t1 where
    t1: "apply_remove t p = (Inr (), t1)" "partly seed work D t1"
      "\<And>q. leaf_at t1 q = (if prefix p q then None else leaf_at t q)" by blast
  from Cons.IH[OF t1(2)] Cons.prems(2) obtain t' where
    t': "apply_records sha1 fresh work t1 (map Delete R) = (Inr (), t')" "partly seed work D t'"
      "\<And>p. slashed p \<in> set R \<Longrightarrow> p \<in> removed_paths seed work \<Longrightarrow> leaf_at t' p = None"
      "\<And>q. leaf_at t1 q = None \<Longrightarrow> leaf_at t' q = None" by auto
  have "apply_records sha1 fresh work t (map Delete (s # R)) = (Inr (), t')"
    using touched_components[OF m] p by (simp add: t1(1) t'(1))
  moreover have "leaf_at t' q = None" if "slashed q \<in> set (s # R)" "q \<in> removed_paths seed work" for q
  proof (cases "slashed q \<in> set R")
    case False
    with that(1) p(1) have "slashed q = slashed p" by simp
    with touched_components[OF m] that(2) p(2) have "q = p" by (metis UnI1)
    with t1(3) t'(4) show ?thesis by simp
  qed (use t'(3) that(2) in blast)
  moreover have "leaf_at t' q = None" if "leaf_at t q = None" for q
    using t'(4)[of q] t1(3)[of q] that by auto
  ultimately show ?case using t'(2) by blast
qed auto

text \<open>The record a write is logged as.\<close>

definition moves :: "node \<Rightarrow> node \<Rightarrow> wal_record set" where
  "moves seed work = {Move (slashed p) (slashed p) h |p h. p \<in> written_paths seed work}"

definition logs :: "wal_record list \<Rightarrow> path \<Rightarrow> bool" where
  "logs recs p \<longleftrightarrow> (\<exists>h. Move (slashed p) (slashed p) h \<in> set recs)"

lemma move_applies:
  assumes "mergeable seed work" "p \<in> written_paths seed work"
  shows "apply_record sha1 fresh work t (Move (slashed p) (slashed p) h) = apply_write (fresh (slashed p)) work p t p"
proof -
  have "leaf_at work p \<noteq> None" using assms(2) by (auto simp: written_paths_def)
  then obtain n where "look work p = Inr n" unfolding leaf_at_iff by blast
  then show ?thesis using touched_components[OF assms(1)] assms(2) by (simp add: write_record_def Let_def)
qed

lemma writes_partly:
  assumes m: "mergeable seed work"
  shows "partly seed work (leaves seed \<union> leaves work) t \<Longrightarrow>
    (\<forall>r \<in> removed_paths seed work. leaf_at t r = None) \<Longrightarrow> set recs \<subseteq> moves seed work \<Longrightarrow>
    \<exists>t'. apply_records sha1 fresh work t recs = (Inr (), t') \<and>
      partly seed work (leaves seed \<union> leaves work) t' \<and>
      (\<forall>r \<in> removed_paths seed work. leaf_at t' r = None) \<and>
      (\<forall>q \<in> written_paths seed work. leaf_at t q = leaf_at work q \<or> logs recs q \<longrightarrow>
        leaf_at t' q = leaf_at work q) \<and>
      (\<forall>q \<in> written_paths seed work. leaf_at t (temporary q) = None \<or> logs recs q \<longrightarrow>
        leaf_at t' (temporary q) = None)"
proof (induction recs arbitrary: t)
  case (Cons r recs)
  from Cons.prems(3) obtain p h where r: "r = Move (slashed p) (slashed p) h" "p \<in> written_paths seed work"
    by (auto simp: moves_def)
  from write_partly[OF m Cons.prems(1) _ r(2), of "fresh (slashed p)"] Cons.prems(2) obtain t1 where
    t1: "apply_write (fresh (slashed p)) work p t p = (Inr (), t1)"
      "partly seed work (leaves seed \<union> leaves work) t1"
      "\<And>q. leaf_at t1 q = (if q = p then leaf_at work p
         else if q = temporary p \<or> prefix p q \<or> prefix q p then None else leaf_at t q)" by blast
  obtain l where l: "leaf_at work p = Some l" using r(2) by (auto simp: written_paths_def)
  have gone: "leaf_at t1 q = None" if "q \<in> removed_paths seed work" for q
    using that r(2) Cons.prems(2) by (auto simp: t1(3) removed_paths_def written_paths_def)
  have kept: "leaf_at t1 q = leaf_at work q"
    if "q \<in> written_paths seed work" "leaf_at t q = leaf_at work q \<or> q = p" for q
  proof (cases "q = p")
    case False
    have w: "leaf_at work q \<noteq> None" using that(1) by (auto simp: written_paths_def)
    then have "q \<noteq> temporary p"
      using written_leaf(3)[OF m, of "temporary p"] r(2) by (auto simp: temporaries_def leaves_def)
    moreover have "\<not> prefix p q" "\<not> prefix q p"
      using leaf_apart[OF l, of q] w False by (auto simp: strict_prefix_def)
    ultimately show ?thesis using that False by (simp add: t1(3))
  qed (simp add: t1(3))
  have temp: "leaf_at t1 (temporary q) = None"
    if "q \<in> written_paths seed work" "leaf_at t (temporary q) = None \<or> q = p" for q
  proof -
    have "temporary q \<noteq> p"
      using written_leaf(3)[OF m, of "temporary q"] that(1) touched_leaves(2)[OF r(2)] by (auto simp: temporaries_def)
    with that(2) show ?thesis by (auto simp: t1(3))
  qed
  have "\<forall>r \<in> removed_paths seed work. leaf_at t1 r = None" "set recs \<subseteq> moves seed work"
    using gone Cons.prems(3) by auto
  obtain t' where
    t': "apply_records sha1 fresh work t1 recs = (Inr (), t')"
      "partly seed work (leaves seed \<union> leaves work) t'"
      "\<forall>r \<in> removed_paths seed work. leaf_at t' r = None"
      "\<forall>q \<in> written_paths seed work. leaf_at t1 q = leaf_at work q \<or> logs recs q \<longrightarrow>
        leaf_at t' q = leaf_at work q"
      "\<forall>q \<in> written_paths seed work. leaf_at t1 (temporary q) = None \<or> logs recs q \<longrightarrow>
        leaf_at t' (temporary q) = None"
    using Cons.IH[OF t1(2) \<open>\<forall>r \<in> removed_paths seed work. leaf_at t1 r = None\<close> \<open>set recs \<subseteq> moves seed work\<close>]
    by (elim exE conjE)
  have same: "q = p" if "q \<in> written_paths seed work" "slashed q = slashed p" for q
    using touched_components[OF m] that r(2) by (metis UnI2)
  show ?case
  proof (intro exI[of _ t'] conjI ballI impI)
    show "apply_records sha1 fresh work t (r # recs) = (Inr (), t')"
      using move_applies[OF m r(2), of sha1 fresh t h] by (simp add: r(1) t1(1) t'(1) del: apply_record.simps)
  next
    show "partly seed work (leaves seed \<union> leaves work) t'" by (rule t'(2))
  next
    fix r assume "r \<in> removed_paths seed work"
    with t'(3) show "leaf_at t' r = None" by blast
  next
    fix q assume q: "q \<in> written_paths seed work"
      "leaf_at t q = leaf_at work q \<or> logs (r # recs) q"
    then have "leaf_at t1 q = leaf_at work q \<or> logs recs q"
      using kept[OF q(1)] same[OF q(1)] unfolding logs_def r(1) by auto
    with t'(4) q(1) show "leaf_at t' q = leaf_at work q" by blast
  next
    fix q assume q: "q \<in> written_paths seed work"
      "leaf_at t (temporary q) = None \<or> logs (r # recs) q"
    then have "leaf_at t1 (temporary q) = None \<or> logs recs q"
      using temp[OF q(1)] same[OF q(1)] unfolding logs_def r(1) by auto
    with t'(5) q(1) show "leaf_at t' (temporary q) = None" by blast
  qed
qed (auto simp: logs_def)


section \<open>A whole plan\<close>

text \<open>
  The records of the operations of a diff: the removals, then the writes, each write with the hash
  of its content.
\<close>

definition planned :: "(bytes \<Rightarrow> string) \<Rightarrow> node \<Rightarrow> node \<Rightarrow> commit_op list \<Rightarrow> wal_record list \<Rightarrow> bool" where
  "planned sha1 seed work ops recs \<longleftrightarrow>
     diff_trees seed work = Inr ops \<and> try_map (op_record sha1 work) ops = Inr recs"

lemma try_map_append:
  "try_map f (xs @ ys) = and_then (try_map f xs) (\<lambda>us. and_then (try_map f ys) (\<lambda>vs. Inr (us @ vs)))"
proof (induction xs)
  case Nil
  show ?case by (cases "try_map f ys") simp_all
next
  case (Cons x xs)
  then show ?case by (cases "f x"; cases "try_map f xs"; cases "try_map f ys") simp_all
qed

lemma op_record_remove: "try_map (op_record sha1 work) (map Remove R) = Inr (map Delete R)"
  by (induction R) (simp_all add: op_record_def)

lemma op_record_write:
  assumes "mergeable seed work"
  shows "set W \<subseteq> slashed ` written_paths seed work \<Longrightarrow>
    \<exists>hs. try_map (op_record sha1 work) (map Write W) = Inr (map2 (\<lambda>s h. Move s s h) W hs) \<and> length hs = length W"
proof (induction W)
  case (Cons s W)
  then obtain hs where hs: "try_map (op_record sha1 work) (map Write W) = Inr (map2 (\<lambda>s h. Move s s h) W hs)"
    "length hs = length W" by auto
  from Cons.prems obtain p where p: "s = slashed p" "p \<in> written_paths seed work" by auto
  then have "leaf_at work p \<noteq> None" by (auto simp: written_paths_def)
  then obtain n where n: "look work p = Inr n" unfolding leaf_at_iff by blast
  have "components s = p" using touched_components[OF assms] p by simp
  with n obtain h where "op_record sha1 work (Write s) = Inr (Move s s h)"
    by (cases n) (simp_all add: op_record_def content_hash_def)
  with hs show ?case by (intro exI[of _ "h # hs"]) simp
qed simp

lemma operations_of_moves:
  "length hs = length W \<Longrightarrow> List.map_filter wal_operation (map2 (\<lambda>s h. Move s s h) W hs) = map Write W"
  by (induction hs W rule: list_induct2) (simp_all add: List.map_filter_def)

text \<open>The shape of a plan.\<close>

lemma plan_shape:
  assumes m: "mergeable seed work" "identity_sound seed work" and p: "planned sha1 seed work ops recs"
  shows "\<exists>R M. recs = map Delete R @ M \<and> set R = slashed ` removed_paths seed work \<and>
    set M \<subseteq> moves seed work \<and> (\<forall>q \<in> written_paths seed work. logs M q) \<and>
    List.map_filter wal_operation recs = ops \<and> length recs = length ops"
proof -
  from m have wf: "well_formed seed" "is_dir seed" "well_formed work" "is_dir work"
    by (simp_all add: mergeable_def)
  obtain R W where d: "diff_trees seed work = Inr (map Remove R @ map Write W)"
    "set R = slashed ` removed_paths seed work" "set W = slashed ` written_paths seed work"
    by (rule diff_trees_spec[OF wf m(2)])
  from op_record_write[OF m(1) equalityD1[OF d(3)], of sha1] obtain hs where
    hs: "try_map (op_record sha1 work) (map Write W) = Inr (map2 (\<lambda>s h. Move s s h) W hs)" "length hs = length W"
    by blast
  let ?W = "map2 (\<lambda>s h. Move s s h) W hs"
  have ops: "ops = map Remove R @ map Write W" using p d(1) by (simp add: planned_def)
  have recs: "recs = map Delete R @ ?W"
    using p hs(1) by (simp add: planned_def ops try_map_append op_record_remove)
  show ?thesis
  proof (intro exI conjI ballI)
    show "recs = map Delete R @ ?W" by (rule recs)
    show "set R = slashed ` removed_paths seed work" by (rule d(2))
    show "set ?W \<subseteq> moves seed work"
      using d(3) by (fastforce simp: moves_def dest: set_zip_leftD)
    show "logs ?W q" if "q \<in> written_paths seed work" for q
    proof -
      from that d(3) obtain i where "i < length W" "W ! i = slashed q" by (metis imageI in_set_conv_nth)
      with hs(2) have "?W ! i = Move (slashed q) (slashed q) (hs ! i)" "i < length ?W" by simp_all
      then show ?thesis unfolding logs_def by (metis nth_mem)
    qed
    have "List.map_filter wal_operation (map Delete R) = map Remove R"
      by (induction R) (simp_all add: List.map_filter_def)
    moreover have "List.map_filter wal_operation ?W = map Write W"
      by (rule operations_of_moves[OF hs(2)])
    ultimately show "List.map_filter wal_operation recs = ops"
      by (simp add: recs ops List.map_filter_def)
    show "length recs = length ops" by (simp add: recs ops hs(2))
  qed
qed


lemma plan_records:
  assumes m: "mergeable seed work" "identity_sound seed work" and p: "planned sha1 seed work ops recs"
  shows "\<exists>R M. recs = map Delete R @ M \<and> set R = slashed ` removed_paths seed work \<and>
    set M \<subseteq> moves seed work \<and> (\<forall>q \<in> written_paths seed work. logs M q)"
  using plan_shape[OF m p] by (elim exE conjE) (intro exI conjI)

lemma plan_operations:
  assumes m: "mergeable seed work" "identity_sound seed work" and p: "planned sha1 seed work ops recs"
  shows "List.map_filter wal_operation recs = ops \<and> length recs = length ops"
  using plan_shape[OF m p] by (elim exE conjE) (intro conjI)

lemma removed_above: "\<forall>p \<in> removed_paths seed work. \<forall>d \<in> leaves seed. \<not> strict_prefix d p"
  using leaves_prefix_free[of seed] touched_leaves(1)[of _ seed work] by (auto simp: leaves_def)

text \<open>
  Applied to any state on the way, the whole plan leaves exactly the snapshot's leaves, if no
  leaf the state may have is above a path to remove.
\<close>

lemma plan_applies:
  assumes m: "mergeable seed work" "identity_sound seed work" "planned sha1 seed work ops recs"
    and t: "partly seed work D t" "D \<subseteq> leaves seed \<union> leaves work"
    and above: "\<forall>p \<in> removed_paths seed work. \<forall>d \<in> D. \<not> strict_prefix d p"
  shows "\<exists>t'. apply_records sha1 fresh work t recs = (Inr (), t') \<and> leaf_at t' = leaf_at work \<and>
    partly seed work (leaves seed \<union> leaves work) t'"
proof -
  obtain R M where shape: "recs = map Delete R @ M" "set R = slashed ` removed_paths seed work"
    "set M \<subseteq> moves seed work" "\<forall>q \<in> written_paths seed work. logs M q"
    using plan_records[OF m] by (elim exE conjE)
  obtain t1 where t1: "apply_records sha1 fresh work t (map Delete R) = (Inr (), t1)" "partly seed work D t1"
    "\<forall>p. slashed p \<in> set R \<longrightarrow> p \<in> removed_paths seed work \<longrightarrow> leaf_at t1 p = None"
    using removes_partly[OF m(1) above t(1) equalityD1[OF shape(2)], of sha1 fresh] by (elim exE conjE)
  have gone: "\<forall>r \<in> removed_paths seed work. leaf_at t1 r = None" using t1(3) shape(2) by blast
  obtain t' where t': "apply_records sha1 fresh work t1 M = (Inr (), t')"
    "partly seed work (leaves seed \<union> leaves work) t'" "\<forall>r \<in> removed_paths seed work. leaf_at t' r = None"
    "\<forall>q \<in> written_paths seed work. leaf_at t1 q = leaf_at work q \<or> logs M q \<longrightarrow> leaf_at t' q = leaf_at work q"
    "\<forall>q \<in> written_paths seed work. leaf_at t1 (temporary q) = None \<or> logs M q \<longrightarrow> leaf_at t' (temporary q) = None"
    using writes_partly[OF m(1) partly_mono[OF t1(2) t(2)] gone shape(3), of sha1 fresh] by (elim exE conjE)
  have "leaf_at t' q = leaf_at work q" for q
  proof (cases "q \<in> removed_paths seed work \<or> q \<in> temporaries seed work")
    case True
    then have "leaf_at t' q = None" using t'(3,5) shape(4) by (auto simp: temporaries_def)
    moreover have "leaf_at work q = None"
      using True written_leaf(3)[OF m(1), of q] by (auto simp: removed_paths_def leaves_def)
    ultimately show ?thesis by simp
  next
    case False
    with partlyD(2)[OF t'(2), of q] t'(4) shape(4) show ?thesis by blast
  qed
  moreover have "apply_records sha1 fresh work t recs = (Inr (), t')"
    by (simp add: shape(1) apply_records_append t1(1) t'(1))
  ultimately show ?thesis using t'(2) by blast
qed

lemma plan_applies_seed:
  assumes m: "mergeable seed work" "identity_sound seed work" "planned sha1 seed work ops recs"
  shows "\<exists>t'. apply_records sha1 fresh work seed recs = (Inr (), t') \<and> leaf_at t' = leaf_at work \<and>
    partly seed work (leaves seed \<union> leaves work) t'"
  by (rule plan_applies[OF m seed_partly[OF m(1)] Un_upper1 removed_above])

text \<open>Every number of records leaves a state on the way.\<close>

lemma plan_prefix:
  assumes m: "mergeable seed work" "identity_sound seed work" "planned sha1 seed work ops recs"
  shows "\<exists>t. apply_records sha1 fresh work seed (take k recs) = (Inr (), t) \<and>
    partly seed work (leaves seed \<union> leaves work) t"
proof -
  obtain R M where shape: "recs = map Delete R @ M" "set R = slashed ` removed_paths seed work"
    "set M \<subseteq> moves seed work"
    using plan_records[OF m] by (elim exE conjE)
  have sub: "set (take k R) \<subseteq> slashed ` removed_paths seed work"
    by (rule order.trans[OF set_take_subset equalityD1[OF shape(2)]])
  obtain t1 where t1: "apply_records sha1 fresh work seed (map Delete (take k R)) = (Inr (), t1)"
    "partly seed work (leaves seed) t1"
    "\<forall>p. slashed p \<in> set (take k R) \<longrightarrow> p \<in> removed_paths seed work \<longrightarrow> leaf_at t1 p = None"
    using removes_partly[OF m(1) removed_above seed_partly[OF m(1)] sub, of sha1 fresh] by (elim exE conjE)
  note t1' = partly_mono[OF t1(2), of "leaves seed \<union> leaves work"]
  show ?thesis
  proof (cases "k \<le> length R")
    case True
    with t1(1) t1' show ?thesis by (simp add: shape(1) take_map)
  next
    case False
    then have all: "take k R = R" by simp
    have gone: "\<forall>r \<in> removed_paths seed work. leaf_at t1 r = None" using t1(3) shape(2) all by auto
    have some: "set (take (k - length R) M) \<subseteq> moves seed work"
      by (rule order.trans[OF set_take_subset shape(3)])
    obtain t where
      "apply_records sha1 fresh work t1 (take (k - length R) M) = (Inr (), t)"
      "partly seed work (leaves seed \<union> leaves work) t"
      using writes_partly[OF m(1) t1'[OF Un_upper1] gone some, of sha1 fresh] by (elim exE conjE)
    with t1(1) False show ?thesis by (simp add: shape(1) apply_records_append all take_map[symmetric])
  qed
qed

section \<open>The middle of a record\<close>

text \<open>
  What a crash in the middle of one record may leave: of a removal, any part of the entry and of
  the emptied directories above it gone; of a write, directories created, the temporary with any
  content, and any part of what was at the target gone. The target itself is replaced by one rename.
\<close>

definition midway :: "wal_record \<Rightarrow> node \<Rightarrow> node \<Rightarrow> bool" where
  "midway r t t' \<longleftrightarrow> (case r of
     Delete path \<Rightarrow> (\<forall>q. seen t' q = None \<or> seen t' q = seen t q) \<and>
       (\<forall>q. \<not> prefix (components path) q \<longrightarrow> leaf_at t' q = leaf_at t q)
   | Move from onto hash \<Rightarrow>
       (\<forall>q. q \<noteq> temporary (components onto) \<longrightarrow>
          leaf_at t' q = leaf_at t q \<or> prefix (components onto) q \<and> leaf_at t' q = None) \<and>
       (\<forall>q. seen t' q = Some None \<longrightarrow> seen t q = Some None \<or> strict_prefix q (components onto))
   | _ \<Rightarrow> t' = t)"

lemma midway_partly:
  assumes m: "mergeable seed work" "identity_sound seed work" "planned sha1 seed work ops recs" "r \<in> set recs"
    and t: "partly seed work (leaves seed \<union> leaves work) t" "midway r t t'"
  shows "partly seed work (leaves seed \<union> leaves work) t'"
proof -
  obtain R M where shape: "recs = map Delete R @ M" "set R = slashed ` removed_paths seed work"
    "set M \<subseteq> moves seed work" using plan_records[OF m(1-3)] by (elim exE conjE)
  from m(4) shape consider
    p where "r = Delete (slashed p)" "p \<in> removed_paths seed work" |
    p h where "r = Move (slashed p) (slashed p) h" "p \<in> written_paths seed work"
    by (auto simp: moves_def)
  then show ?thesis
  proof cases
    case 1
    have p: "components (slashed p) = p" using touched_components[OF m(1)] 1(2) by blast
    have t': "seen t' q = None \<or> seen t' q = seen t q" "\<not> prefix p q \<Longrightarrow> leaf_at t' q = leaf_at t q" for q
      using t(2) by (auto simp: midway_def 1(1) p)
    have "leaf_at t' q = leaf_at work q"
      if q: "q \<notin> removed_paths seed work" "q \<notin> written_paths seed work" "q \<notin> temporaries seed work" for q
    proof (cases "prefix p q")
      case True
      with 1(2) q(1) have "strict_prefix p q" by (auto simp: strict_prefix_def)
      then have "leaf_at seed q = None" using leaf_apart[of seed p _ q] 1(2) by (auto simp: removed_paths_def)
      with q(2) have w: "leaf_at work q = None" by (auto simp: written_paths_def)
      with partlyD(2)[OF t(1) q] t'(1)[of q] show ?thesis by (auto simp: leaf_at_def)
    qed (use partlyD(2)[OF t(1) q] t'(2) in simp)
    moreover have "leaf_at t q \<noteq> None" if "leaf_at t' q \<noteq> None" for q
      using t'(1)[of q] that by (auto simp: leaf_at_def)
    then have "leaves t' \<subseteq> leaves t" by (auto simp: leaves_def)
    moreover have "clean_path q" if "seen t' q = Some None" for q
      using t'(1)[of q] that partlyD(3)[OF t(1), of q] by auto
    ultimately show ?thesis using t(1) by (auto simp: partly_def)
  next
    case 2
    have p: "components (slashed p) = p" using touched_components[OF m(1)] 2(2) by blast
    note clean = mergeable_clean(2)[OF m(1) touched_leaves(2)[OF 2(2)]]
    have t': "q \<noteq> temporary p \<Longrightarrow> leaf_at t' q = leaf_at t q \<or> prefix p q \<and> leaf_at t' q = None"
      "seen t' q = Some None \<Longrightarrow> seen t q = Some None \<or> strict_prefix q p" for q
      using t(2) by (auto simp: midway_def 2(1) p)
    have temp: "temporary p \<in> temporaries seed work" using 2(2) by (simp add: temporaries_def)
    have "leaf_at t' q = leaf_at work q"
      if q: "q \<notin> removed_paths seed work" "q \<notin> written_paths seed work" "q \<notin> temporaries seed work" for q
    proof -
      have "leaf_at work q = None" if "prefix p q"
        using leaf_apart[of work p _ q] that 2(2) q(2) by (auto simp: written_paths_def strict_prefix_def)
      moreover have "q \<noteq> temporary p" using temp q(3) by auto
      ultimately show ?thesis using t'(1)[of q] partlyD(2)[OF t(1) q] by auto
    qed
    moreover have "q \<in> leaves t \<or> q = temporary p" if "q \<in> leaves t'" for q
      using t'(1)[of q] that unfolding leaves_def mem_Collect_eq by metis
    then have "leaves t' \<subseteq> leaves seed \<union> leaves work \<union> temporaries seed work"
      using t(1) temp by (auto simp: partly_def)
    moreover have "clean_path q" if "seen t' q = Some None" for q
      using t'(2)[OF that] partlyD(3)[OF t(1), of q] clean clean_prefix[of p q] by (auto simp: strict_prefix_def)
    ultimately show ?thesis by (simp add: partly_def)
  qed
qed

end
