(* ===== verification/Recovery.thy ===== *)
theory Recovery
  imports Replay
begin

text \<open>
  What recovery makes of a session that crashed: the states a crash during one transaction leaves
  on disk, and that recovery takes every one of them to the session before the transaction or to
  the session after it.
\<close>

lemma log_open_Some [simp]: "log_open (Some bs) = bs"
  by (simp add: log_open_def)

section \<open>Reading transactions back\<close>

definition intent :: "nat \<Rightarrow> string \<Rightarrow> string \<Rightarrow> string \<Rightarrow> event list \<Rightarrow> commit_op list \<Rightarrow> wal_record list \<Rightarrow> wal_record list" where
  "intent seq uid who cmd events ops recs =
     Begin seq uid who cmd (map history_event_of events) (Some (length ops)) # recs"

definition opened :: "nat \<Rightarrow> string \<Rightarrow> string \<Rightarrow> string \<Rightarrow> event list \<Rightarrow> commit_op list \<Rightarrow> wal_record list \<Rightarrow> bool \<Rightarrow> transaction" where
  "opened seq uid who cmd events ops recs finished =
     \<lparr>tr_seq = seq, tr_uid = uid, tr_principal = who, tr_cmd = cmd,
      tr_events = map history_event_of events, tr_op_count = Some (length ops),
      tr_records = recs, tr_finished = finished\<rparr>"

lemma opened_sel [simp]:
  "tr_seq (opened seq uid who cmd events ops recs fin) = seq"
  "tr_uid (opened seq uid who cmd events ops recs fin) = uid"
  "tr_principal (opened seq uid who cmd events ops recs fin) = who"
  "tr_cmd (opened seq uid who cmd events ops recs fin) = cmd"
  "tr_events (opened seq uid who cmd events ops recs fin) = map history_event_of events"
  "tr_op_count (opened seq uid who cmd events ops recs fin) = Some (length ops)"
  "tr_records (opened seq uid who cmd events ops recs fin) = recs"
  "tr_finished (opened seq uid who cmd events ops recs fin) = fin"
  by (simp_all add: opened_def)

definition operations :: "wal_record list \<Rightarrow> bool" where
  "operations recs \<longleftrightarrow> (\<forall>r \<in> set recs. wal_operation r \<noteq> None)"

lemma track_operations:
  "operations recs \<Longrightarrow> foldl track (ts @ [t]) recs = ts @ [t\<lparr>tr_records := tr_records t @ recs\<rparr>]"
proof (induction recs arbitrary: t)
  case (Cons r recs)
  then have "track (ts @ [t]) r = ts @ [t\<lparr>tr_records := tr_records t @ [r]\<rparr>]"
    by (cases r) (auto simp: operations_def push_record_def)
  with Cons show ?case by (simp add: operations_def)
qed simp

lemma track_intent:
  "operations recs \<Longrightarrow> foldl track ts (intent seq uid who cmd events ops recs) =
     ts @ [opened seq uid who cmd events ops recs False]"
  by (simp add: intent_def opened_def track_operations)

lemma track_end: "tr_seq t = seq \<Longrightarrow> track (ts @ [t]) (End seq) = ts @ [t\<lparr>tr_finished := True\<rparr>]"
  by simp

lemma transactions_intent:
  assumes "operations recs"
  shows "transactions_of (wrs @ intent seq uid who cmd events ops recs) =
      transactions_of wrs @ [opened seq uid who cmd events ops recs False]"
    and "transactions_of (wrs @ intent seq uid who cmd events ops recs @ [End seq]) =
      transactions_of wrs @ [opened seq uid who cmd events ops recs True]"
  by (simp_all add: transactions_of_def track_intent[OF assms] track_end opened_def del: track.simps(2))

section \<open>Transactions that are done with\<close>

definition settled :: "nat set \<Rightarrow> transaction \<Rightarrow> bool" where
  "settled remembered t \<longleftrightarrow> validate t = None \<and> (incomplete t \<or> tr_finished t \<and> tr_seq t \<in> remembered)"

lemma settled_mono: "settled remembered t \<Longrightarrow> remembered \<subseteq> remembered' \<Longrightarrow> settled remembered' t"
  by (auto simp: settled_def)

lemma validate_all_valid: "(\<forall>t \<in> set ts. validate t = None) \<Longrightarrow> validate_all ts = Inr ()"
  by (induction ts) auto

lemma replay_settled:
  "(\<forall>t \<in> set ts. settled remembered t) \<Longrightarrow>
   replay sha1 fresh ser hser remembered st (ts @ us) = replay sha1 fresh ser hser remembered st us"
  by (induction ts) (auto simp: settled_def finish_transaction_def remember_transaction_def)

text \<open>
  A session at rest: the logs hold whole records, and every logged transaction is done with.
\<close>

definition consistent ::
  "(wal_record \<Rightarrow> bytes option) \<Rightarrow> (history_record \<Rightarrow> bytes option) \<Rightarrow> store \<Rightarrow> wal_record list \<Rightarrow>
   history_record list \<Rightarrow> bool" where
  "consistent ser hser st wrs hrs \<longleftrightarrow>
     log_open (st_wal st) = stored ser wrs \<and> log_open (st_history st) = stored hser hrs \<and>
     (\<forall>t \<in> set (transactions_of wrs). settled (hr_seq ` set hrs) t)"

text \<open>Recovery reads both logs, cuts their torn tails, and replays what is not done with.\<close>

lemma recover_replays:
  assumes "codec ser de" "codec hser hde" "log_holds ser (st_wal st) wrs" "log_holds hser (st_history st) hrs"
    and "wrs \<noteq> []" "\<forall>t \<in> set (transactions_of wrs). validate t = None"
  shows "\<exists>h. log_open h = stored hser hrs \<and> recover sha1 fresh ser de hser hde st =
    replay sha1 fresh ser hser (hr_seq ` set hrs)
      (st\<lparr>st_history := h, st_wal := Some (stored ser wrs)\<rparr>) (transactions_of wrs)"
proof -
  from log_read_holds[OF assms(1,3)] obtain w where
    w: "log_read de (st_wal st) = (Inr wrs, w)" "log_open w = stored ser wrs" by blast
  from log_read_holds[OF assms(2,4)] obtain h where
    h: "log_read hde (st_history st) = (Inr hrs, h)" "log_open h = stored hser hrs" by blast
  have "recover sha1 fresh ser de hser hde st =
    replay sha1 fresh ser hser (hr_seq ` set hrs)
      (st\<lparr>st_history := h, st_wal := Some (stored ser wrs)\<rparr>) (transactions_of wrs)"
    by (simp add: recover_def w h assms(5) validate_all_valid[OF assms(6)] committed_sequences_def)
  with h(2) show ?thesis by blast
qed

lemma recover_empty:
  assumes "codec ser de" "log_holds ser (st_wal st) []"
  shows "\<exists>w. log_open w = [] \<and> recover sha1 fresh ser de hser hde st = (Inr (), st\<lparr>st_wal := w\<rparr>)"
  using log_read_holds[OF assms] by (auto simp: recover_def)


section \<open>Crashes\<close>

text \<open>
  One transaction of job \<open>uid\<close>: what it logs, and the store a crash leaves in the middle of it. The
  intent may be torn; some records may be applied and the next one half; the closing record or the
  history entry may be torn. A log only ever carries a prefix of what was being appended.
\<close>

record transaction_input =
  in_uid :: string
  in_seq :: nat
  in_principal :: string
  in_cmd :: string
  in_events :: "event list"
  in_ops :: "commit_op list"
  in_recs :: "wal_record list"

definition intent_of :: "transaction_input \<Rightarrow> wal_record list" where
  "intent_of i = intent (in_seq i) (in_uid i) (in_principal i) (in_cmd i) (in_events i) (in_ops i) (in_recs i)"

definition entry_for :: "transaction_input \<Rightarrow> history_record" where
  "entry_for i = history_record_of (in_seq i) (in_principal i) (in_cmd i) (in_events i) (in_ops i)"

definition logged :: "store \<Rightarrow> bytes \<Rightarrow> node \<Rightarrow> store" where
  "logged st bs seed = st\<lparr>st_wal := Some (log_open (st_wal st) @ bs), st_seed := seed\<rparr>"

inductive crashed ::
  "(bytes \<Rightarrow> string) \<Rightarrow> (wal_record \<Rightarrow> bytes option) \<Rightarrow> (history_record \<Rightarrow> bytes option) \<Rightarrow>
   transaction_input \<Rightarrow> store \<Rightarrow> store \<Rightarrow> bool"
  for sha1 ser hser i st where
  torn_intent: "prefix bs (stored ser (intent_of i)) \<Longrightarrow>
     crashed sha1 ser hser i st (logged st bs (st_seed st))"
| applying: "apply_records sha1 fresh (work_of st (in_uid i)) (st_seed st) (take k (in_recs i)) = (Inr (), seed) \<Longrightarrow>
     seed' = seed \<or> k < length (in_recs i) \<and> midway (in_recs i ! k) seed seed' \<Longrightarrow>
     crashed sha1 ser hser i st (logged st (stored ser (intent_of i)) seed')"
| closing: "apply_records sha1 fresh (work_of st (in_uid i)) (st_seed st) (in_recs i) = (Inr (), seed) \<Longrightarrow>
     prefix bs (stored ser [End (in_seq i)]) \<Longrightarrow>
     crashed sha1 ser hser i st (logged st (stored ser (intent_of i) @ bs) seed)"
| remembering: "apply_records sha1 fresh (work_of st (in_uid i)) (st_seed st) (in_recs i) = (Inr (), seed) \<Longrightarrow>
     prefix bs (stored hser [entry_for i]) \<Longrightarrow>
     crashed sha1 ser hser i st
       ((logged st (stored ser (intent_of i @ [End (in_seq i)])) seed)\<lparr>st_history := Some (log_open (st_history st) @ bs)\<rparr>)"

text \<open>
  A transaction the multiplexer starts: its snapshot is there, its operations are the diff of the
  seed and the snapshot, its sequence number is new, and no path it removes lies below one it
  writes.
\<close>

definition startable ::
  "(bytes \<Rightarrow> string) \<Rightarrow> store \<Rightarrow> history_record list \<Rightarrow> transaction_input \<Rightarrow> bool" where
  "startable sha1 st hrs i \<longleftrightarrow>
     (let seed = st_seed st; work = work_of st (in_uid i) in
      mergeable seed work \<and> identity_sound seed work \<and> planned sha1 seed work (in_ops i) (in_recs i) \<and>
      in_seq i \<notin> hr_seq ` set hrs)"

definition untangled :: "node \<Rightarrow> node \<Rightarrow> bool" where
  "untangled seed work \<longleftrightarrow>
     (\<forall>p \<in> removed_paths seed work. \<forall>w \<in> written_paths seed work. \<not> strict_prefix w p)"

lemma untangled_above:
  assumes "untangled seed work"
  shows "\<forall>p \<in> removed_paths seed work. \<forall>d \<in> leaves seed \<union> leaves work. \<not> strict_prefix d p"
proof (intro ballI)
  fix p d
  assume p: "p \<in> removed_paths seed work" and d: "d \<in> leaves seed \<union> leaves work"
  show "\<not> strict_prefix d p"
  proof (cases "d \<in> leaves seed")
    case True
    with removed_above p show ?thesis by blast
  next
    case False
    with d have "d \<in> written_paths seed work" by (auto simp: leaves_def written_paths_def)
    with assms p show ?thesis by (auto simp: untangled_def)
  qed
qed

lemma plan_is_operations:
  assumes "mergeable seed work" "identity_sound seed work" "planned sha1 seed work ops recs"
  shows "operations recs"
proof -
  obtain R M where "recs = map Delete R @ M" "set M \<subseteq> moves seed work"
    using plan_records[OF assms] by (elim exE conjE)
  then show ?thesis by (auto simp: operations_def moves_def)
qed

lemma startableD:
  assumes "startable sha1 st hrs i"
  shows "mergeable (st_seed st) (work_of st (in_uid i))" "identity_sound (st_seed st) (work_of st (in_uid i))"
    "planned sha1 (st_seed st) (work_of st (in_uid i)) (in_ops i) (in_recs i)" "in_seq i \<notin> hr_seq ` set hrs"
    "operations (in_recs i)" "List.map_filter wal_operation (in_recs i) = in_ops i" "length (in_recs i) = length (in_ops i)"
proof -
  from assms show m: "mergeable (st_seed st) (work_of st (in_uid i))" "identity_sound (st_seed st) (work_of st (in_uid i))"
    "planned sha1 (st_seed st) (work_of st (in_uid i)) (in_ops i) (in_recs i)" "in_seq i \<notin> hr_seq ` set hrs"
    by (simp_all add: startable_def Let_def)
  show "operations (in_recs i)" by (rule plan_is_operations[OF m(1-3)])
  show "List.map_filter wal_operation (in_recs i) = in_ops i" "length (in_recs i) = length (in_ops i)"
    using plan_operations[OF m(1-3)] by simp_all
qed


definition merged ::
  "(wal_record \<Rightarrow> bytes option) \<Rightarrow> (history_record \<Rightarrow> bytes option) \<Rightarrow> store \<Rightarrow> wal_record list \<Rightarrow>
   history_record list \<Rightarrow> transaction_input \<Rightarrow> store \<Rightarrow> bool" where
  "merged ser hser st wrs hrs i st' \<longleftrightarrow>
     leaf_at (st_seed st') = leaf_at (work_of st (in_uid i)) \<and> st_snap st' = st_snap st \<and>
     consistent ser hser st' (wrs @ intent_of i @ [End (in_seq i)]) (hrs @ [entry_for i])"

lemma operation_count_fits:
  assumes "startable sha1 st hrs i"
  shows "validate (opened seq uid who cmd events (in_ops i) (take k (in_recs i)) False) = None"
    "validate (opened seq uid who cmd events (in_ops i) (in_recs i) fin) = None"
    "\<not> incomplete (opened seq uid who cmd events (in_ops i) (in_recs i) fin)"
    "k < length (in_recs i) \<Longrightarrow> incomplete (opened seq uid who cmd events (in_ops i) (take k (in_recs i)) fin)"
  using startableD(7)[OF assms] by (auto simp: validate_def incomplete_def)

lemma settled_after:
  assumes i: "startable sha1 st hrs i"
    and T: "\<forall>t \<in> set (transactions_of wrs). settled (hr_seq ` set hrs) t"
  shows "\<forall>t \<in> set (transactions_of (wrs @ intent_of i @ [End (in_seq i)])). settled (hr_seq ` set (hrs @ [entry_for i])) t"
proof -
  have "settled (hr_seq ` set (hrs @ [entry_for i])) (opened (in_seq i) (in_uid i) (in_principal i) (in_cmd i)
      (in_events i) (in_ops i) (in_recs i) True)"
    using operation_count_fits(2)[OF i] by (simp add: settled_def entry_for_def history_record_of_def)
  moreover have "settled (hr_seq ` set (hrs @ [entry_for i])) t" if "t \<in> set (transactions_of wrs)" for t
    using settled_mono[of _ t "hr_seq ` set (hrs @ [entry_for i])"] T that by auto
  ultimately show ?thesis
    using transactions_intent(2)[OF startableD(5)[OF i], of wrs] by (simp add: intent_of_def)
qed

lemma remember_new:
  assumes "codec hser hde" "startable sha1 st hrs i" "log_open (st_history st') = stored hser hrs"
  shows "remember_transaction hser (hr_seq ` set hrs) st'
      (opened (in_seq i) (in_uid i) (in_principal i) (in_cmd i) (in_events i) (in_ops i) (in_recs i) fin) =
    (Inr (), st'\<lparr>st_history := Some (stored hser (hrs @ [entry_for i]))\<rparr>)"
  using startableD(4,6)[OF assms(2)] history_append_holds[OF assms(1,3)]
  by (simp add: remember_transaction_def entry_for_def comp_def)

lemma replay_open:
  assumes codecs: "codec ser de" "codec hser hde"
    and i: "startable sha1 st hrs i" "untangled (st_seed st) (work_of st (in_uid i))"
    and T: "\<forall>t \<in> set (transactions_of wrs). settled (hr_seq ` set hrs) t"
    and seed: "partly (st_seed st) (work_of st (in_uid i)) (leaves (st_seed st) \<union> leaves (work_of st (in_uid i))) (st_seed st')"
    and st': "st_snap st' = st_snap st" "log_open (st_wal st') = stored ser (wrs @ intent_of i)"
      "log_open (st_history st') = stored hser hrs"
  shows "\<exists>st''. replay sha1 fresh ser hser (hr_seq ` set hrs) st' (transactions_of (wrs @ intent_of i)) = (Inr (), st'') \<and>
    merged ser hser st wrs hrs i st''"
proof -
  note d = startableD[OF i(1)]
  let ?t = "opened (in_seq i) (in_uid i) (in_principal i) (in_cmd i) (in_events i) (in_ops i) (in_recs i) False"
  have work: "work_of st' (in_uid i) = work_of st (in_uid i)" by (simp add: work_of_def st'(1))
  from plan_applies[OF d(1-3) seed order.refl untangled_above[OF i(2)], of fresh] obtain s where
    s: "apply_records sha1 fresh (work_of st (in_uid i)) (st_seed st') (in_recs i) = (Inr (), s)"
      "leaf_at s = leaf_at (work_of st (in_uid i))" by blast
  let ?st1 = "st'\<lparr>st_seed := s, st_wal := Some (stored ser (wrs @ intent_of i @ [End (in_seq i)]))\<rparr>"
  let ?st2 = "?st1\<lparr>st_history := Some (stored hser (hrs @ [entry_for i]))\<rparr>"
  have "finish_transaction sha1 fresh ser st' ?t = (Inr (), ?st1)"
    using st'(2) by (simp add: finish_transaction_def work s(1) log_append_stored[OF codecs(1)])
  moreover have "remember_transaction hser (hr_seq ` set hrs) ?st1 ?t = (Inr (), ?st2)"
    using remember_new[OF codecs(2) i(1), of ?st1] st'(3) by simp
  ultimately have "replay sha1 fresh ser hser (hr_seq ` set hrs) st' (transactions_of (wrs @ intent_of i)) = (Inr (), ?st2)"
    using transactions_intent(1)[OF d(5), of wrs] replay_settled[OF T] operation_count_fits(3)[OF i(1)]
    by (simp add: intent_of_def)
  moreover have "merged ser hser st wrs hrs i ?st2"
    using settled_after[OF i(1) T] s(2) st'(1) by (simp add: merged_def consistent_def log_open_def)
  ultimately show ?thesis by blast
qed

lemma replay_closed:
  assumes codecs: "codec ser de" "codec hser hde" and i: "startable sha1 st hrs i"
    and T: "\<forall>t \<in> set (transactions_of wrs). settled (hr_seq ` set hrs) t"
    and seed: "leaf_at (st_seed st') = leaf_at (work_of st (in_uid i))"
    and st': "st_snap st' = st_snap st" "log_open (st_wal st') = stored ser (wrs @ intent_of i @ [End (in_seq i)])"
    and h: "hrs' = hrs \<or> hrs' = hrs @ [entry_for i]" "log_open (st_history st') = stored hser hrs'"
  shows "\<exists>st''. replay sha1 fresh ser hser (hr_seq ` set hrs') st' (transactions_of (wrs @ intent_of i @ [End (in_seq i)])) =
    (Inr (), st'') \<and> merged ser hser st wrs hrs i st''"
  using h(1)
proof
  assume hrs': "hrs' = hrs @ [entry_for i]"
  have "replay sha1 fresh ser hser (hr_seq ` set hrs') st' (transactions_of (wrs @ intent_of i @ [End (in_seq i)])) = (Inr (), st')"
    using replay_settled[OF settled_after[OF i T], of sha1 fresh ser hser st' "[]"] by (simp add: hrs')
  moreover have "merged ser hser st wrs hrs i st'"
    using settled_after[OF i T] seed st' h(2) by (simp add: merged_def consistent_def hrs')
  ultimately show ?thesis by blast
next
  assume hrs': "hrs' = hrs"
  let ?t = "opened (in_seq i) (in_uid i) (in_principal i) (in_cmd i) (in_events i) (in_ops i) (in_recs i) True"
  let ?st1 = "st'\<lparr>st_history := Some (stored hser (hrs @ [entry_for i]))\<rparr>"
  have "finish_transaction sha1 fresh ser st' ?t = (Inr (), st')" by (simp add: finish_transaction_def)
  moreover have "remember_transaction hser (hr_seq ` set hrs) st' ?t = (Inr (), ?st1)"
    using remember_new[OF codecs(2) i] h(2) hrs' by simp
  ultimately have "replay sha1 fresh ser hser (hr_seq ` set hrs') st'
      (transactions_of (wrs @ intent_of i @ [End (in_seq i)])) = (Inr (), ?st1)"
    using transactions_intent(2)[OF startableD(5)[OF i], of wrs] replay_settled[OF T] operation_count_fits(3)[OF i] hrs'
    by (simp add: intent_of_def)
  moreover have "merged ser hser st wrs hrs i ?st1"
    using settled_after[OF i T] seed st' by (simp add: merged_def consistent_def log_open_def)
  ultimately show ?thesis by blast
qed


section \<open>Every crash recovers\<close>

definition unchanged ::
  "(wal_record \<Rightarrow> bytes option) \<Rightarrow> (history_record \<Rightarrow> bytes option) \<Rightarrow> store \<Rightarrow> history_record list \<Rightarrow> store \<Rightarrow> bool" where
  "unchanged ser hser st hrs st' \<longleftrightarrow>
     st_seed st' = st_seed st \<and> st_snap st' = st_snap st \<and> (\<exists>wrs'. consistent ser hser st' wrs' hrs)"

lemma logged_sel [simp]:
  "st_seed (logged st bs seed) = seed" "st_snap (logged st bs seed) = st_snap st"
  "st_history (logged st bs seed) = st_history st" "log_open (st_wal (logged st bs seed)) = log_open (st_wal st) @ bs"
  by (simp_all add: logged_def log_open_def)

lemma log_holds_append:
  "log_open bs = stored ser rs @ torn \<Longrightarrow> newline \<notin> set torn \<Longrightarrow> log_holds ser bs rs"
  unfolding log_holds_def by blast

lemma settled_valid: "\<forall>t \<in> set ts. settled r t \<Longrightarrow> \<forall>t \<in> set ts. validate t = None"
  by (auto simp: settled_def)

text \<open>A torn intent is skipped for good.\<close>

lemma recover_torn:
  assumes codecs: "codec ser de" "codec hser hde"
    and st: "consistent ser hser st wrs hrs" and i: "startable sha1 st hrs i"
    and k: "k < length (intent_of i)" "newline \<notin> set torn"
  shows "\<exists>st'. recover sha1 fresh ser de hser hde (logged st (stored ser (take k (intent_of i)) @ torn) (st_seed st)) =
    (Inr (), st') \<and> unchanged ser hser st hrs st'"
proof -
  note d = startableD[OF i]
  let ?wrs = "wrs @ take k (intent_of i)" and ?st = "logged st (stored ser (take k (intent_of i)) @ torn) (st_seed st)"
  have wal: "log_holds ser (st_wal ?st) ?wrs" and hist: "log_open (st_history ?st) = stored hser hrs"
    using st k(2) by (auto simp: consistent_def intro!: log_holds_append)
  have T: "\<forall>t \<in> set (transactions_of ?wrs). settled (hr_seq ` set hrs) t"
  proof (cases k)
    case 0
    then show ?thesis using st by (simp add: consistent_def)
  next
    case (Suc j)
    have ops: "operations (take j (in_recs i))" using d(5) set_take_subset by (fastforce simp: operations_def)
    have "take k (intent_of i) = intent (in_seq i) (in_uid i) (in_principal i) (in_cmd i) (in_events i) (in_ops i) (take j (in_recs i))"
      by (simp add: Suc intent_of_def intent_def)
    then have "transactions_of ?wrs = transactions_of wrs @
        [opened (in_seq i) (in_uid i) (in_principal i) (in_cmd i) (in_events i) (in_ops i) (take j (in_recs i)) False]"
      using transactions_intent(1)[OF ops] by simp
    moreover have "j < length (in_recs i)" using k(1) by (simp add: Suc intent_of_def intent_def)
    ultimately show ?thesis
      using st operation_count_fits(1,4)[OF i] by (simp add: consistent_def settled_def)
  qed
  show ?thesis
  proof (cases "?wrs = []")
    case True
    with recover_empty[OF codecs(1), of ?st sha1 fresh hser hde] wal obtain w where
      w: "log_open w = []" "recover sha1 fresh ser de hser hde ?st = (Inr (), ?st\<lparr>st_wal := w\<rparr>)" by auto
    have "consistent ser hser (?st\<lparr>st_wal := w\<rparr>) [] hrs"
      using w(1) hist by (simp add: consistent_def transactions_of_def)
    with w(2) show ?thesis by (auto simp: unchanged_def)
  next
    case False
    obtain h where h: "log_open h = stored hser hrs" "recover sha1 fresh ser de hser hde ?st =
        replay sha1 fresh ser hser (hr_seq ` set hrs) (?st\<lparr>st_history := h, st_wal := Some (stored ser ?wrs)\<rparr>) (transactions_of ?wrs)"
      using recover_replays[OF codecs wal log_holds_exact[OF hist] False settled_valid[OF T]] by blast
    let ?st' = "?st\<lparr>st_history := h, st_wal := Some (stored ser ?wrs)\<rparr>"
    have "recover sha1 fresh ser de hser hde ?st = (Inr (), ?st')"
      using h(2) replay_settled[OF T, of sha1 fresh ser hser ?st' "[]"] by simp
    moreover have "consistent ser hser ?st' ?wrs hrs" using h(1) T by (simp add: consistent_def log_open_def)
    ultimately show ?thesis by (auto simp: unchanged_def)
  qed
qed

text \<open>A whole intent is finished, whatever part of it was applied.\<close>

lemma recover_open:
  assumes codecs: "codec ser de" "codec hser hde"
    and st: "consistent ser hser st wrs hrs" and i: "startable sha1 st hrs i" "untangled (st_seed st) (work_of st (in_uid i))"
    and seed: "partly (st_seed st) (work_of st (in_uid i)) (leaves (st_seed st) \<union> leaves (work_of st (in_uid i))) seed"
    and torn: "newline \<notin> set torn"
  shows "\<exists>st'. recover sha1 fresh ser de hser hde (logged st (stored ser (intent_of i) @ torn) seed) = (Inr (), st') \<and>
    merged ser hser st wrs hrs i st'"
proof -
  let ?wrs = "wrs @ intent_of i" and ?st = "logged st (stored ser (intent_of i) @ torn) seed"
  have T: "\<forall>t \<in> set (transactions_of wrs). settled (hr_seq ` set hrs) t" using st by (simp add: consistent_def)
  have wal: "log_holds ser (st_wal ?st) ?wrs" and hist: "log_open (st_history ?st) = stored hser hrs"
    using st torn by (auto simp: consistent_def intro!: log_holds_append)
  have valid: "\<forall>t \<in> set (transactions_of ?wrs). validate t = None"
    using transactions_intent(1)[OF startableD(5)[OF i(1)], of wrs] settled_valid[OF T] operation_count_fits(2)[OF i(1)]
    by (simp add: intent_of_def)
  have "?wrs \<noteq> []" by (simp add: intent_of_def intent_def)
  then obtain h where h: "log_open h = stored hser hrs" "recover sha1 fresh ser de hser hde ?st =
      replay sha1 fresh ser hser (hr_seq ` set hrs) (?st\<lparr>st_history := h, st_wal := Some (stored ser ?wrs)\<rparr>) (transactions_of ?wrs)"
    using recover_replays[OF codecs wal log_holds_exact[OF hist] _ valid] by blast
  show ?thesis
    unfolding h(2) by (rule replay_open[OF codecs i T]) (simp_all add: seed h(1))
qed

text \<open>A closed transaction only misses its history entry, if that.\<close>

lemma recover_closed:
  assumes codecs: "codec ser de" "codec hser hde"
    and st: "consistent ser hser st wrs hrs" and i: "startable sha1 st hrs i"
    and st': "st_snap st' = st_snap st" "leaf_at (st_seed st') = leaf_at (work_of st (in_uid i))"
      "log_open (st_wal st') = stored ser (wrs @ intent_of i @ [End (in_seq i)])"
    and h: "hrs' = hrs \<or> hrs' = hrs @ [entry_for i]" "log_holds hser (st_history st') hrs'"
  shows "\<exists>st''. recover sha1 fresh ser de hser hde st' = (Inr (), st'') \<and> merged ser hser st wrs hrs i st''"
proof -
  let ?wrs = "wrs @ intent_of i @ [End (in_seq i)]"
  have T: "\<forall>t \<in> set (transactions_of wrs). settled (hr_seq ` set hrs) t" using st by (simp add: consistent_def)
  have valid: "\<forall>t \<in> set (transactions_of ?wrs). validate t = None"
    using settled_valid[OF settled_after[OF i T]] .
  have wal: "log_holds ser (st_wal st') ?wrs" using st'(3) by (rule log_holds_exact)
  obtain g where g: "log_open g = stored hser hrs'" "recover sha1 fresh ser de hser hde st' =
      replay sha1 fresh ser hser (hr_seq ` set hrs') (st'\<lparr>st_history := g, st_wal := Some (stored ser ?wrs)\<rparr>) (transactions_of ?wrs)"
    using recover_replays[OF codecs wal h(2) _ valid] by auto
  show ?thesis
    unfolding g(2) by (rule replay_closed[OF codecs i T _ _ _ h(1)]) (simp_all add: st' g(1))
qed


lemma crash_recovers:
  assumes codecs: "codec ser de" "codec hser hde"
    and st: "consistent ser hser st wrs hrs" and i: "startable sha1 st hrs i" "untangled (st_seed st) (work_of st (in_uid i))"
    and crash: "crashed sha1 ser hser i st st'"
  shows "\<exists>st''. recover sha1 fresh ser de hser hde st' = (Inr (), st'') \<and>
    (unchanged ser hser st hrs st'' \<or> merged ser hser st wrs hrs i st'')"
  using crash
proof cases
  case (torn_intent bs)
  from prefix_stored[OF codecs(1) torn_intent(2)] obtain k torn where
    k: "k \<le> length (intent_of i)" "bs = stored ser (take k (intent_of i)) @ torn" "newline \<notin> set torn"
      "k = length (intent_of i) \<longrightarrow> torn = []" by blast
  show ?thesis
  proof (cases "k = length (intent_of i)")
    case True
    from recover_open[OF codecs st i partly_mono[OF seed_partly[OF startableD(1)[OF i(1)]]] k(3)] k(2) True
    show ?thesis unfolding torn_intent(1) by auto
  next
    case False
    with recover_torn[OF codecs st i(1) _ k(3), of k] k(1,2) show ?thesis unfolding torn_intent(1) by auto
  qed
next
  case (applying fresh' k seed seed')
  note d = startableD[OF i(1)]
  from plan_prefix[OF d(1-3), of fresh' k] applying(2) have
    "partly (st_seed st) (work_of st (in_uid i)) (leaves (st_seed st) \<union> leaves (work_of st (in_uid i))) seed" by auto
  with applying(3) midway_partly[OF d(1-3)] have
    "partly (st_seed st) (work_of st (in_uid i)) (leaves (st_seed st) \<union> leaves (work_of st (in_uid i))) seed'"
    using nth_mem by blast
  from recover_open[OF codecs st i this, of "[]"] show ?thesis unfolding applying(1) by auto
next
  case (closing fresh' seed bs)
  note d = startableD[OF i(1)]
  from plan_applies_seed[OF d(1-3), of fresh'] closing(2) have
    seed: "leaf_at seed = leaf_at (work_of st (in_uid i))"
    "partly (st_seed st) (work_of st (in_uid i)) (leaves (st_seed st) \<union> leaves (work_of st (in_uid i))) seed" by auto
  from prefix_stored[OF codecs(1) closing(3)] obtain k torn where
    k: "k \<le> 1" "bs = stored ser (take k [End (in_seq i)]) @ torn" "newline \<notin> set torn" "k = 1 \<longrightarrow> torn = []" by auto
  show ?thesis
  proof (cases "k = 0")
    case True
    with recover_open[OF codecs st i seed(2) k(3)] k(2) show ?thesis unfolding closing(1) by auto
  next
    case False
    with k have bs: "bs = stored ser [End (in_seq i)]" by (auto simp: le_Suc_eq)
    let ?st = "logged st (stored ser (intent_of i) @ bs) seed"
    have "log_open (st_wal ?st) = stored ser (wrs @ intent_of i @ [End (in_seq i)])"
      "log_holds hser (st_history ?st) hrs"
      using st by (simp_all add: consistent_def bs log_holds_exact)
    from recover_closed[OF codecs st i(1) _ _ this(1) _ this(2)] seed(1) show ?thesis unfolding closing(1) by auto
  qed
next
  case (remembering fresh' seed bs)
  note d = startableD[OF i(1)]
  from plan_applies_seed[OF d(1-3), of fresh'] remembering(2) have
    seed: "leaf_at seed = leaf_at (work_of st (in_uid i))" by auto
  from prefix_stored[OF codecs(2) remembering(3)] obtain k torn where
    k: "k \<le> 1" "bs = stored hser (take k [entry_for i]) @ torn" "newline \<notin> set torn" by auto
  let ?st = "(logged st (stored ser (intent_of i @ [End (in_seq i)])) seed)\<lparr>st_history := Some (log_open (st_history st) @ bs)\<rparr>"
  have wal: "log_open (st_wal ?st) = stored ser (wrs @ intent_of i @ [End (in_seq i)])"
    using st by (simp add: consistent_def)
  have hist: "log_holds hser (st_history ?st) (hrs @ take k [entry_for i])"
    using st k(2,3) by (auto simp: consistent_def intro!: log_holds_append)
  have "hrs @ take k [entry_for i] = hrs \<or> hrs @ take k [entry_for i] = hrs @ [entry_for i]" using k(1) by (cases k) auto
  from recover_closed[OF codecs st i(1) _ _ wal this hist] seed show ?thesis unfolding remembering(1) by auto
qed


section \<open>A commit without a crash\<close>

lemma apply_records_Begin [simp]:
  "apply_records sha1 fresh work t (intent seq uid who cmd events ops recs) = apply_records sha1 fresh work t recs"
  by (simp add: intent_def)

lemma commit_applies:
  assumes "codec ser de" "startable sha1 st hrs i" "log_open (st_wal st) = stored ser wrs"
  shows "\<exists>seed. commit_apply sha1 fresh ser st (in_uid i) (in_seq i) (in_principal i) (in_cmd i) (in_events i) (in_ops i) =
      (Inr (), st\<lparr>st_wal := Some (stored ser (wrs @ intent_of i @ [End (in_seq i)])), st_seed := seed\<rparr>) \<and>
    leaf_at seed = leaf_at (work_of st (in_uid i))"
proof -
  note d = startableD[OF assms(2)]
  from plan_applies_seed[OF d(1-3), of fresh] obtain seed where
    seed: "apply_records sha1 fresh (work_of st (in_uid i)) (st_seed st) (in_recs i) = (Inr (), seed)"
      "leaf_at seed = leaf_at (work_of st (in_uid i))" by blast
  have recs: "try_map (op_record sha1 (work_of st (in_uid i))) (in_ops i) = Inr (in_recs i)"
    using d(3) by (simp add: planned_def)
  have "commit_apply sha1 fresh ser st (in_uid i) (in_seq i) (in_principal i) (in_cmd i) (in_events i) (in_ops i) =
      (Inr (), st\<lparr>st_wal := Some (stored ser (wrs @ intent_of i @ [End (in_seq i)])), st_seed := seed\<rparr>)"
    using seed(1) by (simp add: commit_apply_def recs log_append_stored[OF assms(1)] assms(3) intent_of_def
        flip: intent_def)
  with seed(2) show ?thesis by blast
qed

section \<open>A removed path below a written one\<close>

text \<open>
  When a path to remove lies below a path written, the replay of an applied transaction fails:
  the removal now finds a leaf above its path, which is not an absent path.
\<close>

lemma removal_blocked:
  assumes m: "mergeable seed work" and w: "w \<in> written_paths seed work"
  shows "set R \<subseteq> slashed ` removed_paths seed work \<Longrightarrow> slashed p \<in> set R \<Longrightarrow> p \<in> removed_paths seed work \<Longrightarrow>
    strict_prefix w p \<Longrightarrow> leaf_at t w \<noteq> None \<Longrightarrow>
    \<exists>e t'. apply_records sha1 fresh work t (map Delete R @ rest) = (Inl e, t')"
proof (induction R arbitrary: t)
  case (Cons s R)
  from Cons.prems(1) obtain r where r: "s = slashed r" "r \<in> removed_paths seed work" by auto
  have comps: "components (slashed q) = q" if "q \<in> removed_paths seed work" for q
    using touched_components[OF m] that by blast
  show ?case
  proof (cases "r = p")
    case True
    from apply_remove_blocked[OF Cons.prems(4,5)] obtain e where "apply_remove t p = (Inl (Io e), t)" by blast
    then show ?thesis using comps[OF Cons.prems(3)] by (simp add: r(1) True)
  next
    case False
    with r(1) Cons.prems(2,3) comps r(2) have mem: "slashed p \<in> set R" by (metis set_ConsD)
    have free: "\<not> prefix r w"
    proof
      assume "prefix r w"
      with Cons.prems(4) have "strict_prefix r p" by (meson prefix_order.le_less_trans)
      with removed_above[of seed work] touched_leaves(1)[OF r(2)] Cons.prems(3) show False by blast
    qed
    show ?thesis
    proof (cases "apply_remove t r")
      case (Pair res t1)
      show ?thesis
      proof (cases res)
        case (Inl e)
        then show ?thesis using Pair comps[OF r(2)] by (simp add: r(1))
      next
        case (Inr u)
        have nonempty: "r \<noteq> []" using mergeable_clean(1)[OF m touched_leaves(1)[OF r(2)]] by blast
        have above: "\<forall>q. strict_prefix q r \<longrightarrow> leaf_at t q = None"
          using apply_remove_blocked[of _ r t] Pair Inr by fastforce
        have "leaf_at t1 w = leaf_at t w"
          using apply_remove_succeeds[OF nonempty above] Pair free by auto
        with Cons.prems(5) have "leaf_at t1 w \<noteq> None" by simp
        from Cons.IH[OF _ mem Cons.prems(3,4) this] Cons.prems(1) obtain e t' where
          "apply_records sha1 fresh work t1 (map Delete R @ rest) = (Inl e, t')" by auto
        then show ?thesis using Pair Inr comps[OF r(2)] by (simp add: r(1))
      qed
    qed
  qed
qed simp

lemma tangled_recovery_fails:
  assumes codecs: "codec ser de" "codec hser hde"
    and st: "consistent ser hser st wrs hrs" and i: "startable sha1 st hrs i"
    and pw: "p \<in> removed_paths (st_seed st) (work_of st (in_uid i))"
      "w \<in> written_paths (st_seed st) (work_of st (in_uid i))" "strict_prefix w p"
    and applied: "apply_records sha1 fresh (work_of st (in_uid i)) (st_seed st) (in_recs i) = (Inr (), seed)"
  shows "\<exists>e st'. recover sha1 fresh' ser de hser hde (logged st (stored ser (intent_of i)) seed) = (Inl e, st')"
proof -
  note d = startableD[OF i]
  let ?wrs = "wrs @ intent_of i" and ?st = "logged st (stored ser (intent_of i)) seed"
  have T: "\<forall>t \<in> set (transactions_of wrs). settled (hr_seq ` set hrs) t" using st by (simp add: consistent_def)
  have wal: "log_holds ser (st_wal ?st) ?wrs" and hist: "log_holds hser (st_history ?st) hrs"
    using st by (auto simp: consistent_def intro!: log_holds_exact)
  have valid: "\<forall>t \<in> set (transactions_of ?wrs). validate t = None"
    using transactions_intent(1)[OF d(5), of wrs] settled_valid[OF T] operation_count_fits(2)[OF i]
    by (simp add: intent_of_def)
  have "?wrs \<noteq> []" by (simp add: intent_of_def intent_def)
  then obtain h where h: "recover sha1 fresh' ser de hser hde ?st =
      replay sha1 fresh' ser hser (hr_seq ` set hrs) (?st\<lparr>st_history := h, st_wal := Some (stored ser ?wrs)\<rparr>) (transactions_of ?wrs)"
    using recover_replays[OF codecs wal hist _ valid] by blast
  define st1 where "st1 = ?st\<lparr>st_history := h, st_wal := Some (stored ser ?wrs)\<rparr>"
  have st1: "st_seed st1 = seed" "work_of st1 (in_uid i) = work_of st (in_uid i)" by (simp_all add: st1_def work_of_def)
  obtain R M where shape: "in_recs i = map Delete R @ M" "set R = slashed ` removed_paths (st_seed st) (work_of st (in_uid i))"
    using plan_records[OF d(1-3)] by (elim exE conjE)
  have "leaf_at seed w \<noteq> None"
    using plan_applies_seed[OF d(1-3), of fresh] applied pw(2) by (auto simp: written_paths_def)
  from removal_blocked[OF d(1) pw(2) equalityD1[OF shape(2)] _ pw(1,3) this, of sha1 fresh' M] shape(2) pw(1)
  obtain e t' where e: "apply_records sha1 fresh' (work_of st (in_uid i)) seed (in_recs i) = (Inl e, t')"
    unfolding shape(1) by blast
  have "finish_transaction sha1 fresh' ser st1
      (opened (in_seq i) (in_uid i) (in_principal i) (in_cmd i) (in_events i) (in_ops i) (in_recs i) False) =
    (Inl e, st1\<lparr>st_seed := t'\<rparr>)" by (simp add: finish_transaction_def st1 e)
  then have "replay sha1 fresh' ser hser (hr_seq ` set hrs) st1 (transactions_of ?wrs) = (Inl e, st1\<lparr>st_seed := t'\<rparr>)"
    using transactions_intent(1)[OF d(5), of wrs] replay_settled[OF T] operation_count_fits(3)[OF i]
    by (simp add: intent_of_def)
  with h show ?thesis unfolding st1_def by auto
qed

end
