(* ===== verification/Authority.thy ===== *)
theory Authority
  imports Recovery
begin

text \<open>
  The central capability authority, \<^verbatim>\<open>shellmux/src/authority.rs\<close>: one ordered history shared by all
  principals, and the decision of a command's whole event set against it. The log handle of the
  authority is the history file of the store.
\<close>

record authority_state =
  as_history :: "event list"
  as_generations :: "string \<rightharpoonup> nat"
  as_seq :: nat

record cap_denial =
  cd_event :: event
  cd_failed_precondition :: string
  cd_allowed_fixes :: "string list"

text \<open>
  The loop of \<open>check_events\<close>: the denials so far, the history it pushes to and the policy, whose
  caches the decisions grow. \<open>None\<close> is running out of fuel.
\<close>

fun check_events ::
  "'s uids \<Rightarrow> 's caller \<Rightarrow> (string \<Rightarrow> 's) \<Rightarrow> ('s, git_context) compiled_policy \<Rightarrow> event list \<Rightarrow> event list \<Rightarrow>
   (cap_denial list \<times> event list \<times> ('s, git_context) compiled_policy) option" where
  "check_events u call intern policy history [] = Some ([], history, policy)"
| "check_events u call intern policy history (event # events) = do {
     (decision, policy') \<leftarrow> git_policy_decide u call intern policy history event;
     (case decision of
        PolicyGrant \<Rightarrow> check_events u call intern policy' (history @ [event]) events
      | PolicyDeny failed_precondition allowed_fixes \<Rightarrow> do {
          (denials, history', policy'') \<leftarrow> check_events u call intern policy' history events;
          Some (\<lparr>cd_event = event, cd_failed_precondition = failed_precondition,
                 cd_allowed_fixes = allowed_fixes\<rparr> # denials, history', policy'') }) }"

section \<open>Its contract\<close>

text \<open>The same scan over the legality table.\<close>

fun table_check :: "event list \<Rightarrow> event list \<Rightarrow> cap_denial list \<times> event list" where
  "table_check history [] = ([], history)"
| "table_check history (event # events) = (case git_table history event of
     PolicyGrant \<Rightarrow> table_check (history @ [event]) events
   | PolicyDeny failed_precondition allowed_fixes \<Rightarrow>
       (let (denials, history') = table_check history events in
        (\<lparr>cd_event = event, cd_failed_precondition = failed_precondition,
          cd_allowed_fixes = allowed_fixes\<rparr> # denials, history')))"

lemma check_events_correct:
  assumes "hash_consed u" "inj intern"
  shows "implements_policy u intern git_rules policy \<Longrightarrow>
    \<exists>policy'. implements_policy u intern git_rules policy' \<and>
      settles (\<lambda>n. check_events u (run u n) intern policy history events)
        (Some (fst (table_check history events), snd (table_check history events), policy'))"
proof (induction events arbitrary: policy history)
  case Nil
  then show ?case by (intro exI[of _ policy]) (simp add: settles_const)
next
  case (Cons event events)
  from git_policy_decide_correct[OF assms Cons.prems, of history event] obtain policy1 where
    d: "implements_policy u intern git_rules policy1"
      "settles (\<lambda>n. git_policy_decide u (run u n) intern policy history event) (Some (git_table history event, policy1))"
    by blast
  let ?h = "case git_table history event of PolicyGrant \<Rightarrow> history @ [event] | _ \<Rightarrow> history"
  from Cons.IH[OF d(1), of ?h] obtain policy2 where
    r: "implements_policy u intern git_rules policy2"
      "settles (\<lambda>n. check_events u (run u n) intern policy1 ?h events)
        (Some (fst (table_check ?h events), snd (table_check ?h events), policy2))" by blast
  have "settles (\<lambda>n. check_events u (run u n) intern policy history (event # events))
      (Some (fst (table_check history (event # events)), snd (table_check history (event # events)), policy2))"
    by (rule settles_comp2[OF d(2) r(2)], cases "git_table history event") (simp_all add: case_prod_beta)
  with r(1) show ?case by blast
qed

text \<open>A scan that denies nothing appends exactly the events, each granted when it was.\<close>

lemma table_check_granted: "fst (table_check h events) = [] \<Longrightarrow> snd (table_check h events) = h @ events"
  by (induction events arbitrary: h) (auto split: policy_decision.splits simp: case_prod_beta)

lemma table_check_legal: "legal h \<Longrightarrow> legal (snd (table_check h events))"
proof (induction events arbitrary: h)
  case (Cons e events)
  have "git_table h e = PolicyGrant \<Longrightarrow> legal (h @ [e])"
    using legal_snoc[OF Cons.prems, of e] by (simp add: git_verdict_table)
  with Cons show ?case by (simp add: case_prod_beta split: policy_decision.split)
qed simp

lemma table_check_extends: "take (length h) (snd (table_check h events)) = h"
proof (induction events arbitrary: h)
  case (Cons e events)
  show ?case
  proof (cases "git_table h e")
    case PolicyGrant
    from Cons[of "h @ [e]"] have "take (length h) (take (length (h @ [e])) (snd (table_check (h @ [e]) events))) = h"
      by simp
    with PolicyGrant show ?thesis by (simp add: min_def)
  next
    case (PolicyDeny f ways)
    with Cons[of h] show ?thesis by (simp add: case_prod_beta)
  qed
qed simp

text \<open>A denial names an event of the command and the cell of the table that denied it.\<close>

lemma table_check_denials:
  "d \<in> set (fst (table_check h events)) \<Longrightarrow>
   \<exists>h'. cd_event d \<in> set events \<and> git_table (h @ h') (cd_event d) = PolicyDeny (cd_failed_precondition d) (cd_allowed_fixes d) \<and>
     set h' \<subseteq> set events"
proof (induction events arbitrary: h)
  case (Cons e events)
  show ?case
  proof (cases "git_table h e")
    case PolicyGrant
    with Cons.prems Cons.IH[of "h @ [e]"] obtain h' where
      "cd_event d \<in> set events" "git_table (h @ e # h') (cd_event d) = PolicyDeny (cd_failed_precondition d) (cd_allowed_fixes d)"
      "set h' \<subseteq> set events" by auto
    then show ?thesis by (intro exI[of _ "e # h'"]) auto
  next
    case (PolicyDeny f ways)
    with Cons.prems consider
      "d = \<lparr>cd_event = e, cd_failed_precondition = f, cd_allowed_fixes = ways\<rparr>" |
      "d \<in> set (fst (table_check h events))" by (auto simp: case_prod_beta)
    then show ?thesis
    proof cases
      case 1
      with PolicyDeny show ?thesis by (intro exI[of _ "[]"]) simp
    next
      case 2
      with Cons.IH[of h] show ?thesis by fastforce
    qed
  qed
qed simp

text \<open>Reads are never denied.\<close>

lemma table_check_reads: "\<forall>e \<in> set events. ev_action e = Read \<Longrightarrow> fst (table_check h events) = []"
proof (induction events arbitrary: h)
  case (Cons e events)
  then have "git_table h e = PolicyGrant" by (simp add: git_table_grant)
  with Cons show ?case by simp
qed simp

end
