(* ===== verification/Mux.thy ===== *)
theory Mux
  imports Authority
begin

text \<open>
  The multiplexer's transaction, \<^verbatim>\<open>shellmux/src/mux.rs\<close>: what concluding a command does to the
  authority, the seed and the logs. The trees of snapshots are those of the store. The execution
  and its translation are inputs; a panic of the policy compiler is the inner \<open>None\<close> of a result,
  running out of fuel the outer one. What the mux tells the purity checker is the list of verdicts
  it returns.
\<close>

section \<open>Outcomes\<close>

record stale_path =
  sp_path :: string
  sp_merged_seq :: nat

record sandbox =
  sb_id :: string
  sb_dir :: string
  sb_uid :: string

datatype execution_plan = Transaction | Bypass

datatype purity_verdict = Pure | Sandboxed

record translation =
  tl_events :: "event list"
  tl_unsupported :: "string option"
  tl_git_reads :: "string list"
  tl_wrote_in_root :: bool

record execution_result =
  xr_exit_code :: int
  xr_stdout :: bytes
  xr_stderr :: bytes
  xr_trace_log :: string

datatype cmd_outcome =
    Committed nat int bytes bytes "event list" string
  | DeniedCaps int bytes bytes "event list" "cap_denial list" string
  | StaleSnapshot "event list" "stale_path list" string
  | ExecFailed int bytes bytes string
  | Unsupported string string
  | Bypassed int bytes bytes "event list" string
  | Escaped int "event list" bool string

text \<open>
  \<open>mx_readers\<close> counts the bypassed commands in the reader tree of each seed version, \<open>mx_trees\<close> has
  the trees.
\<close>

record mux =
  mx_auth :: authority_state
  mx_store :: store
  mx_readers :: "(nat \<times> nat) list"
  mx_trees :: "nat \<rightharpoonup> node"

section \<open>Pure parts\<close>

text \<open>\<open>seed_relative\<close>: a directory normalized, or nothing when it climbs out.\<close>

fun seed_segments :: "string list \<Rightarrow> string list \<Rightarrow> string list option" where
  "seed_segments segments [] = Some segments"
| "seed_segments segments (component # rest) =
     (if component = [] \<or> component = ''.'' then seed_segments segments rest
      else if component = ''..'' then
        (if segments = [] then None else seed_segments (butlast segments) rest)
      else seed_segments (segments @ [component]) rest)"

definition seed_relative :: "string \<Rightarrow> string option" where
  "seed_relative dir = map_option (join ''/'') (seed_segments [] (split_on (CHR ''/'') dir))"

definition verdict_of :: "translation \<Rightarrow> int \<Rightarrow> purity_verdict" where
  "verdict_of tn exit_code =
     (if tl_unsupported tn = None \<and> \<not> tl_wrote_in_root tn \<and> (\<forall>e \<in> set (tl_events tn). ev_action e = Read) \<and>
         exit_code = 0
      then Pure else Sandboxed)"

definition stale_paths ::
  "(string \<rightharpoonup> nat) \<Rightarrow> nat \<Rightarrow> commit_op list \<Rightarrow> event list \<Rightarrow> string list \<Rightarrow> stale_path list" where
  "stale_paths generations base_seq ops events git_reads =
     (let checked = remdups_adj (sort (map op_path ops @ map (\<lambda>e. join ''/'' (ev_resource e)) events @ git_reads)) in
      List.map_filter (\<lambda>path. case generations path of
          Some last_seq \<Rightarrow> if last_seq > base_seq then Some \<lparr>sp_path = path, sp_merged_seq = last_seq\<rparr> else None
        | None \<Rightarrow> None) checked)"

definition FIXED_GIT_DATE :: string where
  "FIXED_GIT_DATE = ''1112911993 +0000''"

text \<open>
  A name is its UTF-8 bytes: a character outside the address's alphabet becomes one hyphen, so the
  continuation bytes of a longer character add none.
\<close>

definition slug_char :: "char \<Rightarrow> string" where
  "slug_char c = (let n = (of_char c :: nat) in
     if n \<in> {48..57} \<union> {65..90} \<union> {97..122} \<or> c = CHR ''.'' \<or> c = CHR ''_'' then [c]
     else if n \<in> {128..191} then [] else ''-'')"

definition git_env :: "string \<Rightarrow> (string \<times> string) list" where
  "git_env name =
     (let email = concat (map slug_char name) @ ''@marsh.local'' in
      [(''GIT_AUTHOR_NAME'', name), (''GIT_AUTHOR_EMAIL'', email), (''GIT_AUTHOR_DATE'', FIXED_GIT_DATE),
       (''GIT_COMMITTER_NAME'', name), (''GIT_COMMITTER_EMAIL'', email), (''GIT_COMMITTER_DATE'', FIXED_GIT_DATE),
       (''GIT_CONFIG_NOSYSTEM'', ''1''), (''GIT_CONFIG_GLOBAL'', ''/dev/null''), (''GIT_PAGER'', ''cat''),
       (''GIT_TERMINAL_PROMPT'', ''0''), (''LC_ALL'', ''C'')])"

section \<open>Reader trees\<close>

definition remove_reader :: "mux \<Rightarrow> nat \<Rightarrow> mux" where
  "remove_reader mx version =
     mx\<lparr>mx_readers := AList.delete version (mx_readers mx), mx_trees := (mx_trees mx)(version := None)\<rparr>"

text \<open>\<open>acquire_reader\<close>: the version it copied, with every superseded tree nobody reads reclaimed.\<close>

definition acquire_reader :: "mux \<Rightarrow> nat \<times> mux" where
  "acquire_reader mx =
     (let seq = as_seq (mx_auth mx);
          mx1 = (case map_of (mx_readers mx) seq of
              Some users \<Rightarrow> mx\<lparr>mx_readers := AList.update seq (users + 1) (mx_readers mx)\<rparr>
            | None \<Rightarrow> mx\<lparr>mx_readers := AList.update seq 1 (mx_readers mx),
                         mx_trees := (mx_trees mx)(seq \<mapsto> st_seed (mx_store mx))\<rparr>);
          superseded = map fst (filter (\<lambda>(version, users). version \<noteq> seq \<and> users = 0) (mx_readers mx1)) in
      (seq, foldl remove_reader mx1 superseded))"

definition release_reader :: "mux \<Rightarrow> nat \<Rightarrow> mux" where
  "release_reader mx seq = (case map_of (mx_readers mx) seq of
     None \<Rightarrow> mx
   | Some users \<Rightarrow>
       let left = users - 1; mx1 = mx\<lparr>mx_readers := AList.update seq left (mx_readers mx)\<rparr> in
       if left > 0 \<or> seq = as_seq (mx_auth mx) then mx1 else remove_reader mx1 seq)"

definition discard_reader :: "mux \<Rightarrow> nat \<Rightarrow> mux" where
  "discard_reader mx seq = (case map_of (mx_readers mx) seq of
     None \<Rightarrow> mx
   | Some users \<Rightarrow> if users > 0 then mx else remove_reader mx seq)"

section \<open>Taking a tree\<close>

text \<open>\<open>refresh\<close>, and the tree part of \<open>launch\<close>: the tree a command runs in and the version it copied.\<close>

definition refresh :: "mux \<Rightarrow> sandbox \<Rightarrow> mux" where
  "refresh mx sandbox =
     mx\<lparr>mx_store := (mx_store mx)\<lparr>st_snap := (st_snap (mx_store mx))(sb_uid sandbox \<mapsto> st_seed (mx_store mx))\<rparr>\<rparr>"

definition launch :: "mux \<Rightarrow> sandbox \<Rightarrow> execution_plan \<Rightarrow> nat \<times> mux" where
  "launch mx sandbox plan = (case plan of
     Transaction \<Rightarrow> (as_seq (mx_auth mx), refresh mx sandbox)
   | Bypass \<Rightarrow> acquire_reader mx)"


section \<open>Recording\<close>

text \<open>
  The parameters of the model: the hash, the inode identities, and the JSON encodings of the two
  logs, with the compiler's identifiers, calls and interner.
\<close>

record 's world =
  w_sha1 :: "bytes \<Rightarrow> string"
  w_fresh :: "string \<Rightarrow> file_id"
  w_ser :: "wal_record \<Rightarrow> bytes option"
  w_hser :: "history_record \<Rightarrow> bytes option"
  w_uids :: "'s uids"
  w_intern :: "string \<Rightarrow> 's"

definition with_history :: "mux \<Rightarrow> event list \<Rightarrow> mux" where
  "with_history mx history = mx\<lparr>mx_auth := (mx_auth mx)\<lparr>as_history := history\<rparr>\<rparr>"

text \<open>\<open>record_commit\<close>: the seed, then the history, then the generations.\<close>

definition record_commit ::
  "'s world \<Rightarrow> mux \<Rightarrow> sandbox \<Rightarrow> string \<Rightarrow> event list \<Rightarrow> commit_op list \<Rightarrow> (mux_error + nat) \<times> mux" where
  "record_commit w mx sandbox cmd events ops =
     (let seq = as_seq (mx_auth mx) + 1; name = sb_id sandbox in
      case commit_apply (w_sha1 w) (w_fresh w) (w_ser w) (mx_store mx) (sb_uid sandbox) seq name cmd events ops of
        (Inl e, st) \<Rightarrow> (Inl e, mx\<lparr>mx_store := st\<rparr>)
      | (Inr u, st) \<Rightarrow> (case history_append (w_hser w) st seq name cmd events ops of
          (Inl e, st') \<Rightarrow> (Inl e, mx\<lparr>mx_store := st'\<rparr>)
        | (Inr u, st') \<Rightarrow>
            (Inr seq, mx\<lparr>mx_store := st', mx_auth := (mx_auth mx)\<lparr>
               as_seq := seq,
               as_generations := foldl (\<lambda>g op. g(op_path op \<mapsto> seq)) (as_generations (mx_auth mx)) ops\<rparr>\<rparr>)))"

section \<open>Concluding\<close>

text \<open>What a conclusion returns: the outcome or an error, the mux, and the verdicts observed.\<close>

type_synonym conclusion = "((mux_error + cmd_outcome) \<times> mux \<times> purity_verdict list) option option"

text \<open>
  The policy check of a conclusion: a policy compiled for it, the events decided, and the history
  truncated back when any was denied. \<open>k\<close> is what follows a check that denied nothing.
\<close>

definition authorize ::
  "'s world \<Rightarrow> 's caller \<Rightarrow> mux \<Rightarrow> event list \<Rightarrow> (cap_denial list \<Rightarrow> cmd_outcome) \<Rightarrow>
   (mux \<Rightarrow> (mux_error + cmd_outcome) \<times> mux) \<Rightarrow> ((mux_error + cmd_outcome) \<times> mux) option option" where
  "authorize w call mx events denied k = do {
     policy \<leftarrow> git_policy_new (w_uids w) call (w_intern w);
     (case policy of
        None \<Rightarrow> Some None
      | Some rules \<Rightarrow> do {
          let committed = length (as_history (mx_auth mx));
          (denials, history, rules') \<leftarrow>
            check_events (w_uids w) call (w_intern w) rules (as_history (mx_auth mx)) events;
          (if denials \<noteq> [] then Some (Some (Inr (denied denials), with_history mx (take committed history)))
           else Some (Some (k (with_history mx history)))) }) }"

definition committed_as :: "mux_error + nat \<Rightarrow> execution_result \<Rightarrow> event list \<Rightarrow> mux_error + cmd_outcome" where
  "committed_as r result events = (case r of
     Inl e \<Rightarrow> Inl e
   | Inr seq \<Rightarrow> Inr (Committed seq (xr_exit_code result) (xr_stdout result) (xr_stderr result) events (xr_trace_log result)))"

definition denied_as :: "execution_result \<Rightarrow> event list \<Rightarrow> cap_denial list \<Rightarrow> cmd_outcome" where
  "denied_as result events denials =
     DeniedCaps (xr_exit_code result) (xr_stdout result) (xr_stderr result) events denials (xr_trace_log result)"

text \<open>The history entry of a bypassed command, which takes no sequence number.\<close>

definition record_bypass ::
  "'s world \<Rightarrow> sandbox \<Rightarrow> string \<Rightarrow> event list \<Rightarrow> execution_result \<Rightarrow> mux \<Rightarrow> (mux_error + cmd_outcome) \<times> mux" where
  "record_bypass w sandbox cmd events result mx =
     (case history_append (w_hser w) (mx_store mx) (as_seq (mx_auth mx)) (sb_id sandbox) cmd events [] of
        (Inl e, st) \<Rightarrow> (Inl e, mx\<lparr>mx_store := st\<rparr>)
      | (Inr u, st) \<Rightarrow>
          (Inr (Bypassed (xr_exit_code result) (xr_stdout result) (xr_stderr result) events (xr_trace_log result)),
           mx\<lparr>mx_store := st\<rparr>))"

definition record_transaction ::
  "'s world \<Rightarrow> sandbox \<Rightarrow> string \<Rightarrow> event list \<Rightarrow> commit_op list \<Rightarrow> execution_result \<Rightarrow> mux \<Rightarrow>
   (mux_error + cmd_outcome) \<times> mux" where
  "record_transaction w sandbox cmd events ops result mx =
     (let (r, mx') = record_commit w mx sandbox cmd events ops in (committed_as r result events, mx'))"

definition conclude_bypass ::
  "'s world \<Rightarrow> 's caller \<Rightarrow> mux \<Rightarrow> sandbox \<Rightarrow> string \<Rightarrow> translation \<Rightarrow> execution_result \<Rightarrow> nat \<Rightarrow> conclusion" where
  "conclude_bypass w call mx sandbox cmd tn result base_seq =
     (if tl_unsupported tn \<noteq> None \<or> tl_wrote_in_root tn \<or> (\<exists>e \<in> set (tl_events tn). ev_action e \<noteq> Read)
      then Some (Some (Inr (Escaped (xr_exit_code result) (tl_events tn) (tl_wrote_in_root tn) (xr_trace_log result)),
             discard_reader mx base_seq, [Sandboxed]))
      else if xr_exit_code result \<noteq> 0
      then Some (Some (Inr (ExecFailed (xr_exit_code result) (xr_stdout result) (xr_stderr result) (xr_trace_log result)),
             mx, []))
      else if tl_events tn = []
      then Some (Some (Inr (Bypassed (xr_exit_code result) (xr_stdout result) (xr_stderr result) [] (xr_trace_log result)),
             mx, []))
      else do {
        r \<leftarrow> authorize w call mx (tl_events tn) (denied_as result (tl_events tn))
          (record_bypass w sandbox cmd (tl_events tn) result);
        Some (map_option (\<lambda>(outcome, mx). (outcome, mx, [])) r) })"

definition conclude_transaction ::
  "'s world \<Rightarrow> 's caller \<Rightarrow> mux \<Rightarrow> sandbox \<Rightarrow> string \<Rightarrow> translation \<Rightarrow> execution_result \<Rightarrow> nat \<Rightarrow>
   ((mux_error + cmd_outcome) \<times> mux) option option" where
  "conclude_transaction w call mx sandbox cmd tn result base_seq =
     (case (if tl_wrote_in_root tn
            then diff_trees (st_seed (mx_store mx)) (work_of (mx_store mx) (sb_uid sandbox)) else Inr []) of
        Inl e \<Rightarrow> Some (Some (Inl e, mx))
      | Inr ops \<Rightarrow>
          if tl_events tn = [] \<and> ops = []
          then Some (Some (Inr (Committed base_seq (xr_exit_code result) (xr_stdout result) (xr_stderr result) []
                 (xr_trace_log result)), mx))
          else let stale = stale_paths (as_generations (mx_auth mx)) base_seq ops (tl_events tn) (tl_git_reads tn) in
            if stale \<noteq> [] then Some (Some (Inr (StaleSnapshot (tl_events tn) stale (xr_trace_log result)), mx))
            else authorize w call mx (tl_events tn) (denied_as result (tl_events tn))
              (record_transaction w sandbox cmd (tl_events tn) ops result))"

text \<open>
  \<open>conclude\<close>: the translation is absent when the execution left no evidence.
\<close>

definition conclude ::
  "'s world \<Rightarrow> 's caller \<Rightarrow> mux \<Rightarrow> sandbox \<Rightarrow> string \<Rightarrow> translation option \<Rightarrow> execution_result \<Rightarrow> nat \<Rightarrow>
   execution_plan \<Rightarrow> conclusion" where
  "conclude w call mx sandbox cmd evidence result base_seq plan =
     (let mx1 = (if plan = Bypass then release_reader mx base_seq else mx);
          failed = ExecFailed (xr_exit_code result) (xr_stdout result) (xr_stderr result) (xr_trace_log result) in
      case evidence of
        None \<Rightarrow> Some (Some (Inr failed, mx1, []))
      | Some tn \<Rightarrow>
          if plan = Bypass then conclude_bypass w call mx1 sandbox cmd tn result base_seq
          else let observed = [verdict_of tn (xr_exit_code result)] in
            case tl_unsupported tn of
              Some reason \<Rightarrow> Some (Some (Inr (Unsupported reason (xr_trace_log result)), mx1, observed))
            | None \<Rightarrow>
                if xr_exit_code result \<noteq> 0 then Some (Some (Inr failed, mx1, observed))
                else do {
                  r \<leftarrow> conclude_transaction w call mx1 sandbox cmd tn result base_seq;
                  Some (map_option (\<lambda>(outcome, mx). (outcome, mx, observed)) r) })"


section \<open>Authorization\<close>

lemma with_history_same [simp]: "with_history mx (as_history (mx_auth mx)) = mx"
  by (simp add: with_history_def)

lemma with_history_sel [simp]:
  "mx_store (with_history mx h) = mx_store mx" "as_history (mx_auth (with_history mx h)) = h"
  "as_seq (mx_auth (with_history mx h)) = as_seq (mx_auth mx)"
  "as_generations (mx_auth (with_history mx h)) = as_generations (mx_auth mx)"
  "mx_readers (with_history mx h) = mx_readers mx" "mx_trees (with_history mx h) = mx_trees mx"
  by (simp_all add: with_history_def)

text \<open>The check by the legality table, with what it leaves.\<close>

definition table_authorize ::
  "mux \<Rightarrow> event list \<Rightarrow> (cap_denial list \<Rightarrow> cmd_outcome) \<Rightarrow> (mux \<Rightarrow> (mux_error + cmd_outcome) \<times> mux) \<Rightarrow>
   (mux_error + cmd_outcome) \<times> mux" where
  "table_authorize mx events denied k =
     (let denials = fst (table_check (as_history (mx_auth mx)) events) in
      if denials \<noteq> [] then (Inr (denied denials), mx)
      else k (with_history mx (as_history (mx_auth mx) @ events)))"

lemma authorize_correct:
  assumes "hash_consed (w_uids w)" "inj (w_intern w)"
  shows "settles (\<lambda>n. authorize w (run (w_uids w) n) mx events denied k) (Some (Some (table_authorize mx events denied k)))"
proof -
  let ?h = "as_history (mx_auth mx)"
  from git_policy_new_correct[OF assms] obtain rules where
    new: "settles (\<lambda>n. git_policy_new (w_uids w) (run (w_uids w) n) (w_intern w)) (Some (Some rules))"
      "implements_policy (w_uids w) (w_intern w) git_rules rules" by blast
  from check_events_correct[OF assms new(2), of ?h events] obtain rules' where
    d: "settles (\<lambda>n. check_events (w_uids w) (run (w_uids w) n) (w_intern w) rules ?h events)
      (Some (fst (table_check ?h events), snd (table_check ?h events), rules'))" by blast
  show ?thesis
    by (rule settles_comp2[OF new(1) d])
      (auto simp: authorize_def table_authorize_def table_check_extends table_check_granted Let_def)
qed

section \<open>Conclusions\<close>

definition finished_with :: "purity_verdict list \<Rightarrow> (mux_error + cmd_outcome) \<times> mux \<Rightarrow> (mux_error + cmd_outcome) \<times> mux \<times> purity_verdict list" where
  "finished_with observed r = (fst r, snd r, observed)"

text \<open>A command that ran, was translated and exited with success, in a transaction.\<close>

definition concluding :: "translation \<Rightarrow> execution_result \<Rightarrow> bool" where
  "concluding tn result \<longleftrightarrow> tl_unsupported tn = None \<and> xr_exit_code result = 0"

lemma conclude_transaction_settles:
  assumes u: "hash_consed (w_uids w)" "inj (w_intern w)"
    and ops: "(if tl_wrote_in_root tn then diff_trees (st_seed (mx_store mx)) (work_of (mx_store mx) (sb_uid sandbox)) else Inr []) = Inr ops"
    and some: "tl_events tn \<noteq> [] \<or> ops \<noteq> []"
    and fresh: "stale_paths (as_generations (mx_auth mx)) base_seq ops (tl_events tn) (tl_git_reads tn) = []"
  shows "settles (\<lambda>n. conclude_transaction w (run (w_uids w) n) mx sandbox cmd tn result base_seq)
    (Some (Some (table_authorize mx (tl_events tn) (denied_as result (tl_events tn))
      (record_transaction w sandbox cmd (tl_events tn) ops result))))"
proof -
  have "conclude_transaction w (run (w_uids w) n) mx sandbox cmd tn result base_seq =
      authorize w (run (w_uids w) n) mx (tl_events tn) (denied_as result (tl_events tn))
        (record_transaction w sandbox cmd (tl_events tn) ops result)" for n
    using some unfolding conclude_transaction_def ops by (auto simp: fresh)
  then show ?thesis using authorize_correct[OF u] by simp
qed

text \<open>A bypassed command that did nothing but read, and read something.\<close>

definition only_read :: "translation \<Rightarrow> execution_result \<Rightarrow> bool" where
  "only_read tn result \<longleftrightarrow> concluding tn result \<and> \<not> tl_wrote_in_root tn \<and>
     (\<forall>e \<in> set (tl_events tn). ev_action e = Read) \<and> tl_events tn \<noteq> []"

lemma conclude_bypass_settles:
  assumes u: "hash_consed (w_uids w)" "inj (w_intern w)" and tn: "only_read tn result"
  shows "settles (\<lambda>n. conclude_bypass w (run (w_uids w) n) mx sandbox cmd tn result base_seq)
    (Some (Some (finished_with [] (table_authorize mx (tl_events tn) (denied_as result (tl_events tn))
      (record_bypass w sandbox cmd (tl_events tn) result)))))"
  by (rule settles_comp2[OF authorize_correct[OF u, of mx "tl_events tn" "denied_as result (tl_events tn)"
        "record_bypass w sandbox cmd (tl_events tn) result"] authorize_correct[OF u]])
    (use tn in \<open>auto simp: conclude_bypass_def only_read_def concluding_def finished_with_def case_prod_beta\<close>)

lemma conclude_settles:
  assumes "concluding tn result"
    and "settles (\<lambda>n. conclude_transaction w (run (w_uids w) n) mx sandbox cmd tn result base_seq) (Some (Some r))"
  shows "settles (\<lambda>n. conclude w (run (w_uids w) n) mx sandbox cmd (Some tn) result base_seq Transaction)
    (Some (Some (finished_with [verdict_of tn 0] r)))"
  by (rule settles_comp2[OF assms(2) assms(2)])
    (use assms(1) in \<open>simp add: conclude_def concluding_def finished_with_def case_prod_beta\<close>)


section \<open>Staleness\<close>

definition checked_paths :: "commit_op list \<Rightarrow> event list \<Rightarrow> string list \<Rightarrow> string set" where
  "checked_paths ops events git_reads =
     op_path ` set ops \<union> (\<lambda>e. join ''/'' (ev_resource e)) ` set events \<union> set git_reads"

lemma stale_paths_iff:
  "s \<in> set (stale_paths g b ops events git_reads) \<longleftrightarrow>
     sp_path s \<in> checked_paths ops events git_reads \<and> g (sp_path s) = Some (sp_merged_seq s) \<and> b < sp_merged_seq s"
  by (cases s) (auto simp: stale_paths_def List.map_filter_def checked_paths_def image_iff split: option.splits if_splits)

lemma sorted_remdups_adj_strict: "sorted (xs :: 'a::linorder list) \<Longrightarrow> sorted_wrt (<) (remdups_adj xs)"
  by (induction xs rule: remdups_adj.induct) auto

lemma stale_paths_distinct: "sorted_wrt (<) (map sp_path (stale_paths g b ops events git_reads))"
proof -
  let ?f = "\<lambda>path. case g path of Some m \<Rightarrow> if m > b then Some \<lparr>sp_path = path, sp_merged_seq = m\<rparr> else None | None \<Rightarrow> None"
  have "map sp_path (List.map_filter ?f xs) = filter (\<lambda>p. ?f p \<noteq> None) xs" for xs
    by (induction xs) (auto simp: List.map_filter_def split: option.splits)
  moreover have "sorted_wrt (<) (remdups_adj (sort (map op_path ops @ map (\<lambda>e. join ''/'' (ev_resource e)) events @ git_reads)))"
    by (rule sorted_remdups_adj_strict) simp
  ultimately show ?thesis by (simp only: stale_paths_def Let_def sorted_wrt_filter)
qed

section \<open>A committed transaction\<close>

text \<open>
  A session whose logs are at rest and whose sequence number is the highest recorded.
\<close>

definition session_ok ::
  "'s world \<Rightarrow> (bytes \<Rightarrow> wal_record option) \<Rightarrow> (bytes \<Rightarrow> history_record option) \<Rightarrow> mux \<Rightarrow>
   wal_record list \<Rightarrow> history_record list \<Rightarrow> bool" where
  "session_ok w de hde mx wrs hrs \<longleftrightarrow>
     codec (w_ser w) de \<and> codec (w_hser w) hde \<and>
     consistent (w_ser w) (w_hser w) (mx_store mx) wrs hrs \<and>
     (\<forall>r \<in> set hrs. hr_seq r \<le> as_seq (mx_auth mx))"

text \<open>The snapshot of a job, its diff and the trees the code can merge.\<close>

definition diffed :: "mux \<Rightarrow> sandbox \<Rightarrow> commit_op list \<Rightarrow> bool" where
  "diffed mx sandbox ops \<longleftrightarrow>
     (let seed = st_seed (mx_store mx); work = work_of (mx_store mx) (sb_uid sandbox) in
      mergeable seed work \<and> identity_sound seed work \<and> diff_trees seed work = Inr ops)"

lemma planned_exists:
  assumes "mergeable seed work" "identity_sound seed work" "diff_trees seed work = Inr ops"
  shows "\<exists>recs. planned sha1 seed work ops recs"
proof -
  from assms(1) have wf: "well_formed seed" "is_dir seed" "well_formed work" "is_dir work"
    by (simp_all add: mergeable_def)
  obtain R W where d: "diff_trees seed work = Inr (map Remove R @ map Write W)"
    "set R = slashed ` removed_paths seed work" "set W = slashed ` written_paths seed work"
    by (rule diff_trees_spec[OF wf assms(2)])
  from op_record_write[OF assms(1) equalityD1[OF d(3)], of sha1] obtain hs where
    "try_map (op_record sha1 work) (map Write W) = Inr (map2 (\<lambda>s h. Move s s h) W hs)" by blast
  then show ?thesis
    using d(1) assms(3) by (simp add: planned_def try_map_append op_record_remove)
qed

lemma diffed_startable:
  assumes "session_ok w de hde mx wrs hrs" "diffed mx sandbox ops"
  obtains recs where "startable (w_sha1 w) (mx_store mx) hrs
    \<lparr>in_uid = sb_uid sandbox, in_seq = as_seq (mx_auth mx) + 1, in_principal = sb_id sandbox, in_cmd = cmd,
     in_events = events, in_ops = ops, in_recs = recs\<rparr>"
proof -
  from assms(2) have d: "mergeable (st_seed (mx_store mx)) (work_of (mx_store mx) (sb_uid sandbox))"
    "identity_sound (st_seed (mx_store mx)) (work_of (mx_store mx) (sb_uid sandbox))"
    "diff_trees (st_seed (mx_store mx)) (work_of (mx_store mx) (sb_uid sandbox)) = Inr ops"
    by (simp_all add: diffed_def Let_def)
  from planned_exists[OF d, of "w_sha1 w"] obtain recs where
    "planned (w_sha1 w) (st_seed (mx_store mx)) (work_of (mx_store mx) (sb_uid sandbox)) ops recs" by blast
  moreover have "as_seq (mx_auth mx) + 1 \<notin> hr_seq ` set hrs" using assms(1) by (auto simp: session_ok_def)
  ultimately show ?thesis using d(1,2) by (intro that[of recs]) (simp add: startable_def)
qed

lemma foldl_op_generations:
  "foldl (\<lambda>g op. g(op_path op \<mapsto> n)) g ops q = (if q \<in> op_path ` set ops then Some n else g q)"
  by (induction ops arbitrary: g) auto

lemma record_commit_succeeds:
  assumes ok: "session_ok w de hde mx wrs hrs" and d: "diffed mx sandbox ops"
  shows "\<exists>mx' wrs'. record_commit w mx sandbox cmd events ops = (Inr (as_seq (mx_auth mx) + 1), mx') \<and>
    leaf_at (st_seed (mx_store mx')) = leaf_at (work_of (mx_store mx) (sb_uid sandbox)) \<and>
    as_history (mx_auth mx') = as_history (mx_auth mx) \<and> as_seq (mx_auth mx') = as_seq (mx_auth mx) + 1 \<and>
    as_generations (mx_auth mx') = (\<lambda>q. if q \<in> op_path ` set ops then Some (as_seq (mx_auth mx) + 1)
      else as_generations (mx_auth mx) q) \<and>
    session_ok w de hde mx' wrs' (hrs @ [history_record_of (as_seq (mx_auth mx) + 1) (sb_id sandbox) cmd events ops])"
proof -
  let ?seq = "as_seq (mx_auth mx) + 1"
  obtain recs where i: "startable (w_sha1 w) (mx_store mx) hrs
    \<lparr>in_uid = sb_uid sandbox, in_seq = ?seq, in_principal = sb_id sandbox, in_cmd = cmd,
     in_events = events, in_ops = ops, in_recs = recs\<rparr>" (is "startable _ _ _ ?i")
    by (rule diffed_startable[OF ok d])
  from ok have c: "codec (w_ser w) de" "codec (w_hser w) hde"
    "consistent (w_ser w) (w_hser w) (mx_store mx) wrs hrs" "\<forall>r \<in> set hrs. hr_seq r \<le> as_seq (mx_auth mx)"
    by (simp_all add: session_ok_def)
  let ?wrs = "wrs @ intent_of ?i @ [End ?seq]" and ?hrs = "hrs @ [entry_for ?i]"
  from commit_applies[OF c(1) i, of wrs "w_fresh w"] c(3) obtain seed where
    seed: "commit_apply (w_sha1 w) (w_fresh w) (w_ser w) (mx_store mx) (sb_uid sandbox) ?seq (sb_id sandbox) cmd events ops =
      (Inr (), (mx_store mx)\<lparr>st_wal := Some (stored (w_ser w) ?wrs), st_seed := seed\<rparr>)"
      "leaf_at seed = leaf_at (work_of (mx_store mx) (sb_uid sandbox))"
    by (auto simp: consistent_def)
  let ?st = "(mx_store mx)\<lparr>st_wal := Some (stored (w_ser w) ?wrs), st_seed := seed\<rparr>"
  have "history_append (w_hser w) ?st ?seq (sb_id sandbox) cmd events ops =
      (Inr (), ?st\<lparr>st_history := Some (stored (w_hser w) ?hrs)\<rparr>)"
    using history_append_holds[OF c(2), of ?st hrs] c(3) by (simp add: consistent_def entry_for_def)
  then have r: "record_commit w mx sandbox cmd events ops = (Inr ?seq, mx\<lparr>
      mx_store := ?st\<lparr>st_history := Some (stored (w_hser w) ?hrs)\<rparr>,
      mx_auth := (mx_auth mx)\<lparr>as_seq := ?seq,
        as_generations := foldl (\<lambda>g op. g(op_path op \<mapsto> ?seq)) (as_generations (mx_auth mx)) ops\<rparr>\<rparr>)"
    using seed(1) by (simp add: record_commit_def Let_def)
  have "consistent (w_ser w) (w_hser w) (?st\<lparr>st_history := Some (stored (w_hser w) ?hrs)\<rparr>) ?wrs ?hrs"
    using settled_after[OF i, of wrs] c(3) by (simp add: consistent_def)
  with r seed(2) c show ?thesis
    by (intro exI[of _ "snd (record_commit w mx sandbox cmd events ops)"] exI[of _ ?wrs])
      (auto simp: session_ok_def foldl_op_generations fun_eq_iff entry_for_def history_record_of_def)
qed

section \<open>No lost updates\<close>

text \<open>
  \<open>versions v\<close> is what the seed held at sequence number \<open>v\<close>. The generations track it: a path that
  is no longer as it was at \<open>v\<close> was written by a later transaction.
\<close>

definition tracks :: "(nat \<Rightarrow> path \<Rightarrow> leaf option) \<Rightarrow> mux \<Rightarrow> bool" where
  "tracks versions mx \<longleftrightarrow>
     versions (as_seq (mx_auth mx)) = leaf_at (st_seed (mx_store mx)) \<and>
     (\<forall>v \<le> as_seq (mx_auth mx). \<forall>p. versions v p \<noteq> leaf_at (st_seed (mx_store mx)) p \<longrightarrow>
        (\<exists>g. as_generations (mx_auth mx) (slashed p) = Some g \<and> v < g))"

lemma diffed_ops:
  assumes "diffed mx sandbox ops"
  shows "op_path ` set ops = slashed ` {p. leaf_at (work_of (mx_store mx) (sb_uid sandbox)) p \<noteq> leaf_at (st_seed (mx_store mx)) p}"
proof -
  let ?seed = "st_seed (mx_store mx)" and ?work = "work_of (mx_store mx) (sb_uid sandbox)"
  from assms have d: "mergeable ?seed ?work" "identity_sound ?seed ?work" "diff_trees ?seed ?work = Inr ops"
    by (simp_all add: diffed_def Let_def)
  from d(1) have wf: "well_formed ?seed" "is_dir ?seed" "well_formed ?work" "is_dir ?work"
    by (simp_all add: mergeable_def)
  obtain R W where r: "diff_trees ?seed ?work = Inr (map Remove R @ map Write W)"
    "set R = slashed ` removed_paths ?seed ?work" "set W = slashed ` written_paths ?seed ?work"
    by (rule diff_trees_spec[OF wf d(2)])
  have "op_path ` set ops = slashed ` (removed_paths ?seed ?work \<union> written_paths ?seed ?work)"
    using r d(3) by (auto simp: image_Un image_image)
  also have "removed_paths ?seed ?work \<union> written_paths ?seed ?work = {p. leaf_at ?work p \<noteq> leaf_at ?seed p}"
  proof (intro set_eqI)
    fix p
    show "p \<in> removed_paths ?seed ?work \<union> written_paths ?seed ?work \<longleftrightarrow> p \<in> {p. leaf_at ?work p \<noteq> leaf_at ?seed p}"
      by (cases "leaf_at ?work p"; cases "leaf_at ?seed p") (auto simp: removed_paths_def written_paths_def)
  qed
  finally show ?thesis .
qed

lemma commit_tracks:
  assumes t: "tracks versions mx" and d: "diffed mx sandbox ops"
    and mx': "leaf_at (st_seed (mx_store mx')) = leaf_at (work_of (mx_store mx) (sb_uid sandbox))"
      "as_seq (mx_auth mx') = as_seq (mx_auth mx) + 1"
      "as_generations (mx_auth mx') = (\<lambda>q. if q \<in> op_path ` set ops then Some (as_seq (mx_auth mx) + 1)
        else as_generations (mx_auth mx) q)"
  shows "tracks (versions(as_seq (mx_auth mx) + 1 := leaf_at (work_of (mx_store mx) (sb_uid sandbox)))) mx'"
proof -
  have "\<exists>g. as_generations (mx_auth mx') (slashed p) = Some g \<and> v < g"
    if v: "v \<le> as_seq (mx_auth mx)" "versions v p \<noteq> leaf_at (work_of (mx_store mx) (sb_uid sandbox)) p" for v p
  proof (cases "slashed p \<in> op_path ` set ops")
    case True
    with v(1) show ?thesis by (simp add: mx'(3))
  next
    case False
    with diffed_ops[OF d] have "leaf_at (work_of (mx_store mx) (sb_uid sandbox)) p = leaf_at (st_seed (mx_store mx)) p"
      by blast
    with v have "versions v p \<noteq> leaf_at (st_seed (mx_store mx)) p" by simp
    with t v(1) False show ?thesis by (auto simp: tracks_def mx'(3))
  qed
  then show ?thesis by (auto simp: tracks_def mx'(1,2) le_Suc_eq)
qed

text \<open>
  A command that is not stale leaves every path it did not change itself as it is now.
\<close>

lemma merge_keeps_others:
  assumes t: "tracks versions mx" "base_seq \<le> as_seq (mx_auth mx)" and d: "diffed mx sandbox ops"
    and fresh: "stale_paths (as_generations (mx_auth mx)) base_seq ops events git_reads = []"
    and same: "leaf_at (work_of (mx_store mx) (sb_uid sandbox)) p = versions base_seq p"
  shows "leaf_at (work_of (mx_store mx) (sb_uid sandbox)) p = leaf_at (st_seed (mx_store mx)) p"
proof (rule ccontr)
  assume differs: "leaf_at (work_of (mx_store mx) (sb_uid sandbox)) p \<noteq> leaf_at (st_seed (mx_store mx)) p"
  with same t obtain g where g: "as_generations (mx_auth mx) (slashed p) = Some g" "base_seq < g"
    by (auto simp: tracks_def)
  from differs diffed_ops[OF d] have "slashed p \<in> checked_paths ops events git_reads" by (auto simp: checked_paths_def)
  with g have "\<lparr>sp_path = slashed p, sp_merged_seq = g\<rparr> \<in> set (stale_paths (as_generations (mx_auth mx)) base_seq ops events git_reads)"
    by (simp add: stale_paths_iff)
  with fresh show False by simp
qed


section \<open>What a conclusion does\<close>

lemma settles_fixed:
  "\<exists>r. (\<forall>n. F n = Some (Some r)) \<and> P r \<Longrightarrow> \<exists>r. settles F (Some (Some r)) \<and> P r"
  unfolding settles_def by blast

text \<open>The history is left alone, or grows by the events of the command when the table grants them all.\<close>

definition advances :: "mux \<Rightarrow> translation option \<Rightarrow> mux \<Rightarrow> bool" where
  "advances mx evidence mx' \<longleftrightarrow> as_history (mx_auth mx') = as_history (mx_auth mx) \<or>
     (\<exists>tn. evidence = Some tn \<and> fst (table_check (as_history (mx_auth mx)) (tl_events tn)) = [] \<and>
       as_history (mx_auth mx') = as_history (mx_auth mx) @ tl_events tn)"

lemma advances_same [simp]: "as_history (mx_auth mx') = as_history (mx_auth mx) \<Longrightarrow> advances mx evidence mx'"
  by (simp add: advances_def)

lemma reader_auth [simp]:
  "mx_auth (remove_reader mx v) = mx_auth mx" "mx_auth (release_reader mx v) = mx_auth mx"
  "mx_auth (discard_reader mx v) = mx_auth mx" "mx_store (remove_reader mx v) = mx_store mx"
  "mx_store (release_reader mx v) = mx_store mx"
  by (simp_all add: remove_reader_def release_reader_def discard_reader_def Let_def split: option.split)

lemma record_history:
  "as_history (mx_auth (snd (record_transaction w sandbox cmd events ops result mx))) = as_history (mx_auth mx)"
  "as_history (mx_auth (snd (record_bypass w sandbox cmd events result mx))) = as_history (mx_auth mx)"
  by (simp_all add: record_transaction_def record_bypass_def record_commit_def Let_def split: prod.split sum.split)

lemma table_authorize_advances:
  assumes "\<And>mx. as_history (mx_auth (snd (k mx))) = as_history (mx_auth mx)"
  shows "advances mx (Some tn) (snd (table_authorize mx (tl_events tn) denied k))"
  by (auto simp: table_authorize_def advances_def assms Let_def)

lemma conclude_returns:
  assumes u: "hash_consed (w_uids w)" "inj (w_intern w)"
  shows "\<exists>r. settles (\<lambda>n. conclude w (run (w_uids w) n) mx sandbox cmd evidence result base_seq plan) (Some (Some r)) \<and>
    advances mx evidence (fst (snd r))"
proof -
  have bypass: "\<exists>r. settles (\<lambda>n. conclude_bypass w (run (w_uids w) n) mx sandbox cmd tn result base_seq) (Some (Some r)) \<and>
      advances mx (Some tn) (fst (snd r))" for mx tn
  proof (cases "only_read tn result")
    case True
    from conclude_bypass_settles[OF u True] table_authorize_advances[OF record_history(2)] show ?thesis
      by (fastforce simp: finished_with_def)
  next
    case False
    let ?acts = "tl_unsupported tn \<noteq> None \<or> tl_wrote_in_root tn \<or> (\<exists>e \<in> set (tl_events tn). ev_action e \<noteq> Read)"
    consider "?acts" | "\<not> ?acts" "xr_exit_code result \<noteq> 0" |
      "\<not> ?acts" "xr_exit_code result = 0" "tl_events tn = []" | "\<not> ?acts" "xr_exit_code result = 0" "tl_events tn \<noteq> []"
      by blast
    then have "\<exists>r. (\<forall>n. conclude_bypass w (run (w_uids w) n) mx sandbox cmd tn result base_seq = Some (Some r)) \<and>
        advances mx (Some tn) (fst (snd r))"
      using False by cases (unfold conclude_bypass_def only_read_def concluding_def, simp_all)
    then show ?thesis by (rule settles_fixed)
  qed
  have transaction: "\<exists>r. settles (\<lambda>n. conclude_transaction w (run (w_uids w) n) mx sandbox cmd tn result base_seq) (Some (Some r)) \<and>
      advances mx (Some tn) (snd r)" for tn
  proof (cases "if tl_wrote_in_root tn then diff_trees (st_seed (mx_store mx)) (work_of (mx_store mx) (sb_uid sandbox)) else Inr []")
    case (Inl e)
    then show ?thesis by (intro settles_fixed) (simp add: conclude_transaction_def)
  next
    case (Inr ops)
    show ?thesis
    proof (cases "(tl_events tn \<noteq> [] \<or> ops \<noteq> []) \<and>
        stale_paths (as_generations (mx_auth mx)) base_seq ops (tl_events tn) (tl_git_reads tn) = []")
      case True
      with conclude_transaction_settles[OF u Inr, where cmd = cmd and result = result]
      have "settles (\<lambda>n. conclude_transaction w (run (w_uids w) n) mx sandbox cmd tn result base_seq)
        (Some (Some (table_authorize mx (tl_events tn) (denied_as result (tl_events tn))
          (record_transaction w sandbox cmd (tl_events tn) ops result))))" by blast
      moreover have "advances mx (Some tn) (snd (table_authorize mx (tl_events tn) (denied_as result (tl_events tn))
          (record_transaction w sandbox cmd (tl_events tn) ops result)))"
        by (rule table_authorize_advances) (rule record_history(1))
      ultimately show ?thesis by blast
    next
      case False
      with Inr have "\<exists>r. (\<forall>n. conclude_transaction w (run (w_uids w) n) mx sandbox cmd tn result base_seq = Some (Some r)) \<and>
          advances mx (Some tn) (snd r)"
        unfolding conclude_transaction_def Inr by (cases "tl_events tn = [] \<and> ops = []") auto
      then show ?thesis by (rule settles_fixed)
    qed
  qed
  show ?thesis
  proof (cases evidence)
    case None
    then show ?thesis by (intro settles_fixed) (simp add: conclude_def Let_def)
  next
    case (Some tn)
    show ?thesis
    proof (cases "plan = Bypass")
      case True
      with Some bypass[of "release_reader mx base_seq" tn] show ?thesis by (simp add: conclude_def advances_def)
    next
      case False
      show ?thesis
      proof (cases "concluding tn result")
        case True
        from transaction[of tn] obtain r where r:
          "settles (\<lambda>n. conclude_transaction w (run (w_uids w) n) mx sandbox cmd tn result base_seq) (Some (Some r))"
          "advances mx (Some tn) (snd r)" by blast
        moreover from False have "plan = Transaction" by (cases plan) simp_all
        moreover note conclude_settles[OF True r(1)]
        ultimately show ?thesis using Some by (fastforce simp: finished_with_def)
      next
        case neg: False
        with Some False have "\<exists>r. (\<forall>n. conclude w (run (w_uids w) n) mx sandbox cmd evidence result base_seq plan = Some (Some r)) \<and>
            advances mx evidence (fst (snd r))"
          by (cases "tl_unsupported tn") (simp_all add: conclude_def concluding_def Let_def)
        then show ?thesis by (rule settles_fixed)
      qed
    qed
  qed
qed

lemma advances_legal: "advances mx evidence mx' \<Longrightarrow> legal (as_history (mx_auth mx)) \<Longrightarrow> legal (as_history (mx_auth mx'))"
  using table_check_legal table_check_granted unfolding advances_def by metis

text \<open>A command that only read, in a session at rest: its reads are granted and remembered.\<close>

lemma bypass_reads:
  assumes u: "hash_consed (w_uids w)" "inj (w_intern w)" and tn: "only_read tn result"
    and ok: "session_ok w de hde mx wrs hrs"
  shows "\<exists>mx'. settles (\<lambda>n. conclude_bypass w (run (w_uids w) n) mx sandbox cmd tn result base_seq)
      (Some (Some (Inr (Bypassed 0 (xr_stdout result) (xr_stderr result) (tl_events tn) (xr_trace_log result)), mx', []))) \<and>
    as_history (mx_auth mx') = as_history (mx_auth mx) @ tl_events tn \<and>
    as_generations (mx_auth mx') = as_generations (mx_auth mx) \<and> as_seq (mx_auth mx') = as_seq (mx_auth mx) \<and>
    st_seed (mx_store mx') = st_seed (mx_store mx) \<and> mx_readers mx' = mx_readers mx \<and> mx_trees mx' = mx_trees mx \<and>
    session_ok w de hde mx' wrs (hrs @ [history_record_of (as_seq (mx_auth mx)) (sb_id sandbox) cmd (tl_events tn) []])"
proof -
  let ?h = "as_history (mx_auth mx)" and ?r = "history_record_of (as_seq (mx_auth mx)) (sb_id sandbox) cmd (tl_events tn) []"
  let ?st = "(mx_store mx)\<lparr>st_history := Some (stored (w_hser w) (hrs @ [?r]))\<rparr>"
  let ?mx = "(with_history mx (?h @ tl_events tn))\<lparr>mx_store := ?st\<rparr>"
  from ok have c: "codec (w_ser w) de" "codec (w_hser w) hde" "consistent (w_ser w) (w_hser w) (mx_store mx) wrs hrs"
    "\<forall>r \<in> set hrs. hr_seq r \<le> as_seq (mx_auth mx)" by (simp_all add: session_ok_def)
  have "history_append (w_hser w) (mx_store mx) (as_seq (mx_auth mx)) (sb_id sandbox) cmd (tl_events tn) [] = (Inr (), ?st)"
    using history_append_holds[OF c(2)] c(3) by (simp add: consistent_def)
  moreover have "fst (table_check ?h (tl_events tn)) = []" using tn by (intro table_check_reads) (simp add: only_read_def)
  moreover have "xr_exit_code result = 0" using tn by (simp add: only_read_def concluding_def)
  ultimately have "table_authorize mx (tl_events tn) (denied_as result (tl_events tn)) (record_bypass w sandbox cmd (tl_events tn) result) =
      (Inr (Bypassed 0 (xr_stdout result) (xr_stderr result) (tl_events tn) (xr_trace_log result)), ?mx)"
    by (simp add: table_authorize_def record_bypass_def)
  moreover have "\<forall>t \<in> set (transactions_of wrs). settled (hr_seq ` set (hrs @ [?r])) t"
    using c(3) settled_mono[of "hr_seq ` set hrs" _ "hr_seq ` set (hrs @ [?r])"] by (auto simp: consistent_def)
  then have "session_ok w de hde ?mx wrs (hrs @ [?r])"
    using c by (auto simp: session_ok_def consistent_def history_record_of_def)
  ultimately show ?thesis
    using conclude_bypass_settles[OF u tn, of mx sandbox cmd base_seq]
    by (intro exI[of _ ?mx]) (simp add: finished_with_def)
qed

lemma transaction_denied:
  assumes u: "hash_consed (w_uids w)" "inj (w_intern w)" and tn: "concluding tn result"
    and ops: "(if tl_wrote_in_root tn then diff_trees (st_seed (mx_store mx)) (work_of (mx_store mx) (sb_uid sandbox)) else Inr []) = Inr ops"
    and fresh: "stale_paths (as_generations (mx_auth mx)) base_seq ops (tl_events tn) (tl_git_reads tn) = []"
    and denied: "fst (table_check (as_history (mx_auth mx)) (tl_events tn)) \<noteq> []"
  shows "settles (\<lambda>n. conclude w (run (w_uids w) n) mx sandbox cmd (Some tn) result base_seq Transaction)
    (Some (Some (Inr (denied_as result (tl_events tn) (fst (table_check (as_history (mx_auth mx)) (tl_events tn)))), mx,
      [verdict_of tn 0])))"
proof -
  have "tl_events tn \<noteq> []" using denied by auto
  with conclude_settles[OF tn conclude_transaction_settles[OF u ops _ fresh]] denied show ?thesis
    by (simp add: table_authorize_def finished_with_def Let_def)
qed

lemma transaction_stale:
  assumes tn: "concluding tn result"
    and ops: "(if tl_wrote_in_root tn then diff_trees (st_seed (mx_store mx)) (work_of (mx_store mx) (sb_uid sandbox)) else Inr []) = Inr ops"
    and some: "tl_events tn \<noteq> [] \<or> ops \<noteq> []"
    and stale: "stale_paths (as_generations (mx_auth mx)) base_seq ops (tl_events tn) (tl_git_reads tn) \<noteq> []"
  shows "conclude w call mx sandbox cmd (Some tn) result base_seq Transaction =
    Some (Some (Inr (StaleSnapshot (tl_events tn)
      (stale_paths (as_generations (mx_auth mx)) base_seq ops (tl_events tn) (tl_git_reads tn)) (xr_trace_log result)), mx,
      [verdict_of tn 0]))"
proof -
  have "conclude_transaction w call mx sandbox cmd tn result base_seq =
    Some (Some (Inr (StaleSnapshot (tl_events tn)
      (stale_paths (as_generations (mx_auth mx)) base_seq ops (tl_events tn) (tl_git_reads tn)) (xr_trace_log result)), mx))"
    using some stale unfolding conclude_transaction_def ops by auto
  with tn show ?thesis by (simp add: conclude_def concluding_def)
qed

lemma transaction_committed:
  assumes u: "hash_consed (w_uids w)" "inj (w_intern w)" and tn: "concluding tn result" "tl_wrote_in_root tn"
    and d: "diffed mx sandbox ops" and some: "tl_events tn \<noteq> [] \<or> ops \<noteq> []"
    and fresh: "stale_paths (as_generations (mx_auth mx)) base_seq ops (tl_events tn) (tl_git_reads tn) = []"
    and granted: "fst (table_check (as_history (mx_auth mx)) (tl_events tn)) = []"
    and ok: "session_ok w de hde mx wrs hrs" and t: "tracks versions mx" "base_seq \<le> as_seq (mx_auth mx)"
  shows "\<exists>mx' wrs'. settles (\<lambda>n. conclude w (run (w_uids w) n) mx sandbox cmd (Some tn) result base_seq Transaction)
      (Some (Some (committed_as (Inr (as_seq (mx_auth mx) + 1)) result (tl_events tn), mx', [verdict_of tn 0]))) \<and>
    as_history (mx_auth mx') = as_history (mx_auth mx) @ tl_events tn \<and>
    leaf_at (st_seed (mx_store mx')) = (\<lambda>p. let mine = leaf_at (work_of (mx_store mx) (sb_uid sandbox)) p in
      if mine \<noteq> versions base_seq p then mine else leaf_at (st_seed (mx_store mx)) p) \<and>
    session_ok w de hde mx' wrs' (hrs @ [history_record_of (as_seq (mx_auth mx) + 1) (sb_id sandbox) cmd (tl_events tn) ops]) \<and>
    tracks (versions(as_seq (mx_auth mx) + 1 := leaf_at (st_seed (mx_store mx')))) mx' \<and>
    as_seq (mx_auth mx') = as_seq (mx_auth mx) + 1"
proof -
  let ?mx = "with_history mx (as_history (mx_auth mx) @ tl_events tn)"
  have d': "diffed ?mx sandbox ops" using d by (simp add: diffed_def)
  have ok': "session_ok w de hde ?mx wrs hrs" using ok by (simp add: session_ok_def)
  obtain mx' wrs' where c: "record_commit w ?mx sandbox cmd (tl_events tn) ops = (Inr (as_seq (mx_auth mx) + 1), mx')"
    "leaf_at (st_seed (mx_store mx')) = leaf_at (work_of (mx_store mx) (sb_uid sandbox))"
    "as_history (mx_auth mx') = as_history (mx_auth mx) @ tl_events tn" "as_seq (mx_auth mx') = as_seq (mx_auth mx) + 1"
    "as_generations (mx_auth mx') = (\<lambda>q. if q \<in> op_path ` set ops then Some (as_seq (mx_auth mx) + 1)
      else as_generations (mx_auth mx) q)"
    "session_ok w de hde mx' wrs' (hrs @ [history_record_of (as_seq (mx_auth mx) + 1) (sb_id sandbox) cmd (tl_events tn) ops])"
    using record_commit_succeeds[OF ok' d', of cmd "tl_events tn"] unfolding with_history_sel by (elim exE conjE)
  have ops: "(if tl_wrote_in_root tn then diff_trees (st_seed (mx_store mx)) (work_of (mx_store mx) (sb_uid sandbox)) else Inr []) = Inr ops"
    using d tn(2) by (simp add: diffed_def Let_def)
  have "settles (\<lambda>n. conclude w (run (w_uids w) n) mx sandbox cmd (Some tn) result base_seq Transaction)
      (Some (Some (committed_as (Inr (as_seq (mx_auth mx) + 1)) result (tl_events tn), mx', [verdict_of tn 0])))"
    using conclude_settles[OF tn(1) conclude_transaction_settles[OF u ops some fresh, where cmd = cmd]] granted c(1)
    by (simp add: table_authorize_def finished_with_def record_transaction_def)
  moreover have "leaf_at (st_seed (mx_store mx')) = (\<lambda>p. let mine = leaf_at (work_of (mx_store mx) (sb_uid sandbox)) p in
      if mine \<noteq> versions base_seq p then mine else leaf_at (st_seed (mx_store mx)) p)"
    using merge_keeps_others[OF t d fresh] by (auto simp: c(2) fun_eq_iff Let_def)
  moreover have "tracks (versions(as_seq (mx_auth mx) + 1 := leaf_at (st_seed (mx_store mx')))) mx'"
    unfolding c(2) by (rule commit_tracks[OF t(1) d c(2,4,5)])
  ultimately show ?thesis using c(3,4,6) by blast
qed

end
