(* ===== verification/Encoding.thy ===== *)
theory Encoding
  imports Mux "HOL-Library.Countable"
begin

text \<open>
  One encoding of log records that satisfies the contract of the JSON encoding, for any countable
  type of records: the properties about logs are applied with it.
\<close>

instance history_action :: countable
  by countable_datatype

lemma history_event_fields:
  "inj (\<lambda>r. (he_principal r, he_action r, he_resource r, history_event.more r))"
  by (rule injI) (auto intro: history_event.equality)

instance history_event_ext :: (countable) countable
proof
  show "\<exists>to_nat :: 'a history_event_ext \<Rightarrow> nat. inj to_nat"
    using inj_compose[OF inj_to_nat history_event_fields] by blast
qed

lemma history_record_fields:
  "inj (\<lambda>r. (hr_seq r, hr_principal r, hr_cmd r, hr_events r, hr_paths r, history_record.more r))"
  by (rule injI) (auto intro: history_record.equality)

instance history_record_ext :: (countable) countable
proof
  show "\<exists>to_nat :: 'a history_record_ext \<Rightarrow> nat. inj to_nat"
    using inj_compose[OF inj_to_nat history_record_fields] by blast
qed

instance wal_record :: countable
  by countable_datatype

definition unary :: "'r :: countable \<Rightarrow> bytes option" where
  "unary r = Some (replicate (Suc (to_nat r)) 1)"

definition ununary :: "bytes \<Rightarrow> 'r :: countable option" where
  "ununary bs = (case bs of [] \<Rightarrow> None | b # bs \<Rightarrow> if b = 1 then Some (from_nat (length bs)) else None)"

lemma codec_unary: "codec unary ununary"
  by (auto simp: codec_def unary_def ununary_def newline_def)

end
