(* ===== verification/Samples.thy ===== *)
theory Samples
  imports Encoding
begin

text \<open>
  Concrete sessions the properties are applied to: a job that changed one file, and a job that
  replaced a directory by a file.
\<close>

section \<open>Stores\<close>

definition first_id :: file_id where "first_id = (1, (0, 0), (0, 0))"
definition second_id :: file_id where "second_id = (1, (1, 0), (1, 0))"

definition sample_store :: "node \<Rightarrow> node \<Rightarrow> store" where
  "sample_store seed work = \<lparr>st_seed = seed, st_snap = [''job'' \<mapsto> work], st_wal = None, st_history = None\<rparr>"

definition old_file :: node where "old_file = Regular [1] 420 first_id"
definition new_file :: node where "new_file = Regular [1, 2] 420 second_id"

definition edit_store :: store where
  "edit_store = sample_store (Dir [(''a'', old_file)]) (Dir [(''a'', new_file)])"

definition replace_store :: store where
  "replace_store = sample_store (Dir [(''a'', Dir [(''x'', old_file)])]) (Dir [(''a'', new_file)])"

lemma work_of_sample [simp]: "work_of (sample_store seed work) ''job'' = work"
  by (simp add: sample_store_def work_of_def)

lemma sample_sel [simp]: "st_seed (sample_store seed work) = seed" "st_wal (sample_store seed work) = None"
  "st_history (sample_store seed work) = None"
  by (simp_all add: sample_store_def)

lemma sample_consistent: "consistent ser hser (sample_store seed work) [] []"
  by (simp add: consistent_def log_open_def transactions_of_def)

lemma seen_single [simp]:
  "seen (Dir [(x, n)]) p = (case p of [] \<Rightarrow> Some None | y # ys \<Rightarrow> if y = x then seen n ys else None)"
  by (cases p) auto

lemma look_single [simp]:
  "look (Dir [(x, n)]) p = (case p of [] \<Rightarrow> Inr (Dir [(x, n)]) | y # ys \<Rightarrow> if y = x then look n ys else Inl NotFound)"
  by (cases p) auto

lemma look_files [simp]:
  "look old_file p = (if p = [] then Inr old_file else Inl NotADirectory)"
  "look new_file p = (if p = [] then Inr new_file else Inl NotADirectory)"
  by (cases p; simp add: old_file_def new_file_def)+

lemma leaf_at_single:
  "leaf_at (Dir [(x, n)]) [] = None" "leaf_at (Dir [(x, n)]) (y # ys) = (if y = x then leaf_at n ys else None)"
  by (simp_all add: leaf_at_def)

lemma leaf_at_files:
  "leaf_at old_file p = (if p = [] then Some (FileLeaf [1] (permissions 420)) else None)"
  "leaf_at new_file p = (if p = [] then Some (FileLeaf [1, 2] (permissions 420)) else None)"
  by (cases p; simp add: old_file_def new_file_def leaf_at_def)+

lemma leaf_at_samples [simp]:
  "leaf_at (Dir [(x, old_file)]) p = (if p = [x] then Some (FileLeaf [1] (permissions 420)) else None)"
  "leaf_at (Dir [(x, new_file)]) p = (if p = [x] then Some (FileLeaf [1, 2] (permissions 420)) else None)"
  by (cases p; simp add: leaf_at_single leaf_at_files)+

lemma leaf_at_nested [simp]:
  "leaf_at (Dir [(x, Dir [(y, old_file)])]) p = (if p = [x, y] then Some (FileLeaf [1] (permissions 420)) else None)"
  by (cases p) (simp_all add: leaf_at_single leaf_at_files)

lemma edit_store_sel [simp]:
  "st_seed edit_store = Dir [(''a'', old_file)]" "work_of edit_store ''job'' = Dir [(''a'', new_file)]"
  by (simp_all add: edit_store_def)

lemma replace_store_sel [simp]:
  "st_seed replace_store = Dir [(''a'', Dir [(''x'', old_file)])]" "work_of replace_store ''job'' = Dir [(''a'', new_file)]"
  by (simp_all add: replace_store_def)

lemma edit_diff:
  "removed_paths (st_seed edit_store) (work_of edit_store ''job'') = {}"
  "written_paths (st_seed edit_store) (work_of edit_store ''job'') = {[''a'']}"
  by (auto simp: removed_paths_def written_paths_def split: if_splits)

lemma replace_diff:
  "removed_paths (st_seed replace_store) (work_of replace_store ''job'') = {[''a'', ''x'']}"
  "written_paths (st_seed replace_store) (work_of replace_store ''job'') = {[''a'']}"
  by (auto simp: removed_paths_def written_paths_def split: if_splits)

lemma sample_identity:
  "identity_sound (st_seed edit_store) (work_of edit_store ''job'')"
  "identity_sound (st_seed replace_store) (work_of replace_store ''job'')"
  unfolding identity_sound_def
  by (auto simp: split: list.splits if_splits)
    (auto simp: old_file_def new_file_def first_id_def second_id_def)

lemma sample_names:
  "good_name ''a''" "good_name ''x''" "clean_name ''a''" "clean_name ''x''"
  by (simp_all add: good_name_def clean_name_def TEMPORARY_SUFFIX_def suffix_def)

lemma sample_mergeable:
  "mergeable (st_seed edit_store) (work_of edit_store ''job'')"
  "mergeable (st_seed replace_store) (work_of replace_store ''job'')"
  unfolding mergeable_def edit_diff replace_diff
  by (simp_all add: sample_names) (simp_all add: old_file_def new_file_def)

definition edit_input :: "(bytes \<Rightarrow> string) \<Rightarrow> transaction_input" where
  "edit_input sha1 = \<lparr>in_uid = ''job'', in_seq = 1, in_principal = ''ann'', in_cmd = ''edit a'',
     in_events = [new_event ''ann'' Edit [''a'']], in_ops = [Write ''a''], in_recs = [Move ''a'' ''a'' (sha1 [1, 2])]\<rparr>"

definition replace_input :: "(bytes \<Rightarrow> string) \<Rightarrow> transaction_input" where
  "replace_input sha1 = \<lparr>in_uid = ''job'', in_seq = 1, in_principal = ''ann'', in_cmd = ''replace a'',
     in_events = [new_event ''ann'' Edit [''a'']], in_ops = [Remove ''a/x'', Write ''a''],
     in_recs = [Delete ''a/x'', Move ''a'' ''a'' (sha1 [1, 2])]\<rparr>"

lemma sample_write: "op_record sha1 (Dir [(''a'', new_file)]) (Write ''a'') = Inr (Move ''a'' ''a'' (sha1 [1, 2]))"
  by (simp add: op_record_def content_hash_def components_def new_file_def)

lemma sample_remove: "op_record sha1 work (Remove path) = Inr (Delete path)"
  by (simp add: op_record_def)

lemma edit_planned: "planned sha1 (st_seed edit_store) (work_of edit_store ''job'') [Write ''a''] [Move ''a'' ''a'' (sha1 [1, 2])]"
  by (simp add: planned_def diff_trees_def collect_def sample_write sample_remove)
    (simp add: old_file_def new_file_def first_id_def second_id_def
      sort_descending_def relative_to_def content_hash_def good_name_def components_def)

lemma replace_planned: "planned sha1 (st_seed replace_store) (work_of replace_store ''job'')
    [Remove ''a/x'', Write ''a''] [Delete ''a/x'', Move ''a'' ''a'' (sha1 [1, 2])]"
  by (simp add: planned_def diff_trees_def collect_def sample_write sample_remove)
    (simp add: old_file_def new_file_def first_id_def second_id_def
      sort_descending_def relative_to_def content_hash_def good_name_def components_def)

lemma sample_startable:
  "startable sha1 edit_store [] (edit_input sha1)" "startable sha1 replace_store [] (replace_input sha1)"
  unfolding startable_def Let_def edit_input_def replace_input_def
  using sample_mergeable sample_identity edit_planned[of sha1] replace_planned[of sha1] by simp_all

section \<open>A multiplexer\<close>

definition sample_world :: "(bytes \<Rightarrow> string) \<Rightarrow> string world" where
  "sample_world sha1 = \<lparr>w_sha1 = sha1, w_fresh = (\<lambda>path. second_id), w_ser = unary, w_hser = unary,
     w_uids = numbered, w_intern = (\<lambda>s. s)\<rparr>"

lemma sample_world_sel [simp]:
  "w_sha1 (sample_world sha1) = sha1" "w_ser (sample_world sha1) = unary" "w_hser (sample_world sha1) = unary"
  "w_uids (sample_world sha1) = numbered" "w_intern (sample_world sha1) = (\<lambda>s. s)"
  by (simp_all add: sample_world_def)

text \<open>A session that has granted \<open>history\<close> and recorded nothing yet.\<close>

definition sample_mux :: "store \<Rightarrow> event list \<Rightarrow> mux" where
  "sample_mux st history = \<lparr>mx_auth = \<lparr>as_history = history, as_generations = Map.empty, as_seq = 0\<rparr>,
     mx_store = st, mx_readers = [], mx_trees = Map.empty\<rparr>"

lemma sample_mux_sel [simp]:
  "mx_store (sample_mux st history) = st" "as_history (mx_auth (sample_mux st history)) = history"
  "as_generations (mx_auth (sample_mux st history)) = Map.empty" "as_seq (mx_auth (sample_mux st history)) = 0"
  "mx_readers (sample_mux st history) = []" "mx_trees (sample_mux st history) = Map.empty"
  by (simp_all add: sample_mux_def)

definition sample_box :: sandbox where
  "sample_box = \<lparr>sb_id = ''ann'', sb_dir = [], sb_uid = ''job''\<rparr>"

lemma sample_box_sel [simp]: "sb_id sample_box = ''ann''" "sb_dir sample_box = []" "sb_uid sample_box = ''job''"
  by (simp_all add: sample_box_def)

definition edit_translation :: translation where
  "edit_translation = \<lparr>tl_events = [new_event ''ann'' Edit [''a'']], tl_unsupported = None, tl_git_reads = [],
     tl_wrote_in_root = True\<rparr>"

definition sample_result :: execution_result where
  "sample_result = \<lparr>xr_exit_code = 0, xr_stdout = [], xr_stderr = [], xr_trace_log = ''trace''\<rparr>"

lemma sample_result_sel [simp]:
  "xr_exit_code sample_result = 0" "xr_stdout sample_result = []" "xr_stderr sample_result = []"
  "xr_trace_log sample_result = ''trace''"
  by (simp_all add: sample_result_def)

lemma edit_translation_sel [simp]:
  "tl_events edit_translation = [new_event ''ann'' Edit [''a'']]" "tl_unsupported edit_translation = None"
  "tl_git_reads edit_translation = []" "tl_wrote_in_root edit_translation" "concluding edit_translation sample_result"
  by (simp_all add: edit_translation_def concluding_def sample_result_def)

lemma edit_diffed: "diffed (sample_mux edit_store history) sample_box [Write ''a'']"
  using sample_mergeable(1) sample_identity(1) edit_planned by (auto simp: diffed_def planned_def)

lemma edit_session_ok: "session_ok (sample_world sha1) ununary ununary (sample_mux edit_store history) [] []"
  using sample_consistent by (simp add: session_ok_def codec_unary edit_store_def)

lemma edit_granted: "fst (table_check [] [new_event ''ann'' Edit [''a'']]) = []"
  by (simp add: git_table_def row_of_def reader_of_def claimed_by_other_def)

lemma edit_denied: "fst (table_check [new_event ''bob'' Edit [''a'']] [new_event ''ann'' Edit [''a'']]) \<noteq> []"
proof -
  have "git_table [new_event ''bob'' Edit [''a'']] (new_event ''ann'' Edit [''a'']) \<noteq> PolicyGrant"
    by (simp add: git_table_grant row_of_def row_step_def row_effect_def)
  then show ?thesis by (auto simp: case_prod_beta split: policy_decision.split)
qed

definition read_translation :: translation where
  "read_translation = \<lparr>tl_events = [new_event ''ann'' Read [''a'']], tl_unsupported = None, tl_git_reads = [],
     tl_wrote_in_root = False\<rparr>"

lemma read_translation_sel [simp]: "tl_events read_translation = [new_event ''ann'' Read [''a'']]"
  by (simp add: read_translation_def)

lemma read_only: "only_read read_translation sample_result"
  by (simp add: only_read_def concluding_def read_translation_def)

end
