(* ===== verification/Readers.thy ===== *)
theory Readers
  imports Mux "HOL-Library.Multiset"
begin

text \<open>
  The reader trees bypassed commands share, as a state machine: commands take and release trees in
  any order, trees are discarded, and transactions move the seed on in between. Each step is one
  critical section of \<^verbatim>\<open>mux.rs\<close>. The ghost state is the multiset of versions that running commands
  read, and \<open>versions\<close> is what the seed was at each version.
\<close>

section \<open>Steps\<close>

inductive reading :: "(nat \<Rightarrow> node) \<Rightarrow> mux \<Rightarrow> nat multiset \<Rightarrow> bool" for versions where
  opened: "mx_readers mx = [] \<Longrightarrow> mx_trees mx = Map.empty \<Longrightarrow> reading versions mx {#}"
| acquired: "reading versions mx R \<Longrightarrow> st_seed (mx_store mx) = versions (as_seq (mx_auth mx)) \<Longrightarrow>
     acquire_reader mx = (version, mx') \<Longrightarrow> reading versions mx' (add_mset version R)"
| released: "reading versions mx R \<Longrightarrow> version \<in># R \<Longrightarrow> reading versions (release_reader mx version) (R - {#version#})"
| discarded: "reading versions mx R \<Longrightarrow> reading versions (discard_reader mx version) R"
| elsewhere: "reading versions mx R \<Longrightarrow> mx_readers mx' = mx_readers mx \<Longrightarrow> mx_trees mx' = mx_trees mx \<Longrightarrow>
     reading versions mx' R"

section \<open>The invariant\<close>

definition users_of :: "mux \<Rightarrow> nat \<Rightarrow> nat" where
  "users_of mx version = (case map_of (mx_readers mx) version of None \<Rightarrow> 0 | Some users \<Rightarrow> users)"

definition shared :: "(nat \<Rightarrow> node) \<Rightarrow> mux \<Rightarrow> (nat \<Rightarrow> nat) \<Rightarrow> bool" where
  "shared versions mx users \<longleftrightarrow> distinct (map fst (mx_readers mx)) \<and> (\<forall>v. users_of mx v = users v) \<and>
     (\<forall>v. mx_trees mx v = (if v \<in> dom (map_of (mx_readers mx)) then Some (versions v) else None))"

lemma removed_readers [simp]:
  "map_of (mx_readers (remove_reader mx version)) = (map_of (mx_readers mx))(version := None)"
  "mx_trees (remove_reader mx version) = (mx_trees mx)(version := None)"
  "mx_auth (remove_reader mx version) = mx_auth mx" "mx_store (remove_reader mx version) = mx_store mx"
  by (simp_all add: remove_reader_def delete_conv')

lemma distinct_removed [simp]:
  "distinct (map fst (mx_readers mx)) \<Longrightarrow> distinct (map fst (mx_readers (remove_reader mx version)))"
  by (simp add: remove_reader_def distinct_delete)

lemma shared_users: "shared versions mx users \<Longrightarrow> (v, n) \<in> set (mx_readers mx) \<Longrightarrow> users v = n"
  by (metis shared_def users_of_def map_of_is_SomeI option.case(2))

lemma remove_shared:
  "shared versions mx users \<Longrightarrow> users version = 0 \<Longrightarrow> shared versions (remove_reader mx version) users"
  by (auto simp: shared_def users_of_def)

lemma remove_all_shared:
  "shared versions mx users \<Longrightarrow> \<forall>v \<in> set vs. users v = 0 \<Longrightarrow> shared versions (foldl remove_reader mx vs) users"
  by (induction vs arbitrary: mx) (simp_all add: remove_shared)

lemma acquire_shared:
  assumes s: "shared versions mx users" and seed: "st_seed (mx_store mx) = versions (as_seq (mx_auth mx))"
    and a: "acquire_reader mx = (version, mx')"
  shows "shared versions mx' (users(version := Suc (users version)))"
proof -
  let ?seq = "as_seq (mx_auth mx)"
  define mx1 where "mx1 = (case map_of (mx_readers mx) ?seq of
      Some n \<Rightarrow> mx\<lparr>mx_readers := AList.update ?seq (n + 1) (mx_readers mx)\<rparr>
    | None \<Rightarrow> mx\<lparr>mx_readers := AList.update ?seq 1 (mx_readers mx),
                 mx_trees := (mx_trees mx)(?seq \<mapsto> st_seed (mx_store mx))\<rparr>)"
  let ?old = "map fst (filter (\<lambda>(v, n). v \<noteq> ?seq \<and> n = 0) (mx_readers mx1))"
  have r: "?seq = version \<and> foldl remove_reader mx1 ?old = mx'"
    using a unfolding acquire_reader_def mx1_def Let_def prod.inject .
  have "shared versions mx1 (users(?seq := Suc (users ?seq)))"
  proof (cases "map_of (mx_readers mx) ?seq")
    case None
    from s have "users_of mx ?seq = users ?seq" by (simp add: shared_def)
    with None have "users ?seq = 0" by (simp add: users_of_def)
    with None s seed show ?thesis
      by (simp add: mx1_def shared_def users_of_def distinct_update update_conv' dom_def)
  next
    case (Some k)
    from s have "users_of mx ?seq = users ?seq" by (simp add: shared_def)
    with Some have "users ?seq = k" by (simp add: users_of_def)
    with Some s show ?thesis
      by (auto simp: mx1_def shared_def users_of_def distinct_update update_conv')
  qed
  moreover from shared_users[OF this] have "\<forall>v \<in> set ?old. (users(?seq := Suc (users ?seq))) v = 0"
    by fastforce
  ultimately have "shared versions (foldl remove_reader mx1 ?old) (users(?seq := Suc (users ?seq)))"
    by (rule remove_all_shared)
  then show ?thesis using r by metis
qed

lemma release_shared:
  assumes s: "shared versions mx users" and n: "0 < users version"
  shows "shared versions (release_reader mx version) (users(version := users version - 1))"
proof -
  from s have "users_of mx version = users version" by (simp add: shared_def)
  with n obtain k where k: "map_of (mx_readers mx) version = Some k" "users version = k"
    by (cases "map_of (mx_readers mx) version") (simp_all add: users_of_def)
  let ?mx1 = "mx\<lparr>mx_readers := AList.update version (k - 1) (mx_readers mx)\<rparr>"
  have one: "shared versions ?mx1 (users(version := users version - 1))"
    using s k by (auto simp: shared_def users_of_def distinct_update update_conv' split: option.splits)
  show ?thesis
  proof (cases "k - 1 > 0 \<or> version = as_seq (mx_auth mx)")
    case True
    with one k show ?thesis by (auto simp: release_reader_def Let_def)
  next
    case False
    with remove_shared[OF one, of version] k show ?thesis by (simp add: release_reader_def Let_def)
  qed
qed

lemma discard_shared:
  assumes s: "shared versions mx users"
  shows "shared versions (discard_reader mx version) users"
proof (cases "map_of (mx_readers mx) version")
  case None
  with s show ?thesis by (simp add: discard_reader_def)
next
  case (Some k)
  from s have "users_of mx version = users version" by (simp add: shared_def)
  with Some have "users version = k" by (simp add: users_of_def)
  with remove_shared[OF s, of version] s Some show ?thesis by (simp add: discard_reader_def)
qed

lemma reading_shared: "reading versions mx R \<Longrightarrow> shared versions mx (count R)"
proof (induction rule: reading.induct)
  case (opened mx)
  then show ?case by (simp add: shared_def users_of_def)
next
  case (acquired mx R version mx')
  have "count (add_mset version R) = (count R)(version := Suc (count R version))" by (simp add: fun_eq_iff)
  then show ?case using acquire_shared[OF acquired.IH acquired.hyps(2,3)] by (simp only:)
next
  case (released mx R version)
  have "count (R - {#version#}) = (count R)(version := count R version - 1)" by (simp add: fun_eq_iff)
  then show ?case using release_shared[OF released.IH, of version] released.hyps(2) by (simp only: count_greater_zero_iff)
next
  case (discarded mx R version)
  then show ?case by (simp add: discard_shared)
next
  case (elsewhere mx R mx')
  then show ?case by (simp add: shared_def users_of_def)
qed

lemma reading_trees: "reading versions mx R \<Longrightarrow> version \<in># R \<Longrightarrow> mx_trees mx version = Some (versions version)"
proof -
  assume r: "reading versions mx R" "version \<in># R"
  from reading_shared[OF r(1)] r(2) have "users_of mx version \<noteq> 0"
    "mx_trees mx version = (if version \<in> dom (map_of (mx_readers mx)) then Some (versions version) else None)"
    by (auto simp: shared_def)
  then show ?thesis by (auto simp: users_of_def split: option.splits)
qed

lemma foldl_removed:
  "map_of (mx_readers (foldl remove_reader mx vs)) v = (if v \<in> set vs then None else map_of (mx_readers mx) v)"
  by (induction vs arbitrary: mx) simp_all

lemma acquired_used:
  assumes "acquire_reader mx = (version, mx')" "map_of (mx_readers mx') v = Some 0"
  shows "v = version"
proof -
  obtain mx1 where "mx' = foldl remove_reader mx1 (map fst (filter (\<lambda>(v, n). v \<noteq> version \<and> n = 0) (mx_readers mx1)))"
    using assms(1) unfolding acquire_reader_def Let_def by blast
  with assms(2) show ?thesis by (auto simp: foldl_removed image_iff split: if_splits dest: map_of_SomeD)
qed

lemma acquired_trees:
  assumes r: "reading versions mx R" and seed: "st_seed (mx_store mx) = versions (as_seq (mx_auth mx))"
    and a: "acquire_reader mx = (version, mx')"
  shows "version = as_seq (mx_auth mx) \<and> dom (mx_trees mx') = insert version (set_mset R)"
proof -
  from a have version: "version = as_seq (mx_auth mx)" by (simp add: acquire_reader_def Let_def)
  have r': "reading versions mx' (add_mset version R)" by (rule reading.acquired[OF r seed a])
  note s = reading_shared[OF r']
  have "v \<in># add_mset version R" if "v \<in> dom (mx_trees mx')" for v
  proof (rule ccontr)
    assume v: "v \<notin># add_mset version R"
    with s have zero: "users_of mx' v = 0" by (auto simp: shared_def not_in_iff)
    from that s have "v \<in> dom (map_of (mx_readers mx'))" by (auto simp: shared_def split: if_splits)
    with zero have "map_of (mx_readers mx') v = Some 0" by (auto simp: users_of_def)
    from acquired_used[OF a this] v show False by simp
  qed
  moreover have "v \<in> dom (mx_trees mx')" if "v \<in># add_mset version R" for v
    using reading_trees[OF r' that] by blast
  ultimately show ?thesis using version by auto
qed

end
