(* ===== verification/Text.thy ===== *)
theory Text
  imports Mux
begin

text \<open>
  The string operations the executor's parsers use. A string is its UTF-8 bytes; white space is the
  ASCII one, since the tracer escapes every other byte inside quotes and prints none outside.
\<close>

section \<open>Searching and splitting\<close>

definition strip_prefix :: "string \<Rightarrow> string \<Rightarrow> string option" where
  "strip_prefix p s = (if prefix p s then Some (drop (length p) s) else None)"

definition strip_suffix :: "string \<Rightarrow> string \<Rightarrow> string option" where
  "strip_suffix p s = (if suffix p s then Some (take (length s - length p) s) else None)"

text \<open>The text before and after the first occurrence of a pattern, and after the last one of a character.\<close>

fun split_once :: "string \<Rightarrow> string \<Rightarrow> (string \<times> string) option" where
  "split_once d [] = (if d = [] then Some ([], []) else None)"
| "split_once d (c # cs) =
     (if prefix d (c # cs) then Some ([], drop (length d) (c # cs))
      else map_option (\<lambda>(u, v). (c # u, v)) (split_once d cs))"

fun rsplit_once :: "char \<Rightarrow> string \<Rightarrow> (string \<times> string) option" where
  "rsplit_once d [] = None"
| "rsplit_once d (c # cs) = (case rsplit_once d cs of
     Some (u, v) \<Rightarrow> Some (c # u, v)
   | None \<Rightarrow> if c = d then Some ([], cs) else None)"

definition contains :: "string \<Rightarrow> string \<Rightarrow> bool" where
  "contains d s \<longleftrightarrow> split_once d s \<noteq> None"

definition is_space :: "char \<Rightarrow> bool" where
  "is_space c \<longleftrightarrow> (of_char c :: nat) \<in> {9, 10, 11, 12, 13, 32}"

definition trim_start :: "string \<Rightarrow> string" where
  "trim_start s = dropWhile is_space s"

definition trim_end :: "string \<Rightarrow> string" where
  "trim_end s = rev (dropWhile is_space (rev s))"

definition trim :: "string \<Rightarrow> string" where
  "trim s = trim_end (trim_start s)"

lemma split_once_Some: "split_once d s = Some (a, b) \<Longrightarrow> s = a @ d @ b"
  by (induction d s arbitrary: a b rule: split_once.induct)
    (auto split: if_splits simp: prefix_def)

lemma rsplit_once_Some: "rsplit_once d s = Some (a, b) \<longleftrightarrow> s = a @ d # b \<and> d \<notin> set b"
proof (induction s arbitrary: a b)
  case (Cons c cs)
  show ?case
  proof (cases "rsplit_once d cs")
    case None
    then have "d \<notin> set cs"
      using Cons.IH split_list_last[of d cs] by fastforce
    with None show ?thesis by (cases a) auto
  next
    case (Some ab)
    then obtain a' b' where r: "rsplit_once d cs = Some (a', b')" by (cases ab) auto
    with Cons.IH[of a' b'] have "cs = a' @ d # b'" "d \<notin> set b'" by simp_all
    with r Cons.IH[of "tl a" b] show ?thesis by (cases a) auto
  qed
qed simp

section \<open>Numbers\<close>

definition is_digit :: "char \<Rightarrow> bool" where
  "is_digit c \<longleftrightarrow> (of_char c :: nat) \<in> {48..57}"

definition digit_value :: "char \<Rightarrow> nat" where
  "digit_value c = of_char c - 48"

definition number_of :: "string \<Rightarrow> nat" where
  "number_of s = foldl (\<lambda>n c. n * 10 + digit_value c) 0 s"

text \<open>\<open>str::parse\<close> of an unsigned and of a signed integer of \<open>w\<close> bits.\<close>

definition parse_unsigned :: "nat \<Rightarrow> string \<Rightarrow> nat option" where
  "parse_unsigned w s =
     (let digits = (if prefix ''+'' s then drop 1 s else s) in
      if digits \<noteq> [] \<and> list_all is_digit digits \<and> number_of digits < 2 ^ w then Some (number_of digits) else None)"

definition parse_signed :: "nat \<Rightarrow> string \<Rightarrow> int option" where
  "parse_signed w s =
     (let negative = prefix ''-'' s;
          digits = (if negative \<or> prefix ''+'' s then drop 1 s else s);
          value = (if negative then - int (number_of digits) else int (number_of digits)) in
      if digits \<noteq> [] \<and> list_all is_digit digits \<and> - (2 ^ (w - 1)) \<le> value \<and> value < 2 ^ (w - 1)
      then Some value else None)"

fun show_nat :: "nat \<Rightarrow> string" where
  "show_nat n = (if n < 10 then [char_of (48 + n)] else show_nat (n div 10) @ [char_of (48 + n mod 10)])"

declare show_nat.simps [simp del]

lemma digit_char [simp]: "n < 10 \<Longrightarrow> is_digit (char_of (48 + n))" "n < 10 \<Longrightarrow> digit_value (char_of (48 + n)) = n"
  by (simp_all add: is_digit_def digit_value_def)

lemma number_of_snoc [simp]: "number_of (s @ [c]) = number_of s * 10 + digit_value c"
  by (simp add: number_of_def)

lemma show_nat_digits: "show_nat n \<noteq> [] \<and> list_all is_digit (show_nat n) \<and> number_of (show_nat n) = n"
proof (induction n rule: show_nat.induct)
  case (1 n)
  show ?case
  proof (cases "n < 10")
    case True
    then show ?thesis by (simp add: show_nat.simps[of n] number_of_def)
  next
    case False
    with 1 show ?thesis by (simp add: show_nat.simps[of n])
  qed
qed

lemma parse_show_nat: "n < 2 ^ w \<Longrightarrow> parse_unsigned w (show_nat n) = Some n"
proof -
  assume n: "n < 2 ^ w"
  obtain c cs where s: "show_nat n = c # cs" using show_nat_digits[of n] by (cases "show_nat n") auto
  then have "is_digit c" using show_nat_digits[of n] by simp
  then have "c \<noteq> CHR ''+''" by (auto simp: is_digit_def)
  with s have "\<not> prefix ''+'' (show_nat n)" by simp
  with n show_nat_digits[of n] show ?thesis by (simp add: parse_unsigned_def)
qed

section \<open>Debug output\<close>

text \<open>The \<open>{:?}\<close> form of a string, whose bytes outside ASCII are taken as printable.\<close>

fun hex_digit :: "nat \<Rightarrow> char" where
  "hex_digit n = (if n < 10 then char_of (48 + n) else char_of (87 + n))"

definition debug_char :: "char \<Rightarrow> string" where
  "debug_char c = (let n = (of_char c :: nat) in
     if n = 0 then [CHR 0x5C, CHR ''0'']
     else if n = 9 then [CHR 0x5C, CHR ''t'']
     else if n = 10 then [CHR 0x5C, CHR ''n'']
     else if n = 13 then [CHR 0x5C, CHR ''r'']
     else if c = CHR 0x22 \<or> c = CHR 0x5C then [CHR 0x5C, c]
     else if n < 32 \<or> n = 127 then
       [CHR 0x5C, CHR ''u'', CHR 0x7B] @ (if n < 16 then [] else [hex_digit (n div 16)]) @ [hex_digit (n mod 16), CHR 0x7D]
     else [c])"

definition debug_string :: "string \<Rightarrow> string" where
  "debug_string s = [CHR 0x22] @ concat (map debug_char s) @ [CHR 0x22]"

definition debug_strings :: "string list \<Rightarrow> string" where
  "debug_strings ss = ''['' @ join '', '' (map debug_string ss) @ '']''"

end
