(* ===== verification/GitCommand.thy ===== *)
theory GitCommand
  imports Text
begin

text \<open>
  The git command grammar, \<^verbatim>\<open>marsh-exec/src/gitcmd.rs\<close>: the operations the executor performs, the
  resolution of paths, and the parser the builtins and the translation of a trace share.
\<close>

section \<open>Paths\<close>

text \<open>
  A path buffer is the list of its components, as \<^verbatim>\<open>Path::components\<close> reads them: empty components
  vanish, and a single dot counts only at the start of a relative path.
\<close>

datatype part = RootDir | CurDir | ParentDir | Normal string

fun part_of :: "string \<Rightarrow> part" where
  "part_of s = (if s = ''..'' then ParentDir else Normal s)"

definition parts_below :: "string list \<Rightarrow> part list" where
  "parts_below ws = map part_of (filter (\<lambda>s. s \<noteq> [] \<and> s \<noteq> ''.'') ws)"

definition path_buf :: "string \<Rightarrow> part list" where
  "path_buf s = (let ws = split_on (CHR ''/'') s in
     if prefix ''/'' s then RootDir # parts_below ws
     else if hd ws = ''.'' then CurDir # parts_below ws else parts_below ws)"

text \<open>\<open>Path::join\<close> with a path that is not absolute, and \<open>PathBuf::pop\<close>, which keeps the root.\<close>

definition join_path :: "part list \<Rightarrow> string \<Rightarrow> part list" where
  "join_path base s = (if base = [] then path_buf s else base @ parts_below (split_on (CHR ''/'') s))"

definition pop :: "part list \<Rightarrow> part list" where
  "pop out = (if out = [] \<or> last out = RootDir then out else butlast out)"

fun push_part :: "part list \<Rightarrow> part \<Rightarrow> part list" where
  "push_part out RootDir = [RootDir]"
| "push_part out CurDir = out"
| "push_part out ParentDir = pop out"
| "push_part out (Normal s) = out @ [Normal s]"

definition resolve :: "part list \<Rightarrow> string \<Rightarrow> part list" where
  "resolve base path =
     (let joined = (if prefix ''/'' path then path_buf path else join_path base path) in foldl push_part [] joined)"

fun normal_part :: "part \<Rightarrow> string option" where
  "normal_part (Normal s) = Some s"
| "normal_part _ = None"

definition relative_segments :: "part list \<Rightarrow> part list \<Rightarrow> string list option" where
  "relative_segments root path =
     (if prefix root path then Some (List.map_filter normal_part (drop (length root) path)) else None)"

section \<open>Invocations\<close>

datatype git_action =
    GitStage | GitDelete | GitCommit "string option" | GitUnstage | GitCheckout | GitStash | GitClean
  | GitDiff | GitHistory

record git_invocation =
  gi_action :: git_action
  gi_pathspecs :: "string list"

datatype git_cmd_error =
    NoSubcommand
  | GlobalFlags
  | LeadingArguments string nat "string list"
  | RestoreWithoutStaged
  | CheckoutOf string
  | StashOther
  | CleanWithoutForce
  | UnknownSubcommand string
  | EmptyPathspecs string
  | PathspecPattern string
  | CommitFromFile
  | CommitMessageMissing

fun git_cmd_message :: "git_cmd_error \<Rightarrow> string" where
  "git_cmd_message NoSubcommand = ''git without a subcommand is not mappable to capabilities''"
| "git_cmd_message GlobalFlags = ''git global flags not supported''"
| "git_cmd_message (LeadingArguments subcommand expected got) =
     ''git '' @ subcommand @ '' expects '' @ show_nat expected @ '' leading argument(s), got '' @ debug_strings got"
| "git_cmd_message RestoreWithoutStaged =
     ''git restore without --staged is not a capability; use git checkout HEAD -- <path>''"
| "git_cmd_message (CheckoutOf revision) = ''git checkout of '' @ debug_string revision @ '' is not mappable to capabilities''"
| "git_cmd_message StashOther = ''only `git stash push` is mappable to capabilities''"
| "git_cmd_message CleanWithoutForce = ''git clean requires -f''"
| "git_cmd_message (UnknownSubcommand s) = ''git '' @ s @ '' not mappable to capabilities''"
| "git_cmd_message (EmptyPathspecs s) = ''git '' @ s @ '' with an empty pathspec list''"
| "git_cmd_message (PathspecPattern p) = ''git pathspec pattern '' @ debug_string p @ '' is not a resource''"
| "git_cmd_message CommitFromFile = ''git commit -F/--file is not mappable to capabilities''"
| "git_cmd_message CommitMessageMissing = ''git commit -m without a message''"

section \<open>Parsing\<close>

text \<open>\<open>split_flags\<close>: the flags, each with its value where it takes one, and the positional arguments.\<close>

fun split_flags :: "string list \<Rightarrow> string list \<times> string list" where
  "split_flags [] = ([], [])"
| "split_flags (arg # rest) =
     (if prefix ''-'' arg then
        (if arg \<in> {''-m'', ''--message'', ''-F'', ''--file''} then
           (case rest of
              value # rest' \<Rightarrow> let (flags, positionals) = split_flags rest' in (arg # value # flags, positionals)
            | [] \<Rightarrow> ([arg], []))
         else let (flags, positionals) = split_flags rest in (arg # flags, positionals))
      else let (flags, positionals) = split_flags rest in (flags, arg # positionals))"

fun commit_messages :: "string list \<Rightarrow> git_cmd_error + string list" where
  "commit_messages [] = Inr []"
| "commit_messages (flag # rest) =
     (if flag = ''-F'' \<or> flag = ''--file'' \<or> prefix ''--file='' flag then Inl CommitFromFile
      else if flag = ''-m'' \<or> flag = ''--message'' then
        (case rest of
           [] \<Rightarrow> Inl CommitMessageMissing
         | value # rest' \<Rightarrow> and_then (commit_messages rest') (\<lambda>ms. Inr (value # ms)))
      else case strip_prefix ''--message='' flag of
        Some value \<Rightarrow> and_then (commit_messages rest) (\<lambda>ms. Inr (value # ms))
      | None \<Rightarrow> (case strip_prefix ''-m'' flag of
          Some value \<Rightarrow> if value = [] then commit_messages rest
            else and_then (commit_messages rest) (\<lambda>ms. Inr (value # ms))
        | None \<Rightarrow> commit_messages rest))"

definition commit_message :: "string list \<Rightarrow> git_cmd_error + string option" where
  "commit_message flags = and_then (commit_messages flags) (\<lambda>messages.
     Inr (if messages = [] then None else Some (join [CHR 0x0A, CHR 0x0A] messages)))"

text \<open>The leading words a subcommand reserves, and the action it names.\<close>

definition reserved_words :: "string \<Rightarrow> nat" where
  "reserved_words subcommand = (if subcommand = ''checkout'' \<or> subcommand = ''stash'' then 1 else 0)"

definition git_action_of :: "string \<Rightarrow> string list \<Rightarrow> string list \<Rightarrow> git_cmd_error + git_action" where
  "git_action_of subcommand flags revisions =
     (if subcommand = ''add'' \<or> subcommand = ''stage'' then Inr GitStage
      else if subcommand = ''rm'' then Inr GitDelete
      else if subcommand = ''commit'' then and_then (commit_message flags) (\<lambda>message. Inr (GitCommit message))
      else if subcommand = ''restore'' then
        (if ''--staged'' \<in> set flags then Inr GitUnstage else Inl RestoreWithoutStaged)
      else if subcommand = ''checkout'' then
        (if revisions ! 0 \<noteq> ''HEAD'' then Inl (CheckoutOf (revisions ! 0)) else Inr GitCheckout)
      else if subcommand = ''stash'' then
        (if revisions ! 0 \<noteq> ''push'' then Inl StashOther else Inr GitStash)
      else if subcommand = ''clean'' then
        (if ''-f'' \<in> set flags \<or> ''--force'' \<in> set flags then Inr GitClean else Inl CleanWithoutForce)
      else if subcommand = ''diff'' then Inr GitDiff
      else if subcommand = ''log'' then Inr GitHistory
      else Inl (UnknownSubcommand subcommand))"

text \<open>The words after the subcommand as flags, leading words and pathspecs; \<open>--\<close> is optional.\<close>

definition split_words :: "nat \<Rightarrow> string list \<Rightarrow> string list \<times> string list \<times> string list" where
  "split_words reserved rest =
     (if ''--'' \<in> set rest then
        (let (flags, before) = split_flags (takeWhile (\<lambda>arg. arg \<noteq> ''--'') rest) in
         (flags, before, tl (dropWhile (\<lambda>arg. arg \<noteq> ''--'') rest)))
      else let (flags, positionals) = split_flags rest in
        (flags, take (min (length positionals) reserved) positionals, drop (min (length positionals) reserved) positionals))"

definition is_glob :: "string \<Rightarrow> bool" where
  "is_glob pathspec \<longleftrightarrow> CHR ''*'' \<in> set pathspec \<or> CHR ''?'' \<in> set pathspec \<or> CHR ''['' \<in> set pathspec"

definition git_parse :: "string list \<Rightarrow> git_cmd_error + git_invocation" where
  "git_parse argv =
     (if length argv \<le> 1 then Inl NoSubcommand
      else if prefix ''-'' (argv ! 1) then Inl GlobalFlags
      else
        let subcommand = argv ! 1; rest = drop 2 argv; reserved = reserved_words subcommand;
            (flags, revisions, pathspecs) = split_words reserved rest in
        if length revisions \<noteq> reserved then Inl (LeadingArguments subcommand reserved revisions)
        else and_then (git_action_of subcommand flags revisions) (\<lambda>action.
          if pathspecs = [] then Inl (EmptyPathspecs subcommand)
          else case find is_glob pathspecs of
            Some pathspec \<Rightarrow> Inl (PathspecPattern pathspec)
          | None \<Rightarrow> Inr \<lparr>gi_action = action, gi_pathspecs = pathspecs\<rparr>))"

section \<open>What it accepts\<close>

text \<open>
  The command line that spells an operation out, with \<open>--\<close> before its pathspecs.
\<close>

fun spelled :: "git_action \<Rightarrow> string list" where
  "spelled GitStage = [''add'']"
| "spelled GitDelete = [''rm'']"
| "spelled (GitCommit None) = [''commit'']"
| "spelled (GitCommit (Some message)) = [''commit'', ''-m'', message]"
| "spelled GitUnstage = [''restore'', ''--staged'']"
| "spelled GitCheckout = [''checkout'', ''HEAD'']"
| "spelled GitStash = [''stash'', ''push'']"
| "spelled GitClean = [''clean'', ''-f'']"
| "spelled GitDiff = [''diff'']"
| "spelled GitHistory = [''log'']"

definition command_line :: "git_invocation \<Rightarrow> string list" where
  "command_line gi = [''git''] @ spelled (gi_action gi) @ [''--''] @ gi_pathspecs gi"

definition nameable :: "git_invocation \<Rightarrow> bool" where
  "nameable gi \<longleftrightarrow> gi_pathspecs gi \<noteq> [] \<and> (\<forall>p \<in> set (gi_pathspecs gi). \<not> is_glob p)"

lemma git_parse_nameable: "git_parse argv = Inr gi \<Longrightarrow> nameable gi"
  by (auto simp: git_parse_def nameable_def and_then_Inr Let_def find_None_iff
      split: if_splits option.splits prod.splits)

lemma git_parse_command_line:
  assumes "nameable gi" "\<forall>m. gi_action gi = GitCommit (Some m) \<longrightarrow> m \<noteq> ''--''"
  shows "git_parse (command_line gi) = Inr gi"
proof -
  have none: "find is_glob (gi_pathspecs gi) = None" using assms(1) by (auto simp: nameable_def find_None_iff)
  have some: "gi_pathspecs gi \<noteq> []" using assms(1) by (simp add: nameable_def)
  show ?thesis
    using none some assms(2)
    by (cases "gi_action gi" rule: spelled.cases)
      (auto simp: command_line_def git_parse_def reserved_words_def split_words_def git_action_of_def commit_message_def)
qed

text \<open>The separator may be left out when no pathspec reads as a flag.\<close>

lemma split_flags_positionals: "\<forall>s \<in> set specs. \<not> prefix ''-'' s \<Longrightarrow> split_flags specs = ([], specs)"
  by (induction specs) auto

lemma git_parse_words:
  assumes "split_words (reserved_words subcommand) rest = (flags, revisions, specs)"
    "length revisions = reserved_words subcommand" "git_action_of subcommand flags revisions = Inr a"
    "nameable \<lparr>gi_action = a, gi_pathspecs = specs\<rparr>" "\<not> prefix ''-'' subcommand"
  shows "git_parse (program # subcommand # rest) = Inr \<lparr>gi_action = a, gi_pathspecs = specs\<rparr>"
proof -
  have "find is_glob specs = None" "specs \<noteq> []" using assms(4) by (auto simp: nameable_def find_None_iff)
  with assms show ?thesis by (simp add: git_parse_def)
qed

definition flag_words :: "git_action \<Rightarrow> string list" where
  "flag_words a = (case a of GitCommit (Some m) \<Rightarrow> [''-m'', m] | GitUnstage \<Rightarrow> [''--staged''] | GitClean \<Rightarrow> [''-f''] | _ \<Rightarrow> [])"

definition leading_words :: "git_action \<Rightarrow> string list" where
  "leading_words a = (case a of GitCheckout \<Rightarrow> [''HEAD''] | GitStash \<Rightarrow> [''push''] | _ \<Rightarrow> [])"

lemma spelled_words:
  "spelled a = hd (spelled a) # flag_words a @ leading_words a"
  "length (leading_words a) = reserved_words (hd (spelled a))"
  "git_action_of (hd (spelled a)) (flag_words a) (leading_words a) = Inr a"
  "\<not> prefix ''-'' (hd (spelled a))"
  by (cases a rule: spelled.cases;
      simp add: flag_words_def leading_words_def reserved_words_def git_action_of_def commit_message_def)+

lemma split_flags_words:
  "\<forall>s \<in> set specs. \<not> prefix ''-'' s \<Longrightarrow>
   split_flags (flag_words a @ leading_words a @ specs) = (flag_words a, leading_words a @ specs)"
  by (cases a rule: spelled.cases) (simp_all add: flag_words_def leading_words_def split_flags_positionals)

lemma git_parse_without_separator:
  assumes "nameable gi" "\<forall>p \<in> set (gi_pathspecs gi). \<not> prefix ''-'' p"
    "\<forall>m. gi_action gi = GitCommit (Some m) \<longrightarrow> m \<noteq> ''--''"
  shows "git_parse ([''git''] @ spelled (gi_action gi) @ gi_pathspecs gi) = Inr gi"
proof -
  let ?a = "gi_action gi" and ?specs = "gi_pathspecs gi"
  have "''--'' \<notin> set ?specs" using assms(2) by (force simp: prefix_def)
  moreover have "''--'' \<notin> set (flag_words ?a @ leading_words ?a)"
    using assms(3) by (cases ?a rule: spelled.cases) (simp_all add: flag_words_def leading_words_def)
  ultimately have "split_words (reserved_words (hd (spelled ?a))) (flag_words ?a @ leading_words ?a @ ?specs) =
      (flag_words ?a, leading_words ?a, ?specs)"
    by (simp add: split_words_def split_flags_words[OF assms(2)] spelled_words(2)[symmetric])
  note words = git_parse_words[OF this spelled_words(2,3) _ spelled_words(4), of "''git''"]
  have gi: "\<lparr>gi_action = ?a, gi_pathspecs = ?specs\<rparr> = gi" by (cases gi) simp
  show ?thesis using words[unfolded gi] assms(1) by (subst spelled_words(1)) simp
qed

section \<open>What paths resolve to\<close>

text \<open>Absolute and free of dots.\<close>

definition absolute :: "part list \<Rightarrow> bool" where
  "absolute path \<longleftrightarrow> (\<exists>ss. path = RootDir # map Normal ss \<and> (\<forall>s \<in> set ss. s \<noteq> [] \<and> s \<noteq> ''.'' \<and> CHR ''/'' \<notin> set s))"

lemma absolute_push:
  assumes "absolute out" "x \<noteq> RootDir" "\<forall>s. x = Normal s \<longrightarrow> s \<noteq> [] \<and> s \<noteq> ''.'' \<and> CHR ''/'' \<notin> set s"
  shows "absolute (push_part out x)"
proof -
  from assms(1) obtain ss where out: "out = RootDir # map Normal ss" "\<forall>s \<in> set ss. s \<noteq> [] \<and> s \<noteq> ''.'' \<and> CHR ''/'' \<notin> set s"
    by (auto simp: absolute_def)
  show ?thesis
  proof (cases x)
    case (Normal s)
    with assms(3) have "s \<noteq> [] \<and> s \<noteq> ''.'' \<and> CHR ''/'' \<notin> set s" by blast
    with out(2) have "\<forall>t \<in> set (ss @ [s]). t \<noteq> [] \<and> t \<noteq> ''.'' \<and> CHR ''/'' \<notin> set t" by simp
    moreover have "push_part out x = RootDir # map Normal (ss @ [s])" by (simp add: Normal out(1))
    ultimately show ?thesis unfolding absolute_def by blast
  next
    case ParentDir
    have "push_part out x = RootDir # map Normal (butlast ss)"
      by (cases ss rule: rev_cases) (simp_all add: ParentDir out(1) pop_def butlast_append)
    moreover have "\<forall>t \<in> set (butlast ss). t \<noteq> [] \<and> t \<noteq> ''.'' \<and> CHR ''/'' \<notin> set t"
      using out(2) by (blast dest: in_set_butlastD)
    ultimately show ?thesis unfolding absolute_def by blast
  qed (use assms out in auto)
qed

lemma absolute_pushes:
  "absolute out \<Longrightarrow> \<forall>x \<in> set xs. x \<noteq> RootDir \<and> (\<forall>s. x = Normal s \<longrightarrow> s \<noteq> [] \<and> s \<noteq> ''.'' \<and> CHR ''/'' \<notin> set s) \<Longrightarrow>
   absolute (foldl push_part out xs)"
  by (induction xs arbitrary: out) (simp_all add: absolute_push)

lemma split_on_pieces: "w \<in> set (split_on d s) \<Longrightarrow> d \<notin> set w"
  by (induction s arbitrary: w rule: split_on.induct) (auto split: if_splits list.splits)

lemma parts_below_parts:
  "x \<in> set (parts_below (split_on (CHR ''/'') s)) \<Longrightarrow>
   x \<noteq> RootDir \<and> (\<forall>t. x = Normal t \<longrightarrow> t \<noteq> [] \<and> t \<noteq> ''.'' \<and> CHR ''/'' \<notin> set t)"
  by (auto simp: parts_below_def split_on_pieces split: if_splits)

lemma absolute_root [simp]: "absolute [RootDir]"
  by (simp add: absolute_def)

lemma absolute_foldl: "absolute base \<Longrightarrow> foldl push_part [] base = base"
proof -
  assume "absolute base"
  then obtain ss where "base = RootDir # map Normal ss" by (auto simp: absolute_def)
  moreover have "foldl push_part out (map Normal ss) = out @ map Normal ss" for out
    by (induction ss arbitrary: out) simp_all
  ultimately show ?thesis by simp
qed

lemma resolve_absolute:
  assumes "absolute base \<or> prefix ''/'' path"
  shows "absolute (resolve base path)"
proof (cases "prefix ''/'' path")
  case True
  then show ?thesis
    using absolute_pushes[OF absolute_root] parts_below_parts by (simp add: resolve_def path_buf_def Let_def)
next
  case False
  with assms have b: "absolute base" by simp
  then have "base \<noteq> []" by (auto simp: absolute_def)
  with False b absolute_foldl[OF b] show ?thesis
    using absolute_pushes[OF b] parts_below_parts by (simp add: resolve_def join_path_def)
qed

text \<open>The segments below a root are names, and name the path.\<close>

lemma relative_segments_Some:
  assumes "absolute path" "root \<noteq> []" "relative_segments root path = Some segments"
  shows "path = root @ map Normal segments \<and> (\<forall>s \<in> set segments. s \<noteq> [] \<and> s \<noteq> ''.'' \<and> CHR ''/'' \<notin> set s)"
proof -
  from assms(1) obtain ss where p: "path = RootDir # map Normal ss" "\<forall>s \<in> set ss. s \<noteq> [] \<and> s \<noteq> ''.'' \<and> CHR ''/'' \<notin> set s"
    by (auto simp: absolute_def)
  from assms(3) have pre: "prefix root path" "segments = List.map_filter normal_part (drop (length root) path)"
    by (auto simp: relative_segments_def split: if_splits)
  then obtain rest where rest: "path = root @ rest" by (auto simp: prefix_def)
  with p(1) assms(2) obtain ts where ts: "rest = map Normal ts" "set ts \<subseteq> set ss"
    by (cases root) (auto simp: append_eq_map_conv)
  have "List.map_filter normal_part (map Normal ts) = ts" for ts by (induction ts) simp_all
  with pre(2) rest ts(1) have "segments = ts" by simp
  with rest ts p(2) show ?thesis by auto
qed

end
