(* ===== verification/Evidence.thy ===== *)
theory Evidence
  imports GitCommand
begin

text \<open>
  The ordered record of an execution, \<^verbatim>\<open>marsh-exec/src/evidence.rs\<close>, with the builtin records of
  \<^verbatim>\<open>hooks.rs\<close> and the executor's errors: what a trace line holds, how the two streams are
  interleaved, and the lexing of argument text.
\<close>

section \<open>Errors\<close>

datatype exec_error =
    ExecNoSubvolume string
  | ExecSeedIsMountRoot string
  | ExecSeedDir string string
  | ExecSessionBusy string
  | ExecNotBtrfs string
  | ExecNotUserSubvolRmAllowed string
  | ExecStateNotDirectory string
  | ExecSnapshot string
  | ExecExec string
  | ExecTraceParse string
  | ExecIo io_error

fun mux_error_of :: "exec_error \<Rightarrow> mux_error" where
  "mux_error_of (ExecNoSubvolume p) = NoSubvolume p"
| "mux_error_of (ExecSeedIsMountRoot p) = SeedIsMountRoot p"
| "mux_error_of (ExecSeedDir p reason) = SeedDir p reason"
| "mux_error_of (ExecSessionBusy p) = SessionBusy p"
| "mux_error_of (ExecNotBtrfs p) = NotBtrfs p"
| "mux_error_of (ExecNotUserSubvolRmAllowed p) = NotUserSubvolRmAllowed p"
| "mux_error_of (ExecStateNotDirectory p) = StateNotDirectory p"
| "mux_error_of (ExecSnapshot m) = SnapshotFailed m"
| "mux_error_of (ExecExec m) = Exec m"
| "mux_error_of (ExecTraceParse m) = TraceParse m"
| "mux_error_of (ExecIo e) = Io e"

section \<open>Records\<close>

datatype trace_call =
    Syscall string string int "string option"
  | Exited int

record trace_line =
  ln_tid :: nat
  ln_ts :: nat
  ln_call :: trace_call

datatype builtin_record =
    BeginRecord (rec_id: nat) (rec_ts: nat) (rec_tid: nat) string "string list" "part list"
  | EndRecord (rec_id: nat) (rec_ts: nat) (rec_tid: nat) nat

datatype execution_event = SystemEvent trace_line | BuiltinEvent builtin_record

text \<open>The sort key: the timestamp, then the rank that makes spans inclusive at both ends.\<close>

fun event_key :: "execution_event \<Rightarrow> nat \<times> nat" where
  "event_key (SystemEvent line) = (ln_ts line, 1)"
| "event_key (BuiltinEvent (BeginRecord i ts tid builtin argv cwd)) = (ts, 0)"
| "event_key (BuiltinEvent (EndRecord i ts tid status)) = (ts, 2)"

record execution_evidence =
  ed_events :: "execution_event list"
  ed_root_exit :: "int option"

text \<open>The loop over the lines keeps the last exit status of the thread that issued the first line.\<close>

fun root_exit_of :: "nat option \<Rightarrow> trace_line list \<Rightarrow> int option \<Rightarrow> int option" where
  "root_exit_of root_tid [] root_exit = root_exit"
| "root_exit_of root_tid (line # ls) root_exit = root_exit_of root_tid ls (case ln_call line of
     Exited status \<Rightarrow> if Some (ln_tid line) = root_tid then Some status else root_exit
   | _ \<Rightarrow> root_exit)"

definition interleave :: "trace_line list \<Rightarrow> builtin_record list \<Rightarrow> execution_evidence" where
  "interleave ls records =
     (let root_tid = (case ls of [] \<Rightarrow> None | line # _ \<Rightarrow> Some (ln_tid line)) in
      \<lparr>ed_events = sort_key event_key (map SystemEvent ls @ map BuiltinEvent records),
       ed_root_exit = root_exit_of root_tid ls None\<rparr>)"

section \<open>Argument text\<close>

text \<open>
  The lexer the argument scanners share: the nesting depth, whether the position is inside a quoted
  string, and whether the last character was a backslash there.
\<close>

type_synonym lexer = "nat \<times> bool \<times> bool"

definition QUOTE :: char where "QUOTE = CHR 0x22"
definition BACKSLASH :: char where "BACKSLASH = CHR 0x5C"

definition opens :: "char \<Rightarrow> bool" where
  "opens c \<longleftrightarrow> c = CHR ''('' \<or> c = CHR ''['' \<or> c = CHR 0x7B"

definition closes :: "char \<Rightarrow> bool" where
  "closes c \<longleftrightarrow> c = CHR '')'' \<or> c = CHR '']'' \<or> c = CHR 0x7D"

fun lex_step :: "lexer \<Rightarrow> char \<Rightarrow> lexer" where
  "lex_step (depth, in_string, escaped) c =
     (if in_string then
        (if escaped then (depth, True, False)
         else if c = BACKSLASH then (depth, True, True)
         else if c = QUOTE then (depth, False, False)
         else (depth, True, False))
      else if c = QUOTE then (depth, True, escaped)
      else if opens c then (depth + 1, False, escaped)
      else if closes c then (depth - 1, False, escaped)
      else (depth, False, escaped))"

fun at_top :: "lexer \<Rightarrow> bool" where
  "at_top (depth, in_string, escaped) \<longleftrightarrow> depth = 0 \<and> \<not> in_string"

fun split_pieces :: "lexer \<Rightarrow> string \<Rightarrow> string \<Rightarrow> string list \<times> string" where
  "split_pieces q piece [] = ([], piece)"
| "split_pieces q piece (c # cs) =
     (if c = CHR '','' \<and> at_top q
      then let (parts, rest) = split_pieces q [] cs in (trim piece # parts, rest)
      else split_pieces (lex_step q c) (piece @ [c]) cs)"

definition split_args :: "string \<Rightarrow> string list" where
  "split_args args =
     (let (parts, rest) = split_pieces (0, False, False) [] args; final = trim rest in
      if final \<noteq> [] \<or> parts \<noteq> [] then parts @ [final] else parts)"

text \<open>Up to \<open>n\<close> further octal digits, and the value they extend.\<close>

definition is_octal :: "char \<Rightarrow> bool" where
  "is_octal c \<longleftrightarrow> is_digit c \<and> digit_value c < 8"

fun take_octal :: "nat \<Rightarrow> nat \<Rightarrow> string \<Rightarrow> nat \<times> string" where
  "take_octal (Suc n) v (c # cs) = (if is_octal c then take_octal n (v * 8 + digit_value c) cs else (v, c # cs))"
| "take_octal n v s = (v, s)"

text \<open>A character below \<open>0x800\<close> as UTF-8.\<close>

definition utf8 :: "nat \<Rightarrow> string" where
  "utf8 v = (if v < 128 then [char_of v] else [char_of (192 + v div 64), char_of (128 + v mod 64)])"

lemma take_octal_length [termination_simp]: "take_octal n v s = (u, t) \<Longrightarrow> length t \<le> length s"
  by (induction n v s arbitrary: u t rule: take_octal.induct) (fastforce split: if_splits)+

function (sequential) unescape :: "string \<Rightarrow> string" where
  "unescape [] = []"
| "unescape [c] = [c]"
| "unescape (c # d # cs) =
     (if c \<noteq> BACKSLASH then c # unescape (d # cs)
      else if d = CHR ''n'' then CHR 0x0A # unescape cs
      else if d = CHR ''t'' then CHR 0x09 # unescape cs
      else if d = CHR ''r'' then CHR 0x0D # unescape cs
      else if d = CHR ''0'' then CHR 0x00 # unescape cs
      else if is_octal d then
        (case take_octal 2 (digit_value d) cs of (v, rest) \<Rightarrow> utf8 v @ unescape rest)
      else d # unescape cs)"
  by pat_completeness auto
termination
  by (relation "measure length") (auto dest!: take_octal_length[OF sym])

definition parse_quoted :: "string \<Rightarrow> string option" where
  "parse_quoted arg = (case strip_prefix [QUOTE] (trim arg) of
     None \<Rightarrow> None
   | Some inner \<Rightarrow> map_option (\<lambda>(text, rest). unescape text) (rsplit_once QUOTE inner))"

section \<open>The order of the record\<close>

lemma interleave_events [simp]:
  "ed_events (interleave ls records) = sort_key event_key (map SystemEvent ls @ map BuiltinEvent records)"
  by (simp add: interleave_def Let_def)

text \<open>Events of one kind or one thread that were recorded in order of their keys stay in that order.\<close>

lemma interleave_stable:
  assumes "sorted (map event_key (filter P (map SystemEvent ls @ map BuiltinEvent records)))"
  shows "filter P (ed_events (interleave ls records)) = filter P (map SystemEvent ls @ map BuiltinEvent records)"
  using sort_key_id_if_sorted[OF assms] by (simp add: filter_sort)

section \<open>What quoting loses\<close>

text \<open>A string as the tracer prints it when every byte of it is printable or a common escape.\<close>

definition escape_char :: "char \<Rightarrow> string" where
  "escape_char c = (if c = QUOTE \<or> c = BACKSLASH then [BACKSLASH, c]
     else if c = CHR 0x0A then [BACKSLASH, CHR ''n'']
     else if c = CHR 0x09 then [BACKSLASH, CHR ''t'']
     else if c = CHR 0x0D then [BACKSLASH, CHR ''r''] else [c])"

definition quoted :: "string \<Rightarrow> string" where
  "quoted s = QUOTE # concat (map escape_char s) @ [QUOTE]"

lemma unescape_plain: "c \<noteq> BACKSLASH \<Longrightarrow> unescape (c # s) = c # unescape s"
  by (cases s) simp_all

lemma unescape_escape: "unescape (concat (map escape_char s)) = s"
proof (induction s)
  case (Cons c s)
  have "unescape (escape_char c @ t) = c # unescape t" for t
    by (auto simp: escape_char_def unescape_plain QUOTE_def BACKSLASH_def is_octal_def is_digit_def)
  with Cons show ?case by simp
qed simp

lemma trim_ends: "xs \<noteq> [] \<Longrightarrow> \<not> is_space (hd xs) \<Longrightarrow> \<not> is_space (last xs) \<Longrightarrow> trim xs = xs"
proof -
  assume xs: "xs \<noteq> []" "\<not> is_space (hd xs)" "\<not> is_space (last xs)"
  have drop: "ys \<noteq> [] \<Longrightarrow> \<not> is_space (hd ys) \<Longrightarrow> dropWhile is_space ys = ys" for ys by (cases ys) simp_all
  show ?thesis using drop[of xs] drop[of "rev xs"] xs by (simp add: trim_def trim_start_def trim_end_def hd_rev)
qed

lemma quote_not_space [simp]: "\<not> is_space QUOTE"
  by (simp add: is_space_def QUOTE_def)

lemma trim_quoted [simp]: "trim (quoted s) = quoted s"
  by (rule trim_ends) (simp_all add: quoted_def)

lemma parse_quoted_quoted [simp]: "parse_quoted (quoted s) = Some s"
proof -
  have "rsplit_once QUOTE (concat (map escape_char s) @ [QUOTE]) = Some (concat (map escape_char s), [])"
    by (simp add: rsplit_once_Some)
  moreover have "strip_prefix [QUOTE] (quoted s) = Some (concat (map escape_char s) @ [QUOTE])"
    by (simp add: strip_prefix_def quoted_def)
  ultimately show ?thesis unfolding parse_quoted_def trim_quoted by (simp add: unescape_escape)
qed

section \<open>Splitting printed arguments\<close>

text \<open>Text the lexer crosses from the top level back to the top level without meeting a top-level comma.\<close>

fun whole :: "lexer \<Rightarrow> string \<Rightarrow> bool" where
  "whole q [] \<longleftrightarrow> q = (0, False, False)"
| "whole q (c # cs) \<longleftrightarrow> \<not> (c = CHR '','' \<and> at_top q) \<and> whole (lex_step q c) cs"

definition argument :: "string \<Rightarrow> bool" where
  "argument a \<longleftrightarrow> a \<noteq> [] \<and> trim a = a \<and> whole (0, False, False) a"

lemma split_pieces_whole: "whole q a \<Longrightarrow> split_pieces q piece (a @ s) = split_pieces (0, False, False) (piece @ a) s"
  by (induction q a arbitrary: piece rule: whole.induct) auto

lemma trim_space [simp]: "trim (CHR '' '' # s) = trim s"
  by (simp add: trim_def trim_start_def is_space_def)

lemma split_pieces_joined:
  "\<forall>a \<in> set args. argument a \<Longrightarrow> args \<noteq> [] \<Longrightarrow> trim (piece @ hd args) = hd args \<Longrightarrow>
   \<exists>rest. split_pieces (0, False, False) piece (join '', '' args) = (butlast args, rest) \<and> trim rest = last args"
proof (induction "'', ''" args arbitrary: piece rule: join.induct)
  case (2 a)
  then have "whole (0, False, False) a" by (simp add: argument_def)
  from split_pieces_whole[OF this, of piece "[]"] 2 show ?case by simp
next
  case (3 a b args)
  then have w: "whole (0, False, False) a" "trim b = b" by (simp_all add: argument_def)
  have "split_pieces (0, False, False) piece (join '', '' (a # b # args)) =
    (let (parts, rest) = split_pieces (0, False, False) '' '' (join '', '' (b # args)) in (a # parts, rest))"
    using split_pieces_whole[OF w(1)] 3(4) by (simp add: opens_def closes_def QUOTE_def)
  moreover obtain rest where "split_pieces (0, False, False) '' '' (join '', '' (b # args)) = (butlast (b # args), rest)"
    "trim rest = last (b # args)"
    using 3(1)[of "'' ''"] 3(2) w(2) by auto
  ultimately show ?case by simp
qed simp

lemma split_args_joined:
  assumes "\<forall>a \<in> set args. argument a"
  shows "split_args (join '', '' args) = args"
proof (cases args)
  case Nil
  then show ?thesis by (simp add: split_args_def trim_def trim_start_def trim_end_def)
next
  case (Cons a as)
  with assms split_pieces_joined[of args "[]"] obtain rest where
    "split_pieces (0, False, False) [] (join '', '' args) = (butlast args, rest)" "trim rest = last args"
    by (auto simp: argument_def)
  moreover have "last args \<noteq> []" using assms Cons by (auto simp: argument_def)
  ultimately show ?thesis using Cons by (simp add: split_args_def)
qed

lemma whole_quoted: "whole (0, False, False) (quoted s)"
proof -
  have "whole (0, True, False) (concat (map escape_char s) @ [QUOTE])"
    by (induction s) (auto simp: escape_char_def QUOTE_def BACKSLASH_def)
  then show ?thesis by (simp add: quoted_def) (simp add: QUOTE_def)
qed

lemma argument_quoted: "argument (quoted s)"
  by (simp add: argument_def whole_quoted) (simp add: quoted_def)

end
