(* ===== verification/Trace.thy ===== *)
theory Trace
  imports Evidence
begin

text \<open>
  Lexing the tracer's log, \<^verbatim>\<open>parse_trace\<close> and its helpers in \<^verbatim>\<open>marsh-exec/src/strace.rs\<close>: one line is
  lexed to a token, and the loop keeps the calls a context switch interrupted until they resume.
\<close>

section \<open>Pieces of a line\<close>

text \<open>The prefix \<open>TID SECS.MICROS rest\<close>. The microseconds are computed in 64 bits, which wrap.\<close>

definition split_stamp :: "nat \<Rightarrow> string \<Rightarrow> (nat \<times> nat \<times> string) option" where
  "split_stamp tid rest = (case split_once '' '' rest of
     None \<Rightarrow> None
   | Some (stamp, rest') \<Rightarrow> (case split_once ''.'' stamp of
       None \<Rightarrow> None
     | Some (seconds, micros) \<Rightarrow>
         if length micros \<noteq> 6 then None
         else case (parse_unsigned 64 seconds, parse_unsigned 64 micros) of
           (Some s, Some u) \<Rightarrow> Some (tid, (s * 1000000 + u) mod 2 ^ 64, trim_start rest')
         | _ \<Rightarrow> None))"

definition split_prefix :: "string \<Rightarrow> (nat \<times> nat \<times> string) option" where
  "split_prefix line =
     (let digits = takeWhile is_digit line in
      if digits = [] \<or> digits = line then None
      else case parse_unsigned 32 digits of
        None \<Rightarrow> None
      | Some tid \<Rightarrow> split_stamp tid (trim_start (dropWhile is_digit line)))"

text \<open>The argument text up to the closing parenthesis of the call, and the return text after it.\<close>

fun close_at :: "lexer \<Rightarrow> string \<Rightarrow> string \<Rightarrow> (string \<times> string) option" where
  "close_at q args [] = None"
| "close_at q args (c # cs) =
     (if \<not> fst (snd q) \<and> closes c \<and> fst q - 1 = 0 then Some (args, cs)
      else close_at (lex_step q c) (args @ [c]) cs)"

definition split_close :: "string \<Rightarrow> (string \<times> string) option" where
  "split_close body = map_option (\<lambda>(args, tail).
     let tail = trim_start tail in
     (args, case strip_prefix ''='' tail of Some ret \<Rightarrow> trim_start ret | None \<Rightarrow> tail)) (close_at (1, False, False) [] body)"

definition is_hex :: "char \<Rightarrow> bool" where
  "is_hex c \<longleftrightarrow> is_digit c \<or> (of_char c :: nat) \<in> {65..70} \<union> {97..102}"

definition hex_value :: "char \<Rightarrow> nat" where
  "hex_value c = (let n = of_char c in if n < 58 then n - 48 else if n < 71 then n - 55 else n - 87)"

definition number_of_hex :: "string \<Rightarrow> nat" where
  "number_of_hex s = foldl (\<lambda>n c. n * 16 + hex_value c) 0 s"

text \<open>The return value and the path printed for a returned descriptor.\<close>

definition parse_return :: "string \<Rightarrow> int \<times> string option" where
  "parse_return text =
     (let text = trim text in
      if text = [] \<or> prefix ''?'' text then (-1, None)
      else
        let sign = (if prefix ''-'' text then ''-'' else []); unsigned = drop (length sign) text in
        case strip_prefix ''0x'' unsigned of
          Some hex \<Rightarrow>
            let digits = takeWhile is_hex hex in
            (if digits = [] \<or> number_of_hex digits \<ge> 2 ^ 63 then -1 else int (number_of_hex digits), None)
        | None \<Rightarrow> (case parse_signed 64 (sign @ takeWhile is_digit unsigned) of
            None \<Rightarrow> (-1, None)
          | Some value \<Rightarrow> (value,
              case strip_prefix ''<'' (dropWhile is_digit unsigned) of
                None \<Rightarrow> None
              | Some rest \<Rightarrow> (case rsplit_once (CHR ''>'') rest of
                  None \<Rightarrow> None
                | Some (path, after_it) \<Rightarrow> if prefix ''/'' path then Some path else None))))"

function trim_end_matches :: "string \<Rightarrow> string \<Rightarrow> string" where
  "trim_end_matches p s = (case strip_suffix p s of
     Some s' \<Rightarrow> if p = [] then s else trim_end_matches p s'
   | None \<Rightarrow> s)"
  by pat_completeness auto
termination
  by (relation "measure (length o snd)") (auto simp: strip_suffix_def suffix_def split: if_splits)

section \<open>Lines\<close>

text \<open>
  What one line is: a call printed whole, the entry of one that was interrupted, the rest of
  one that resumed, the exit of a thread, or nothing of interest.
\<close>

datatype trace_token =
    WholeCall trace_line
  | EnteredCall nat string nat string
  | ResumedCall nat string nat string
  | Ignored

definition call_token :: "nat \<Rightarrow> nat \<Rightarrow> string \<Rightarrow> string \<Rightarrow> trace_token" where
  "call_token tid ts name body = (case split_close body of
     None \<Rightarrow> Ignored
   | Some (args, ret_text) \<Rightarrow>
       let (ret, ret_path) = parse_return ret_text in
       WholeCall \<lparr>ln_tid = tid, ln_ts = ts, ln_call = Syscall name args ret ret_path\<rparr>)"

definition is_call_name :: "string \<Rightarrow> bool" where
  "is_call_name name \<longleftrightarrow> name \<noteq> [] \<and>
     list_all (\<lambda>c. is_digit c \<or> (of_char c :: nat) \<in> {65..90} \<union> {97..122} \<or> c = CHR ''_'') name"

definition lex_call :: "nat \<Rightarrow> nat \<Rightarrow> string \<Rightarrow> trace_token" where
  "lex_call tid ts rest = (case split_once ''('' rest of
     None \<Rightarrow> Ignored
   | Some (name, body) \<Rightarrow>
       if \<not> is_call_name name then Ignored
       else case strip_suffix ''<unfinished ...>'' body of
         Some partial \<Rightarrow> EnteredCall tid name ts (trim_end partial)
       | None \<Rightarrow> call_token tid ts name body)"

definition lex_stamped :: "string \<Rightarrow> nat \<Rightarrow> nat \<Rightarrow> string \<Rightarrow> exec_error + trace_token" where
  "lex_stamped raw tid ts rest =
     (case strip_prefix ''+++ exited with '' rest of
        Some status \<Rightarrow> (case parse_signed 32 (trim (trim_end_matches '' +++'' status)) of
            None \<Rightarrow> Inl (ExecTraceParse (''exit record: '' @ raw))
          | Some n \<Rightarrow> Inr (WholeCall \<lparr>ln_tid = tid, ln_ts = ts, ln_call = Exited n\<rparr>))
      | None \<Rightarrow>
          if prefix ''+++'' rest \<or> prefix ''---'' rest \<or> prefix ''strace:'' rest then Inr Ignored
          else case strip_prefix ''<... '' rest of
            Some resumed \<Rightarrow> (case split_once '' resumed>'' resumed of
                None \<Rightarrow> Inr Ignored
              | Some (name, tail) \<Rightarrow> Inr (ResumedCall tid name ts tail))
          | None \<Rightarrow> Inr (lex_call tid ts rest))"

definition lex_line :: "string \<Rightarrow> exec_error + trace_token" where
  "lex_line line =
     (let raw = trim_end line in
      if raw = [] then Inr Ignored
      else case split_prefix raw of
        None \<Rightarrow> Inr Ignored
      | Some (tid, ts, rest) \<Rightarrow> lex_stamped raw tid ts rest)"

section \<open>The loop\<close>

type_synonym pending_call = "(nat \<times> string) \<times> (nat \<times> string)"

text \<open>The latest interrupted call of this thread and name, and the others.\<close>

fun take_pending :: "pending_call list \<Rightarrow> nat \<Rightarrow> string \<Rightarrow> ((nat \<times> string) \<times> pending_call list) option" where
  "take_pending [] tid name = None"
| "take_pending (p # ps) tid name = (case take_pending ps tid name of
     Some (r, ps') \<Rightarrow> Some (r, p # ps')
   | None \<Rightarrow> if fst p = (tid, name) then Some (snd p, ps) else None)"

fun trace_step :: "pending_call list \<times> trace_line list \<Rightarrow> trace_token \<Rightarrow> pending_call list \<times> trace_line list" where
  "trace_step (pending, ls) (WholeCall line) = (pending, ls @ [line])"
| "trace_step (pending, ls) (EnteredCall tid name ts partial) = (pending @ [((tid, name), (ts, partial))], ls)"
| "trace_step (pending, ls) (ResumedCall tid name ts tail) =
     (let ((entry_ts, args), pending') = (case take_pending pending tid name of
            Some (entered, ps) \<Rightarrow> (entered, ps)
          | None \<Rightarrow> ((ts, []), pending)) in
      case split_close tail of
        None \<Rightarrow> (pending', ls)
      | Some (args_tail, ret_text) \<Rightarrow>
          let (ret, ret_path) = parse_return ret_text in
          (pending', ls @ [\<lparr>ln_tid = tid, ln_ts = entry_ts, ln_call = Syscall name (args @ args_tail) ret ret_path\<rparr>]))"
| "trace_step (pending, ls) Ignored = (pending, ls)"

definition parse_trace :: "string \<Rightarrow> exec_error + trace_line list" where
  "parse_trace text =
     and_then (try_map lex_line (split_on (CHR 0x0A) text)) (\<lambda>tokens. Inr (snd (foldl trace_step ([], []) tokens)))"

text \<open>\<open>ExecutionEvidence::parse\<close>; decoding the JSON dump of the builtin records is a parameter.\<close>

definition parse_evidence ::
  "(string \<Rightarrow> exec_error + builtin_record list) \<Rightarrow> string \<Rightarrow> string \<Rightarrow> exec_error + execution_evidence" where
  "parse_evidence parse_records trace_text builtin_text =
     and_then (parse_trace trace_text) (\<lambda>ls. and_then (parse_records builtin_text) (\<lambda>records.
     Inr (interleave ls records)))"

section \<open>Printed lines\<close>

definition unlines :: "string list \<Rightarrow> string" where
  "unlines ls = concat (map (\<lambda>l. l @ [CHR 0x0A]) ls)"

lemma split_on_unlines: "\<forall>l \<in> set ls. CHR 0x0A \<notin> set l \<Longrightarrow> split_on (CHR 0x0A) (unlines ls) = ls @ [[]]"
  by (induction ls) (simp_all add: unlines_def split_on_append)

definition tokens_of :: "string list \<Rightarrow> exec_error + trace_token list" where
  "tokens_of ls = try_map lex_line ls"

lemma lex_line_Nil [simp]: "lex_line [] = Inr Ignored"
  by (simp add: lex_line_def trim_end_def)

lemma parse_trace_unlines:
  assumes "\<forall>l \<in> set ls. CHR 0x0A \<notin> set l"
  shows "parse_trace (unlines ls) = and_then (tokens_of ls) (\<lambda>ts. Inr (snd (foldl trace_step ([], []) ts)))"
proof -
  have "try_map lex_line (ls @ [[]]) = and_then (tokens_of ls) (\<lambda>ts. Inr (ts @ [Ignored]))"
    by (simp add: try_map_append tokens_of_def)
  moreover have "trace_step q Ignored = q" for q by (cases q) simp
  ultimately show ?thesis
    unfolding parse_trace_def split_on_unlines[OF assms] by (cases "tokens_of ls") simp_all
qed

text \<open>The line of a call, stamped and with its thread.\<close>

definition stamp_text :: "nat \<Rightarrow> string" where
  "stamp_text ts = show_nat (ts div 1000000) @ ''.'' @
     (let micros = show_nat (ts mod 1000000) in replicate (6 - length micros) (CHR ''0'') @ micros)"

definition line_text :: "nat \<Rightarrow> nat \<Rightarrow> string \<Rightarrow> string" where
  "line_text tid ts rest = show_nat tid @ '' '' @ stamp_text ts @ '' '' @ rest"

lemma show_nat_length: "n < 10 ^ Suc k \<Longrightarrow> length (show_nat n) \<le> Suc k"
proof (induction n arbitrary: k rule: show_nat.induct)
  case (1 n)
  show ?case
  proof (cases "n < 10")
    case True
    then show ?thesis by (simp add: show_nat.simps[of n])
  next
    case False
    with 1(2) obtain j where k: "k = Suc j" by (cases k) auto
    with 1(2) have "n div 10 < 10 ^ Suc j" by (simp add: div_less_iff_less_mult)
    with 1(1)[OF False] have "length (show_nat (n div 10)) \<le> Suc j" by blast
    with False show ?thesis by (simp add: show_nat.simps[of n] k)
  qed
qed

lemma number_of_zeros: "number_of (replicate k (CHR ''0'') @ s) = number_of s"
proof -
  have "foldl (\<lambda>n c. n * 10 + digit_value c) 0 (replicate k (CHR ''0'')) = 0"
    by (induction k) (simp_all add: digit_value_def)
  then show ?thesis by (simp add: number_of_def)
qed

lemma zero_is_digit [simp]: "is_digit (CHR ''0'')"
  by (simp add: is_digit_def)

lemma parse_unsigned_digits:
  assumes "ds \<noteq> []" "list_all is_digit ds" "number_of ds < 2 ^ w"
  shows "parse_unsigned w ds = Some (number_of ds)"
proof -
  from assms(1,2) have "\<not> prefix ''+'' ds" by (cases ds) (auto simp: is_digit_def)
  with assms show ?thesis by (simp add: parse_unsigned_def)
qed

lemma split_once_char: "d \<notin> set a \<Longrightarrow> split_once [d] (a @ d # b) = Some (a, b)"
  by (induction a) auto

lemma digits_not: "list_all is_digit ds \<Longrightarrow> \<not> is_digit c \<Longrightarrow> c \<notin> set ds"
  by (auto simp: list_all_iff)

lemma not_digits [simp]: "\<not> is_digit (CHR '' '')" "\<not> is_digit (CHR ''.'')"
  by (simp_all add: is_digit_def)

lemma digit_not_space: "is_digit c \<Longrightarrow> \<not> is_space c"
  by (auto simp: is_digit_def is_space_def)

definition micros_text :: "nat \<Rightarrow> string" where
  "micros_text n = (let micros = show_nat n in replicate (6 - length micros) (CHR ''0'') @ micros)"

lemma micros_digits:
  assumes "n < 1000000"
  shows "length (micros_text n) = 6" "list_all is_digit (micros_text n)" "number_of (micros_text n) = n" "micros_text n \<noteq> []"
proof -
  have "length (show_nat n) \<le> 6" using show_nat_length[of n 5] assms by simp
  then show l: "length (micros_text n) = 6" by (simp add: micros_text_def Let_def)
  show "list_all is_digit (micros_text n)" using show_nat_digits[of n] by (auto simp: micros_text_def list_all_iff Let_def)
  show "number_of (micros_text n) = n" using show_nat_digits[of n] by (simp add: micros_text_def number_of_zeros Let_def)
  show "micros_text n \<noteq> []" using l by auto
qed

lemma split_stamp_text:
  assumes "ts < 2 ^ 64" "trim_start rest = rest"
  shows "split_stamp tid (stamp_text ts @ '' '' @ rest) = Some (tid, ts, rest)"
proof -
  let ?s = "show_nat (ts div 1000000)" and ?u = "micros_text (ts mod 1000000)"
  have stamp: "stamp_text ts = ?s @ CHR ''.'' # ?u" by (simp add: stamp_text_def micros_text_def)
  have u: "length ?u = 6" "list_all is_digit ?u" "number_of ?u = ts mod 1000000" "?u \<noteq> []"
    by (rule micros_digits, simp)+
  have s: "?s \<noteq> []" "list_all is_digit ?s" "number_of ?s = ts div 1000000" using show_nat_digits[of "ts div 1000000"] by simp_all
  have "CHR '' '' \<notin> set (stamp_text ts)" unfolding stamp using digits_not[OF s(2)] digits_not[OF u(2)] by auto
  then have "split_once '' '' (stamp_text ts @ '' '' @ rest) = Some (stamp_text ts, rest)" by (simp add: split_once_char)
  moreover have "split_once ''.'' (stamp_text ts) = Some (?s, ?u)"
    unfolding stamp by (rule split_once_char) (rule digits_not[OF s(2)], simp)
  moreover have "ts div 1000000 < 2 ^ 64" "ts mod 1000000 < 2 ^ 64"
    using assms(1) by (simp_all add: div_less_iff_less_mult mod_less_divisor[THEN order_less_trans])
  then have "parse_unsigned 64 ?s = Some (ts div 1000000)" "parse_unsigned 64 ?u = Some (ts mod 1000000)"
    using parse_unsigned_digits[OF s(1,2), of 64] parse_unsigned_digits[OF u(4,2), of 64] s(3) u(3) by simp_all
  ultimately show ?thesis using u(1) assms by (simp add: split_stamp_def)
qed

lemma split_prefix_text:
  assumes "tid < 2 ^ 32" "ts < 2 ^ 64" "trim_start rest = rest"
  shows "split_prefix (line_text tid ts rest) = Some (tid, ts, rest)"
proof -
  let ?d = "show_nat tid" and ?tail = "stamp_text ts @ '' '' @ rest"
  have d: "?d \<noteq> []" "list_all is_digit ?d" "number_of ?d = tid" using show_nat_digits[of tid] by simp_all
  have split: "takeWhile is_digit (?d @ CHR '' '' # ?tail) = ?d" "dropWhile is_digit (?d @ CHR '' '' # ?tail) = CHR '' '' # ?tail"
    using d(2) by (simp_all add: list_all_iff takeWhile_append dropWhile_append)
  have "hd (stamp_text ts) \<in> set (show_nat (ts div 1000000))"
    using show_nat_digits[of "ts div 1000000"] by (simp add: stamp_text_def)
  then have "is_digit (hd (stamp_text ts))" using show_nat_digits[of "ts div 1000000"] by (simp add: list_all_iff)
  moreover have "stamp_text ts \<noteq> []" by (simp add: stamp_text_def)
  ultimately have "trim_start (CHR '' '' # ?tail) = ?tail"
    using digit_not_space by (cases "stamp_text ts") (auto simp: trim_start_def is_space_def)
  moreover have "parse_unsigned 32 ?d = Some tid" using parse_unsigned_digits[OF d(1,2), of 32] d(3) assms(1) by simp
  ultimately show ?thesis
    using split split_stamp_text[OF assms(2,3)] d(1) by (simp add: split_prefix_def line_text_def)
qed

section \<open>Interrupted calls\<close>

text \<open>Argument text the closing search crosses.\<close>

fun crosses :: "lexer \<Rightarrow> string \<Rightarrow> bool" where
  "crosses q [] \<longleftrightarrow> True"
| "crosses q (c # cs) \<longleftrightarrow> (fst (snd q) \<or> \<not> closes c \<or> fst q - 1 \<noteq> 0) \<and> crosses (lex_step q c) cs"

lemma close_at_crosses: "crosses q a \<Longrightarrow> close_at q args (a @ s) = close_at (foldl lex_step q a) (args @ a) s"
  by (induction q a arbitrary: args rule: crosses.induct) auto

definition whole_arguments :: "string \<Rightarrow> bool" where
  "whole_arguments a \<longleftrightarrow> crosses (1, False, False) a \<and> foldl lex_step (1, False, False) a = (1, False, False)"

lemma close_at_args: "close_at q (u @ v) s = map_option (\<lambda>(a, t). (u @ a, t)) (close_at q v s)"
  by (induction q v s rule: close_at.induct) auto

lemma split_close_whole:
  assumes "whole_arguments a"
  shows "split_close (a @ s) = map_option (\<lambda>(args, ret). (a @ args, ret)) (split_close s)"
proof -
  have "close_at (1, False, False) [] (a @ s) = map_option (\<lambda>(args, t). (a @ args, t)) (close_at (1, False, False) [] s)"
    using assms close_at_crosses[of "(1, False, False)" a "[]" s] close_at_args[of "(1, False, False)" a "[]" s]
    by (simp add: whole_arguments_def)
  then show ?thesis by (cases "close_at (1, False, False) [] s") (simp_all add: split_close_def case_prod_beta Let_def)
qed

text \<open>A token that neither enters nor resumes a call of this name on this thread.\<close>

fun untouched :: "nat \<times> string \<Rightarrow> trace_token \<Rightarrow> bool" where
  "untouched k (EnteredCall tid name ts partial) \<longleftrightarrow> (tid, name) \<noteq> k"
| "untouched k (ResumedCall tid name ts tail) \<longleftrightarrow> (tid, name) \<noteq> k"
| "untouched k _ \<longleftrightarrow> True"

lemma take_pending_last: "\<forall>x \<in> set v. fst x \<noteq> k \<Longrightarrow> take_pending (u @ (k, e) # v) (fst k) (snd k) = Some (e, u @ v)"
proof (induction u)
  case Nil
  have "take_pending v (fst k) (snd k) = None" using Nil by (induction v) auto
  then show ?case by simp
qed (auto split: option.splits)

lemma take_pending_other:
  "(tid, name) \<noteq> k \<Longrightarrow> take_pending (u @ (k, e) # v) tid name =
    (case take_pending v tid name of
       Some (r, v') \<Rightarrow> Some (r, u @ (k, e) # v')
     | None \<Rightarrow> (case take_pending u tid name of Some (r, u') \<Rightarrow> Some (r, u' @ (k, e) # v) | None \<Rightarrow> None))"
  by (induction u) (auto split: option.splits)

lemma take_pending_append:
  "take_pending (u @ v) tid name =
    (case take_pending v tid name of
       Some (r, v') \<Rightarrow> Some (r, u @ v')
     | None \<Rightarrow> (case take_pending u tid name of Some (r, u') \<Rightarrow> Some (r, u' @ v) | None \<Rightarrow> None))"
  by (induction u) (auto split: option.splits)

lemma take_pending_keys: "take_pending ps tid name = Some (r, ps') \<Longrightarrow> set ps' \<subseteq> set ps"
  by (induction ps arbitrary: r ps') (fastforce split: option.splits if_splits)+

text \<open>An interrupted call waits through tokens that do not touch it.\<close>

lemma waits_step:
  assumes "untouched k t" "\<forall>x \<in> set v. fst x \<noteq> k" "trace_step (u @ v, ls) t = (ps, ls')"
  shows "\<exists>u' v'. ps = u' @ v' \<and> (\<forall>x \<in> set v'. fst x \<noteq> k) \<and> trace_step (u @ (k, e) # v, ls) t = (u' @ (k, e) # v', ls')"
proof (cases t)
  case (ResumedCall tid name ts tail)
  with assms(1) have other: "(tid, name) \<noteq> k" by simp
  note taken = take_pending_other[OF other, of u e v] take_pending_append[of u v tid name]
  show ?thesis
  proof (cases "take_pending v tid name")
    case None
    show ?thesis
    proof (cases "take_pending u tid name")
      case none: None
      show ?thesis
        using ResumedCall assms(2,3) None none taken
        by (intro exI[of _ u] exI[of _ v]) (auto simp: Let_def split: option.splits prod.splits)
    next
      case (Some ru)
      then obtain r u' where "take_pending u tid name = Some (r, u')" by (cases ru) auto
      then show ?thesis
        using ResumedCall assms(2,3) None taken
        by (intro exI[of _ u'] exI[of _ v]) (auto simp: Let_def split: option.splits prod.splits)
    qed
  next
    case (Some rv)
    then obtain r v' where v': "take_pending v tid name = Some (r, v')" by (cases rv) auto
    have "\<forall>x \<in> set v'. fst x \<noteq> k" using take_pending_keys[OF v'] assms(2) by blast
    with v' show ?thesis
      using ResumedCall assms(3) taken
      by (intro exI[of _ u] exI[of _ v']) (auto simp: Let_def split: option.splits prod.splits)
  qed
next
  case (EnteredCall tid name ts partial)
  with assms show ?thesis
    by (intro exI[of _ u] exI[of _ "v @ [((tid, name), (ts, partial))]"]) auto
qed (use assms in auto)

lemma waits:
  "\<forall>t \<in> set ts. untouched k t \<Longrightarrow> \<forall>x \<in> set v. fst x \<noteq> k \<Longrightarrow> foldl trace_step (u @ v, ls) ts = (ps, ls') \<Longrightarrow>
   \<exists>u' v'. ps = u' @ v' \<and> (\<forall>x \<in> set v'. fst x \<noteq> k) \<and> foldl trace_step (u @ (k, e) # v, ls) ts = (u' @ (k, e) # v', ls')"
proof (induction ts arbitrary: u v ls)
  case Nil
  then show ?case by auto
next
  case (Cons t ts)
  obtain ps1 ls1 where s: "trace_step (u @ v, ls) t = (ps1, ls1)" by (cases "trace_step (u @ v, ls) t")
  from waits_step[OF _ Cons.prems(2) s, of e] Cons.prems(1) obtain u1 v1 where
    w: "ps1 = u1 @ v1" "\<forall>x \<in> set v1. fst x \<noteq> k" "trace_step (u @ (k, e) # v, ls) t = (u1 @ (k, e) # v1, ls1)" by auto
  from Cons.IH[OF _ w(2), of u1 ls1] Cons.prems(1,3) s w(1,3) show ?case by simp
qed

lemma rejoined:
  assumes between: "\<forall>t \<in> set between. untouched (tid, name) t" and args: "split_close tail = Some (args', ret_text)"
  shows "foldl trace_step q ([EnteredCall tid name ts args] @ between @ [ResumedCall tid name ts' tail]) =
    foldl trace_step q (between @ [WholeCall \<lparr>ln_tid = tid, ln_ts = ts,
      ln_call = Syscall name (args @ args') (fst (parse_return ret_text)) (snd (parse_return ret_text))\<rparr>])"
proof -
  obtain pending ls where q: "q = (pending, ls)" by (cases q)
  obtain ps ls' where f: "foldl trace_step (pending @ [], ls) between = (ps, ls')"
    by (cases "foldl trace_step (pending @ [], ls) between")
  from waits[OF between _ f, of "(ts, args)"] obtain u v where
    w: "ps = u @ v" "\<forall>x \<in> set v. fst x \<noteq> (tid, name)"
      "foldl trace_step (pending @ [((tid, name), (ts, args))], ls) between = (u @ ((tid, name), (ts, args)) # v, ls')"
    by auto
  from take_pending_last[OF w(2), of u "(ts, args)"] args f w show ?thesis
    by (simp add: q case_prod_beta)
qed

section \<open>Calls as they are printed\<close>

definition call_text :: "string \<Rightarrow> string \<Rightarrow> string \<Rightarrow> string" where
  "call_text name args ret_text = name @ ''('' @ args @ '') = '' @ ret_text"

definition entered_text :: "string \<Rightarrow> string \<Rightarrow> string" where
  "entered_text name args = name @ ''('' @ args @ '' <unfinished ...>''"

definition resumed_text :: "string \<Rightarrow> string \<Rightarrow> string \<Rightarrow> string" where
  "resumed_text name args ret_text = ''<... '' @ name @ '' resumed>'' @ args @ '') = '' @ ret_text"

text \<open>Return text as it is printed: no blanks around it, and not the mark of an interrupted call.\<close>

definition printed_return :: "string \<Rightarrow> bool" where
  "printed_return r \<longleftrightarrow> r \<noteq> [] \<and> trim_start r = r \<and> \<not> is_space (last r) \<and> (\<forall>p. \<not> suffix ''<unfinished ...>'' (p @ r))"

lemma trim_end_last: "xs \<noteq> [] \<Longrightarrow> \<not> is_space (last xs) \<Longrightarrow> trim_end xs = xs"
  by (cases xs rule: rev_cases) (simp_all add: trim_end_def)

lemma trim_start_hd: "xs \<noteq> [] \<Longrightarrow> \<not> is_space (hd xs) \<Longrightarrow> trim_start xs = xs"
  by (cases xs) (simp_all add: trim_start_def)

lemma call_name_chars:
  assumes "is_call_name name" "c \<in> set name"
  shows "is_digit c \<or> (of_char c :: nat) \<in> {65..90} \<union> {97..122} \<or> c = CHR ''_''"
  using assms by (auto simp: is_call_name_def list_all_iff)

lemma call_name_not:
  assumes "is_call_name name"
  shows "CHR ''('' \<notin> set name" "CHR ''+'' \<notin> set name" "CHR ''-'' \<notin> set name" "CHR '':'' \<notin> set name"
    "CHR ''<'' \<notin> set name" "CHR '' '' \<notin> set name"
  using call_name_chars[OF assms] by (fastforce simp: is_digit_def)+

lemma prefix_before: "prefix p (name @ d # s) \<Longrightarrow> d \<notin> set p \<Longrightarrow> prefix p name"
  by (induction name arbitrary: p) (auto simp: prefix_Cons)

lemma call_name_prefix:
  assumes "is_call_name name"
  shows "\<not> prefix ''+++'' (name @ CHR ''('' # s)" "\<not> prefix ''---'' (name @ CHR ''('' # s)"
    "\<not> prefix ''strace:'' (name @ CHR ''('' # s)" "\<not> prefix ''<... '' (name @ CHR ''('' # s)"
    "\<not> prefix ''+++ exited with '' (name @ CHR ''('' # s)"
proof -
  have "\<not> prefix p (name @ CHR ''('' # s)" if "CHR ''('' \<notin> set p" "c \<in> set p" "c \<notin> set name" for p c
    using prefix_before[of p name "CHR ''(''" s] that set_mono_prefix[of p name] by blast
  note no = this
  show "\<not> prefix ''+++'' (name @ CHR ''('' # s)" "\<not> prefix ''---'' (name @ CHR ''('' # s)"
    "\<not> prefix ''strace:'' (name @ CHR ''('' # s)" "\<not> prefix ''<... '' (name @ CHR ''('' # s)"
    "\<not> prefix ''+++ exited with '' (name @ CHR ''('' # s)"
    using no[of _ "CHR ''+''"] no[of _ "CHR ''-''"] no[of _ "CHR '':''"] no[of _ "CHR ''<''"] call_name_not[OF assms]
    by simp_all
qed

lemma lex_line_text:
  assumes "tid < 2 ^ 32" "ts < 2 ^ 64" "rest \<noteq> []" "\<not> is_space (hd rest)" "\<not> is_space (last rest)"
  shows "lex_line (line_text tid ts rest) = lex_stamped (line_text tid ts rest) tid ts rest"
proof -
  have "trim_end (line_text tid ts rest) = line_text tid ts rest"
    by (rule trim_end_last) (use assms(3,5) in \<open>simp_all add: line_text_def\<close>)
  moreover have "line_text tid ts rest \<noteq> []" by (simp add: line_text_def)
  ultimately show ?thesis
    using split_prefix_text[OF assms(1,2) trim_start_hd[OF assms(3,4)]] by (simp add: lex_line_def)
qed

lemma close_call: "split_close (CHR '')'' # '' = '' @ r) = Some ([], trim_start r)"
  by (simp add: split_close_def closes_def trim_start_def is_space_def strip_prefix_def)

lemma call_name_hd:
  assumes "is_call_name name"
  shows "name \<noteq> []" "\<not> is_space (hd name)"
proof -
  show n: "name \<noteq> []" using assms by (simp add: is_call_name_def)
  then have "hd name \<in> set name" by simp
  from call_name_chars[OF assms this] show "\<not> is_space (hd name)" by (auto simp: is_space_def is_digit_def)
qed

lemma lex_call_text:
  assumes "is_call_name name"
  shows "lex_call tid ts (name @ CHR ''('' # body) = (case strip_suffix ''<unfinished ...>'' body of
      Some partial \<Rightarrow> EnteredCall tid name ts (trim_end partial)
    | None \<Rightarrow> call_token tid ts name body)"
  using assms call_name_not(1)[OF assms] by (simp add: lex_call_def split_once_char)

lemma lex_whole:
  assumes "tid < 2 ^ 32" "ts < 2 ^ 64" "is_call_name name" "whole_arguments args" "printed_return r"
  shows "lex_line (line_text tid ts (call_text name args r)) =
    Inr (WholeCall \<lparr>ln_tid = tid, ln_ts = ts, ln_call = Syscall name args (fst (parse_return r)) (snd (parse_return r))\<rparr>)"
proof -
  have r: "r \<noteq> []" "trim_start r = r" "\<not> is_space (last r)" using assms(5) by (simp_all add: printed_return_def)
  let ?body = "args @ '') = '' @ r" and ?rest = "name @ CHR ''('' # args @ '') = '' @ r"
  have rest: "call_text name args r = ?rest" by (simp add: call_text_def)
  have ends: "?rest \<noteq> []" "\<not> is_space (hd ?rest)" "\<not> is_space (last ?rest)"
    using call_name_hd[OF assms(3)] r by (simp_all add: hd_append)
  have "\<not> suffix ''<unfinished ...>'' ((args @ '') = '') @ r)" using assms(5) unfolding printed_return_def by blast
  then have "strip_suffix ''<unfinished ...>'' ?body = None" by (simp add: strip_suffix_def)
  moreover have "split_close ?body = Some (args, r)"
    using split_close_whole[OF assms(4), of "CHR '')'' # '' = '' @ r"] close_call[of r] r(2) by simp
  ultimately have "lex_call tid ts ?rest =
    WholeCall \<lparr>ln_tid = tid, ln_ts = ts, ln_call = Syscall name args (fst (parse_return r)) (snd (parse_return r))\<rparr>"
    unfolding lex_call_text[OF assms(3)] by (simp add: call_token_def case_prod_beta)
  then show ?thesis
    unfolding rest lex_line_text[OF assms(1,2) ends] lex_stamped_def strip_prefix_def
    using call_name_prefix[OF assms(3), of ?body] by simp
qed

lemma lex_entered:
  assumes "tid < 2 ^ 32" "ts < 2 ^ 64" "is_call_name name" "trim_end args = args"
  shows "lex_line (line_text tid ts (entered_text name args)) = Inr (EnteredCall tid name ts args)"
proof -
  let ?rest = "name @ CHR ''('' # args @ '' <unfinished ...>''"
  have rest: "entered_text name args = ?rest" by (simp add: entered_text_def)
  have ends: "?rest \<noteq> []" "\<not> is_space (hd ?rest)" "\<not> is_space (last ?rest)"
    using call_name_hd[OF assms(3)] by (simp_all add: hd_append is_space_def)
  have "strip_suffix ''<unfinished ...>'' ((args @ '' '') @ ''<unfinished ...>'') = Some (args @ '' '')"
    unfolding strip_suffix_def by (simp only: suffixI) simp
  moreover have "trim_end (args @ '' '') = args" using assms(4) by (simp add: trim_end_def is_space_def)
  ultimately have "lex_call tid ts ?rest = EnteredCall tid name ts args"
    unfolding lex_call_text[OF assms(3)] by simp
  then show ?thesis
    unfolding rest lex_line_text[OF assms(1,2) ends] lex_stamped_def strip_prefix_def
    using call_name_prefix[OF assms(3), of "args @ '' <unfinished ...>''"] by simp
qed

lemma split_once_marked: "hd d \<notin> set a \<Longrightarrow> d \<noteq> [] \<Longrightarrow> split_once d (a @ d @ b) = Some (a, b)"
proof (induction a)
  case Nil
  then show ?case by (cases d) simp_all
next
  case (Cons c a)
  then have "\<not> prefix d (c # a @ d @ b)" by (cases d) auto
  with Cons show ?case by simp
qed

lemma lex_resumed:
  assumes "tid < 2 ^ 32" "ts < 2 ^ 64" "is_call_name name" "printed_return r"
  shows "lex_line (line_text tid ts (resumed_text name args r)) = Inr (ResumedCall tid name ts (args @ '') = '' @ r))"
proof -
  let ?tail = "args @ '') = '' @ r"
  let ?rest = "''<... '' @ name @ '' resumed>'' @ ?tail"
  have rest: "resumed_text name args r = ?rest" by (simp add: resumed_text_def)
  have ends: "?rest \<noteq> []" "\<not> is_space (hd ?rest)" "\<not> is_space (last ?rest)"
    using assms(4) by (simp_all add: printed_return_def is_space_def)
  have "split_once '' resumed>'' (name @ '' resumed>'' @ ?tail) = Some (name, ?tail)"
    by (rule split_once_marked) (use call_name_not(6)[OF assms(3)] in simp_all)
  then show ?thesis
    unfolding rest lex_line_text[OF assms(1,2) ends] lex_stamped_def strip_prefix_def by simp
qed

lemma tokens_of_append: "tokens_of (a @ b) = and_then (tokens_of a) (\<lambda>us. and_then (tokens_of b) (\<lambda>vs. Inr (us @ vs)))"
  by (simp add: tokens_of_def try_map_append)

lemma tokens_of_line: "lex_line l = Inr t \<Longrightarrow> tokens_of (l # ls) = and_then (tokens_of ls) (\<lambda>ts. Inr (t # ts))"
  by (simp add: tokens_of_def)

lemma whole_arguments_append: "whole_arguments a \<Longrightarrow> whole_arguments b \<Longrightarrow> whole_arguments (a @ b)"
proof -
  assume w: "whole_arguments a" "whole_arguments b"
  have "crosses q a \<Longrightarrow> crosses (foldl lex_step q a) b \<Longrightarrow> crosses q (a @ b)" for q
    by (induction q a rule: crosses.induct) auto
  with w show ?thesis by (simp add: whole_arguments_def)
qed

lemma line_text_newline [simp]: "CHR 0x0A \<in> set (line_text tid ts rest) \<longleftrightarrow> CHR 0x0A \<in> set rest"
proof -
  have digits: "CHR 0x0A \<notin> set (show_nat n)" for n
    using show_nat_digits[of n] by (intro digits_not) (simp_all add: is_digit_def)
  then show ?thesis by (auto simp: line_text_def stamp_text_def Let_def)
qed

lemma parse_interrupted:
  assumes ids: "tid < 2 ^ 32" "ts < 2 ^ 64" "ts' < 2 ^ 64" "is_call_name name"
    and args: "whole_arguments a" "trim_end a = a" "whole_arguments a'" and r: "printed_return r"
    and newlines: "\<forall>l \<in> set (before @ between @ later @ [name, a, a', r]). CHR 0x0A \<notin> set l"
    and between: "tokens_of between = Inr toks" "\<forall>t \<in> set toks. untouched (tid, name) t"
  shows "parse_trace (unlines (before @ [line_text tid ts (entered_text name a)] @ between @
      [line_text tid ts' (resumed_text name a' r)] @ later)) =
    parse_trace (unlines (before @ between @ [line_text tid ts (call_text name (a @ a') r)] @ later))"
proof -
  let ?e = "line_text tid ts (entered_text name a)" and ?r = "line_text tid ts' (resumed_text name a' r)"
  let ?w = "line_text tid ts (call_text name (a @ a') r)"
  have nl: "\<forall>l \<in> set (before @ [?e] @ between @ [?r] @ later). CHR 0x0A \<notin> set l"
    "\<forall>l \<in> set (before @ between @ [?w] @ later). CHR 0x0A \<notin> set l"
    using newlines by (auto simp: entered_text_def resumed_text_def call_text_def)
  have tail: "split_close (a' @ '') = '' @ r) = Some (a', r)"
    using split_close_whole[OF args(3), of "CHR '')'' # '' = '' @ r"] close_call[of r] r by (simp add: printed_return_def)
  note lexed = lex_entered[OF ids(1,2,4) args(2)] lex_resumed[OF ids(1,3,4) r, of a']
    lex_whole[OF ids(1,2,4) whole_arguments_append[OF args(1,3)] r]
  note join = rejoined[OF between(2) tail, where ts = ts and args = a]
  show ?thesis
  proof (cases "tokens_of before")
    case (Inl e)
    then show ?thesis unfolding parse_trace_unlines[OF nl(1)] parse_trace_unlines[OF nl(2)] by (simp add: tokens_of_append)
  next
    case b: (Inr us)
    show ?thesis
    proof (cases "tokens_of later")
      case (Inl e)
      then show ?thesis
        unfolding parse_trace_unlines[OF nl(1)] parse_trace_unlines[OF nl(2)]
        by (simp add: tokens_of_append tokens_of_line[OF lexed(1)] tokens_of_line[OF lexed(2)] tokens_of_line[OF lexed(3)]
            b between(1))
    next
      case (Inr vs)
      have "foldl trace_step q ((us @ [EnteredCall tid name ts a] @ toks @ [ResumedCall tid name ts' (a' @ '') = '' @ r)]) @ vs) =
          foldl trace_step q ((us @ toks @ [WholeCall \<lparr>ln_tid = tid, ln_ts = ts,
            ln_call = Syscall name (a @ a') (fst (parse_return r)) (snd (parse_return r))\<rparr>]) @ vs)" for q
        using join[where q = "foldl trace_step q us"] by (simp add: foldl_append)
      with Inr show ?thesis
        unfolding parse_trace_unlines[OF nl(1)] parse_trace_unlines[OF nl(2)]
        by (simp add: tokens_of_append tokens_of_line[OF lexed(1)] tokens_of_line[OF lexed(2)] tokens_of_line[OF lexed(3)]
            b between(1))
    qed
  qed
qed

text \<open>A log of whole calls reads as its calls.\<close>

definition printed_call :: "nat \<times> nat \<times> string \<times> string \<times> string \<Rightarrow> bool" where
  "printed_call c \<longleftrightarrow> (case c of (tid, ts, name, args, r) \<Rightarrow>
     tid < 2 ^ 32 \<and> ts < 2 ^ 64 \<and> is_call_name name \<and> whole_arguments args \<and> printed_return r)"

fun call_line :: "nat \<times> nat \<times> string \<times> string \<times> string \<Rightarrow> string" where
  "call_line (tid, ts, name, args, r) = line_text tid ts (call_text name args r)"

fun call_of :: "nat \<times> nat \<times> string \<times> string \<times> string \<Rightarrow> trace_line" where
  "call_of (tid, ts, name, args, r) =
     \<lparr>ln_tid = tid, ln_ts = ts, ln_call = Syscall name args (fst (parse_return r)) (snd (parse_return r))\<rparr>"

lemma tokens_of_calls: "\<forall>c \<in> set cs. printed_call c \<Longrightarrow> tokens_of (map call_line cs) = Inr (map (WholeCall o call_of) cs)"
proof (induction cs)
  case (Cons c cs)
  obtain tid ts name args r where c: "c = (tid, ts, name, args, r)" by (cases c)
  with Cons.prems have "lex_line (call_line c) = Inr (WholeCall (call_of c))"
    by (simp add: printed_call_def lex_whole)
  with Cons show ?case by (simp add: tokens_of_line)
qed (simp add: tokens_of_def)

lemma parse_calls:
  assumes "\<forall>c \<in> set cs. printed_call c" "\<forall>c \<in> set cs. CHR 0x0A \<notin> set (call_line c)"
  shows "parse_trace (unlines (map call_line cs)) = Inr (map call_of cs)"
proof -
  have "snd (foldl trace_step (ps, ls) (map (WholeCall o call_of) cs)) = ls @ map call_of cs" for ps ls
    by (induction cs arbitrary: ls) simp_all
  with assms show ?thesis by (simp add: parse_trace_unlines tokens_of_calls)
qed

end
