(* ===== verification/Translate.thy ===== *)
theory Translate
  imports Trace "HOL-Library.AList"
begin

text \<open>
  From an execution's evidence to capability events, \<^verbatim>\<open>shellmux/src/translate.rs\<close>: the bookkeeping
  per thread and per builtin span, the effects of a syscall, and the translation with what it
  promises.
\<close>

section \<open>State\<close>

datatype attribution = ShellAttr | GitAttr

record tid_state =
  td_cwd :: "part list"
  td_attr :: attribution
  td_span :: "nat option"

text \<open>The frame a trace is interpreted in, and what the loop accumulates.\<close>

record frame =
  fr_principal :: string
  fr_work_root :: "part list"
  fr_cwd :: "part list"

record translating =
  tx_states :: "nat \<rightharpoonup> tid_state"
  tx_spans :: "(nat \<times> builtin_record) list"
  tx_events :: "event list"
  tx_git_reads :: "string list"
  tx_unsupported :: "string option"
  tx_wrote :: bool

definition nothing_translated :: translating where
  "nothing_translated = \<lparr>tx_states = Map.empty, tx_spans = [], tx_events = [], tx_git_reads = [],
     tx_unsupported = None, tx_wrote = False\<rparr>"

definition refuse :: "string \<Rightarrow> translating \<Rightarrow> translating" where
  "refuse reason st = (if tx_unsupported st = None then st\<lparr>tx_unsupported := Some reason\<rparr> else st)"

definition state_of :: "translating \<Rightarrow> nat \<Rightarrow> part list \<Rightarrow> tid_state" where
  "state_of st tid cwd = (case tx_states st tid of
     Some s \<Rightarrow> s
   | None \<Rightarrow> \<lparr>td_cwd = cwd, td_attr = ShellAttr, td_span = None\<rparr>)"

definition set_state :: "nat \<Rightarrow> tid_state \<Rightarrow> translating \<Rightarrow> translating" where
  "set_state tid s st = st\<lparr>tx_states := (tx_states st)(tid \<mapsto> s)\<rparr>"

section \<open>Names\<close>

definition is_git_builtin :: "string \<Rightarrow> bool" where
  "is_git_builtin name \<longleftrightarrow> name = ''git'' \<or> prefix ''git '' name"

fun capability_of :: "git_action \<Rightarrow> action" where
  "capability_of GitStage = Stage"
| "capability_of GitDelete = action.Delete"
| "capability_of (GitCommit message) = Commit message"
| "capability_of GitUnstage = Unstage"
| "capability_of GitCheckout = Checkout"
| "capability_of GitStash = Stash"
| "capability_of GitClean = Clean"
| "capability_of GitDiff = Diff"
| "capability_of GitHistory = History"

definition seed_resource :: "part list \<Rightarrow> part list \<Rightarrow> resource option" where
  "seed_resource work_root path = (case relative_segments work_root path of
     None \<Rightarrow> None
   | Some segments \<Rightarrow> if segments = [] \<or> ''.git'' \<in> set segments then None else Some segments)"

definition work_relative :: "part list \<Rightarrow> part list \<Rightarrow> string option" where
  "work_relative work_root path = (case relative_segments work_root path of
     None \<Rightarrow> None
   | Some segments \<Rightarrow> if segments = [] then None else Some (join ''/'' segments))"

definition basename :: "string \<Rightarrow> string" where
  "basename path = (case rsplit_once (CHR ''/'') path of None \<Rightarrow> path | Some (dir, name) \<Rightarrow> name)"

definition decorated_path :: "string \<Rightarrow> part list option" where
  "decorated_path arg = (case split_once ''<'' arg of
     None \<Rightarrow> None
   | Some (u, v) \<Rightarrow> (case rsplit_once (CHR ''>'') v of
       None \<Rightarrow> None
     | Some (path, rest) \<Rightarrow> if prefix ''/'' path then Some (path_buf path) else None))"

definition argv_strings :: "string \<Rightarrow> string list" where
  "argv_strings arg =
     (let inner = (case Option.bind (strip_prefix ''['' (trim arg)) (strip_suffix '']'') of
        None \<Rightarrow> arg | Some inner \<Rightarrow> inner) in
      List.map_filter parse_quoted (split_args inner))"

section \<open>Effects\<close>

definition arg_at :: "string list \<Rightarrow> nat \<Rightarrow> string option" where
  "arg_at args i = (if i < length args then Some (args ! i) else None)"

definition path_at :: "string option \<Rightarrow> string option \<Rightarrow> tid_state \<Rightarrow> string option \<Rightarrow> part list option" where
  "path_at dirfd path s ret_path = (case ret_path of
     Some resolved \<Rightarrow> Some (path_buf resolved)
   | None \<Rightarrow> (case Option.bind path parse_quoted of
       None \<Rightarrow> None
     | Some p \<Rightarrow> Some (resolve (case Option.bind dirfd decorated_path of Some base \<Rightarrow> base | None \<Rightarrow> td_cwd s) p)))"

definition WRITE_FLAGS :: "string list" where
  "WRITE_FLAGS = [''O_WRONLY'', ''O_RDWR'', ''O_CREAT'', ''O_TRUNC'', ''O_APPEND'']"

definition open_effect :: "string option \<Rightarrow> part list option \<Rightarrow> (action \<times> part list) list" where
  "open_effect flags path = (case path of
     None \<Rightarrow> []
   | Some p \<Rightarrow>
       let flags = (case flags of None \<Rightarrow> [] | Some f \<Rightarrow> f) in
       if contains ''O_DIRECTORY'' flags then []
       else [(if \<exists>flag \<in> set WRITE_FLAGS. contains flag flags then Edit else Read, p)])"

definition edit_at :: "part list option \<Rightarrow> (action \<times> part list) list" where
  "edit_at path = (case path of None \<Rightarrow> [] | Some p \<Rightarrow> [(Edit, p)])"

definition file_effects :: "string \<Rightarrow> string list \<Rightarrow> string option \<Rightarrow> tid_state \<Rightarrow> (action \<times> part list) list" where
  "file_effects name args ret_path s =
     (if name = ''open'' then open_effect (arg_at args 1) (path_at (arg_at args 0) (arg_at args 0) s ret_path)
      else if name \<in> {''openat'', ''openat2''} then
        open_effect (arg_at args 2) (path_at (arg_at args 0) (arg_at args 1) s ret_path)
      else if name = ''creat'' then edit_at (path_at (arg_at args 0) (arg_at args 0) s ret_path)
      else if name \<in> {''unlink'', ''rmdir'', ''mkdir'', ''chmod'', ''truncate''} then
        edit_at (path_at None (arg_at args 0) s None)
      else if name \<in> {''unlinkat'', ''mkdirat'', ''fchmodat''} then
        edit_at (path_at (arg_at args 0) (arg_at args 1) s None)
      else if name = ''symlink'' then edit_at (path_at None (arg_at args 1) s None)
      else if name = ''symlinkat'' then edit_at (path_at (arg_at args 1) (arg_at args 2) s None)
      else if name = ''link'' then edit_at (path_at None (arg_at args 1) s None)
      else if name = ''linkat'' then edit_at (path_at (arg_at args 2) (arg_at args 3) s None)
      else if name = ''rename'' then
        edit_at (path_at None (arg_at args 0) s None) @ edit_at (path_at None (arg_at args 1) s None)
      else if name \<in> {''renameat'', ''renameat2''} then
        edit_at (path_at (arg_at args 0) (arg_at args 1) s None) @ edit_at (path_at (arg_at args 2) (arg_at args 3) s None)
      else [])"

section \<open>One item\<close>

definition record_begin :: "frame \<Rightarrow> translating \<Rightarrow> nat \<Rightarrow> nat \<Rightarrow> string \<Rightarrow> builtin_record \<Rightarrow> translating" where
  "record_begin fr st i tid builtin rec =
     (let st1 = (if map_of (tx_spans st) i \<noteq> None
                 then refuse (''builtin record '' @ show_nat i @ '' began twice'') st else st);
          st2 = st1\<lparr>tx_spans := AList.update i rec (tx_spans st1)\<rparr> in
      if \<not> is_git_builtin builtin then st2
      else
        let s = state_of st2 tid (fr_cwd fr);
            st3 = (if td_span s \<noteq> None then refuse ''overlapping git builtin spans on one thread'' st2 else st2) in
        set_state tid (s\<lparr>td_span := Some i\<rparr>) st3)"

definition request_pathspec :: "frame \<Rightarrow> part list \<Rightarrow> action \<Rightarrow> translating \<Rightarrow> string \<Rightarrow> translating" where
  "request_pathspec fr cwd a st pathspec = (case seed_resource (fr_work_root fr) (resolve cwd pathspec) of
     Some resource \<Rightarrow> st\<lparr>tx_events := tx_events st @ [new_event (fr_principal fr) a resource]\<rparr>
   | None \<Rightarrow> refuse (''git pathspec '' @ debug_string pathspec @ '' is outside the snapshot or inside .git/'') st)"

definition record_end :: "frame \<Rightarrow> translating \<Rightarrow> nat \<Rightarrow> nat \<Rightarrow> translating" where
  "record_end fr st i status = (case map_of (tx_spans st) i of
     Some (BeginRecord j ts tid builtin argv cwd) \<Rightarrow>
       let st1 = st\<lparr>tx_spans := AList.delete i (tx_spans st)\<rparr> in
       if \<not> is_git_builtin builtin then st1
       else
         let st2 = set_state tid ((state_of st1 tid cwd)\<lparr>td_span := None\<rparr>) st1 in
         if status \<noteq> 0 then st2
         else (case git_parse argv of
           Inl reason \<Rightarrow> refuse (git_cmd_message reason) st2
         | Inr invocation \<Rightarrow>
             foldl (request_pathspec fr cwd (capability_of (gi_action invocation))) st2 (gi_pathspecs invocation))
   | _ \<Rightarrow> refuse (''builtin record '' @ show_nat i @ '' ended without beginning'')
            (st\<lparr>tx_spans := AList.delete i (tx_spans st)\<rparr>))"

text \<open>The effects inside a git builtin's span, and those of the principal's own programs.\<close>

definition span_effect :: "frame \<Rightarrow> translating \<Rightarrow> action \<times> part list \<Rightarrow> translating" where
  "span_effect fr st effect = (case work_relative (fr_work_root fr) (snd effect) of
     None \<Rightarrow> st
   | Some relative \<Rightarrow>
       if fst effect \<noteq> Read then st\<lparr>tx_wrote := True\<rparr>
       else st\<lparr>tx_git_reads := tx_git_reads st @ [relative]\<rparr>)"

definition shell_effect :: "frame \<Rightarrow> translating \<Rightarrow> action \<times> part list \<Rightarrow> translating" where
  "shell_effect fr st effect =
     (let st1 = (if fst effect \<noteq> Read \<and> work_relative (fr_work_root fr) (snd effect) \<noteq> None
                 then st\<lparr>tx_wrote := True\<rparr> else st) in
      case seed_resource (fr_work_root fr) (snd effect) of
        None \<Rightarrow> st1
      | Some resource \<Rightarrow> st1\<lparr>tx_events := tx_events st1 @ [new_event (fr_principal fr) (fst effect) resource]\<rparr>)"

definition execs_git :: "string \<Rightarrow> string list \<Rightarrow> bool" where
  "execs_git name args =
     (let (program, argv) = (if name = ''execve'' then (arg_at args 0, arg_at args 1) else (arg_at args 1, arg_at args 2));
          program = (case Option.bind program parse_quoted of None \<Rightarrow> [] | Some p \<Rightarrow> p);
          argv = (case argv of None \<Rightarrow> [] | Some a \<Rightarrow> argv_strings a) in
      basename program = ''git'' \<or> (argv \<noteq> [] \<and> basename (hd argv) = ''git''))"

definition record_call ::
  "frame \<Rightarrow> translating \<Rightarrow> nat \<Rightarrow> string \<Rightarrow> string list \<Rightarrow> int \<Rightarrow> string option \<Rightarrow> translating" where
  "record_call fr st tid name args ret ret_path =
     (let s = state_of st tid (fr_cwd fr) in
      if name = ''chdir'' \<and> ret = 0 then
        (case Option.bind (arg_at args 0) parse_quoted of
           Some path \<Rightarrow> set_state tid (s\<lparr>td_cwd := resolve (td_cwd s) path\<rparr>) st
         | None \<Rightarrow> st)
      else if name = ''fchdir'' \<and> ret = 0 then
        (case Option.bind (arg_at args 0) decorated_path of
           Some dir \<Rightarrow> set_state tid (s\<lparr>td_cwd := dir\<rparr>) st
         | None \<Rightarrow> st)
      else if name \<in> {''clone'', ''clone3'', ''fork'', ''vfork''} \<and> ret > 0 then
        (if ret < 2 ^ 32
         then set_state (nat ret) \<lparr>td_cwd = td_cwd s, td_attr = td_attr s, td_span = None\<rparr> st else st)
      else if name \<in> {''execve'', ''execveat''} \<and> ret = 0 then
        (if execs_git name args
         then refuse ''git invoked outside the git builtin is not instrumentable'' (set_state tid (s\<lparr>td_attr := GitAttr\<rparr>) st)
         else st)
      else if ret < 0 then st
      else if td_attr s = GitAttr then st
      else if td_span s \<noteq> None then foldl (span_effect fr) st (file_effects name args ret_path s)
      else foldl (shell_effect fr) st (file_effects name args ret_path s))"

definition record_line :: "frame \<Rightarrow> translating \<Rightarrow> trace_line \<Rightarrow> translating" where
  "record_line fr st line =
     (let st1 = set_state (ln_tid line) (state_of st (ln_tid line) (fr_cwd fr)) st in
      case ln_call line of
        Syscall name args ret ret_path \<Rightarrow> record_call fr st1 (ln_tid line) name (split_args args) ret ret_path
      | Exited status \<Rightarrow> st1)"

fun translate_item :: "frame \<Rightarrow> translating \<Rightarrow> execution_event \<Rightarrow> translating" where
  "translate_item fr st (BuiltinEvent (BeginRecord i ts tid builtin argv cwd)) =
     record_begin fr st i tid builtin (BeginRecord i ts tid builtin argv cwd)"
| "translate_item fr st (BuiltinEvent (EndRecord i ts tid status)) = record_end fr st i status"
| "translate_item fr st (SystemEvent line) = record_line fr st line"

section \<open>The translation\<close>

fun is_git_begin :: "builtin_record \<Rightarrow> bool" where
  "is_git_begin (BeginRecord i ts tid builtin argv cwd) \<longleftrightarrow> is_git_builtin builtin"
| "is_git_begin (EndRecord i ts tid status) \<longleftrightarrow> False"

fun dedup_preserving_order :: "'a list \<Rightarrow> 'a list \<Rightarrow> 'a list" where
  "dedup_preserving_order seen_events [] = []"
| "dedup_preserving_order seen_events (e # es) =
     (if e \<in> set seen_events then dedup_preserving_order seen_events es
      else e # dedup_preserving_order (seen_events @ [e]) es)"

definition finish_translation :: "translating \<Rightarrow> translation" where
  "finish_translation st =
     (let st1 = (if \<exists>r \<in> set (map snd (tx_spans st)). is_git_begin r
                 then refuse ''a git builtin span never closed'' st else st) in
      \<lparr>tl_events = dedup_preserving_order [] (tx_events st1), tl_unsupported = tx_unsupported st1,
       tl_git_reads = remdups_adj (sort (tx_git_reads st1)), tl_wrote_in_root = tx_wrote st1\<rparr>)"

definition translate :: "execution_evidence \<Rightarrow> string \<Rightarrow> part list \<Rightarrow> part list \<Rightarrow> translation" where
  "translate evidence who work_root cwd =
     (let fr = \<lparr>fr_principal = who, fr_work_root = work_root, fr_cwd = cwd\<rparr> in
      finish_translation (foldl (translate_item fr) nothing_translated (ed_events evidence)))"

end
