(* ===== verification/Translation.thy ===== *)
theory Translation
  imports Translate
begin

text \<open>
  What the translation of an execution promises: which events it may contain, that writes are
  noticed, that a git command it cannot name is refused, and what a builtin's span contributes.
\<close>

section \<open>Collapsing duplicates\<close>

lemma dedup_set: "set (dedup_preserving_order seen_events es) = set es - set seen_events"
  by (induction seen_events es rule: dedup_preserving_order.induct) auto

lemma dedup_distinct: "distinct (dedup_preserving_order seen_events es)"
  by (induction seen_events es rule: dedup_preserving_order.induct) (auto simp: dedup_set)

lemma finish_sel [simp]:
  "set (tl_events (finish_translation st)) = set (tx_events st)" "distinct (tl_events (finish_translation st))"
  "tl_wrote_in_root (finish_translation st) = tx_wrote st"
  "tl_git_reads (finish_translation st) = remdups_adj (sort (tx_git_reads st))"
  by (simp_all add: finish_translation_def refuse_def dedup_set dedup_distinct Let_def)

lemma refuse_sel [simp]:
  "tx_states (refuse reason st) = tx_states st" "tx_spans (refuse reason st) = tx_spans st"
  "tx_events (refuse reason st) = tx_events st" "tx_git_reads (refuse reason st) = tx_git_reads st"
  "tx_wrote (refuse reason st) = tx_wrote st" "tx_unsupported (refuse reason st) \<noteq> None"
  "tx_unsupported st \<noteq> None \<Longrightarrow> refuse reason st = st"
  by (simp_all add: refuse_def)

lemma set_state_sel [simp]:
  "tx_states (set_state tid s st) = (tx_states st)(tid \<mapsto> s)" "tx_spans (set_state tid s st) = tx_spans st"
  "tx_events (set_state tid s st) = tx_events st" "tx_git_reads (set_state tid s st) = tx_git_reads st"
  "tx_wrote (set_state tid s st) = tx_wrote st" "tx_unsupported (set_state tid s st) = tx_unsupported st"
  by (simp_all add: set_state_def)

section \<open>An invariant of every item\<close>

text \<open>
  The items only change the state by refusing, by bookkeeping, by noting a write, by noting a read
  of git, and by appending events: a property kept by these is an invariant of the translation.
\<close>

definition shell_request :: "frame \<Rightarrow> action \<Rightarrow> part list \<Rightarrow> event option" where
  "shell_request fr a path = map_option (new_event (fr_principal fr) a) (seed_resource (fr_work_root fr) path)"

text \<open>Events of the frame's principal, on resources inside the snapshot and outside \<^verbatim>\<open>.git\<close>, edits only after a noted write.\<close>

definition events_sound :: "frame \<Rightarrow> translating \<Rightarrow> bool" where
  "events_sound fr st \<longleftrightarrow>
     (\<forall>e \<in> set (tx_events st). ev_principal e = fr_principal fr \<and> ev_resource e \<noteq> [] \<and> ''.git'' \<notin> set (ev_resource e) \<and>
        (ev_action e = Edit \<longrightarrow> tx_wrote st))"

lemma seed_resource_Some:
  "seed_resource root path = Some r \<Longrightarrow> r \<noteq> [] \<and> ''.git'' \<notin> set r \<and> work_relative root path = Some (join ''/'' r)"
  by (auto simp: seed_resource_def work_relative_def split: option.splits if_splits)

lemma events_sound_simps [simp]:
  "events_sound fr (refuse reason st) = events_sound fr st" "events_sound fr (set_state tid s st) = events_sound fr st"
  "events_sound fr (st\<lparr>tx_spans := spans\<rparr>) = events_sound fr st"
  by (simp_all add: events_sound_def)

lemma events_sound_shell: "events_sound fr st \<Longrightarrow> events_sound fr (shell_effect fr st effect)"
  by (cases "seed_resource (fr_work_root fr) (snd effect)")
    (auto simp: events_sound_def shell_effect_def Let_def dest!: seed_resource_Some)

lemma events_sound_span: "events_sound fr st \<Longrightarrow> events_sound fr (span_effect fr st effect)"
  by (auto simp: events_sound_def span_effect_def split: option.split)

lemma events_sound_request: "events_sound fr st \<Longrightarrow> a \<noteq> Edit \<Longrightarrow> events_sound fr (request_pathspec fr cwd a st pathspec)"
  by (cases "seed_resource (fr_work_root fr) (resolve cwd pathspec)")
    (auto simp: request_pathspec_def events_sound_def dest!: seed_resource_Some)

lemma foldl_keeps: "P st \<Longrightarrow> (\<And>st x. P st \<Longrightarrow> P (f st x)) \<Longrightarrow> P (foldl f st xs)"
  by (induction xs arbitrary: st) auto

lemma capability_not_edit [simp]: "capability_of a \<noteq> Edit" "capability_of a \<noteq> Read"
  by (cases a; simp)+

lemma record_call_keeps:
  assumes "P st" "\<And>st tid s. P st \<Longrightarrow> P (set_state tid s st)" "\<And>st reason. P st \<Longrightarrow> P (refuse reason st)"
    "\<And>st effect. P st \<Longrightarrow> P (shell_effect fr st effect)" "\<And>st effect. P st \<Longrightarrow> P (span_effect fr st effect)"
  shows "P (record_call fr st tid name args ret ret_path)"
  unfolding record_call_def Let_def
  using assms foldl_keeps[of P st "span_effect fr"] foldl_keeps[of P st "shell_effect fr"]
  by (simp split: option.split)

lemma item_keeps:
  assumes "P st" "\<And>st tid s. P st \<Longrightarrow> P (set_state tid s st)" "\<And>st reason. P st \<Longrightarrow> P (refuse reason st)"
    "\<And>st effect. P st \<Longrightarrow> P (shell_effect fr st effect)" "\<And>st effect. P st \<Longrightarrow> P (span_effect fr st effect)"
    "\<And>st spans. P st \<Longrightarrow> P (st\<lparr>tx_spans := spans\<rparr>)"
    "\<And>st cwd a pathspec. P st \<Longrightarrow> P (request_pathspec fr cwd (capability_of a) st pathspec)"
  shows "P (translate_item fr st item)"
proof (cases "(fr, st, item)" rule: translate_item.cases)
  case (1 fr' st' i ts tid builtin argv cwd)
  with assms show ?thesis by (simp add: record_begin_def Let_def)
next
  case (2 fr' st' i ts tid status)
  have "P (record_end fr st i status)"
    unfolding record_end_def
    using assms foldl_keeps[where P = P and f = "request_pathspec fr _ _"]
    by (auto simp: Let_def split: option.split builtin_record.split sum.split intro!: foldl_keeps)
  with 2 show ?thesis by simp
next
  case (3 fr' st' line)
  have "P (record_call fr (set_state tid s st) tid name args ret ret_path)" for tid s name args ret ret_path
    by (rule record_call_keeps) (use assms in blast)+
  with 3 assms(1,2) show ?thesis by (simp add: record_line_def Let_def split: trace_call.split)
qed

lemma events_sound_items: "events_sound fr st \<Longrightarrow> events_sound fr (foldl (translate_item fr) st items)"
proof (rule foldl_keeps, assumption)
  fix st item
  assume "events_sound fr st"
  then show "events_sound fr (translate_item fr st item)"
    by (rule item_keeps) (simp_all add: events_sound_shell events_sound_span events_sound_request)
qed

section \<open>Refusals last\<close>

lemma refused_stays_item:
  "tx_unsupported st \<noteq> None \<Longrightarrow> tx_unsupported (translate_item fr st item) = tx_unsupported st"
proof -
  assume refused: "tx_unsupported st \<noteq> None"
  let ?P = "\<lambda>st'. tx_unsupported st' = tx_unsupported st"
  have keep: "?P st' \<Longrightarrow> ?P (refuse reason st')" for st' reason using refused by (simp add: refuse_def)
  show ?thesis
    by (rule item_keeps[where P = ?P])
      (auto simp: keep shell_effect_def span_effect_def request_pathspec_def Let_def split: option.split)
qed

lemma refused_stays:
  "tx_unsupported st \<noteq> None \<Longrightarrow> tx_unsupported (foldl (translate_item fr) st items) = tx_unsupported st"
proof (induction items arbitrary: st)
  case (Cons item items)
  from refused_stays_item[OF Cons.prems, of fr item] Cons.prems have "tx_unsupported (translate_item fr st item) \<noteq> None" by simp
  with Cons.IH[OF this] refused_stays_item[OF Cons.prems, of fr item] show ?case by simp
qed simp

section \<open>Git that is not instrumented\<close>

lemma exec_git_refused:
  assumes "name \<in> {''execve'', ''execveat''}" "execs_git name (split_args args)"
  shows "tx_unsupported (translate_item fr st
    (SystemEvent \<lparr>ln_tid = tid, ln_ts = ts, ln_call = Syscall name args 0 ret_path\<rparr>)) \<noteq> None"
  using assms by (elim insertE emptyE; simp add: record_line_def record_call_def refuse_def Let_def)

text \<open>A builtin's record stays open until its end, or the evidence is refused.\<close>

definition open_span :: "nat \<Rightarrow> builtin_record \<Rightarrow> translating \<Rightarrow> bool" where
  "open_span i rec st \<longleftrightarrow> tx_unsupported st \<noteq> None \<or> map_of (tx_spans st) i = Some rec"

lemma effects_keep_spans [simp]:
  "tx_spans (shell_effect fr st effect) = tx_spans st" "tx_spans (span_effect fr st effect) = tx_spans st"
  "tx_spans (request_pathspec fr cwd a st pathspec) = tx_spans st"
  by (auto simp: shell_effect_def span_effect_def request_pathspec_def Let_def split: option.split)

lemma requests_keep_spans [simp]: "tx_spans (foldl (request_pathspec fr cwd a) st pathspecs) = tx_spans st"
  by (rule foldl_keeps[where P = "\<lambda>st'. tx_spans st' = tx_spans st"]) simp_all

lemma line_keeps_spans [simp]: "tx_spans (record_line fr st line) = tx_spans st"
proof -
  have "tx_spans (record_call fr st' tid name args ret ret_path) = tx_spans st" if "tx_spans st' = tx_spans st"
    for st' tid name args ret ret_path
    by (rule record_call_keeps[where P = "\<lambda>st'. tx_spans st' = tx_spans st"]) (simp_all add: that)
  then show ?thesis by (simp add: record_line_def Let_def split: trace_call.split)
qed

definition ends :: "nat \<Rightarrow> execution_event \<Rightarrow> bool" where
  "ends i item = (case item of BuiltinEvent (EndRecord j ts tid status) \<Rightarrow> j = i | _ \<Rightarrow> False)"

lemma end_spans: "tx_spans (record_end fr st i status) = AList.delete i (tx_spans st)"
  by (auto simp: record_end_def Let_def split: option.split builtin_record.split sum.split)

lemma begin_spans: "tx_spans (record_begin fr st i tid builtin rec) = AList.update i rec (tx_spans st)"
  by (simp add: record_begin_def Let_def)

lemma open_span_item:
  assumes "open_span i rec st" "\<not> ends i item"
  shows "open_span i rec (translate_item fr st item)"
proof (cases "tx_unsupported st")
  case (Some reason)
  with refused_stays_item[of st fr item] show ?thesis by (simp add: open_span_def)
next
  case None
  with assms(1) have m: "map_of (tx_spans st) i = Some rec" by (simp add: open_span_def)
  show ?thesis
  proof (cases "(fr, st, item)" rule: translate_item.cases)
    case (1 fr' st' j ts tid builtin argv cwd)
    then show ?thesis using m
      by (cases "j = i") (auto simp: open_span_def begin_spans update_conv record_begin_def refuse_def Let_def)
  next
    case (2 fr' st' j ts tid status)
    with assms(2) m show ?thesis by (simp add: open_span_def end_spans ends_def delete_conv)
  next
    case (3 fr' st' line)
    with m show ?thesis by (simp add: open_span_def)
  qed
qed

lemma open_span_items:
  "open_span i rec st \<Longrightarrow> \<forall>item \<in> set items. \<not> ends i item \<Longrightarrow> open_span i rec (foldl (translate_item fr) st items)"
  by (induction items arbitrary: st) (simp_all add: open_span_item)

lemma open_span_begin:
  "open_span i (BeginRecord i ts tid builtin argv cwd)
     (translate_item fr st (BuiltinEvent (BeginRecord i ts tid builtin argv cwd)))"
  by (simp add: open_span_def begin_spans update_conv)

lemma finish_refuses:
  "tx_unsupported st \<noteq> None \<Longrightarrow> tl_unsupported (finish_translation st) \<noteq> None"
  "open_span i rec st \<Longrightarrow> is_git_begin rec \<Longrightarrow> tl_unsupported (finish_translation st) \<noteq> None"
proof -
  show refused: "tl_unsupported (finish_translation st) \<noteq> None" if "tx_unsupported st \<noteq> None"
    using that by (simp add: finish_translation_def Let_def)
  show "tl_unsupported (finish_translation st) \<noteq> None" if "open_span i rec st" "is_git_begin rec"
  proof (cases "tx_unsupported st = None")
    case True
    with that(1) have "rec \<in> set (map snd (tx_spans st))" by (force simp: open_span_def dest: map_of_SomeD)
    with that(2) show ?thesis by (auto simp: finish_translation_def refuse_def Let_def)
  qed (simp add: refused)
qed

text \<open>Whether an item executes git where the builtin does not see it.\<close>

definition hidden_git :: "execution_event \<Rightarrow> bool" where
  "hidden_git item = (case item of
     SystemEvent line \<Rightarrow> (case ln_call line of
         Syscall name args ret ret_path \<Rightarrow> name \<in> {''execve'', ''execveat''} \<and> ret = 0 \<and> execs_git name (split_args args)
       | Exited status \<Rightarrow> False)
   | BuiltinEvent rec \<Rightarrow> False)"

lemma hidden_git_refused:
  assumes "hidden_git item"
  shows "tl_unsupported (finish_translation (foldl (translate_item fr) st (before @ item # later))) \<noteq> None"
proof -
  from assms obtain line name args ret_path where item: "item = SystemEvent line"
    "ln_call line = Syscall name args 0 ret_path" "name \<in> {''execve'', ''execveat''}" "execs_git name (split_args args)"
    by (auto simp: hidden_git_def split: execution_event.splits trace_call.splits)
  then have "line = \<lparr>ln_tid = ln_tid line, ln_ts = ln_ts line, ln_call = Syscall name args 0 ret_path\<rparr>" by simp
  with exec_git_refused[OF item(3,4)] item(1) have
    refused: "tx_unsupported (translate_item fr st' item) \<noteq> None" for st' by metis
  show ?thesis
    by (rule finish_refuses(1)) (simp add: refused_stays[OF refused] refused)
qed

lemma unclosed_git_refused:
  assumes "is_git_builtin builtin" "\<forall>x \<in> set later. \<not> ends i x"
  shows "tl_unsupported (finish_translation (foldl (translate_item fr) st
    (before @ BuiltinEvent (BeginRecord i ts tid builtin argv cwd) # later))) \<noteq> None"
proof (rule finish_refuses(2)[where i = i and rec = "BeginRecord i ts tid builtin argv cwd"])
  show "open_span i (BeginRecord i ts tid builtin argv cwd) (foldl (translate_item fr) st
    (before @ BuiltinEvent (BeginRecord i ts tid builtin argv cwd) # later))"
    using open_span_items[OF open_span_begin assms(2)] by (simp del: translate_item.simps)
qed (simp add: assms(1))

end
