(* ===== verification/Spans.thy ===== *)
theory Spans
  imports Translation
begin

text \<open>
  What executions request: programs alone request what they touch, and the git builtin what its
  command line names, and nothing of what it touches.
\<close>

section \<open>Programs\<close>

definition begins_git :: "execution_event \<Rightarrow> bool" where
  "begins_git item = (case item of BuiltinEvent rec \<Rightarrow> is_git_begin rec | SystemEvent line \<Rightarrow> False)"

definition programs_only :: "execution_event list \<Rightarrow> bool" where
  "programs_only items \<longleftrightarrow> (\<forall>item \<in> set items. \<not> begins_git item \<and> \<not> hidden_git item)"

text \<open>No thread executes git or is inside its builtin, and no span of the builtin is open.\<close>

definition shell_state :: "tid_state \<Rightarrow> bool" where
  "shell_state s \<longleftrightarrow> td_attr s = ShellAttr \<and> td_span s = None"

definition shell_only :: "translating \<Rightarrow> bool" where
  "shell_only st \<longleftrightarrow> (\<forall>s \<in> ran (tx_states st). shell_state s) \<and> (\<forall>rec \<in> ran (map_of (tx_spans st)). \<not> is_git_begin rec)"

lemma shell_only_state [simp]: "shell_only st \<Longrightarrow> shell_state (state_of st tid cwd)"
  by (auto simp: shell_only_def state_of_def shell_state_def ran_def split: option.split)

lemma shell_only_set [simp]: "shell_only st \<Longrightarrow> shell_state s \<Longrightarrow> shell_only (set_state tid s st)"
  by (auto simp: shell_only_def ran_def)

lemma shell_only_sel:
  "tx_states st' = tx_states st \<Longrightarrow> tx_spans st' = tx_spans st \<Longrightarrow> shell_only st' = shell_only st"
  by (simp add: shell_only_def)

lemma effects_keep_states [simp]:
  "tx_states (shell_effect fr st effect) = tx_states st" "tx_states (span_effect fr st effect) = tx_states st"
  "tx_states (request_pathspec fr cwd a st pathspec) = tx_states st"
  by (auto simp: shell_effect_def span_effect_def request_pathspec_def Let_def split: option.split)

lemma shell_only_simps [simp]:
  "shell_only (refuse reason st) = shell_only st" "shell_only (shell_effect fr st effect) = shell_only st"
  "shell_only (span_effect fr st effect) = shell_only st"
  by (rule shell_only_sel; simp)+

lemma shell_only_foldl [simp]: "shell_only st \<Longrightarrow> shell_only (foldl (shell_effect fr) st effects)"
  by (rule foldl_keeps) simp_all

text \<open>A call of a program, on the path it takes when it neither moves nor makes threads.\<close>

definition bookkeeping :: "string list" where
  "bookkeeping = [''chdir'', ''fchdir'', ''clone'', ''clone3'', ''fork'', ''vfork'', ''execve'', ''execveat'']"

lemma record_call_effects:
  assumes "shell_state (state_of st tid (fr_cwd fr))" "name \<notin> set bookkeeping" "ret \<ge> 0"
  shows "record_call fr st tid name args ret ret_path =
    foldl (shell_effect fr) st (file_effects name args ret_path (state_of st tid (fr_cwd fr)))"
  using assms by (simp add: record_call_def bookkeeping_def shell_state_def Let_def)

lemma no_effects_of_bookkeeping: "name \<in> set bookkeeping \<Longrightarrow> file_effects name args ret_path s = []"
  by (simp only: bookkeeping_def list.set insert_iff empty_iff simp_thms; elim disjE; simp add: file_effects_def)

lemma record_call_bookkeeping:
  assumes "name \<in> set bookkeeping" "shell_state (state_of st tid (fr_cwd fr))"
    "\<not> (name \<in> {''execve'', ''execveat''} \<and> ret = 0 \<and> execs_git name args)"
    "P st" "\<And>tid s. shell_state s \<Longrightarrow> P (set_state tid s st)"
  shows "P (record_call fr st tid name args ret ret_path)"
proof -
  let ?s = "state_of st tid (fr_cwd fr)"
  have s: "td_attr ?s = ShellAttr" "td_span ?s = None" "shell_state (?s\<lparr>td_cwd := dir\<rparr>)"
    "shell_state \<lparr>td_cwd = td_cwd ?s, td_attr = ShellAttr, td_span = None\<rparr>" for dir
    using assms(2) by (simp_all add: shell_state_def)
  note none = no_effects_of_bookkeeping[OF assms(1), of args ret_path ?s]
  note eq = record_call_def[of fr st tid name args ret ret_path, unfolded Let_def none, unfolded s]
  show ?thesis
    using assms(1)
    by (simp only: bookkeeping_def list.set insert_iff empty_iff simp_thms; elim disjE)
      (use assms(3-5) s eq in \<open>simp split: option.split\<close>)+
qed

lemma record_call_shell:
  assumes "shell_only st" "\<not> (name \<in> {''execve'', ''execveat''} \<and> ret = 0 \<and> execs_git name args)"
  shows "shell_only (record_call fr st tid name args ret ret_path)"
    "tx_events (record_call fr st tid name args ret ret_path) =
      tx_events (foldl (shell_effect fr) st (if ret < 0 then [] else file_effects name args ret_path (state_of st tid (fr_cwd fr))))"
proof -
  have s: "td_attr (state_of st tid (fr_cwd fr)) = ShellAttr" "td_span (state_of st tid (fr_cwd fr)) = None"
    using shell_only_state[OF assms(1), of tid "fr_cwd fr"] by (simp_all add: shell_state_def)
  let ?s = "state_of st tid (fr_cwd fr)"
  have called: "record_call fr st tid name args ret ret_path =
      foldl (shell_effect fr) st (if ret < 0 then [] else file_effects name args ret_path ?s)"
    if "name \<notin> set bookkeeping"
  proof (cases "ret < 0")
    case True
    with that show ?thesis by (simp add: record_call_def bookkeeping_def Let_def)
  next
    case False
    with record_call_effects[OF shell_only_state[OF assms(1)] that] show ?thesis by simp
  qed
  show "shell_only (record_call fr st tid name args ret ret_path)"
  proof (cases "name \<in> set bookkeeping")
    case True
    then show ?thesis
      by (rule record_call_bookkeeping) (use assms in auto)
  next
    case False
    with called assms(1) show ?thesis by simp
  qed
  show "tx_events (record_call fr st tid name args ret ret_path) =
      tx_events (foldl (shell_effect fr) st (if ret < 0 then [] else file_effects name args ret_path ?s))"
  proof (cases "name \<in> set bookkeeping")
    case True
    then have "tx_events (record_call fr st tid name args ret ret_path) = tx_events st"
      by (rule record_call_bookkeeping) (use assms in auto)
    with no_effects_of_bookkeeping[OF True] show ?thesis by simp
  next
    case False
    with called show ?thesis by simp
  qed
qed

text \<open>What a list of effects requests.\<close>

definition requested :: "frame \<Rightarrow> (action \<times> part list) list \<Rightarrow> event list" where
  "requested fr effects = List.map_filter (\<lambda>(a, path). shell_request fr a path) effects"

lemma requested_effects: "tx_events (foldl (shell_effect fr) st effects) = tx_events st @ requested fr effects"
proof (induction effects arbitrary: st)
  case (Cons x effects)
  then show ?case
    by (cases x; cases "seed_resource (fr_work_root fr) (snd x)")
      (simp_all add: shell_effect_def Let_def requested_def shell_request_def List.map_filter_simps)
qed (simp add: requested_def List.map_filter_simps)

text \<open>The effects of an item of programs, in the state it is translated in.\<close>

definition effects_of :: "frame \<Rightarrow> translating \<Rightarrow> execution_event \<Rightarrow> (action \<times> part list) list" where
  "effects_of fr st item = (case item of
     SystemEvent line \<Rightarrow> (case ln_call line of
         Syscall name args ret ret_path \<Rightarrow>
           if ret < 0 then [] else file_effects name (split_args args) ret_path (state_of st (ln_tid line) (fr_cwd fr))
       | Exited status \<Rightarrow> [])
   | BuiltinEvent rec \<Rightarrow> [])"

lemma state_of_set [simp]: "state_of (set_state tid (state_of st tid cwd) st) tid cwd = state_of st tid cwd"
  by (simp add: state_of_def split: option.split)

lemma ran_delete: "ran (map_of (AList.delete i al)) \<subseteq> ran (map_of al)"
  by (auto simp: ran_def delete_conv' restrict_map_def split: if_splits)

lemma programs_item:
  assumes "shell_only st" "\<not> begins_git item" "\<not> hidden_git item"
  shows "shell_only (translate_item fr st item)"
    "tx_events (translate_item fr st item) = tx_events st @ requested fr (effects_of fr st item)"
proof -
  have "shell_only (translate_item fr st item) \<and>
    tx_events (translate_item fr st item) = tx_events st @ requested fr (effects_of fr st item)"
  proof (cases "(fr, st, item)" rule: translate_item.cases)
    case (1 fr' st' i ts tid builtin argv cwd)
    with assms show ?thesis
      by (auto simp: record_begin_def begins_git_def effects_of_def requested_def List.map_filter_simps Let_def
          shell_only_def update_conv ran_def split: if_splits)
  next
    case (2 fr' st' i ts tid status)
    have sub: "shell_only (st\<lparr>tx_spans := AList.delete i (tx_spans st)\<rparr>)"
      using assms(1) ran_delete[of i "tx_spans st"] by (auto simp: shell_only_def)
    have plain: "map_of (tx_spans st) i = Some rec \<Longrightarrow> \<not> is_git_begin rec" for rec
      using assms(1) by (auto simp: shell_only_def ran_def)
    have "record_end fr st i status = st\<lparr>tx_spans := AList.delete i (tx_spans st)\<rparr> \<or>
      (\<exists>reason. record_end fr st i status = refuse reason (st\<lparr>tx_spans := AList.delete i (tx_spans st)\<rparr>))"
      using plain by (auto simp: record_end_def Let_def split: option.split builtin_record.split)
    with sub 2 show ?thesis by (auto simp: effects_of_def requested_def List.map_filter_simps)
  next
    case (3 fr' st' line)
    show ?thesis
    proof (cases "ln_call line")
      case (Syscall name args ret ret_path)
      let ?st = "set_state (ln_tid line) (state_of st (ln_tid line) (fr_cwd fr)) st"
      have "shell_only ?st" using assms(1) by simp
      moreover have "\<not> (name \<in> {''execve'', ''execveat''} \<and> ret = 0 \<and> execs_git name (split_args args))"
        using assms(3) 3 Syscall by (simp add: hidden_git_def)
      ultimately show ?thesis
        using record_call_shell[of ?st name ret "split_args args" fr "ln_tid line" ret_path] 3 Syscall
        by (auto simp: record_line_def effects_of_def requested_effects Let_def)
    next
      case (Exited status)
      with 3 assms(1) show ?thesis
        by (simp add: record_line_def effects_of_def requested_def List.map_filter_simps Let_def)
    qed
  qed
  then show "shell_only (translate_item fr st item)"
    "tx_events (translate_item fr st item) = tx_events st @ requested fr (effects_of fr st item)" by blast+
qed

lemma programs_items:
  "shell_only st \<Longrightarrow> programs_only items \<Longrightarrow>
   shell_only (foldl (translate_item fr) st items) \<and>
   set (tx_events (foldl (translate_item fr) st items)) = set (tx_events st) \<union>
     (\<Union>(before, item) \<in> {(before, item). \<exists>later. items = before @ item # later}.
       set (requested fr (effects_of fr (foldl (translate_item fr) st before) item)))"
proof (induction items rule: rev_induct)
  case (snoc x items)
  let ?st = "foldl (translate_item fr) st items"
  have only: "programs_only items" "\<not> begins_git x" "\<not> hidden_git x"
    using snoc.prems(2) by (simp_all add: programs_only_def)
  from snoc.IH[OF snoc.prems(1) only(1)] have IH: "shell_only ?st"
    "set (tx_events ?st) = set (tx_events st) \<union>
     (\<Union>(before, item) \<in> {(before, item). \<exists>later. items = before @ item # later}.
       set (requested fr (effects_of fr (foldl (translate_item fr) st before) item)))" by blast+
  have "{(before, item). \<exists>later. items @ [x] = before @ item # later} =
    insert (items, x) {(before, item). \<exists>later. items = before @ item # later}"
  proof -
    have "(\<exists>later. items @ [x] = before @ item # later) \<longleftrightarrow>
      (before = items \<and> item = x) \<or> (\<exists>later. items = before @ item # later)" for before item
    proof
      assume "\<exists>later. items @ [x] = before @ item # later"
      then obtain later where "items @ [x] = before @ item # later" ..
      then show "(before = items \<and> item = x) \<or> (\<exists>later. items = before @ item # later)"
        by (cases later rule: rev_cases) auto
    qed auto
    then show ?thesis by auto
  qed
  with programs_item[OF IH(1) only(2,3), of fr] IH(2) show ?case by auto
qed (simp add: programs_only_def)

text \<open>An execution touches a path where one of its calls has an effect there.\<close>

definition frame_of :: "string \<Rightarrow> part list \<Rightarrow> part list \<Rightarrow> frame" where
  "frame_of who work_root cwd = \<lparr>fr_principal = who, fr_work_root = work_root, fr_cwd = cwd\<rparr>"

definition touches :: "frame \<Rightarrow> execution_event list \<Rightarrow> action \<Rightarrow> part list \<Rightarrow> bool" where
  "touches fr items a path \<longleftrightarrow> (\<exists>before item later. items = before @ item # later \<and>
     (a, path) \<in> set (effects_of fr (foldl (translate_item fr) nothing_translated before) item))"

lemma requested_iff: "e \<in> set (requested fr effects) \<longleftrightarrow> (\<exists>a path. (a, path) \<in> set effects \<and> shell_request fr a path = Some e)"
  by (force simp: requested_def List.map_filter_def)

lemma shell_only_nothing [simp]: "shell_only nothing_translated"
  by (simp add: shell_only_def nothing_translated_def)

lemma tx_events_nothing [simp]: "tx_events nothing_translated = []"
  by (simp add: nothing_translated_def)

lemma union_pairs:
  "(\<Union>(before, item) \<in> {(before, item). \<exists>later. P before item later}. F before item) =
   {e. \<exists>before item later. P before item later \<and> e \<in> F before item}"
  by auto

lemma translate_programs:
  assumes "programs_only (ed_events evidence)"
  shows "e \<in> set (tl_events (translate evidence who work_root cwd)) \<longleftrightarrow>
    (\<exists>a path. touches (frame_of who work_root cwd) (ed_events evidence) a path \<and>
       shell_request (frame_of who work_root cwd) a path = Some e)"
proof -
  let ?fr = "frame_of who work_root cwd"
  have "set (tl_events (translate evidence who work_root cwd)) =
    set (tx_events (foldl (translate_item ?fr) nothing_translated (ed_events evidence)))"
    by (simp add: translate_def frame_of_def)
  also have "\<dots> = {e. \<exists>before item later. ed_events evidence = before @ item # later \<and>
      e \<in> set (requested ?fr (effects_of ?fr (foldl (translate_item ?fr) nothing_translated before) item))}"
    using programs_items[OF shell_only_nothing assms, of ?fr] by (simp only: tx_events_nothing union_pairs) simp
  finally show ?thesis unfolding touches_def mem_Collect_eq requested_iff by blast
qed

definition open_action :: "string list \<Rightarrow> action" where
  "open_action args = (if \<exists>flag \<in> set WRITE_FLAGS. contains flag (if length args > 2 then args ! 2 else []) then Edit else Read)"

definition opens_directory :: "string list \<Rightarrow> bool" where
  "opens_directory args \<longleftrightarrow> contains ''O_DIRECTORY'' (if length args > 2 then args ! 2 else [])"

lemma contains_Nil: "p \<noteq> [] \<Longrightarrow> \<not> contains p []"
  by (simp add: contains_def)

lemma openat_effects:
  "\<not> opens_directory args \<Longrightarrow> file_effects ''openat'' args (Some path) s = [(open_action args, path_buf path)]"
  by (cases "2 < length args")
    (simp_all add: file_effects_def open_effect_def opens_directory_def open_action_def arg_at_def path_at_def
      contains_Nil Let_def)

lemma openat_touches:
  assumes "SystemEvent \<lparr>ln_tid = tid, ln_ts = ts, ln_call = Syscall ''openat'' args ret (Some path)\<rparr> \<in> set items"
    "ret \<ge> 0" "\<not> opens_directory (split_args args)"
  shows "touches fr items (open_action (split_args args)) (path_buf path)"
proof -
  obtain before later where "items = before @ SystemEvent \<lparr>ln_tid = tid, ln_ts = ts,
      ln_call = Syscall ''openat'' args ret (Some path)\<rparr> # later"
    using split_list[OF assms(1)] by blast
  then show ?thesis
    using openat_effects[OF assms(3)] assms(2) unfolding touches_def
    by (intro exI conjI) (assumption, simp add: effects_of_def)
qed

section \<open>The git builtin\<close>

text \<open>A call of the thread that runs the builtin, other than one that makes a thread.\<close>

definition inside :: "nat \<Rightarrow> trace_line \<Rightarrow> bool" where
  "inside tid line \<longleftrightarrow> ln_tid line = tid \<and> \<not> hidden_git (SystemEvent line) \<and>
     (case ln_call line of
        Syscall name args ret ret_path \<Rightarrow> name \<notin> {''clone'', ''clone3'', ''fork'', ''vfork''}
      | Exited status \<Rightarrow> True)"

text \<open>The thread is inside a span, and nothing has been requested or refused since.\<close>

definition in_span :: "frame \<Rightarrow> nat \<Rightarrow> translating \<Rightarrow> translating \<Rightarrow> bool" where
  "in_span fr tid st0 st \<longleftrightarrow> td_attr (state_of st tid (fr_cwd fr)) = ShellAttr \<and> td_span (state_of st tid (fr_cwd fr)) \<noteq> None \<and>
     tx_spans st = tx_spans st0 \<and> tx_events st = tx_events st0 \<and> tx_unsupported st = tx_unsupported st0"

lemma state_of_set_state [simp]:
  "state_of (set_state tid s st) tid' cwd = (if tid' = tid then s else state_of st tid' cwd)"
  by (simp add: state_of_def)

lemma span_effect_sel [simp]:
  "tx_events (span_effect fr st effect) = tx_events st" "tx_unsupported (span_effect fr st effect) = tx_unsupported st"
  by (auto simp: span_effect_def split: option.split)

lemma in_span_effects: "in_span fr tid st0 st \<Longrightarrow> in_span fr tid st0 (foldl (span_effect fr) st effects)"
  by (rule foldl_keeps) (simp_all add: in_span_def state_of_def)

lemma in_span_set:
  "in_span fr tid st0 st \<Longrightarrow> td_attr s = ShellAttr \<Longrightarrow> td_span s \<noteq> None \<Longrightarrow> in_span fr tid st0 (set_state tid s st)"
  by (simp add: in_span_def)

lemma in_span_call:
  assumes "in_span fr tid st0 st" "name \<notin> {''clone'', ''clone3'', ''fork'', ''vfork''}"
    "\<not> (name \<in> {''execve'', ''execveat''} \<and> ret = 0 \<and> execs_git name args)"
  shows "in_span fr tid st0 (record_call fr st tid name args ret ret_path)"
proof -
  let ?s = "state_of st tid (fr_cwd fr)"
  have s: "td_attr ?s = ShellAttr" "\<And>dir. in_span fr tid st0 (set_state tid (?s\<lparr>td_cwd := dir\<rparr>) st)"
    using assms(1) by (auto simp: in_span_def)
  have span: "td_span ?s \<noteq> None" using assms(1) by (simp add: in_span_def)
  note eq = record_call_def[of fr st tid name args ret ret_path, unfolded Let_def]
  show ?thesis
  proof (cases "name \<in> {''chdir'', ''fchdir'', ''execve'', ''execveat''}")
    case True
    then show ?thesis unfolding eq
      by (elim insertE emptyE)
        (use assms s span in_span_effects[OF assms(1)] in \<open>simp split: option.split\<close>)+
  next
    case False
    with assms(2) have "record_call fr st tid name args ret ret_path =
        (if ret < 0 then st else foldl (span_effect fr) st (file_effects name args ret_path ?s))"
      unfolding eq using s(1) span by simp
    with assms(1) in_span_effects[OF assms(1)] show ?thesis by simp
  qed
qed

lemma in_span_line:
  assumes "in_span fr tid st0 st" "inside tid line"
  shows "in_span fr tid st0 (record_line fr st line)"
proof -
  have s: "in_span fr tid st0 (set_state tid (state_of st tid (fr_cwd fr)) st)"
    using assms(1) by (intro in_span_set) (simp_all add: in_span_def)
  have tid: "ln_tid line = tid" using assms(2) by (simp add: inside_def)
  show ?thesis
  proof (cases "ln_call line")
    case (Syscall name args ret ret_path)
    with assms(2) in_span_call[OF s] tid show ?thesis
      by (simp add: record_line_def inside_def hidden_git_def Let_def)
  next
    case (Exited status)
    with s tid show ?thesis by (simp add: record_line_def Let_def)
  qed
qed

lemma in_span_lines:
  "in_span fr tid st0 st \<Longrightarrow> \<forall>line \<in> set lines. inside tid line \<Longrightarrow>
   in_span fr tid st0 (foldl (translate_item fr) st (map SystemEvent lines))"
  by (induction lines arbitrary: st) (simp_all add: in_span_line)

lemma requests_inside:
  assumes "\<forall>p \<in> set pathspecs. seed_resource (fr_work_root fr) (resolve cwd p) = Some (res p)"
  shows "tx_events (foldl (request_pathspec fr cwd a) st pathspecs) =
      tx_events st @ map (\<lambda>p. new_event (fr_principal fr) a (res p)) pathspecs"
    "tx_unsupported (foldl (request_pathspec fr cwd a) st pathspecs) = tx_unsupported st"
  using assms by (induction pathspecs arbitrary: st) (simp_all add: request_pathspec_def)

lemma requests_outside:
  assumes "p \<in> set pathspecs" "seed_resource (fr_work_root fr) (resolve cwd p) = None"
  shows "tx_unsupported (foldl (request_pathspec fr cwd a) st pathspecs) \<noteq> None"
proof -
  have keep: "tx_unsupported st \<noteq> None \<Longrightarrow> tx_unsupported (foldl (request_pathspec fr cwd a) st ps) \<noteq> None" for st ps
    by (rule foldl_keeps[where P = "\<lambda>st. tx_unsupported st \<noteq> None"]) (auto simp: request_pathspec_def refuse_def split: option.split)
  from assms(1) obtain xs ys where "pathspecs = xs @ p # ys" by (auto dest: split_list)
  then show ?thesis using assms(2) keep[of "refuse _ _"] by (simp add: request_pathspec_def refuse_def)
qed

text \<open>The evidence of one run of the builtin.\<close>

definition git_run :: "string \<Rightarrow> nat \<Rightarrow> string list \<Rightarrow> part list \<Rightarrow> trace_line list \<Rightarrow> nat \<Rightarrow> execution_event list" where
  "git_run builtin tid argv cwd lines status =
     BuiltinEvent (BeginRecord 0 0 tid builtin argv cwd) # map SystemEvent lines @ [BuiltinEvent (EndRecord 0 0 tid status)]"

lemma record_end_git:
  assumes "tx_spans st = [(0, BeginRecord 0 0 tid builtin argv cwd)]" "is_git_builtin builtin"
  shows "record_end fr st 0 status =
    (let st2 = set_state tid ((state_of (st\<lparr>tx_spans := []\<rparr>) tid cwd)\<lparr>td_span := None\<rparr>) (st\<lparr>tx_spans := []\<rparr>) in
     if status \<noteq> 0 then st2 else case git_parse argv of
         Inl reason \<Rightarrow> refuse (git_cmd_message reason) st2
       | Inr gi \<Rightarrow> foldl (request_pathspec fr cwd (capability_of (gi_action gi))) st2 (gi_pathspecs gi))"
  unfolding record_end_def using assms by (simp add: Let_def split: sum.split)

lemma git_run_translated:
  assumes "is_git_builtin builtin" "\<forall>line \<in> set lines. inside tid line"
  obtains st where
    "foldl (translate_item fr) nothing_translated (git_run builtin tid argv cwd lines status) =
      (if status \<noteq> 0 then st else case git_parse argv of
         Inl reason \<Rightarrow> refuse (git_cmd_message reason) st
       | Inr gi \<Rightarrow> foldl (request_pathspec fr cwd (capability_of (gi_action gi))) st (gi_pathspecs gi))"
    "tx_spans st = []" "tx_events st = []" "tx_unsupported st = None"
proof -
  let ?rec = "BeginRecord 0 0 tid builtin argv cwd"
  let ?st0 = "translate_item fr nothing_translated (BuiltinEvent ?rec)"
  have st0: "tx_spans ?st0 = [(0, ?rec)]" "tx_events ?st0 = []" "tx_unsupported ?st0 = None" "in_span fr tid ?st0 ?st0"
    using assms(1)
    by (simp_all add: record_begin_def nothing_translated_def state_of_def set_state_def in_span_def Let_def)
  let ?st1 = "foldl (translate_item fr) ?st0 (map SystemEvent lines)"
  let ?st2 = "set_state tid ((state_of (?st1\<lparr>tx_spans := []\<rparr>) tid cwd)\<lparr>td_span := None\<rparr>) (?st1\<lparr>tx_spans := []\<rparr>)"
  from in_span_lines[OF st0(4) assms(2)] st0 have
    st1: "tx_spans ?st1 = [(0, ?rec)]" "tx_events ?st1 = []" "tx_unsupported ?st1 = None" by (simp_all only: in_span_def)
  have "foldl (translate_item fr) nothing_translated (git_run builtin tid argv cwd lines status) =
      record_end fr ?st1 0 status" by (simp add: git_run_def del: translate_item.simps(1))
  also have "\<dots> = (if status \<noteq> 0 then ?st2 else case git_parse argv of
         Inl reason \<Rightarrow> refuse (git_cmd_message reason) ?st2
       | Inr gi \<Rightarrow> foldl (request_pathspec fr cwd (capability_of (gi_action gi))) ?st2 (gi_pathspecs gi))"
    unfolding record_end_git[OF st1(1) assms(1)] Let_def by (rule refl)
  finally show thesis
    by (rule that) (simp_all add: st1(2,3) del: translate_item.simps)
qed

lemma finish_unrefused:
  "tx_spans st = [] \<Longrightarrow> tl_unsupported (finish_translation st) = tx_unsupported st"
  "tx_spans st = [] \<Longrightarrow> tl_events (finish_translation st) = dedup_preserving_order [] (tx_events st)"
  by (simp_all add: finish_translation_def)

lemma git_run_events:
  assumes "is_git_builtin builtin" "\<forall>line \<in> set lines. inside tid line" "git_parse argv = Inr gi"
    and root: "\<forall>p \<in> set (gi_pathspecs gi). seed_resource work_root (resolve cwd p) = Some (res p)"
    and ev: "ed_events evidence = git_run builtin tid argv cwd lines status"
  shows "tl_unsupported (translate evidence who work_root start) = None"
    "tl_events (translate evidence who work_root start) =
      (if status = 0 then dedup_preserving_order []
         (map (\<lambda>p. new_event who (capability_of (gi_action gi)) (res p)) (gi_pathspecs gi)) else [])"
proof -
  let ?fr = "frame_of who work_root start"
  obtain st where run: "foldl (translate_item ?fr) nothing_translated (git_run builtin tid argv cwd lines status) =
      (if status \<noteq> 0 then st else case git_parse argv of
         Inl reason \<Rightarrow> refuse (git_cmd_message reason) st
       | Inr gi \<Rightarrow> foldl (request_pathspec ?fr cwd (capability_of (gi_action gi))) st (gi_pathspecs gi))"
    and st: "tx_spans st = []" "tx_events st = []" "tx_unsupported st = None"
    by (rule git_run_translated[OF assms(1,2)])
  have root': "\<forall>p \<in> set (gi_pathspecs gi). seed_resource (fr_work_root ?fr) (resolve cwd p) = Some (res p)"
    using root by (simp add: frame_of_def)
  have t: "translate evidence who work_root start = finish_translation
      (if status \<noteq> 0 then st else foldl (request_pathspec ?fr cwd (capability_of (gi_action gi))) st (gi_pathspecs gi))"
    unfolding translate_def ev Let_def frame_of_def[symmetric] by (simp only: run assms(3) sum.case)
  show "tl_unsupported (translate evidence who work_root start) = None"
    unfolding t by (simp add: finish_unrefused requests_inside[OF root'] st)
  show "tl_events (translate evidence who work_root start) =
      (if status = 0 then dedup_preserving_order []
         (map (\<lambda>p. new_event who (capability_of (gi_action gi)) (res p)) (gi_pathspecs gi)) else [])"
    unfolding t by (simp add: finish_unrefused requests_inside[OF root'] st) (simp add: frame_of_def)
qed

end
