(* ===== verification/Jobs.thy ===== *)
theory Jobs
  imports Mux Text
begin

text \<open>
  The job table, \<^verbatim>\<open>shellmux/src/jobs.rs\<close>: the jobs a front end has open, the queue of conclusions, and
  what each critical section of the multiplexer's job operations does to them. A job's terminal and
  shell, and the open transaction of a command, are opaque values; killing a process group is the
  parameter \<open>force_stop\<close> on the latter. A callback is an identity.
\<close>

section \<open>Names\<close>

type_synonym shell_id = string

definition is_bare :: "shell_id \<Rightarrow> bool" where
  "is_bare name \<longleftrightarrow> name \<noteq> [] \<and>
     list_all (\<lambda>c. is_digit c \<or> (of_char c :: nat) \<in> {65..90} \<union> {97..122} \<or> c = CHR ''_'' \<or> c = CHR ''-'') name"

definition reference :: "shell_id \<Rightarrow> string" where
  "reference name = (if is_bare name then CHR ''%'' # name else CHR ''%'' # debug_string name)"

section \<open>The table\<close>

datatype close_mode = Automatic | Graceful | Force

fun explicit_mode :: "close_mode \<Rightarrow> bool" where
  "explicit_mode Automatic \<longleftrightarrow> False"
| "explicit_mode Graceful \<longleftrightarrow> True"
| "explicit_mode Force \<longleftrightarrow> True"

type_synonym callback = nat

record 's running =
  rn_cmd :: string
  rn_pid :: int
  rn_started :: 's

record ('r, 's) job =
  jb_id :: shell_id
  jb_sandbox :: sandbox
  jb_resources :: "'r option"
  jb_running :: "'s running option"
  jb_starting :: bool
  jb_close :: "close_mode option"
  jb_done :: "callback option"

definition retired :: "('r, 's) job \<Rightarrow> bool" where
  "retired job \<longleftrightarrow> jb_close job = Some Force"

definition closing :: "('r, 's) job \<Rightarrow> bool" where
  "closing job \<longleftrightarrow> (case jb_close job of None \<Rightarrow> False | Some mode \<Rightarrow> explicit_mode mode)"

record ('r, 's) job_table =
  jt_open :: "('r, 's) job list"
  jt_counter :: nat
  jt_current :: "shell_id option"
  jt_size :: "nat \<times> nat"

definition new_table :: "nat \<Rightarrow> nat \<Rightarrow> ('r, 's) job_table" where
  "new_table rows cols = \<lparr>jt_open = [], jt_counter = 1, jt_current = None, jt_size = (rows, cols)\<rparr>"

text \<open>The automatic names, skipping those that are taken.\<close>

lemma show_nat_inj: "show_nat m = show_nat n \<Longrightarrow> m = n"
  using show_nat_digits by metis

function next_name :: "shell_id list \<Rightarrow> nat \<Rightarrow> shell_id \<times> nat" where
  "next_name names counter =
     (if show_nat counter \<in> set names then next_name names (counter + 1) else (show_nat counter, counter + 1))"
  by pat_completeness auto

lemma taken_counters: "finite {m. counter \<le> m \<and> show_nat m \<in> set names}"
proof (rule finite_subset)
  show "{m. counter \<le> m \<and> show_nat m \<in> set names} \<subseteq> show_nat -` set names" by auto
  show "finite (show_nat -` set names)"
    by (rule finite_vimageI) (auto intro: injI show_nat_inj)
qed

termination next_name
proof (relation "measure (\<lambda>(names, counter). card {m. counter \<le> m \<and> show_nat m \<in> set names})")
  fix names :: "shell_id list" and counter :: nat
  assume "show_nat counter \<in> set names"
  then have "{m. counter + 1 \<le> m \<and> show_nat m \<in> set names} \<subset> {m. counter \<le> m \<and> show_nat m \<in> set names}"
    by (intro psubsetI notI) (auto simp: set_eq_iff dest: spec[of _ counter])
  then show "((names, counter + 1), names, counter) \<in> measure (\<lambda>(names, counter). card {m. counter \<le> m \<and> show_nat m \<in> set names})"
    by (simp add: psubset_card_mono taken_counters)
qed simp

declare next_name.simps [simp del]

definition next_id :: "('r, 's) job_table \<Rightarrow> shell_id \<times> ('r, 's) job_table" where
  "next_id table = (let (name, counter) = next_name (map jb_id (jt_open table)) (jt_counter table) in
     (name, table\<lparr>jt_counter := counter\<rparr>))"

text \<open>The first row that satisfies a test: removed, or changed in place.\<close>

fun take_first :: "('a \<Rightarrow> bool) \<Rightarrow> 'a list \<Rightarrow> ('a \<times> 'a list) option" where
  "take_first P [] = None"
| "take_first P (x # xs) = (if P x then Some (x, xs) else map_option (\<lambda>(y, ys). (y, x # ys)) (take_first P xs))"

fun update_first :: "('a \<Rightarrow> bool) \<Rightarrow> ('a \<Rightarrow> 'a) \<Rightarrow> 'a list \<Rightarrow> 'a list" where
  "update_first P f [] = []"
| "update_first P f (x # xs) = (if P x then f x # xs else x # update_first P f xs)"

definition clear_current :: "shell_id \<Rightarrow> ('r, 's) job_table \<Rightarrow> ('r, 's) job_table" where
  "clear_current name table = (if jt_current table = Some name then table\<lparr>jt_current := None\<rparr> else table)"

definition forget :: "string \<Rightarrow> ('r, 's) job_table \<Rightarrow> 'r option \<times> ('r, 's) job_table" where
  "forget uid table = (case take_first (\<lambda>job. sb_uid (jb_sandbox job) = uid) (jt_open table) of
     None \<Rightarrow> (None, table)
   | Some (job, rest) \<Rightarrow> (jb_resources job, clear_current (jb_id job) (table\<lparr>jt_open := rest\<rparr>)))"

definition find_job :: "shell_id \<Rightarrow> ('r, 's) job_table \<Rightarrow> ('r, 's) job option" where
  "find_job name table = find (\<lambda>job. jb_id job = name) (jt_open table)"

definition modify_job :: "shell_id \<Rightarrow> (('r, 's) job \<Rightarrow> ('r, 's) job) \<Rightarrow> ('r, 's) job_table \<Rightarrow> ('r, 's) job_table" where
  "modify_job name f table = table\<lparr>jt_open := update_first (\<lambda>job. jb_id job = name) f (jt_open table)\<rparr>"

definition remove_job :: "shell_id \<Rightarrow> ('r, 's) job_table \<Rightarrow> ('r, 's) job_table" where
  "remove_job name table = (case take_first (\<lambda>job. jb_id job = name) (jt_open table) of
     None \<Rightarrow> table
   | Some (job, rest) \<Rightarrow> table\<lparr>jt_open := rest\<rparr>)"

definition closable :: "shell_id \<Rightarrow> ('r, 's) job \<Rightarrow> bool" where
  "closable name job \<longleftrightarrow> jb_id job = name \<and> jb_close job \<noteq> None \<and> jb_running job = None \<and> \<not> jb_starting job"

type_synonym 'r closed_job = "sandbox \<times> close_mode \<times> 'r option"

definition take_closable :: "shell_id \<Rightarrow> ('r, 's) job_table \<Rightarrow> 'r closed_job option \<times> ('r, 's) job_table" where
  "take_closable name table = (case take_first (closable name) (jt_open table) of
     None \<Rightarrow> (None, table)
   | Some (job, rest) \<Rightarrow>
       (map_option (\<lambda>mode. (jb_sandbox job, mode, jb_resources job)) (jb_close job),
        clear_current name (table\<lparr>jt_open := rest\<rparr>)))"

section \<open>The queue of conclusions\<close>

record 's conclusion =
  cn_id :: shell_id
  cn_started :: 's
  cn_status :: int

record 's conclusion_queue =
  cq_pending :: "'s conclusion list"
  cq_active :: "shell_id \<rightharpoonup> nat"
  cq_closed :: bool

definition new_queue :: "'s conclusion_queue" where
  "new_queue = \<lparr>cq_pending = [], cq_active = Map.empty, cq_closed = False\<rparr>"

definition owed :: "shell_id \<Rightarrow> 's conclusion_queue \<Rightarrow> nat" where
  "owed name queue = (case cq_active queue name of None \<Rightarrow> 0 | Some n \<Rightarrow> n)"

definition submit :: "'s conclusion \<Rightarrow> 's conclusion_queue \<Rightarrow> 's conclusion_queue" where
  "submit c queue = (if cq_closed queue then queue
     else queue\<lparr>cq_active := (cq_active queue)(cn_id c \<mapsto> owed (cn_id c) queue + 1), cq_pending := cq_pending queue @ [c]\<rparr>)"

datatype 's polled = TakenConclusion "'s conclusion" | QueueEnded | QueueWaits

definition take_conclusion :: "'s conclusion_queue \<Rightarrow> 's polled \<times> 's conclusion_queue" where
  "take_conclusion queue = (case cq_pending queue of
     c # rest \<Rightarrow> (TakenConclusion c, queue\<lparr>cq_pending := rest\<rparr>)
   | [] \<Rightarrow> (if cq_closed queue then QueueEnded else QueueWaits, queue))"

definition finish_conclusion :: "shell_id \<Rightarrow> 's conclusion_queue \<Rightarrow> 's conclusion_queue" where
  "finish_conclusion name queue = (case cq_active queue name of
     None \<Rightarrow> queue
   | Some n \<Rightarrow> queue\<lparr>cq_active := (if n - 1 = 0 then (cq_active queue)(name := None)
        else (cq_active queue)(name \<mapsto> n - 1))\<rparr>)"

definition is_merging :: "shell_id \<Rightarrow> 's conclusion_queue \<Rightarrow> bool" where
  "is_merging name queue \<longleftrightarrow> cq_active queue name \<noteq> None"

definition idle :: "shell_id \<Rightarrow> 's conclusion_queue \<Rightarrow> bool" where
  "idle name queue \<longleftrightarrow> \<not> is_merging name queue"

text \<open>When \<open>wait_for\<close> returns.\<close>

definition wait_over :: "shell_id \<Rightarrow> 's conclusion_queue \<Rightarrow> bool" where
  "wait_over name queue \<longleftrightarrow> cq_closed queue \<or> \<not> is_merging name queue"

definition cancel :: "'s conclusion_queue \<Rightarrow> 's conclusion_queue" where
  "cancel queue = queue\<lparr>cq_closed := True\<rparr>"

section \<open>Opening a job\<close>

text \<open>\<open>spawn\<close> up to the reservation of the name; making the sandbox is a parameter.\<close>

definition spawn_id :: "shell_id option \<Rightarrow> ('r, 's) job_table \<Rightarrow> (mux_error + shell_id) \<times> ('r, 's) job_table" where
  "spawn_id asked table = (case asked of
     Some name \<Rightarrow> if find_job name table \<noteq> None then (Inl (JobExists name), table) else (Inr name, table)
   | None \<Rightarrow> let (name, table') = next_id table in (Inr name, table'))"

definition spawn_reserve ::
  "(shell_id \<Rightarrow> mux_error + sandbox) \<Rightarrow> shell_id option \<Rightarrow> string option \<Rightarrow> ('r, 's) job_table \<Rightarrow>
   (mux_error + shell_id \<times> sandbox \<times> nat \<times> nat) \<times> ('r, 's) job_table" where
  "spawn_reserve new_sandbox asked cmd table = (case spawn_id asked table of
     (Inl e, table') \<Rightarrow> (Inl e, table')
   | (Inr name, table') \<Rightarrow> (case new_sandbox name of
       Inl e \<Rightarrow> (Inl e, table')
     | Inr sandbox \<Rightarrow>
         (Inr (name, sandbox, jt_size table'),
          table'\<lparr>jt_open := jt_open table' @ [\<lparr>jb_id = name, jb_sandbox = sandbox, jb_resources = None, jb_running = None,
            jb_starting = (cmd \<noteq> None),
            jb_close = (if asked = None \<and> cmd \<noteq> None then Some Automatic else None), jb_done = None\<rparr>]\<rparr>)))"

text \<open>The publication in \<open>build_resources\<close>, with the size the terminal has to be given.\<close>

definition publish_resources ::
  "shell_id \<Rightarrow> 'r \<Rightarrow> ('r, 's) job_table \<Rightarrow> (mux_error + nat \<times> nat) \<times> ('r, 's) job_table" where
  "publish_resources name r table =
     (if find_job name table = None then (Inl (NoSuchJob name), table)
      else (Inr (jt_size table), modify_job name (\<lambda>job. job\<lparr>jb_resources := Some r\<rparr>) table))"

section \<open>Running a command\<close>

definition start_reserve :: "shell_id \<Rightarrow> ('r, 's) job_table \<Rightarrow> (mux_error + unit) \<times> ('r, 's) job_table" where
  "start_reserve name table = (case find_job name table of
     None \<Rightarrow> (Inl (NoSuchJob name), table)
   | Some job \<Rightarrow>
       if closing job then (Inl (JobClosing name), table)
       else if jb_running job \<noteq> None \<or> jb_starting job then (Inl (JobBusy name), table)
       else (Inr (), modify_job name (\<lambda>job. job\<lparr>jb_starting := True\<rparr>) table))"

text \<open>\<open>launch_command\<close>: the row it needs, the reservation it gives up, and the command it publishes.\<close>

definition launch_lookup :: "shell_id \<Rightarrow> ('r, 's) job_table \<Rightarrow> mux_error + sandbox \<times> 'r" where
  "launch_lookup name table = (case find_job name table of
     None \<Rightarrow> Inl (NoSuchJob name)
   | Some job \<Rightarrow> (case jb_resources job of None \<Rightarrow> Inl (NoSuchJob name) | Some r \<Rightarrow> Inr (jb_sandbox job, r)))"

definition launch_abandon :: "shell_id \<Rightarrow> ('r, 's) job_table \<Rightarrow> ('r, 's) job_table" where
  "launch_abandon name table = modify_job name (\<lambda>job. job\<lparr>jb_starting := False\<rparr>) table"

definition commanded ::
  "('s \<Rightarrow> mux_error + 's) \<Rightarrow> string \<Rightarrow> int \<Rightarrow> 's \<Rightarrow> callback option \<Rightarrow> ('r, 's) job \<Rightarrow> (mux_error + unit) \<times> ('r, 's) job" where
  "commanded force_stop cmd pid started done_call job =
     (case (if retired job then force_stop started else Inr started) of
        Inl e \<Rightarrow> (Inl (JobTermination (jb_id job) e),
          job\<lparr>jb_starting := False, jb_close := Some Graceful, jb_running := Some \<lparr>rn_cmd = cmd, rn_pid = pid, rn_started = started\<rparr>\<rparr>)
      | Inr started' \<Rightarrow> (Inr (),
          job\<lparr>jb_starting := False, jb_done := done_call, jb_running := Some \<lparr>rn_cmd = cmd, rn_pid = pid, rn_started = started'\<rparr>\<rparr>))"

definition publish_command ::
  "('s \<Rightarrow> mux_error + 's) \<Rightarrow> shell_id \<Rightarrow> string \<Rightarrow> int \<Rightarrow> 's \<Rightarrow> callback option \<Rightarrow> ('r, 's) job_table \<Rightarrow>
   (mux_error + unit) \<times> ('r, 's) job_table" where
  "publish_command force_stop name cmd pid started done_call table = (case find_job name table of
     None \<Rightarrow> (Inr (), table)
   | Some job \<Rightarrow>
       (fst (commanded force_stop cmd pid started done_call job),
        modify_job name (\<lambda>job. snd (commanded force_stop cmd pid started done_call job)) table))"

text \<open>\<open>deliver\<close>: the sandbox and the callback a completion is announced to.\<close>

definition deliver :: "shell_id \<Rightarrow> ('r, 's) job_table \<Rightarrow> (sandbox \<times> callback option) option \<times> ('r, 's) job_table" where
  "deliver name table = (map_option (\<lambda>job. (jb_sandbox job, jb_done job)) (find_job name table),
     modify_job name (\<lambda>job. job\<lparr>jb_done := None\<rparr>) table)"

text \<open>\<open>report_launch_failure\<close> behind its delivery.\<close>

definition failure_close :: "shell_id \<Rightarrow> bool \<Rightarrow> ('r, 's) job_table \<Rightarrow> 'r closed_job option \<times> ('r, 's) job_table" where
  "failure_close name retained table =
     (if retained \<or> find_job name table = None then (None, table)
      else take_closable name (modify_job name (\<lambda>job. job\<lparr>jb_close := Some Graceful\<rparr>) table))"

section \<open>Views\<close>

record running_view =
  rv_cmd :: string
  rv_pid :: int

record job_view =
  jv_id :: shell_id
  jv_sandbox :: sandbox
  jv_running :: "running_view option"
  jv_starting :: bool
  jv_closing :: bool

definition view_of :: "('r, 's) job \<Rightarrow> job_view" where
  "view_of job = \<lparr>jv_id = jb_id job, jv_sandbox = jb_sandbox job,
     jv_running = map_option (\<lambda>running. \<lparr>rv_cmd = rn_cmd running, rv_pid = rn_pid running\<rparr>) (jb_running job),
     jv_starting = (jb_starting job \<or> jb_resources job = None), jv_closing = closing job\<rparr>"

definition jobs :: "('r, 's) job_table \<Rightarrow> job_view list" where
  "jobs table = map view_of (filter (\<lambda>job. \<not> retired job) (jt_open table))"

definition job_named :: "shell_id \<Rightarrow> ('r, 's) job_table \<Rightarrow> job_view option" where
  "job_named name table = map_option view_of (find (\<lambda>job. jb_id job = name \<and> \<not> retired job) (jt_open table))"

definition current_job :: "('r, 's) job_table \<Rightarrow> job_view option" where
  "current_job table = Option.bind (jt_current table) (\<lambda>name. job_named name table)"

section \<open>A reader's requests\<close>

definition keep :: "shell_id \<Rightarrow> ('r, 's) job_table \<Rightarrow> ('r, 's) job_table" where
  "keep name = modify_job name (\<lambda>job. if jb_close job = Some Automatic then job\<lparr>jb_close := None\<rparr> else job)"

text \<open>The row \<open>find(id)\<close> names when it is in public view.\<close>

definition visible :: "shell_id \<Rightarrow> ('r, 's) job_table \<Rightarrow> ('r, 's) job option" where
  "visible name table = (case find_job name table of
     None \<Rightarrow> None
   | Some job \<Rightarrow> if retired job then None else Some job)"

text \<open>\<open>switch\<close>: its check, the launch it waits out, and the selection.\<close>

definition switch_check :: "shell_id \<Rightarrow> ('r, 's) job_table \<Rightarrow> mux_error + unit" where
  "switch_check name table = (case visible name table of
     None \<Rightarrow> Inl (NoSuchJob name)
   | Some job \<Rightarrow> if closing job then Inl (JobClosing name) else Inr ())"

definition launch_pending :: "shell_id \<Rightarrow> ('r, 's) job_table \<Rightarrow> bool" where
  "launch_pending name table = (case find_job name table of
     None \<Rightarrow> False
   | Some job \<Rightarrow> jb_starting job \<or> jb_resources job = None)"

definition switch_select :: "shell_id \<Rightarrow> ('r, 's) job_table \<Rightarrow> (mux_error + job_view) \<times> ('r, 's) job_table" where
  "switch_select name table = (case visible name table of
     None \<Rightarrow> (Inl (NoSuchJob name), table)
   | Some job \<Rightarrow> (Inr (view_of job), table\<lparr>jt_current := Some name\<rparr>))"

definition close_job :: "('s \<Rightarrow> mux_error + 's) \<Rightarrow> bool \<Rightarrow> ('r, 's) job \<Rightarrow> mux_error + ('r, 's) job" where
  "close_job force_stop force job =
     (if \<not> force then Inr (job\<lparr>jb_close := Some Graceful\<rparr>)
      else case jb_running job of
        None \<Rightarrow> Inr (job\<lparr>jb_close := Some Force\<rparr>)
      | Some running \<Rightarrow> and_then (force_stop (rn_started running)) (\<lambda>started.
          Inr (job\<lparr>jb_running := Some (running\<lparr>rn_started := started\<rparr>), jb_close := Some Force\<rparr>)))"

definition stop ::
  "('s \<Rightarrow> mux_error + 's) \<Rightarrow> shell_id \<Rightarrow> bool \<Rightarrow> 's conclusion_queue \<Rightarrow> ('r, 's) job_table \<Rightarrow>
   (mux_error + 'r closed_job option) \<times> ('r, 's) job_table" where
  "stop force_stop name force queue table = (case visible name table of
     None \<Rightarrow> (Inl (NoSuchJob name), table)
   | Some job \<Rightarrow> (case close_job force_stop force job of
       Inl e \<Rightarrow> (Inl e, table)
     | Inr job' \<Rightarrow>
         let table' = modify_job name (\<lambda>job. job') table in
         if is_merging name queue then (Inr None, table')
         else let (closed, table'') = take_closable name table' in (Inr closed, table'')))"

definition validate_size :: "nat \<Rightarrow> nat \<Rightarrow> mux_error + unit" where
  "validate_size rows cols = (if rows = 0 \<or> cols = 0 then Inl (InvalidTerminalSize rows cols) else Inr ())"

text \<open>\<open>resize\<close>, and the terminals it goes on to resize.\<close>

definition resize :: "nat \<Rightarrow> nat \<Rightarrow> ('r, 's) job_table \<Rightarrow> (mux_error + 'r list) \<times> ('r, 's) job_table" where
  "resize rows cols table = (case validate_size rows cols of
     Inl e \<Rightarrow> (Inl e, table)
   | Inr _ \<Rightarrow> (Inr (List.map_filter jb_resources (jt_open table)), table\<lparr>jt_size := (rows, cols)\<rparr>))"

definition on_finish :: "shell_id \<Rightarrow> callback \<Rightarrow> ('r, 's) job_table \<Rightarrow> bool \<times> ('r, 's) job_table" where
  "on_finish name done_call table = (case find_job name table of
     Some job \<Rightarrow> if jb_running job \<noteq> None \<and> jb_done job = None
       then (True, modify_job name (\<lambda>job. job\<lparr>jb_done := Some done_call\<rparr>) table) else (False, table)
   | None \<Rightarrow> (False, table))"

definition accepts_input :: "shell_id \<Rightarrow> ('r, 's) job_table \<Rightarrow> mux_error + unit" where
  "accepts_input name table = (case job_named name table of
     None \<Rightarrow> Inl (JobClosing name)
   | Some view \<Rightarrow> if jv_closing view then Inl (JobClosing name) else Inr ())"

section \<open>The end of a command\<close>

definition reap :: "shell_id \<Rightarrow> int \<Rightarrow> int \<Rightarrow> ('r, 's) job_table \<Rightarrow> 's conclusion option \<times> ('r, 's) job_table" where
  "reap name pid status table = (case Option.bind (find_job name table) jb_running of
     None \<Rightarrow> (None, table)
   | Some running \<Rightarrow>
       if rn_pid running = pid
       then (Some \<lparr>cn_id = name, cn_started = rn_started running, cn_status = status\<rparr>,
             modify_job name (\<lambda>job. job\<lparr>jb_running := None\<rparr>) table)
       else (None, table))"

text \<open>The last critical section of \<open>conclude_one\<close>.\<close>

definition conclude_close :: "shell_id \<Rightarrow> 's conclusion_queue \<Rightarrow> ('r, 's) job_table \<Rightarrow> 'r closed_job option \<times> ('r, 's) job_table" where
  "conclude_close name queue table = (if idle name queue then take_closable name table else (None, table))"

fun outcome_exit_code :: "cmd_outcome \<Rightarrow> int" where
  "outcome_exit_code (Committed seq exit_code out err events trace) = exit_code"
| "outcome_exit_code (DeniedCaps exit_code out err events denials trace) = exit_code"
| "outcome_exit_code (ExecFailed exit_code out err trace) = exit_code"
| "outcome_exit_code (Bypassed exit_code out err events trace) = exit_code"
| "outcome_exit_code (Escaped exit_code events wrote trace) = exit_code"
| "outcome_exit_code (StaleSnapshot events stale trace) = 1"
| "outcome_exit_code (Unsupported reason trace) = 1"

text \<open>\<open>shutdown\<close>: the commands killed, the first failure, and the callbacks dropped.\<close>

fun shutdown_jobs ::
  "('s \<Rightarrow> mux_error + 's) \<Rightarrow> ('r, 's) job list \<Rightarrow> (mux_error + unit) \<times> callback list \<times> ('r, 's) job list" where
  "shutdown_jobs force_stop [] = (Inr (), [], [])"
| "shutdown_jobs force_stop (job # js) =
     (let (failure, abandoned, js') = shutdown_jobs force_stop js;
          (failed, running) = (case jb_running job of
             None \<Rightarrow> (Inr (), None)
           | Some running \<Rightarrow> (case force_stop (rn_started running) of
               Inl e \<Rightarrow> (Inl e, Some running)
             | Inr started \<Rightarrow> (Inr (), Some (running\<lparr>rn_started := started\<rparr>)))) in
      (case failed of Inl e \<Rightarrow> Inl e | Inr _ \<Rightarrow> failure,
       (case jb_done job of None \<Rightarrow> abandoned | Some done_call \<Rightarrow> done_call # abandoned),
       job\<lparr>jb_running := running, jb_done := None\<rparr> # js'))"

definition shutdown_table ::
  "('s \<Rightarrow> mux_error + 's) \<Rightarrow> ('r, 's) job_table \<Rightarrow> (mux_error + unit) \<times> callback list \<times> ('r, 's) job_table" where
  "shutdown_table force_stop table = (let (failure, abandoned, js) = shutdown_jobs force_stop (jt_open table) in
     (failure, abandoned, table\<lparr>jt_open := js\<rparr>))"

definition drop_resources :: "('r, 's) job_table \<Rightarrow> ('r, 's) job_table" where
  "drop_resources table = table\<lparr>jt_open := map (\<lambda>job. job\<lparr>jb_resources := None\<rparr>) (jt_open table)\<rparr>"

end
