(* ===== verification/JobRows.thy ===== *)
theory JobRows
  imports Jobs
begin

text \<open>
  What the job operations do to the rows of the table: for each name whether a row exists, whether
  a command runs in it and whether one is being started, and which names the rows have.
\<close>

section \<open>Rows of lists\<close>

lemma find_update_first:
  assumes "\<And>x. key (f x) = key x"
  shows "find (\<lambda>x. key x = k) (update_first (\<lambda>x. key x = m) f xs) =
    (if k = m then map_option f (find (\<lambda>x. key x = m) xs) else find (\<lambda>x. key x = k) xs)"
  using assms by (induction xs) auto

lemma find_append: "find P (xs @ ys) = (case find P xs of None \<Rightarrow> find P ys | Some x \<Rightarrow> Some x)"
  by (induction xs) auto

lemma map_update_first: "(\<And>x. key (f x) = key x) \<Longrightarrow> map key (update_first P f xs) = map key xs"
  by (induction xs) auto

lemma set_update_first: "x \<in> set (update_first P f xs) \<Longrightarrow> x \<in> set xs \<or> (\<exists>y \<in> set xs. x = f y)"
  by (induction xs) (auto split: if_splits)

lemma take_first_Some:
  "take_first P xs = Some (x, rest) \<Longrightarrow> \<exists>us vs. xs = us @ x # vs \<and> rest = us @ vs \<and> P x \<and> (\<forall>u \<in> set us. \<not> P u)"
proof (induction xs arbitrary: rest)
  case (Cons y ys)
  show ?case
  proof (cases "P y")
    case True
    with Cons.prems show ?thesis by (intro exI[of _ "[]"] exI[of _ ys]) auto
  next
    case False
    with Cons.prems obtain rest' where "take_first P ys = Some (x, rest')" "rest = y # rest'" by auto
    with Cons.IH[of rest'] False obtain us vs where
      "ys = us @ x # vs" "rest' = us @ vs" "P x" "\<forall>u \<in> set us. \<not> P u" by blast
    with False \<open>rest = y # rest'\<close> show ?thesis by (intro exI[of _ "y # us"] exI[of _ vs]) auto
  qed
qed simp

lemma take_first_None: "take_first P xs = None \<longleftrightarrow> (\<forall>x \<in> set xs. \<not> P x)"
  by (induction xs) (auto split: option.splits)

section \<open>Rows of a table\<close>

text \<open>Every name has one row at most, and its sandbox carries it.\<close>

definition rows_ok :: "('r, 's) job_table \<Rightarrow> bool" where
  "rows_ok table \<longleftrightarrow> distinct (map jb_id (jt_open table)) \<and> (\<forall>job \<in> set (jt_open table). sb_id (jb_sandbox job) = jb_id job)"

text \<open>Whether a command runs in the row of a name, and whether one is being started.\<close>

definition job_status :: "('r, 's) job_table \<Rightarrow> shell_id \<rightharpoonup> bool \<times> bool" where
  "job_status table name = map_option (\<lambda>job. (jb_running job \<noteq> None, jb_starting job)) (find_job name table)"

lemma find_job_id: "find_job name table = Some job \<Longrightarrow> jb_id job = name \<and> job \<in> set (jt_open table)"
  by (auto simp: find_job_def find_Some_iff)

lemma find_job_in: "rows_ok table \<Longrightarrow> job \<in> set (jt_open table) \<Longrightarrow> find_job (jb_id job) table = Some job"
proof -
  assume ok: "rows_ok table" "job \<in> set (jt_open table)"
  have "distinct (map jb_id js) \<Longrightarrow> job \<in> set js \<Longrightarrow> find (\<lambda>j. jb_id j = jb_id job) js = Some job" for js
    by (induction js) (auto simp: image_iff)
  with ok show ?thesis by (simp add: rows_ok_def find_job_def)
qed

lemma status_None: "job_status table name = None \<longleftrightarrow> (\<forall>job \<in> set (jt_open table). jb_id job \<noteq> name)"
  by (auto simp: job_status_def find_job_def find_None_iff)

lemma find_modify:
  "(\<And>job. jb_id (f job) = jb_id job) \<Longrightarrow>
   find_job n (modify_job name f table) = (if n = name then map_option f (find_job name table) else find_job n table)"
  unfolding find_job_def modify_job_def by (simp add: find_update_first[where key = jb_id])

lemma status_modify:
  assumes "\<And>job. jb_id (f job) = jb_id job"
  shows "job_status (modify_job name f table) = (job_status table)(name :=
    map_option (\<lambda>job. (jb_running (f job) \<noteq> None, jb_starting (f job))) (find_job name table))"
  by (rule ext) (simp add: job_status_def find_modify[OF assms] option.map_comp comp_def)

lemma rows_modify:
  assumes "rows_ok table" "\<And>job. jb_id (f job) = jb_id job" "\<And>job. jb_sandbox (f job) = jb_sandbox job"
  shows "rows_ok (modify_job name f table)"
proof -
  have "sb_id (jb_sandbox job) = jb_id job" if "job \<in> set (update_first (\<lambda>job. jb_id job = name) f (jt_open table))" for job
    using set_update_first[OF that] assms by (auto simp: rows_ok_def)
  with assms show ?thesis by (simp add: rows_ok_def modify_job_def map_update_first)
qed

text \<open>A change of a row that leaves its command alone.\<close>

lemma status_same:
  assumes "\<And>job. jb_id (f job) = jb_id job" "\<And>job. (jb_running (f job) = None) = (jb_running job = None)"
    "\<And>job. jb_starting (f job) = jb_starting job"
  shows "job_status (modify_job name f table) = job_status table"
  by (rule ext) (simp add: status_modify[OF assms(1)] job_status_def assms)

lemma remove_row:
  assumes "rows_ok table" "jt_open table = us @ job # vs"
  shows "rows_ok (table\<lparr>jt_open := us @ vs\<rparr>)" "job_status (table\<lparr>jt_open := us @ vs\<rparr>) = (job_status table)(jb_id job := None)"
proof -
  show "rows_ok (table\<lparr>jt_open := us @ vs\<rparr>)" using assms by (auto simp: rows_ok_def)
  show "job_status (table\<lparr>jt_open := us @ vs\<rparr>) = (job_status table)(jb_id job := None)"
  proof (rule ext)
    fix n
    have "find (\<lambda>j. jb_id j = n) (us @ vs) = None" if "n = jb_id job"
      using assms that by (auto simp: rows_ok_def find_None_iff) (metis imageI)+
    moreover have "find (\<lambda>j. jb_id j = n) (us @ vs) = find (\<lambda>j. jb_id j = n) (us @ job # vs)" if "n \<noteq> jb_id job"
      using that by (induction us) auto
    ultimately have "find (\<lambda>j. jb_id j = n) (us @ vs) =
      (if n = jb_id job then None else find (\<lambda>j. jb_id j = n) (us @ job # vs))" by simp
    then show "job_status (table\<lparr>jt_open := us @ vs\<rparr>) n = ((job_status table)(jb_id job := None)) n"
      using assms(2) by (simp add: job_status_def find_job_def)
  qed
qed

lemma clear_current_rows [simp]:
  "rows_ok (clear_current name table) = rows_ok table" "job_status (clear_current name table) = job_status table"
  "find_job n (clear_current name table) = find_job n table"
  by (simp_all add: clear_current_def rows_ok_def job_status_def find_job_def fun_eq_iff)

section \<open>Operations\<close>

lemma remove_job_rows:
  assumes "rows_ok table"
  shows "rows_ok (remove_job name table)" "job_status (remove_job name table) = (job_status table)(name := None)"
proof -
  have "rows_ok (remove_job name table) \<and> job_status (remove_job name table) = (job_status table)(name := None)"
  proof (cases "take_first (\<lambda>job. jb_id job = name) (jt_open table)")
    case None
    then have "job_status table name = None" by (auto simp: take_first_None status_None)
    with None assms show ?thesis by (simp add: remove_job_def fun_upd_idem)
  next
    case (Some found)
    obtain job rest where f: "found = (job, rest)" by (cases found)
    from take_first_Some[OF Some[unfolded f]] obtain us vs where
      "jt_open table = us @ job # vs" "rest = us @ vs" "jb_id job = name" by blast
    with remove_row[OF assms, of us job vs] Some f show ?thesis by (simp add: remove_job_def)
  qed
  then show "rows_ok (remove_job name table)" "job_status (remove_job name table) = (job_status table)(name := None)" by blast+
qed

lemma take_closable_rows:
  assumes "rows_ok table" "take_closable name table = (closed, table')"
  shows "rows_ok table' \<and> (closed = None \<and> table' = table \<or>
    (\<exists>sandbox mode r. closed = Some (sandbox, mode, r) \<and> sb_id sandbox = name \<and> job_status table name = Some (False, False) \<and>
       job_status table' = (job_status table)(name := None)))"
proof (cases "take_first (closable name) (jt_open table)")
  case None
  with assms show ?thesis by (simp add: take_closable_def)
next
  case (Some found)
  obtain job rest where f: "found = (job, rest)" by (cases found)
  from take_first_Some[OF Some[unfolded f]] obtain us vs where
    split: "jt_open table = us @ job # vs" "rest = us @ vs" "closable name job" by blast
  then have name: "jb_id job = name" "jb_running job = None" "\<not> jb_starting job" "jb_close job \<noteq> None"
    by (simp_all add: closable_def)
  have "find_job name table = Some job" using find_job_in[OF assms(1), of job] split(1) name(1) by simp
  moreover have "sb_id (jb_sandbox job) = name" using assms(1) split(1) name(1) by (simp add: rows_ok_def)
  ultimately show ?thesis
    using assms(2) Some f name remove_row[OF assms(1) split(1)] split(2)
    by (auto simp: take_closable_def job_status_def)
qed

lemma next_name_fresh: "next_name names counter = (name, counter') \<Longrightarrow> name \<notin> set names"
  by (induction names counter rule: next_name.induct) (subst (asm) (2) next_name.simps, auto split: if_splits)

lemma spawn_id_rows:
  "spawn_id asked table = (result, table') \<Longrightarrow> jt_open table' = jt_open table \<and>
   (\<forall>name. result = Inr name \<longrightarrow> job_status table name = None)"
  using next_name_fresh
  by (fastforce simp: spawn_id_def next_id_def status_None find_job_def find_None_iff split: option.splits if_splits prod.splits)

lemma same_open:
  "jt_open table' = jt_open table \<Longrightarrow> rows_ok table' = rows_ok table \<and> job_status table' = job_status table"
  by (simp add: rows_ok_def job_status_def find_job_def fun_eq_iff)

lemma spawn_reserve_rows:
  assumes "rows_ok table" "spawn_reserve new_sandbox asked cmd table = (result, table')"
  shows "case result of
    Inl e \<Rightarrow> jt_open table' = jt_open table
  | Inr (name, sandbox, dims) \<Rightarrow> job_status table name = None \<and> new_sandbox name = Inr sandbox \<and>
      (sb_id sandbox = name \<longrightarrow> rows_ok table') \<and> job_status table' = (job_status table)(name \<mapsto> (False, cmd \<noteq> None))"
proof -
  obtain r t where id: "spawn_id asked table = (r, t)" by (cases "spawn_id asked table")
  note id_rows = spawn_id_rows[OF id]
  show ?thesis
  proof (cases r)
    case (Inl e)
    with id assms(2) id_rows show ?thesis by (auto simp: spawn_reserve_def)
  next
    case (Inr name)
    with id_rows have none: "\<forall>job \<in> set (jt_open table). jb_id job \<noteq> name" by (simp add: status_None)
    show ?thesis
    proof (cases "new_sandbox name")
      case (Inl e)
      with Inr id assms(2) id_rows show ?thesis by (auto simp: spawn_reserve_def)
    next
      case sandbox: (Inr sandbox)
      have "result = Inr (name, sandbox, jt_size t)" and table': "table' = t\<lparr>jt_open := jt_open t @ [\<lparr>jb_id = name,
          jb_sandbox = sandbox, jb_resources = None, jb_running = None, jb_starting = (cmd \<noteq> None),
          jb_close = (if asked = None \<and> cmd \<noteq> None then Some Automatic else None), jb_done = None\<rparr>]\<rparr>"
        using Inr id assms(2) sandbox by (auto simp: spawn_reserve_def)
      moreover have "job_status table' = (job_status table)(name \<mapsto> (False, cmd \<noteq> None))"
      proof (rule ext)
        fix n
        have "find (\<lambda>job. jb_id job = name) (jt_open table) = None" using none by (auto simp: find_None_iff)
        then show "job_status table' n = ((job_status table)(name \<mapsto> (False, cmd \<noteq> None))) n"
          using id_rows by (auto simp: job_status_def find_job_def table' find_append split: option.split)
      qed
      ultimately show ?thesis
        using none id_rows sandbox assms(1) by (auto simp: status_None rows_ok_def)
    qed
  qed
qed

lemma same_row_rows:
  assumes "rows_ok table" "\<And>job. jb_id (f job) = jb_id job" "\<And>job. jb_sandbox (f job) = jb_sandbox job"
    "\<And>job. (jb_running (f job) = None) = (jb_running job = None)" "\<And>job. jb_starting (f job) = jb_starting job"
  shows "rows_ok (modify_job name f table) \<and> job_status (modify_job name f table) = job_status table"
  using rows_modify[OF assms(1-3)] status_same[OF assms(2,4,5)] by blast

lemma publish_resources_rows:
  "rows_ok table \<Longrightarrow> publish_resources name r table = (result, table') \<Longrightarrow> rows_ok table' \<and> job_status table' = job_status table"
  using same_row_rows[of table "\<lambda>job. job\<lparr>jb_resources := Some r\<rparr>" name] by (auto simp: publish_resources_def split: if_splits)

lemma keep_rows: "rows_ok table \<Longrightarrow> rows_ok (keep name table) \<and> job_status (keep name table) = job_status table"
  unfolding keep_def by (rule same_row_rows) auto

lemma deliver_rows: "rows_ok table \<Longrightarrow> rows_ok (snd (deliver name table)) \<and> job_status (snd (deliver name table)) = job_status table"
  unfolding deliver_def snd_conv by (rule same_row_rows) auto

lemma on_finish_rows:
  "rows_ok table \<Longrightarrow> on_finish name done_call table = (registered, table') \<Longrightarrow> rows_ok table' \<and> job_status table' = job_status table"
  using same_row_rows[of table "\<lambda>job. job\<lparr>jb_done := Some done_call\<rparr>" name] by (auto simp: on_finish_def split: option.splits if_splits)

lemma start_reserve_rows:
  assumes "rows_ok table" "start_reserve name table = (Inr u, table')"
  shows "rows_ok table' \<and> job_status table name = Some (False, False) \<and> job_status table' = (job_status table)(name \<mapsto> (False, True))"
proof -
  from assms(2) obtain job where job: "find_job name table = Some job" "jb_running job = None" "\<not> jb_starting job"
    "table' = modify_job name (\<lambda>job. job\<lparr>jb_starting := True\<rparr>) table"
    by (auto simp: start_reserve_def split: option.splits if_splits)
  then show ?thesis
    using rows_modify[OF assms(1), of "\<lambda>job. job\<lparr>jb_starting := True\<rparr>" name]
    by (simp add: status_modify) (simp add: job_status_def)
qed

lemma launch_abandon_rows:
  assumes "rows_ok table"
  shows "rows_ok (launch_abandon name table)"
    "job_status (launch_abandon name table) = (job_status table)(name := map_option (\<lambda>(r, s). (r, False)) (job_status table name))"
  using rows_modify[OF assms, of "\<lambda>job. job\<lparr>jb_starting := False\<rparr>" name]
  by (simp_all add: launch_abandon_def status_modify) (simp add: job_status_def option.map_comp comp_def)

lemma commanded_sel [simp]:
  "jb_id (snd (commanded fs cmd pid st d job)) = jb_id job" "jb_sandbox (snd (commanded fs cmd pid st d job)) = jb_sandbox job"
  "jb_running (snd (commanded fs cmd pid st d job)) \<noteq> None" "\<not> jb_starting (snd (commanded fs cmd pid st d job))"
  by (simp_all add: commanded_def split: sum.split)

lemma publish_command_rows:
  assumes "rows_ok table" "publish_command fs name cmd pid st d table = (result, table')"
  shows "rows_ok table' \<and> job_status table' = (job_status table)(name := map_option (\<lambda>x. (True, False)) (job_status table name))"
proof (cases "find_job name table")
  case None
  with assms show ?thesis by (simp add: publish_command_def job_status_def fun_upd_idem)
next
  case (Some job)
  with assms(2) have "table' = modify_job name (\<lambda>job. snd (commanded fs cmd pid st d job)) table"
    by (simp add: publish_command_def)
  with rows_modify[OF assms(1), of "\<lambda>job. snd (commanded fs cmd pid st d job)" name] Some show ?thesis
    by (simp add: status_modify) (simp add: job_status_def)
qed

lemma reap_rows:
  assumes "rows_ok table" "reap name pid exit_status table = (Some c, table')"
  shows "rows_ok table' \<and> cn_id c = name \<and> (\<exists>s. job_status table name = Some (True, s) \<and> job_status table' = (job_status table)(name \<mapsto> (False, s)))"
proof -
  from assms(2) obtain job running where job: "find_job name table = Some job" "jb_running job = Some running"
    "cn_id c = name" "table' = modify_job name (\<lambda>job. job\<lparr>jb_running := None\<rparr>) table"
    by (cases "find_job name table") (auto simp: reap_def split: option.splits if_splits)
  then show ?thesis
    using rows_modify[OF assms(1), of "\<lambda>job. job\<lparr>jb_running := None\<rparr>" name]
    by (simp add: status_modify) (simp add: job_status_def)
qed

lemma close_job_sel:
  "close_job fs force job = Inr job' \<Longrightarrow>
   jb_id job' = jb_id job \<and> jb_sandbox job' = jb_sandbox job \<and> (jb_running job' = None) = (jb_running job = None) \<and>
   jb_starting job' = jb_starting job \<and> jb_close job' = Some (if force then Force else Graceful)"
  by (auto simp: close_job_def and_then_Inr split: if_splits option.splits)

text \<open>Changing the found row by a constant is changing it by a function that keeps the name of every row.\<close>

lemma modify_found:
  "find_job name table = Some job \<Longrightarrow>
   modify_job name (\<lambda>_. job') table = modify_job name (\<lambda>j. if j = job then job' else j) table"
proof -
  assume "find_job name table = Some job"
  moreover have "find (\<lambda>j. jb_id j = name) js = Some job \<Longrightarrow>
    update_first (\<lambda>j. jb_id j = name) (\<lambda>_. job') js = update_first (\<lambda>j. jb_id j = name) (\<lambda>j. if j = job then job' else j) js" for js
    by (induction js) auto
  ultimately show ?thesis by (simp add: find_job_def modify_job_def)
qed

lemma stop_rows:
  assumes "rows_ok table" "stop fs name force queue table = (Inr closed, table')"
  shows "rows_ok table' \<and> (closed = None \<and> job_status table' = job_status table \<or>
    (\<exists>sandbox mode r. closed = Some (sandbox, mode, r) \<and> sb_id sandbox = name \<and> \<not> is_merging name queue \<and>
       job_status table name = Some (False, False) \<and> job_status table' = (job_status table)(name := None)))"
proof -
  obtain job where vis: "visible name table = Some job"
    using assms(2) by (cases "visible name table") (simp_all add: stop_def)
  then have found: "find_job name table = Some job" by (simp add: visible_def split: option.splits if_splits)
  obtain job' where close: "close_job fs force job = Inr job'"
    using assms(2) vis by (cases "close_job fs force job") (simp_all add: stop_def)
  have t': "(if is_merging name queue then (Inr None, modify_job name (\<lambda>_. job') table)
       else let (closed, table'') = take_closable name (modify_job name (\<lambda>_. job') table) in (Inr closed, table'')) =
      (Inr closed :: mux_error + _, table')"
    using assms(2) vis close by (simp add: stop_def Let_def)
  let ?f = "\<lambda>j. if j = job then job' else j"
  have mod: "rows_ok (modify_job name ?f table) \<and> job_status (modify_job name ?f table) = job_status table"
    by (rule same_row_rows[OF assms(1)]) (use close_job_sel[OF close] in auto)
  show ?thesis
  proof (cases "is_merging name queue")
    case True
    with t' mod show ?thesis by (simp add: modify_found[OF found])
  next
    case False
    then obtain cl where "take_closable name (modify_job name ?f table) = (cl, table')" "closed = cl"
      using t' by (auto simp: modify_found[OF found] split: prod.splits)
    with take_closable_rows[OF conjunct1[OF mod], of name cl table'] mod False show ?thesis by auto
  qed
qed

lemma failure_close_rows:
  assumes "rows_ok table" "failure_close name retained table = (closed, table')"
  shows "rows_ok table' \<and> (closed = None \<and> job_status table' = job_status table \<or>
    (\<exists>sandbox mode r. closed = Some (sandbox, mode, r) \<and> sb_id sandbox = name \<and> \<not> retained \<and>
       job_status table name = Some (False, False) \<and> job_status table' = (job_status table)(name := None)))"
proof (cases "retained \<or> find_job name table = None")
  case True
  with assms show ?thesis by (auto simp: failure_close_def)
next
  case False
  have mod: "rows_ok (modify_job name (\<lambda>job. job\<lparr>jb_close := Some Graceful\<rparr>) table) \<and>
    job_status (modify_job name (\<lambda>job. job\<lparr>jb_close := Some Graceful\<rparr>) table) = job_status table"
    by (rule same_row_rows[OF assms(1)]) auto
  from False assms(2) have "take_closable name (modify_job name (\<lambda>job. job\<lparr>jb_close := Some Graceful\<rparr>) table) = (closed, table')"
    by (auto simp: failure_close_def)
  from take_closable_rows[OF conjunct1[OF mod] this] mod False show ?thesis by auto
qed

end
