(* ===== verification/JobSteps.thy ===== *)
theory JobSteps
  imports JobRows
begin

text \<open>
  The job operations as a state machine. Every step is one critical section of \<^verbatim>\<open>jobs.rs\<close>: what
  stands between two locks of one operation is a task, which remembers where the operation is.
  Locks are free between steps; the order they are taken in is the subject of theory \<open>Locks\<close>.
\<close>

section \<open>Tasks\<close>

text \<open>
  A spawn that has reserved its name and builds the job's resources, one that has published them; a
  start that waits for conclusions, a launch before and after it found its row; a failed launch
  before and after its delivery; a reaped command not yet submitted; and the conclusion task before
  and after its delivery, and before its last critical section.
\<close>

datatype 's job_task =
    Building shell_id "string option"
  | Resizing shell_id "string option"
  | Waiting shell_id
  | Launching shell_id bool
  | Prepared shell_id bool
  | Failing shell_id bool
  | Failed shell_id bool
  | Reaped "'s conclusion"
  | Concluding "'s conclusion"
  | Delivered "'s conclusion"
  | Closing shell_id bool

text \<open>The names ever reserved, in reverse order, and the sandboxes whose storage is reclaimed.\<close>

record ('r, 's) session =
  ss_table :: "('r, 's) job_table"
  ss_queue :: "'s conclusion_queue"
  ss_tasks :: "'s job_task list"
  ss_used :: "shell_id list"
  ss_reclaimed :: "sandbox list"

definition new_session :: "nat \<Rightarrow> nat \<Rightarrow> ('r, 's) session" where
  "new_session rows cols = \<lparr>ss_table = new_table rows cols, ss_queue = new_queue, ss_tasks = [], ss_used = [], ss_reclaimed = []\<rparr>"

fun concluder :: "'s job_task \<Rightarrow> bool" where
  "concluder (Concluding c) \<longleftrightarrow> True"
| "concluder (Delivered c) \<longleftrightarrow> True"
| "concluder (Closing name retained) \<longleftrightarrow> True"
| "concluder _ \<longleftrightarrow> False"

definition reclaimed :: "'r closed_job option \<Rightarrow> sandbox list" where
  "reclaimed closed = (case closed of None \<Rightarrow> [] | Some (sandbox, mode, r) \<Rightarrow> [sandbox])"

text \<open>What a failed launch leaves to do: a detached one reports.\<close>

definition reports :: "shell_id \<Rightarrow> bool \<Rightarrow> bool \<Rightarrow> 's job_task list" where
  "reports name detached retained = (if detached then [Failing name retained] else [])"

section \<open>Steps\<close>

inductive job_step :: "('s \<Rightarrow> mux_error + 's) \<Rightarrow> ('r, 's) session \<Rightarrow> ('r, 's) session \<Rightarrow> bool" for fs where
  reserved: "spawn_reserve new_sandbox asked cmd (ss_table s) = (Inr (name, sandbox, dims), table) \<Longrightarrow> sb_id sandbox = name \<Longrightarrow>
    job_step fs s (s\<lparr>ss_table := table, ss_tasks := Building name cmd # ss_tasks s, ss_used := name # ss_used s\<rparr>)"
| reserve_failed: "spawn_reserve new_sandbox asked cmd (ss_table s) = (Inl e, table) \<Longrightarrow>
    job_step fs s (s\<lparr>ss_table := table\<rparr>)"
| published: "ss_tasks s = us @ Building name cmd # vs \<Longrightarrow> publish_resources name r (ss_table s) = (Inr dims, table) \<Longrightarrow>
    job_step fs s (s\<lparr>ss_table := table, ss_tasks := us @ Resizing name cmd # vs\<rparr>)"
| build_failed: "ss_tasks s = us @ Building name cmd # vs \<Longrightarrow>
    job_step fs s (s\<lparr>ss_table := remove_job name (ss_table s), ss_tasks := us @ vs\<rparr>)"
| resize_failed: "ss_tasks s = us @ Resizing name cmd # vs \<Longrightarrow>
    job_step fs s (s\<lparr>ss_table := remove_job name (ss_table s), ss_tasks := us @ vs\<rparr>)"
| built: "ss_tasks s = us @ Resizing name cmd # vs \<Longrightarrow>
    job_step fs s (s\<lparr>ss_tasks := us @ (if cmd = None then [] else [Launching name True]) @ vs\<rparr>)"
| start: "start_reserve name (ss_table s) = (Inr (), table) \<Longrightarrow>
    job_step fs s (s\<lparr>ss_table := table, ss_tasks := Waiting name # ss_tasks s\<rparr>)"
| woken: "ss_tasks s = us @ Waiting name # vs \<Longrightarrow> wait_over name (ss_queue s) \<Longrightarrow>
    job_step fs s (s\<lparr>ss_tasks := us @ Launching name False # vs\<rparr>)"
| lookup_failed: "ss_tasks s = us @ Launching name detached # vs \<Longrightarrow> launch_lookup name (ss_table s) = Inl e \<Longrightarrow>
    job_step fs s (s\<lparr>ss_tasks := us @ reports name detached False @ vs\<rparr>)"
| looked_up: "ss_tasks s = us @ Launching name detached # vs \<Longrightarrow> launch_lookup name (ss_table s) = Inr found \<Longrightarrow>
    job_step fs s (s\<lparr>ss_tasks := us @ Prepared name detached # vs\<rparr>)"
| launch_failed: "ss_tasks s = us @ Prepared name detached # vs \<Longrightarrow>
    job_step fs s (s\<lparr>ss_table := launch_abandon name (ss_table s), ss_tasks := us @ reports name detached False @ vs\<rparr>)"
| launched: "ss_tasks s = us @ Prepared name detached # vs \<Longrightarrow>
    publish_command fs name cmd pid started done_call (ss_table s) = (result, table) \<Longrightarrow>
    job_step fs s (s\<lparr>ss_table := table, ss_tasks := us @ (case result of Inl e \<Rightarrow> reports name detached True | Inr u \<Rightarrow> []) @ vs\<rparr>)"
| failed: "ss_tasks s = us @ Failing name retained # vs \<Longrightarrow>
    job_step fs s (s\<lparr>ss_table := snd (deliver name (ss_table s)), ss_tasks := us @ Failed name retained # vs\<rparr>)"
| failure_closed: "ss_tasks s = us @ Failed name retained # vs \<Longrightarrow> failure_close name retained (ss_table s) = (closed, table) \<Longrightarrow>
    job_step fs s (s\<lparr>ss_table := table, ss_tasks := us @ vs, ss_reclaimed := reclaimed closed @ ss_reclaimed s\<rparr>)"
| kept: "job_step fs s (s\<lparr>ss_table := keep name (ss_table s)\<rparr>)"
| selected: "switch_select name (ss_table s) = (Inr view, table) \<Longrightarrow> job_step fs s (s\<lparr>ss_table := table\<rparr>)"
| stopped: "stop fs name force (ss_queue s) (ss_table s) = (Inr closed, table) \<Longrightarrow>
    job_step fs s (s\<lparr>ss_table := table, ss_reclaimed := reclaimed closed @ ss_reclaimed s\<rparr>)"
| watched: "on_finish name done_call (ss_table s) = (registered, table) \<Longrightarrow> job_step fs s (s\<lparr>ss_table := table\<rparr>)"
| resized: "resize rows cols (ss_table s) = (Inr terminals, table) \<Longrightarrow> job_step fs s (s\<lparr>ss_table := table\<rparr>)"
| reaped: "reap name pid exit_status (ss_table s) = (Some c, table) \<Longrightarrow>
    job_step fs s (s\<lparr>ss_table := table, ss_tasks := Reaped c # ss_tasks s\<rparr>)"
| submitted: "ss_tasks s = us @ Reaped c # vs \<Longrightarrow>
    job_step fs s (s\<lparr>ss_queue := submit c (ss_queue s), ss_tasks := us @ vs\<rparr>)"
| taken: "\<forall>t \<in> set (ss_tasks s). \<not> concluder t \<Longrightarrow> take_conclusion (ss_queue s) = (TakenConclusion c, queue) \<Longrightarrow>
    job_step fs s (s\<lparr>ss_queue := queue, ss_tasks := Concluding c # ss_tasks s\<rparr>)"
| delivered: "ss_tasks s = us @ Concluding c # vs \<Longrightarrow>
    job_step fs s (s\<lparr>ss_table := snd (deliver (cn_id c) (ss_table s)), ss_tasks := us @ Delivered c # vs\<rparr>)"
| finished: "ss_tasks s = us @ Delivered c # vs \<Longrightarrow>
    job_step fs s (s\<lparr>ss_queue := finish_conclusion (cn_id c) (ss_queue s), ss_tasks := us @ Closing (cn_id c) retained # vs\<rparr>)"
| closed: "ss_tasks s = us @ Closing name retained # vs \<Longrightarrow> conclude_close name (ss_queue s) (ss_table s) = (closed, table) \<Longrightarrow>
    job_step fs s (s\<lparr>ss_table := table, ss_tasks := us @ vs,
      ss_reclaimed := (if retained then [] else reclaimed closed) @ ss_reclaimed s\<rparr>)"
| cancelled: "job_step fs s (s\<lparr>ss_queue := cancel (ss_queue s)\<rparr>)"
| killed: "cq_closed (ss_queue s) \<Longrightarrow> shutdown_table fs (ss_table s) = (failure, abandoned, table) \<Longrightarrow>
    job_step fs s (s\<lparr>ss_table := table\<rparr>)"
| released: "cq_closed (ss_queue s) \<Longrightarrow> job_step fs s (s\<lparr>ss_table := drop_resources (ss_table s)\<rparr>)"

inductive job_reachable :: "('s \<Rightarrow> mux_error + 's) \<Rightarrow> ('r, 's) session \<Rightarrow> bool" for fs where
  fresh: "job_reachable fs (new_session rows cols)"
| step: "job_reachable fs s \<Longrightarrow> job_step fs s s' \<Longrightarrow> job_reachable fs s'"

section \<open>Names and counts\<close>

text \<open>How many tasks satisfy a test.\<close>

definition tally :: "('a \<Rightarrow> bool) \<Rightarrow> 'a list \<Rightarrow> nat" where
  "tally P xs = length (filter P xs)"

lemma tally_simps [simp]:
  "tally P [] = 0" "tally P (x # xs) = (if P x then 1 else 0) + tally P xs" "tally P (xs @ ys) = tally P xs + tally P ys"
  by (simp_all add: tally_def)

lemma tally_zero: "tally P xs = 0 \<longleftrightarrow> (\<forall>x \<in> set xs. \<not> P x)"
  by (simp add: tally_def filter_empty_conv)

fun concludes :: "shell_id \<Rightarrow> 's job_task \<Rightarrow> bool" where
  "concludes name (Concluding c) \<longleftrightarrow> cn_id c = name"
| "concludes name (Delivered c) \<longleftrightarrow> cn_id c = name"
| "concludes name _ \<longleftrightarrow> False"

text \<open>The queue owes a job exactly its conclusions that wait and those in the conclusion task's hands.\<close>

definition counted :: "('r, 's) session \<Rightarrow> bool" where
  "counted s \<longleftrightarrow> (\<forall>name. cq_active (ss_queue s) name \<noteq> Some 0 \<and>
     owed name (ss_queue s) = tally (\<lambda>c. cn_id c = name) (cq_pending (ss_queue s)) + tally (concludes name) (ss_tasks s))"

lemma reports_sel [simp]: "tally (concludes name) (reports job detached retained) = 0"
  by (simp add: reports_def)

lemma owed_simps [simp]:
  "owed name (queue\<lparr>cq_pending := cs\<rparr>) = owed name queue" "owed name (cancel queue) = owed name queue"
  by (simp_all add: owed_def cancel_def)

lemma merging_owed: "cq_active queue name \<noteq> Some 0 \<Longrightarrow> is_merging name queue \<longleftrightarrow> owed name queue \<noteq> 0"
  by (auto simp: is_merging_def owed_def split: option.splits)

lemma not_merging: "counted s \<Longrightarrow> \<not> is_merging name (ss_queue s) \<Longrightarrow> owed name (ss_queue s) = 0"
  using merging_owed[of "ss_queue s" name] by (simp add: counted_def)

lemma submit_sel:
  assumes "\<not> cq_closed queue"
  shows "cq_pending (submit c queue) = cq_pending queue @ [c]" "\<not> cq_closed (submit c queue)"
    "owed name (submit c queue) = owed name queue + (if cn_id c = name then 1 else 0)"
    "cq_active queue name \<noteq> Some 0 \<Longrightarrow> cq_active (submit c queue) name \<noteq> Some 0"
  using assms by (simp_all add: submit_def owed_def)

lemma finish_conclusion_sel:
  "cq_pending (finish_conclusion job queue) = cq_pending queue" "cq_closed (finish_conclusion job queue) = cq_closed queue"
  "owed name (finish_conclusion job queue) = owed name queue - (if job = name then 1 else 0)"
  "cq_active queue name \<noteq> Some 0 \<Longrightarrow> cq_active (finish_conclusion job queue) name \<noteq> Some 0"
  by (auto simp: finish_conclusion_def owed_def split: option.split)

lemma take_sel:
  "take_conclusion queue = (TakenConclusion c, queue') \<Longrightarrow>
   cq_pending queue = c # cq_pending queue' \<and> cq_active queue' = cq_active queue \<and> cq_closed queue' = cq_closed queue"
  by (auto simp: take_conclusion_def split: list.splits if_splits)

lemma counted_step: "job_step fs s s' \<Longrightarrow> counted s \<Longrightarrow> counted s'"
proof (induction rule: job_step.induct)
  case (submitted s us c vs)
  then show ?case
    by (cases "cq_closed (ss_queue s)") (auto simp: counted_def submit_sel, simp_all add: submit_def)
next
  case (taken s c queue)
  have "owed name queue = owed name (ss_queue s)" for name using take_sel[OF taken(2)] by (simp add: owed_def)
  with take_sel[OF taken(2)] taken show ?case by (auto simp: counted_def)
next
  case (finished s us c vs retained)
  then show ?case by (auto simp: counted_def finish_conclusion_sel)
qed (auto simp: counted_def cancel_def owed_def split: sum.split)

lemma shutdown_rows:
  "shutdown_jobs fs js = (failure, abandoned, js') \<Longrightarrow> map jb_id js' = map jb_id js \<and> map jb_sandbox js' = map jb_sandbox js"
  by (induction js arbitrary: failure abandoned js') (auto split: prod.splits)

lemma rows_from_maps:
  "map jb_id (jt_open table') = map jb_id (jt_open table) \<Longrightarrow> map jb_sandbox (jt_open table') = map jb_sandbox (jt_open table) \<Longrightarrow>
   rows_ok table \<Longrightarrow> rows_ok table'"
proof -
  assume m: "map jb_id (jt_open table') = map jb_id (jt_open table)" "map jb_sandbox (jt_open table') = map jb_sandbox (jt_open table)"
    and ok: "rows_ok table"
  have l: "length (jt_open table') = length (jt_open table)" using m(1) map_eq_imp_length_eq by blast
  have nth: "jb_id (jt_open table' ! i) = jb_id (jt_open table ! i)" "jb_sandbox (jt_open table' ! i) = jb_sandbox (jt_open table ! i)"
    if "i < length (jt_open table)" for i
    using that l m by (metis nth_map)+
  moreover have "\<forall>i < length (jt_open table). sb_id (jb_sandbox (jt_open table ! i)) = jb_id (jt_open table ! i)"
    using ok by (simp add: rows_ok_def)
  ultimately show ?thesis using ok l m(1) by (auto simp: rows_ok_def in_set_conv_nth)
qed

lemma switch_select_rows:
  "switch_select name table = (result, table') \<Longrightarrow> jt_open table' = jt_open table"
  by (auto simp: switch_select_def split: option.splits)

lemma resize_rows: "resize rows cols table = (result, table') \<Longrightarrow> jt_open table' = jt_open table"
  by (auto simp: resize_def split: sum.splits)

lemma rows_step: "job_step fs s s' \<Longrightarrow> rows_ok (ss_table s) \<Longrightarrow> rows_ok (ss_table s')"
proof (induction rule: job_step.induct)
  case (reserved new_sandbox asked cmd s name sandbox dims table)
  with spawn_reserve_rows[OF _ reserved(1)] show ?case by simp
next
  case (reserve_failed new_sandbox asked cmd s e table)
  then show ?case using spawn_reserve_rows[OF _ reserve_failed(1)] same_open[of table "ss_table s"] by simp
next
  case (launched s us name detached vs cmd pid started done_call result table)
  then show ?case using publish_command_rows[OF _ launched(2)] by simp
next
  case (closed s us name retained vs closed table)
  with take_closable_rows[of "ss_table s" name closed table] show ?case by (auto simp: conclude_close_def split: if_splits)
next
  case (killed s failure abandoned table)
  then obtain js where "shutdown_jobs fs (jt_open (ss_table s)) = (failure, abandoned, js)" "table = ss_table s\<lparr>jt_open := js\<rparr>"
    by (auto simp: shutdown_table_def split: prod.splits)
  with shutdown_rows[of fs "jt_open (ss_table s)" failure abandoned js] rows_from_maps[of table "ss_table s"] killed.prems
  show ?case by simp
next
  case (released s)
  with rows_from_maps[of "drop_resources (ss_table s)" "ss_table s"] show ?case by (simp add: drop_resources_def comp_def)
next
  case (published s us name cmd vs r dims table)
  then show ?case using publish_resources_rows[OF _ published(2)] by simp
next
  case (start name s table)
  then show ?case using start_reserve_rows[OF _ start(1)] by simp
next
  case (failure_closed s us name retained vs closed table)
  then show ?case using failure_close_rows[OF _ failure_closed(2)] by simp
next
  case (kept s name)
  then show ?case using keep_rows[of "ss_table s" name] by simp
next
  case (selected name s view table)
  then show ?case using same_open[OF switch_select_rows[OF selected(1)]] by simp
next
  case (stopped name force s closed table)
  then show ?case using stop_rows[OF _ stopped(1)] by simp
next
  case (watched name done_call s registered table)
  then show ?case using on_finish_rows[OF _ watched(1)] by simp
next
  case (resized rows cols s terminals table)
  then show ?case using same_open[OF resize_rows[OF resized(1)]] by simp
next
  case (reaped name pid exit_status s c table)
  then show ?case using reap_rows[OF _ reaped(1)] by simp
qed (simp_all add: remove_job_rows launch_abandon_rows deliver_rows)

lemma reachable_rows: "job_reachable fs s \<Longrightarrow> rows_ok (ss_table s) \<and> counted s"
proof (induction rule: job_reachable.induct)
  case (fresh rows cols)
  then show ?case by (simp add: new_session_def new_table_def rows_ok_def counted_def new_queue_def owed_def)
next
  case (step s s')
  then show ?case using rows_step counted_step by blast
qed

section \<open>The discipline\<close>

text \<open>
  What the design intends: a name is not given out twice, the session is not shut down, and a reaped
  command is submitted, and a failed launch reported, before anything else happens.
\<close>

fun urgency :: "'s job_task \<Rightarrow> nat" where
  "urgency (Reaped c) = 1"
| "urgency (Failing name retained) = 2"
| "urgency (Failed name retained) = 1"
| "urgency _ = 0"

definition pressing :: "('r, 's) session \<Rightarrow> nat" where
  "pressing s = sum_list (map urgency (ss_tasks s))"

definition disciplined :: "('r, 's) session \<Rightarrow> ('r, 's) session \<Rightarrow> bool" where
  "disciplined s s' \<longleftrightarrow> distinct (ss_used s') \<and> \<not> cq_closed (ss_queue s') \<and> (pressing s > 0 \<longrightarrow> pressing s' < pressing s)"

inductive kept_reachable :: "('s \<Rightarrow> mux_error + 's) \<Rightarrow> ('r, 's) session \<Rightarrow> bool" for fs where
  fresh: "kept_reachable fs (new_session rows cols)"
| step: "kept_reachable fs s \<Longrightarrow> job_step fs s s' \<Longrightarrow> disciplined s s' \<Longrightarrow> kept_reachable fs s'"

lemma kept_reachable_reachable: "kept_reachable fs s \<Longrightarrow> job_reachable fs s"
  by (induction rule: kept_reachable.induct) (auto intro: job_reachable.intros)

text \<open>The tasks that launch a command for a job, those that rely on its conclusions being over, and the reaped ones.\<close>

fun launches :: "shell_id \<Rightarrow> 's job_task \<Rightarrow> bool" where
  "launches name (Building job cmd) \<longleftrightarrow> job = name \<and> cmd \<noteq> None"
| "launches name (Resizing job cmd) \<longleftrightarrow> job = name \<and> cmd \<noteq> None"
| "launches name (Waiting job) \<longleftrightarrow> job = name"
| "launches name (Launching job detached) \<longleftrightarrow> job = name"
| "launches name (Prepared job detached) \<longleftrightarrow> job = name"
| "launches name _ \<longleftrightarrow> False"

fun relies :: "shell_id \<Rightarrow> 's job_task \<Rightarrow> bool" where
  "relies name (Waiting job) \<longleftrightarrow> False"
| "relies name (Failing job retained) \<longleftrightarrow> job = name"
| "relies name (Failed job retained) \<longleftrightarrow> job = name"
| "relies name t \<longleftrightarrow> launches name t"

fun reaps :: "shell_id \<Rightarrow> 's job_task \<Rightarrow> bool" where
  "reaps name (Reaped c) \<longleftrightarrow> cn_id c = name"
| "reaps name _ \<longleftrightarrow> False"

fun fails :: "shell_id \<Rightarrow> 's job_task \<Rightarrow> bool" where
  "fails name (Failing job retained) \<longleftrightarrow> job = name"
| "fails name (Failed job retained) \<longleftrightarrow> job = name"
| "fails name _ \<longleftrightarrow> False"

text \<open>The commands of a job that ended and are not concluded.\<close>

definition outstanding :: "shell_id \<Rightarrow> ('r, 's) session \<Rightarrow> nat" where
  "outstanding name s = owed name (ss_queue s) + tally (reaps name) (ss_tasks s)"

definition settled_job :: "('r, 's) session \<Rightarrow> shell_id \<Rightarrow> bool" where
  "settled_job s name \<longleftrightarrow> name \<in> set (ss_used s) \<and> job_status (ss_table s) name = None \<and>
     tally (launches name) (ss_tasks s) = 0 \<and> outstanding name s = 0"

text \<open>
  Nothing belongs to a name that was never given out; one launch at most is under way for a job,
  its row says so, and no command runs in it then; what runs or relies on it has no predecessor left.
\<close>

definition fine_parts :: "bool \<Rightarrow> (bool \<times> bool) option \<Rightarrow> nat \<Rightarrow> nat \<Rightarrow> nat \<Rightarrow> nat \<Rightarrow> bool" where
  "fine_parts used row launching relying failing out \<longleftrightarrow>
     (\<not> used \<longrightarrow> row = None \<and> launching = 0 \<and> relying = 0 \<and> out = 0) \<and> launching \<le> 1 \<and>
     (case row of None \<Rightarrow> True
      | Some (runs, starting) \<Rightarrow> \<not> (runs \<and> starting) \<and> (launching > 0 \<longrightarrow> starting) \<and> (runs \<longrightarrow> out = 0)) \<and>
     (relying > 0 \<longrightarrow> out = 0) \<and> (failing > 0 \<longrightarrow> launching = 0)"

definition fine :: "('r, 's) session \<Rightarrow> shell_id \<Rightarrow> bool" where
  "fine s name \<longleftrightarrow> fine_parts (name \<in> set (ss_used s)) (job_status (ss_table s) name) (tally (launches name) (ss_tasks s))
     (tally (relies name) (ss_tasks s)) (tally (fails name) (ss_tasks s)) (outstanding name s)"

definition orderly :: "('r, 's) session \<Rightarrow> bool" where
  "orderly s \<longleftrightarrow> rows_ok (ss_table s) \<and> counted s \<and> \<not> cq_closed (ss_queue s) \<and> (\<forall>name. fine s name) \<and>
     (\<forall>sandbox \<in> set (ss_reclaimed s). settled_job s (sb_id sandbox))"

lemma calm:
  assumes "pressing s = 0"
  shows "tally (reaps name) (ss_tasks s) = 0" "tally (fails name) (ss_tasks s) = 0"
proof -
  have "\<forall>t \<in> set (ss_tasks s). urgency t = 0" using assms by (simp add: pressing_def)
  then have "\<not> reaps name t \<and> \<not> fails name t" if "t \<in> set (ss_tasks s)" for t using that by (cases t) auto
  then show "tally (reaps name) (ss_tasks s) = 0" "tally (fails name) (ss_tasks s) = 0" by (simp_all add: tally_zero)
qed

lemma reports_tallies [simp]:
  "tally (launches name) (reports job detached retained) = 0" "tally (reaps name) (reports job detached retained) = 0"
  "tally (relies name) (reports job detached retained) = (if detached \<and> job = name then 1 else 0)"
  "tally (fails name) (reports job detached retained) = (if detached \<and> job = name then 1 else 0)"
  by (simp_all add: reports_def)

lemma fine_less:
  assumes "fine s name" "ss_used s' = ss_used s"
    "job_status (ss_table s') name = job_status (ss_table s) name \<or> job_status (ss_table s') name = None"
    "tally (launches name) (ss_tasks s') \<le> tally (launches name) (ss_tasks s)"
    "tally (relies name) (ss_tasks s') \<le> tally (relies name) (ss_tasks s)"
    "tally (fails name) (ss_tasks s') \<le> tally (fails name) (ss_tasks s)" "outstanding name s' \<le> outstanding name s"
  shows "fine s' name"
proof -
  have less: "fine_parts used row l r f k \<Longrightarrow> row' = row \<or> row' = None \<Longrightarrow> l' \<le> l \<Longrightarrow> r' \<le> r \<Longrightarrow> f' \<le> f \<Longrightarrow> k' \<le> k \<Longrightarrow>
    fine_parts used row' l' r' f' k'" for used row row' l l' r r' f f' k k'
    by (cases row; cases row') (auto simp: fine_parts_def)
  show ?thesis unfolding fine_def assms(2) using less[OF assms(1)[unfolded fine_def] assms(3-7)] .
qed

lemma fails_rely: "tally (relies name) ts = 0 \<Longrightarrow> tally (fails name) ts = 0"
proof -
  have "relies name t" if "fails name t" for t using that by (cases t) auto
  then show "tally (relies name) ts = 0 \<Longrightarrow> tally (fails name) ts = 0" by (auto simp: tally_zero)
qed

lemma fine_step: "job_step fs s s' \<Longrightarrow> orderly s \<Longrightarrow> disciplined s s' \<Longrightarrow> fine s' name"
proof (induction rule: job_step.induct)
  case (reserved new_sandbox asked cmd s job sandbox dims table)
  have used: "job \<notin> set (ss_used s)" using reserved(4) by (simp add: disciplined_def)
  from spawn_reserve_rows[OF _ reserved(1)] reserved(3) have
    "job_status table = (job_status (ss_table s))(job \<mapsto> (False, cmd \<noteq> None))" by (simp add: orderly_def)
  moreover have f: "fine s name" using reserved(3) by (simp add: orderly_def)
  ultimately show ?case using used fails_rely[of name "ss_tasks s"]
    by (cases "name = job"; cases "job_status (ss_table s) name") (auto simp: fine_def outstanding_def fine_parts_def)
next
  case (reserve_failed new_sandbox asked cmd s e table)
  have "jt_open table = jt_open (ss_table s)"
    using spawn_reserve_rows[OF _ reserve_failed(1)] reserve_failed(2) by (simp add: orderly_def)
  then have "job_status table = job_status (ss_table s)" by (rule conjunct2[OF same_open])
  with reserve_failed(2) show ?case by - (rule fine_less[of s]; simp add: orderly_def outstanding_def)
next
  case (published s us job cmd vs r dims table)
  then have f: "fine s name" "rows_ok (ss_table s)" by (simp_all add: orderly_def)
  with publish_resources_rows[OF f(2) published(2)] published(1) show ?case by - (rule fine_less[OF f(1)]; simp add: outstanding_def)
next
  case (build_failed s us job cmd vs)
  then have f: "fine s name" "rows_ok (ss_table s)" by (simp_all add: orderly_def)
  with build_failed(1) show ?case by - (rule fine_less[OF f(1)]; simp add: outstanding_def remove_job_rows)
next
  case (resize_failed s us job cmd vs)
  then have f: "fine s name" "rows_ok (ss_table s)" by (simp_all add: orderly_def)
  with resize_failed(1) show ?case by - (rule fine_less[OF f(1)]; simp add: outstanding_def remove_job_rows)
next
  case (built s us job cmd vs)
  then have f: "fine s name" by (simp add: orderly_def)
  with built(1) show ?case by - (rule fine_less[OF f(1)]; cases cmd; simp add: outstanding_def)
next
  case (start job s table)
  then have f: "fine s name" "rows_ok (ss_table s)" and quiet: "pressing s = 0"
    by (simp_all add: orderly_def disciplined_def pressing_def)
  with calm(2)[OF quiet, of name] start_reserve_rows[OF f(2) start(1)] show ?case by (cases "name = job"; cases "job_status (ss_table s) name") (auto simp: fine_def outstanding_def fine_parts_def)
next
  case (woken s us job vs)
  then have f: "fine s name" "counted s" and quiet: "pressing s = 0" "\<not> cq_closed (ss_queue s)"
    by (simp_all add: orderly_def disciplined_def pressing_def)
  have "owed job (ss_queue s) = 0" using woken(2) quiet(2) not_merging[OF f(2)] by (simp add: wait_over_def)
  with f(1) quiet(1) woken(1) show ?case using calm[OF quiet(1), of name]
    by (cases "name = job"; cases "job_status (ss_table s) name") (auto simp: fine_def outstanding_def fine_parts_def)
next
  case (lookup_failed s us job detached vs e)
  then have "fine s name" by (simp add: orderly_def)
  with lookup_failed(1) show ?case
    by (cases detached; cases "name = job"; cases "job_status (ss_table s) name") (auto simp: fine_def outstanding_def fine_parts_def)
next
  case (looked_up s us job detached vs found)
  then have "fine s name" by (simp add: orderly_def)
  with looked_up(1) show ?case by (cases "job_status (ss_table s) name") (auto simp: fine_def outstanding_def fine_parts_def)
next
  case (launch_failed s us job detached vs)
  then have f: "fine s name" "rows_ok (ss_table s)" by (simp_all add: orderly_def)
  with launch_failed(1) show ?case
    by (cases "name = job"; cases "job_status (ss_table s) name") (auto simp: launch_abandon_rows fine_def outstanding_def fine_parts_def)
next
  case (launched s us job detached vs cmd pid started done_call result table)
  then have f: "fine s name" "rows_ok (ss_table s)" by (simp_all add: orderly_def)
  with publish_command_rows[OF f(2) launched(2)] launched(1) show ?case
    by (cases result; cases "name = job"; cases "job_status (ss_table s) name") (auto simp: fine_def outstanding_def fine_parts_def)
next
  case (failed s us job retained vs)
  then have f: "fine s name" "rows_ok (ss_table s)" by (simp_all add: orderly_def)
  with deliver_rows[OF f(2)] failed(1) show ?case by - (rule fine_less[OF f(1)]; simp add: outstanding_def)
next
  case (failure_closed s us job retained vs closed table)
  then have f: "fine s name" "rows_ok (ss_table s)" by (simp_all add: orderly_def)
  have "job_status table name = job_status (ss_table s) name \<or> job_status table name = None"
    using failure_close_rows[OF f(2) failure_closed(2)] by (cases "name = job") auto
  with failure_closed(1) show ?case by - (rule fine_less[OF f(1)]; simp add: outstanding_def)
next
  case (kept s job)
  then have f: "fine s name" "rows_ok (ss_table s)" by (simp_all add: orderly_def)
  with keep_rows[OF f(2)] show ?case by - (rule fine_less[OF f(1)]; simp add: outstanding_def)
next
  case (selected job s view table)
  then have f: "fine s name" "rows_ok (ss_table s)" by (simp_all add: orderly_def)
  with same_open[OF switch_select_rows[OF selected(1)]] show ?case by - (rule fine_less[OF f(1)]; simp add: outstanding_def)
next
  case (stopped job force s closed table)
  then have f: "fine s name" "rows_ok (ss_table s)" by (simp_all add: orderly_def)
  have "job_status table name = job_status (ss_table s) name \<or> job_status table name = None"
    using stop_rows[OF f(2) stopped(1)] by (cases "name = job") auto
  then show ?case by - (rule fine_less[OF f(1)]; simp add: outstanding_def)
next
  case (watched job done_call s registered table)
  then have f: "fine s name" "rows_ok (ss_table s)" by (simp_all add: orderly_def)
  with on_finish_rows[OF f(2) watched(1)] show ?case by - (rule fine_less[OF f(1)]; simp add: outstanding_def)
next
  case (resized rows cols s terminals table)
  then have f: "fine s name" "rows_ok (ss_table s)" by (simp_all add: orderly_def)
  with same_open[OF resize_rows[OF resized(1)]] show ?case by - (rule fine_less[OF f(1)]; simp add: outstanding_def)
next
  case (reaped job pid exit_status s c table)
  then have f: "fine s name" "rows_ok (ss_table s)" and quiet: "pressing s = 0"
    by (simp_all add: orderly_def disciplined_def pressing_def)
  have "tally (relies job) (ss_tasks s) = 0" if "tally (launches job) (ss_tasks s) = 0"
  proof -
    have "\<not> relies job t" if "\<not> launches job t" "\<not> fails job t" for t using that by (cases t) auto
    with that calm(2)[OF quiet, of job] show ?thesis by (auto simp: tally_zero)
  qed
  with f reap_rows[OF f(2) reaped(1)] calm[OF quiet, of name] show ?case
    by (cases "name = job"; cases "job_status (ss_table s) name") (auto simp: fine_def outstanding_def fine_parts_def)
next
  case (submitted s us c vs)
  then have f: "fine s name" "\<not> cq_closed (ss_queue s)" by (simp_all add: orderly_def)
  with submitted(1) show ?case by - (rule fine_less[OF f(1)]; simp add: outstanding_def submit_sel)
next
  case (taken s c queue)
  then have f: "fine s name" by (simp add: orderly_def)
  with take_sel[OF taken(2)] show ?case by - (rule fine_less[OF f]; simp add: outstanding_def owed_def)
next
  case (delivered s us c vs)
  then have f: "fine s name" "rows_ok (ss_table s)" by (simp_all add: orderly_def)
  with deliver_rows[OF f(2)] delivered(1) show ?case by - (rule fine_less[OF f(1)]; simp add: outstanding_def)
next
  case (finished s us c vs retained)
  then have f: "fine s name" by (simp add: orderly_def)
  with finished(1) show ?case by - (rule fine_less[OF f]; simp add: outstanding_def finish_conclusion_sel)
next
  case (closed s us job retained vs closed table)
  then have f: "fine s name" "rows_ok (ss_table s)" by (simp_all add: orderly_def)
  have "job_status table name = job_status (ss_table s) name \<or> job_status table name = None"
    using take_closable_rows[OF f(2), of job closed table] closed(2)
    by (cases "name = job") (auto simp: conclude_close_def split: if_splits)
  with closed(1) show ?case by - (rule fine_less[OF f(1)]; simp add: outstanding_def)
qed (auto simp: orderly_def disciplined_def cancel_def)

text \<open>What is settled stays settled, and what is reclaimed is settled.\<close>

lemma settled_same:
  assumes "settled_job s name" "job_status (ss_table s') name = None" "ss_tasks s' = ss_tasks s" "ss_queue s' = ss_queue s"
    "ss_used s' = ss_used s"
  shows "settled_job s' name"
  using assms by (simp add: settled_job_def outstanding_def)

lemma settled_step: "job_step fs s s' \<Longrightarrow> orderly s \<Longrightarrow> disciplined s s' \<Longrightarrow> settled_job s name \<Longrightarrow> settled_job s' name"
proof (induction rule: job_step.induct)
  case (reserved new_sandbox asked cmd s job sandbox dims table)
  from spawn_reserve_rows[OF _ reserved(1)] reserved(3) have
    "job_status table = (job_status (ss_table s))(job \<mapsto> (False, cmd \<noteq> None))" by (simp add: orderly_def)
  with reserved(4,5) show ?case by (auto simp: settled_job_def outstanding_def disciplined_def)
next
  case (reserve_failed new_sandbox asked cmd s e table)
  have "jt_open table = jt_open (ss_table s)"
    using spawn_reserve_rows[OF _ reserve_failed(1)] reserve_failed(2) by (simp add: orderly_def)
  then have "job_status table = job_status (ss_table s)" by (rule conjunct2[OF same_open])
  with reserve_failed show ?case by (simp add: settled_job_def outstanding_def)
next
  case (published s us job cmd vs r dims table)
  with publish_resources_rows[OF _ published(2)] show ?case by (simp add: orderly_def settled_job_def outstanding_def)
next
  case (build_failed s us job cmd vs)
  then show ?case by (auto simp: remove_job_rows orderly_def settled_job_def outstanding_def)
next
  case (resize_failed s us job cmd vs)
  then show ?case by (auto simp: remove_job_rows orderly_def settled_job_def outstanding_def)
next
  case (built s us job cmd vs)
  then show ?case by (cases cmd) (auto simp: settled_job_def outstanding_def)
next
  case (start job s table)
  with start_reserve_rows[OF _ start(1)] show ?case by (auto simp: orderly_def settled_job_def outstanding_def)
next
  case (launch_failed s us job detached vs)
  then show ?case by (auto simp: launch_abandon_rows orderly_def settled_job_def outstanding_def)
next
  case (launched s us job detached vs cmd pid started done_call result table)
  with publish_command_rows[OF _ launched(2)] show ?case
    by (cases result) (auto simp: orderly_def settled_job_def outstanding_def)
next
  case (failed s us job retained vs)
  with deliver_rows[of "ss_table s" job] show ?case by (simp add: orderly_def settled_job_def outstanding_def)
next
  case (failure_closed s us job retained vs closed table)
  with failure_close_rows[OF _ failure_closed(2)] show ?case by (auto simp: orderly_def settled_job_def outstanding_def)
next
  case (kept s job)
  with keep_rows[of "ss_table s" job] show ?case by (simp add: orderly_def settled_job_def outstanding_def)
next
  case (selected job s view table)
  with same_open[OF switch_select_rows[OF selected(1)]] show ?case by (simp add: settled_job_def outstanding_def)
next
  case (stopped job force s closed table)
  with stop_rows[OF _ stopped(1)] show ?case by (auto simp: orderly_def settled_job_def outstanding_def)
next
  case (watched job done_call s registered table)
  with on_finish_rows[OF _ watched(1)] show ?case by (simp add: orderly_def settled_job_def outstanding_def)
next
  case (resized rows cols s terminals table)
  with same_open[OF resize_rows[OF resized(1)]] show ?case by (simp add: settled_job_def outstanding_def)
next
  case (reaped job pid exit_status s c table)
  with reap_rows[OF _ reaped(1)] show ?case by (auto simp: orderly_def settled_job_def outstanding_def)
next
  case (submitted s us c vs)
  then show ?case by (auto simp: orderly_def settled_job_def outstanding_def submit_sel)
next
  case (taken s c queue)
  with take_sel[OF taken(2)] show ?case by (simp add: settled_job_def outstanding_def owed_def)
next
  case (delivered s us c vs)
  with deliver_rows[of "ss_table s" "cn_id c"] show ?case by (simp add: orderly_def settled_job_def outstanding_def)
next
  case (finished s us c vs retained)
  then show ?case by (simp add: settled_job_def outstanding_def finish_conclusion_sel)
next
  case (closed s us job retained vs closed table)
  have "job_status table = job_status (ss_table s) \<or> job_status table = (job_status (ss_table s))(job := None)"
    using take_closable_rows[of "ss_table s" job closed table] closed(2,3) by (auto simp: conclude_close_def orderly_def split: if_splits)
  with closed show ?case by (auto simp: settled_job_def outstanding_def)
qed (auto simp: settled_job_def outstanding_def orderly_def disciplined_def cancel_def)

text \<open>A row that is taken from the table while the queue owes it nothing and nothing presses is settled.\<close>

lemma taken_settled:
  assumes "fine s name" "job_status (ss_table s) name = Some (False, False)" "outstanding name s = 0"
    "job_status (ss_table s') name = None" "ss_queue s' = ss_queue s" "ss_used s' = ss_used s"
    "tally (launches name) (ss_tasks s') = tally (launches name) (ss_tasks s)"
    "tally (reaps name) (ss_tasks s') = tally (reaps name) (ss_tasks s)"
  shows "settled_job s' name"
  using assms by (auto simp: settled_job_def outstanding_def fine_def fine_parts_def)

lemma reclaimed_step:
  "job_step fs s s' \<Longrightarrow> orderly s \<Longrightarrow> disciplined s s' \<Longrightarrow>
   \<forall>sandbox \<in> set (ss_reclaimed s') - set (ss_reclaimed s). settled_job s' (sb_id sandbox)"
proof (induction rule: job_step.induct)
  case (failure_closed s us job retained vs closed table)
  then have f: "fine s job" "rows_ok (ss_table s)" by (simp_all add: orderly_def)
  then have "outstanding job s = 0" using failure_closed(1) by (simp add: fine_def fine_parts_def)
  with failure_close_rows[OF f(2) failure_closed(2)] failure_closed(1) f(1) show ?case
    by (auto simp: reclaimed_def intro!: taken_settled[of s])
next
  case (stopped job force s closed table)
  then have f: "fine s job" "rows_ok (ss_table s)" "counted s" and quiet: "pressing s = 0"
    by (simp_all add: orderly_def disciplined_def pressing_def)
  have "outstanding job s = 0" if "\<not> is_merging job (ss_queue s)"
    using not_merging[OF f(3) that] calm(1)[OF quiet, of job] by (simp add: outstanding_def)
  with stop_rows[OF f(2) stopped(1)] f(1) show ?case
    by (auto simp: reclaimed_def intro!: taken_settled[of s])
next
  case (closed s us job retained vs closed table)
  then have f: "fine s job" "rows_ok (ss_table s)" "counted s" and quiet: "pressing s = 0"
    by (simp_all add: orderly_def disciplined_def pressing_def)
  have "outstanding job s = 0" if "\<not> is_merging job (ss_queue s)"
    using not_merging[OF f(3) that] calm(1)[OF quiet, of job] by (simp add: outstanding_def)
  with take_closable_rows[OF f(2), of job closed table] closed(1,2) f(1) show ?case
    by (auto simp: reclaimed_def conclude_close_def idle_def split: if_splits intro!: taken_settled[of s])
qed (auto simp: reclaimed_def)

lemma orderly_reachable: "kept_reachable fs (s :: ('r, 's) session) \<Longrightarrow> orderly s"
proof (induction rule: kept_reachable.induct)
  case (fresh rows cols)
  have "rows_ok (ss_table (new_session rows cols :: ('r, 's) session))" "counted (new_session rows cols :: ('r, 's) session)"
    using reachable_rows[OF job_reachable.fresh] by blast+
  then show ?case
    by (simp add: orderly_def fine_def fine_parts_def outstanding_def new_session_def new_table_def new_queue_def owed_def job_status_def find_job_def)
next
  case (step s s')
  have "rows_ok (ss_table s')" "counted s'" using step rows_step counted_step by (auto simp: orderly_def)
  moreover have "settled_job s' (sb_id sandbox)" if "sandbox \<in> set (ss_reclaimed s')" for sandbox
    using that step settled_step[OF step(2,4,3)] reclaimed_step[OF step(2,4,3)]
    by (cases "sandbox \<in> set (ss_reclaimed s)") (auto simp: orderly_def)
  ultimately show ?case
    using fine_step[OF step(2,4,3)] step(3) by (simp add: orderly_def disciplined_def)
qed

end
