(* ===== verification/JobFates.thy ===== *)
theory JobFates
  imports JobSteps
begin

text \<open>
  Where jobs end: a stop that was accepted is final, a start that meets an unfinished spawn leaves
  the job unusable, and what happens between the reap of a command and its submission.
\<close>

section \<open>A stop is final\<close>

text \<open>A row of this name is closing, or there is none.\<close>

definition closed_for :: "shell_id \<Rightarrow> ('r, 's) job_table \<Rightarrow> bool" where
  "closed_for name table \<longleftrightarrow> (\<forall>job. find_job name table = Some job \<longrightarrow> closing job)"

lemma closes_modify:
  assumes "closed_for name table" "\<And>job. jb_id (f job) = jb_id job" "\<And>job. closing job \<Longrightarrow> closing (f job)"
  shows "closed_for name (modify_job m f table)"
  using assms by (auto simp: closed_for_def find_modify split: if_splits)

lemma closing_simps [simp]:
  "closing (job\<lparr>jb_resources := r\<rparr>) = closing job" "closing (job\<lparr>jb_starting := b\<rparr>) = closing job"
  "closing (job\<lparr>jb_done := d\<rparr>) = closing job" "closing (job\<lparr>jb_running := cmd\<rparr>) = closing job"
  "closing (job\<lparr>jb_close := Some Graceful\<rparr>)" "closing (job\<lparr>jb_close := Some Force\<rparr>)"
  by (simp_all add: closing_def)

lemma commanded_closing: "closing row \<Longrightarrow> closing (snd (commanded fs cmd pid started done_call row))"
  by (auto simp: commanded_def closing_def split: sum.split)

lemma find_removed:
  "rows_ok table \<Longrightarrow> jt_open table = us @ job # vs \<Longrightarrow>
   find_job n (table\<lparr>jt_open := us @ vs\<rparr>) = (if n = jb_id job then None else find_job n table)"
proof -
  assume ok: "rows_ok table" "jt_open table = us @ job # vs"
  show ?thesis
  proof (cases "n = jb_id job")
    case True
    with remove_row(2)[OF ok] have "job_status (table\<lparr>jt_open := us @ vs\<rparr>) n = None" by simp
    with True show ?thesis by (simp add: job_status_def)
  next
    case False
    then have "find (\<lambda>j. jb_id j = n) (us @ job # vs) = find (\<lambda>j. jb_id j = n) (us @ vs)" by (induction us) auto
    with False ok(2) show ?thesis by (simp add: find_job_def)
  qed
qed

lemma closes_taken:
  assumes "closed_for name table" "rows_ok table" "take_first P (jt_open table) = Some (job, rest)"
  shows "closed_for name (table\<lparr>jt_open := rest\<rparr>)"
proof -
  from take_first_Some[OF assms(3)] obtain us vs where "jt_open table = us @ job # vs" "rest = us @ vs" by blast
  with assms(1,2) find_removed[of table us job vs name] show ?thesis by (auto simp: closed_for_def split: if_splits)
qed

lemma closes_clear [simp]: "closed_for name (clear_current m table) = closed_for name table"
  by (simp add: closed_for_def)

lemma closes_remove: "closed_for name table \<Longrightarrow> rows_ok table \<Longrightarrow> closed_for name (remove_job m table)"
  using closes_taken by (fastforce simp: remove_job_def split: option.split)

lemma closes_take_closable:
  "closed_for name table \<Longrightarrow> rows_ok table \<Longrightarrow> take_closable m table = (closed, table') \<Longrightarrow> closed_for name table'"
  using closes_taken[of name table "closable m"] by (auto simp: take_closable_def split: option.splits)

lemma closes_same_open: "jt_open table' = jt_open table \<Longrightarrow> closed_for name table' = closed_for name table"
  by (simp add: closed_for_def find_job_def)

lemma closes_stop:
  assumes "closed_for name table" "rows_ok table" "stop fs m force queue table = (Inr closed, table')"
  shows "closed_for name table'"
proof -
  obtain job where vis: "visible m table = Some job"
    using assms(3) by (cases "visible m table") (simp_all add: stop_def)
  then have found: "find_job m table = Some job" by (simp add: visible_def split: option.splits if_splits)
  obtain job' where close: "close_job fs force job = Inr job'"
    using assms(3) vis by (cases "close_job fs force job") (simp_all add: stop_def)
  let ?f = "\<lambda>j. if j = job then job' else j"
  have f: "jb_id (?f j) = jb_id j" "jb_sandbox (?f j) = jb_sandbox j" "(jb_running (?f j) = None) = (jb_running j = None)"
    "jb_starting (?f j) = jb_starting j" "closing j \<Longrightarrow> closing (?f j)" for j
    using close_job_sel[OF close] by (auto simp: closing_def)
  have closed: "closed_for name (modify_job m ?f table)" by (rule closes_modify[OF assms(1) f(1,5)])
  have ok: "rows_ok (modify_job m ?f table)" using same_row_rows[OF assms(2) f(1-4)] by blast
  show ?thesis
  proof (cases "is_merging m queue")
    case True
    with assms(3) vis close closed show ?thesis by (simp add: stop_def Let_def modify_found[OF found])
  next
    case False
    with assms(3) vis close have "take_closable m (modify_job m ?f table) = (closed, table')"
      by (auto simp: stop_def Let_def modify_found[OF found] split: prod.splits)
    with closes_take_closable[OF closed ok] show ?thesis by blast
  qed
qed

lemma closes_failure_close:
  assumes "closed_for name table" "rows_ok table" "failure_close m retained table = (closed, table')"
  shows "closed_for name table'"
proof (cases "retained \<or> find_job m table = None")
  case True
  with assms show ?thesis by (auto simp: failure_close_def)
next
  case False
  let ?t = "modify_job m (\<lambda>job. job\<lparr>jb_close := Some Graceful\<rparr>) table"
  have "closed_for name ?t" by (rule closes_modify[OF assms(1)]) simp_all
  moreover have "rows_ok ?t" using same_row_rows[OF assms(2), of "\<lambda>job. job\<lparr>jb_close := Some Graceful\<rparr>" m] by simp
  ultimately show ?thesis using closes_take_closable False assms(3) by (auto simp: failure_close_def)
qed

lemma find_map_same: "(\<And>x. key (f x) = key x) \<Longrightarrow> find (\<lambda>x. key x = k) (map f xs) = map_option f (find (\<lambda>x. key x = k) xs)"
  by (induction xs) auto

definition shut_down_job :: "('s \<Rightarrow> mux_error + 's) \<Rightarrow> ('r, 's) job \<Rightarrow> ('r, 's) job" where
  "shut_down_job fs job = job\<lparr>jb_running := map_option (\<lambda>running. case fs (rn_started running) of
     Inl e \<Rightarrow> running | Inr started \<Rightarrow> running\<lparr>rn_started := started\<rparr>) (jb_running job), jb_done := None\<rparr>"

lemma shut_down_job_sel [simp]:
  "jb_id (shut_down_job fs job) = jb_id job" "jb_close (shut_down_job fs job) = jb_close job"
  "jb_starting (shut_down_job fs job) = jb_starting job" "(jb_running (shut_down_job fs job) = None) = (jb_running job = None)"
  by (simp_all add: shut_down_job_def)

lemma shutdown_jobs_map: "snd (snd (shutdown_jobs fs js)) = map (shut_down_job fs) js"
proof (induction js)
  case (Cons job js)
  obtain failure abandoned js' where "shutdown_jobs fs js = (failure, abandoned, js')" by (cases "shutdown_jobs fs js")
  with Cons show ?case
    by (cases "jb_running job"; cases "fs (rn_started (the (jb_running job)))") (simp_all add: shut_down_job_def Let_def)
qed simp

lemma shutdown_find: "find_job name (snd (snd (shutdown_table fs table))) = map_option (shut_down_job fs) (find_job name table)"
  using shutdown_jobs_map[of fs "jt_open table"]
  by (cases "shutdown_jobs fs (jt_open table)") (simp add: shutdown_table_def find_job_def find_map_same[where key = jb_id])

lemma released_find: "find_job name (drop_resources table) = map_option (\<lambda>job. job\<lparr>jb_resources := None\<rparr>) (find_job name table)"
  by (simp add: drop_resources_def find_job_def find_map_same[where key = jb_id])

text \<open>Once a row is closing, no step makes it open again, as long as the name is not given out anew.\<close>

lemma closes_step:
  "job_step fs s s' \<Longrightarrow> rows_ok (ss_table s) \<Longrightarrow> closed_for name (ss_table s) \<Longrightarrow>
   name \<in> set (ss_used s) \<Longrightarrow> distinct (ss_used s') \<Longrightarrow> closed_for name (ss_table s')"
proof (induction rule: job_step.induct)
  case (reserved new_sandbox asked cmd s job sandbox dims table)
  from spawn_reserve_rows[OF reserved(3) reserved(1)] have "job_status table = (job_status (ss_table s))(job \<mapsto> (False, cmd \<noteq> None))" by simp
  have same: "find_job name table = find_job name (ss_table s)"
  proof -
    obtain r t where id: "spawn_id asked (ss_table s) = (r, t)" by (cases "spawn_id asked (ss_table s)")
    with reserved(1) obtain row where "jt_open table = jt_open t @ [row]" "jb_id row = job"
      by (auto simp: spawn_reserve_def split: sum.splits)
    with spawn_id_rows[OF id] reserved(5,6) show ?thesis
      by (auto simp: find_job_def find_append split: option.split)
  qed
  with reserved(4) show ?case by (simp add: closed_for_def)
next
  case (reserve_failed new_sandbox asked cmd s e table)
  then have "jt_open table = jt_open (ss_table s)" using spawn_reserve_rows[OF reserve_failed(2) reserve_failed(1)] by simp
  from closes_same_open[OF this] reserve_failed(3) show ?case by simp
next
  case (published s us job cmd vs r dims table)
  then show ?case by (auto simp: publish_resources_def split: if_splits intro!: closes_modify)
next
  case (start job s table)
  then show ?case by (auto simp: start_reserve_def split: option.splits if_splits intro!: closes_modify)
next
  case (launch_failed s us job detached vs)
  then show ?case by (auto simp: launch_abandon_def intro!: closes_modify)
next
  case (launched s us job detached vs cmd pid started done_call result table)
  then show ?case by (auto simp: publish_command_def commanded_closing split: option.splits intro!: closes_modify)
next
  case (failed s us job retained vs)
  then show ?case by (auto simp: deliver_def intro!: closes_modify)
next
  case (delivered s us c vs)
  then show ?case by (auto simp: deliver_def intro!: closes_modify)
next
  case (failure_closed s us job retained vs closed table)
  then show ?case using closes_failure_close by fastforce
next
  case (kept s job)
  then show ?case by (auto simp: keep_def closing_def intro!: closes_modify)
next
  case (selected job s view table)
  then show ?case using closes_same_open[OF switch_select_rows[OF selected(1)]] by simp
next
  case (stopped job force s closed table)
  then show ?case using closes_stop by fastforce
next
  case (watched job done_call s registered table)
  then show ?case by (auto simp: on_finish_def split: option.splits if_splits intro!: closes_modify)
next
  case (resized rows cols s terminals table)
  then show ?case using closes_same_open[OF resize_rows[OF resized(1)]] by simp
next
  case (reaped job pid exit_status s c table)
  then show ?case by (auto simp: reap_def split: option.splits if_splits intro!: closes_modify)
next
  case (closed s us job retained vs closed table)
  then show ?case using closes_take_closable[of name "ss_table s" job closed table]
    by (auto simp: conclude_close_def split: if_splits)
next
  case (killed s failure abandoned table)
  then show ?case using shutdown_find[of name fs "ss_table s"] by (auto simp: closed_for_def closing_def)
next
  case (released s)
  then show ?case by (auto simp: closed_for_def released_find)
qed (simp_all add: closes_remove)

text \<open>Every row has a name that was given out.\<close>

definition named :: "('r, 's) session \<Rightarrow> bool" where
  "named s \<longleftrightarrow> (\<forall>n. n \<notin> set (ss_used s) \<longrightarrow> job_status (ss_table s) n = None)"

lemma named_less:
  "named s \<Longrightarrow> set (ss_used s) \<subseteq> set (ss_used s') \<Longrightarrow> (\<And>n. job_status (ss_table s) n = None \<Longrightarrow> job_status (ss_table s') n = None) \<Longrightarrow> named s'"
  by (auto simp: named_def)

lemma shutdown_status: "job_status (snd (snd (shutdown_table fs table))) name = job_status table name"
  by (cases "find_job name table") (simp_all add: job_status_def shutdown_find shut_down_job_def)

lemma released_status: "job_status (drop_resources table) name = job_status table name"
  by (cases "find_job name table") (simp_all add: job_status_def released_find)

lemma named_step: "job_step fs s s' \<Longrightarrow> rows_ok (ss_table s) \<Longrightarrow> named s \<Longrightarrow> named s'"
proof (induction rule: job_step.induct)
  case (reserved new_sandbox asked cmd s job sandbox dims table)
  with spawn_reserve_rows[OF reserved(3) reserved(1)] show ?case by (simp add: named_def)
next
  case (reserve_failed new_sandbox asked cmd s e table)
  then have "jt_open table = jt_open (ss_table s)" using spawn_reserve_rows[OF _ reserve_failed(1)] by simp
  from same_open[OF this] reserve_failed(3) show ?case by (simp add: named_def)
next
  case (published s us job cmd vs r dims table)
  with publish_resources_rows[OF _ published(2)] show ?case by (simp add: named_def)
next
  case (start job s table)
  with start_reserve_rows[OF _ start(1)] show ?case by (auto simp: named_def split: if_splits)
next
  case (launched s us job detached vs cmd pid started done_call result table)
  with publish_command_rows[OF _ launched(2)] show ?case by (auto intro!: named_less[OF launched.prems(2)])
next
  case (failed s us job retained vs)
  with deliver_rows[of "ss_table s" job] show ?case by (simp add: named_def)
next
  case (failure_closed s us job retained vs closed table)
  with failure_close_rows[OF _ failure_closed(2)] show ?case by (auto simp: named_def split: if_splits)
next
  case (kept s job)
  with keep_rows[of "ss_table s" job] show ?case by (simp add: named_def)
next
  case (selected job s view table)
  with same_open[OF switch_select_rows[OF selected(1)]] show ?case by (simp add: named_def)
next
  case (stopped job force s closed table)
  with stop_rows[OF _ stopped(1)] show ?case by (auto simp: named_def split: if_splits)
next
  case (watched job done_call s registered table)
  with on_finish_rows[OF _ watched(1)] show ?case by (simp add: named_def)
next
  case (resized rows cols s terminals table)
  with same_open[OF resize_rows[OF resized(1)]] show ?case by (simp add: named_def)
next
  case (reaped job pid exit_status s c table)
  with reap_rows[OF _ reaped(1)] show ?case by (auto simp: named_def split: if_splits)
next
  case (delivered s us c vs)
  with deliver_rows[of "ss_table s" "cn_id c"] show ?case by (simp add: named_def)
next
  case (closed s us job retained vs closed table)
  with take_closable_rows[of "ss_table s" job closed table] show ?case
    by (auto simp: named_def conclude_close_def split: if_splits)
next
  case (killed s failure abandoned table)
  then show ?case using shutdown_status[of fs "ss_table s"] by (simp add: named_def)
qed (auto simp: named_def remove_job_rows launch_abandon_rows released_status)

lemma named_reachable: "job_reachable fs s \<Longrightarrow> named s"
proof (induction rule: job_reachable.induct)
  case (fresh rows cols)
  then show ?case by (simp add: named_def new_session_def new_table_def job_status_def find_job_def)
next
  case (step s s')
  with reachable_rows[OF step(1)] named_step show ?case by blast
qed

lemma used_step: "job_step fs s s' \<Longrightarrow> \<exists>us. ss_used s' = us @ ss_used s"
  by (induction rule: job_step.induct) auto

lemma used_steps: "(job_step fs)\<^sup>*\<^sup>* s s' \<Longrightarrow> \<exists>us. ss_used s' = us @ ss_used s"
  by (induction rule: rtranclp_induct) (auto dest: used_step)

lemma closes_steps:
  "(job_step fs)\<^sup>*\<^sup>* s s' \<Longrightarrow> rows_ok (ss_table s) \<Longrightarrow> closed_for name (ss_table s) \<Longrightarrow> name \<in> set (ss_used s) \<Longrightarrow>
   distinct (ss_used s') \<Longrightarrow> rows_ok (ss_table s') \<and> closed_for name (ss_table s')"
proof (induction rule: rtranclp_induct)
  case (step s' s'')
  have "distinct (ss_used s')" "name \<in> set (ss_used s')"
    using step.prems used_step[OF step(2)] used_steps[OF step(1)] by auto
  then have "rows_ok (ss_table s') \<and> closed_for name (ss_table s')" using step by blast
  with closes_step[OF step(2)] rows_step[OF step(2)] \<open>name \<in> set (ss_used s')\<close> step.prems show ?case by blast
qed simp

lemma stop_closes:
  assumes "rows_ok table" "stop fs m force queue table = (Inr closed, table')"
  shows "closed_for m table'" "job_status table m \<noteq> None"
proof -
  obtain job where vis: "visible m table = Some job"
    using assms(2) by (cases "visible m table") (simp_all add: stop_def)
  then have found: "find_job m table = Some job" by (simp add: visible_def split: option.splits if_splits)
  then show "job_status table m \<noteq> None" by (simp add: job_status_def)
  obtain job' where close: "close_job fs force job = Inr job'"
    using assms(2) vis by (cases "close_job fs force job") (simp_all add: stop_def)
  let ?f = "\<lambda>j. if j = job then job' else j"
  have f: "jb_id (?f j) = jb_id j" "jb_sandbox (?f j) = jb_sandbox j" "(jb_running (?f j) = None) = (jb_running j = None)"
    "jb_starting (?f j) = jb_starting j" for j
    using close_job_sel[OF close] by auto
  have closed: "closed_for m (modify_job m ?f table)"
    using close_job_sel[OF close] find_modify[of ?f m m table] f(1) found by (auto simp: closed_for_def closing_def)
  have ok: "rows_ok (modify_job m ?f table)" using same_row_rows[OF assms(1) f(1-4)] by blast
  show "closed_for m table'"
  proof (cases "is_merging m queue")
    case True
    with assms(2) vis close closed show ?thesis by (simp add: stop_def Let_def modify_found[OF found])
  next
    case False
    with assms(2) vis close have "take_closable m (modify_job m ?f table) = (closed, table')"
      by (auto simp: stop_def Let_def modify_found[OF found] split: prod.splits)
    with closes_take_closable[OF \<open>closed_for m (modify_job m ?f table)\<close> ok] show ?thesis by blast
  qed
qed

section \<open>Automatic names\<close>

lemma next_name_spec:
  "next_name names counter = (name, counter') \<Longrightarrow>
   counter < counter' \<and> name = show_nat (counter' - 1) \<and> name \<notin> set names \<and> (\<forall>m \<in> {counter..<counter' - 1}. show_nat m \<in> set names)"
proof (induction names counter rule: next_name.induct)
  case (1 names counter)
  show ?case
  proof (cases "show_nat counter \<in> set names")
    case True
    with 1(2) have "next_name names (counter + 1) = (name, counter')" by (simp add: next_name.simps[of names counter])
    with 1(1)[OF True] have ih: "counter + 1 < counter'" "name = show_nat (counter' - 1)" "name \<notin> set names"
      "\<forall>m \<in> {counter + 1..<counter' - 1}. show_nat m \<in> set names" by blast+
    have "show_nat m \<in> set names" if "m \<in> {counter..<counter' - 1}" for m
      using that True ih(4) by (cases "m = counter") auto
    with ih(1-3) show ?thesis by (metis Suc_eq_plus1 Suc_lessD)
  next
    case False
    with 1 show ?thesis by (auto simp: next_name.simps[of names counter])
  qed
qed

lemma next_id_counter: "next_id table = (name, table') \<Longrightarrow> jt_counter table < jt_counter table' \<and> name = show_nat (jt_counter table' - 1)"
  using next_name_spec[of "map jb_id (jt_open table)" "jt_counter table"] by (auto simp: next_id_def split: prod.splits)

lemma spawn_counter:
  "spawn_id asked table = (result, table') \<Longrightarrow> jt_counter table \<le> jt_counter table'"
  using next_id_counter[of table] by (auto simp: spawn_id_def less_imp_le split: option.splits prod.splits if_splits)

lemma clear_current_counter [simp]: "jt_counter (clear_current name table) = jt_counter table"
  by (simp add: clear_current_def)

lemma modify_counter [simp]: "jt_counter (modify_job name f table) = jt_counter table"
  by (simp add: modify_job_def)

lemma take_closable_counter: "take_closable name table = (closed, table') \<Longrightarrow> jt_counter table' = jt_counter table"
  by (auto simp: take_closable_def split: option.splits)

lemma stop_counter: "stop fs name force queue table = (Inr closed, table') \<Longrightarrow> jt_counter table' = jt_counter table"
  by (auto simp: stop_def Let_def dest: take_closable_counter split: option.splits sum.splits if_splits prod.splits)

lemma counter_step: "job_step fs s s' \<Longrightarrow> jt_counter (ss_table s) \<le> jt_counter (ss_table s')"
proof (induction rule: job_step.induct)
  case (reserved new_sandbox asked cmd s job sandbox dims table)
  obtain r t where id: "spawn_id asked (ss_table s) = (r, t)" by (cases "spawn_id asked (ss_table s)")
  with reserved(1) have "jt_counter table = jt_counter t" by (auto simp: spawn_reserve_def split: sum.splits)
  with spawn_counter[OF id] show ?case by simp
next
  case (reserve_failed new_sandbox asked cmd s e table)
  obtain r t where id: "spawn_id asked (ss_table s) = (r, t)" by (cases "spawn_id asked (ss_table s)")
  with reserve_failed(1) have "jt_counter table = jt_counter t" by (auto simp: spawn_reserve_def split: sum.splits)
  with spawn_counter[OF id] show ?case by simp
next
  case (failure_closed s us job retained vs closed table)
  then show ?case by (auto simp: failure_close_def dest!: take_closable_counter split: if_splits)
next
  case (stopped job force s closed table)
  then show ?case by (auto dest: stop_counter)
next
  case (closed s us job retained vs closed table)
  then show ?case by (auto simp: conclude_close_def dest!: take_closable_counter split: if_splits)
qed (auto simp: publish_resources_def remove_job_def start_reserve_def launch_abandon_def publish_command_def deliver_def keep_def
  switch_select_def on_finish_def resize_def reap_def shutdown_table_def drop_resources_def
  split: option.splits if_splits sum.splits prod.splits)

lemma counter_steps: "(job_step fs)\<^sup>*\<^sup>* s s' \<Longrightarrow> jt_counter (ss_table s) \<le> jt_counter (ss_table s')"
  by (induction rule: rtranclp_induct) (auto dest: counter_step intro: le_trans)

section \<open>A start that meets an unfinished spawn\<close>

fun serves :: "shell_id \<Rightarrow> 's job_task \<Rightarrow> bool" where
  "serves name (Building job cmd) \<longleftrightarrow> job = name"
| "serves name (Resizing job cmd) \<longleftrightarrow> job = name"
| "serves name t \<longleftrightarrow> launches name t"

text \<open>The row says that a command is being started, and no task is starting one.\<close>

definition stranded :: "('r, 's) session \<Rightarrow> shell_id \<Rightarrow> bool" where
  "stranded s name \<longleftrightarrow> rows_ok (ss_table s) \<and> job_status (ss_table s) name = Some (False, True) \<and>
     (\<forall>t \<in> set (ss_tasks s). \<not> serves name t)"

lemma reports_serve [simp]: "t \<in> set (reports job detached retained) \<Longrightarrow> \<not> serves name t"
  by (auto simp: reports_def split: if_splits)

lemma stranded_row:
  "stranded s name \<Longrightarrow> job_step fs s s' \<Longrightarrow> job_status (ss_table s') name = Some (False, True) \<Longrightarrow>
   \<forall>t \<in> set (ss_tasks s'). \<not> serves name t \<Longrightarrow> stranded s' name"
  using rows_step by (auto simp: stranded_def)

lemma stranded_step_row: "job_step fs s s' \<Longrightarrow> stranded s name \<Longrightarrow> job_status (ss_table s') name = Some (False, True)"
proof (induction rule: job_step.induct)
  case (reserved new_sandbox asked cmd s job sandbox dims table)
  with spawn_reserve_rows[OF _ reserved(1)] show ?case by (auto simp: stranded_def)
next
  case (reserve_failed new_sandbox asked cmd s e table)
  then have "jt_open table = jt_open (ss_table s)" using spawn_reserve_rows[OF _ reserve_failed(1)] by (simp add: stranded_def)
  from same_open[OF this] reserve_failed(2) show ?case by (simp add: stranded_def)
next
  case (published s us job cmd vs r dims table)
  with publish_resources_rows[OF _ published(2)] show ?case by (simp add: stranded_def)
next
  case (start job s table)
  with start_reserve_rows[OF _ start(1)] show ?case by (auto simp: stranded_def)
next
  case (launched s us job detached vs cmd pid started done_call result table)
  with publish_command_rows[OF _ launched(2)] show ?case by (auto simp: stranded_def)
next
  case (failed s us job retained vs)
  with deliver_rows[of "ss_table s" job] show ?case by (simp add: stranded_def)
next
  case (failure_closed s us job retained vs closed table)
  with failure_close_rows[OF _ failure_closed(2)] show ?case by (auto simp: stranded_def)
next
  case (kept s job)
  with keep_rows[of "ss_table s" job] show ?case by (simp add: stranded_def)
next
  case (selected job s view table)
  with same_open[OF switch_select_rows[OF selected(1)]] show ?case by (simp add: stranded_def)
next
  case (stopped job force s closed table)
  with stop_rows[OF _ stopped(1)] show ?case by (auto simp: stranded_def)
next
  case (watched job done_call s registered table)
  with on_finish_rows[OF _ watched(1)] show ?case by (simp add: stranded_def)
next
  case (resized rows cols s terminals table)
  with same_open[OF resize_rows[OF resized(1)]] show ?case by (simp add: stranded_def)
next
  case (reaped job pid exit_status s c table)
  with reap_rows[OF _ reaped(1)] show ?case by (auto simp: stranded_def)
next
  case (delivered s us c vs)
  with deliver_rows[of "ss_table s" "cn_id c"] show ?case by (simp add: stranded_def)
next
  case (closed s us job retained vs closed table)
  with take_closable_rows[of "ss_table s" job closed table] show ?case
    by (auto simp: stranded_def conclude_close_def split: if_splits)
next
  case (killed s failure abandoned table)
  then show ?case using shutdown_status[of fs "ss_table s" name] by (simp add: stranded_def)
next
  case (released s)
  then show ?case by (simp add: stranded_def job_status_def released_find option.map_comp comp_def)
qed (auto simp: stranded_def remove_job_rows launch_abandon_rows)

lemma stranded_step: "job_step fs s s' \<Longrightarrow> stranded s name \<Longrightarrow> stranded s' name"
proof (rule stranded_row)
  assume step: "job_step fs s s'" and "stranded s name"
  then show "job_status (ss_table s') name = Some (False, True)" by (rule stranded_step_row)
  show "\<forall>t \<in> set (ss_tasks s'). \<not> serves name t"
    using step \<open>stranded s name\<close>
  proof (induction rule: job_step.induct)
    case (reserved new_sandbox asked cmd s job sandbox dims table)
    with spawn_reserve_rows[OF _ reserved(1)] show ?case by (auto simp: stranded_def)
  next
    case (start job s table)
    with start_reserve_rows[OF _ start(1)] show ?case by (auto simp: stranded_def)
  next
    case (launched s us job detached vs cmd pid started done_call result table)
    then show ?case by (cases result) (auto simp: stranded_def)
  qed (auto simp: stranded_def)
qed

lemma stranded_steps: "(job_step fs)\<^sup>*\<^sup>* s s' \<Longrightarrow> stranded s name \<Longrightarrow> stranded s' name"
  by (induction rule: rtranclp_induct) (auto intro: stranded_step)

text \<open>A stranded job takes no command, and no stop closes it.\<close>

lemma stranded_useless:
  assumes "stranded s name"
  shows "\<exists>e. start_reserve name (ss_table s) = (Inl e, ss_table s)"
    "\<nexists>closed table. stop fs name force queue (ss_table s) = (Inr (Some closed), table)"
proof -
  from assms obtain job where "find_job name (ss_table s) = Some job" "jb_starting job"
    by (auto simp: stranded_def job_status_def)
  then show "\<exists>e. start_reserve name (ss_table s) = (Inl e, ss_table s)" by (simp add: start_reserve_def)
  show "\<nexists>closed table. stop fs name force queue (ss_table s) = (Inr (Some closed), table)"
    using stop_rows[of "ss_table s" fs name force queue] assms by (fastforce simp: stranded_def)
qed

section \<open>Sessions that reach it\<close>

text \<open>Concrete sessions of one job.\<close>

definition box_of :: "shell_id \<Rightarrow> sandbox" where
  "box_of name = \<lparr>sb_id = name, sb_dir = [], sb_uid = name\<rparr>"

definition row_of_job :: "shell_id \<Rightarrow> 'r option \<Rightarrow> 's running option \<Rightarrow> bool \<Rightarrow> ('r, 's) job" where
  "row_of_job name resources running starting = \<lparr>jb_id = name, jb_sandbox = box_of name, jb_resources = resources,
     jb_running = running, jb_starting = starting, jb_close = None, jb_done = None\<rparr>"

definition one_job :: "shell_id \<Rightarrow> ('r, 's) job list \<Rightarrow> 's job_task list \<Rightarrow> sandbox list \<Rightarrow> ('r, 's) session" where
  "one_job name js tasks gone = \<lparr>ss_table = \<lparr>jt_open = js, jt_counter = 1, jt_current = None, jt_size = (24, 80)\<rparr>,
     ss_queue = new_queue, ss_tasks = tasks, ss_used = [name], ss_reclaimed = gone\<rparr>"

lemma one_job_sel [simp]:
  "ss_used (one_job name js tasks gone) = [name]" "ss_tasks (one_job name js tasks gone) = tasks"
  "ss_reclaimed (one_job name js tasks gone) = gone" "ss_queue (one_job name js tasks gone) = new_queue"
  "jt_open (ss_table (one_job name js tasks gone)) = js"
  by (simp_all add: one_job_def)

lemmas one_job_simps = one_job_def row_of_job_def box_of_def new_queue_def find_job_def modify_job_def

lemma opened_job:
  "job_step fs (new_session 24 80) (one_job name [row_of_job name None None (cmd \<noteq> None)] [Building name cmd] [])"
proof -
  have "spawn_reserve (\<lambda>n. Inr (box_of n)) (Some name) cmd (new_table 24 80) = (Inr (name, box_of name, 24, 80),
      ss_table (one_job name [row_of_job name None None (cmd \<noteq> None)] [Building name cmd] []))"
    by (simp add: spawn_reserve_def spawn_id_def new_table_def one_job_simps)
  then show ?thesis
    using job_step.reserved[of "\<lambda>n. Inr (box_of n)" "Some name" cmd "new_session 24 80" name "box_of name" "(24, 80)"
        "ss_table (one_job name [row_of_job name None None (cmd \<noteq> None)] [Building name cmd] [])" fs]
    by (simp add: new_session_def one_job_simps)
qed

lemma published_job:
  "job_step fs (one_job name [row_of_job name None running starting] (us @ Building name cmd # vs) [])
     (one_job name [row_of_job name (Some r) running starting] (us @ Resizing name cmd # vs) [])"
  using job_step.published[of "one_job name [row_of_job name None running starting] (us @ Building name cmd # vs) []" us name cmd vs r
      "(24, 80)" "ss_table (one_job name [row_of_job name (Some r) running starting] [] [])" fs]
  by (simp add: publish_resources_def one_job_simps)

lemma built_job:
  "job_step fs (one_job name js (us @ Resizing name cmd # vs) []) (one_job name js (us @ (if cmd = None then [] else [Launching name True]) @ vs) [])"
  using job_step.built[of "one_job name js (us @ Resizing name cmd # vs) []" us name cmd vs fs] by (simp add: one_job_simps)

lemma started_job:
  "job_step fs (one_job name [row_of_job name r None False] tasks []) (one_job name [row_of_job name r None True] (Waiting name # tasks) [])"
  using job_step.start[of name "one_job name [row_of_job name r None False] tasks []"
      "ss_table (one_job name [row_of_job name r None True] [] [])" fs]
  by (simp add: start_reserve_def closing_def one_job_simps)

lemma woken_job:
  "job_step fs (one_job name js (Waiting name # tasks) []) (one_job name js (Launching name False # tasks) [])"
  using job_step.woken[of "one_job name js (Waiting name # tasks) []" "[]" name tasks fs]
  by (simp add: wait_over_def is_merging_def one_job_simps)

lemma lost_job:
  "job_step fs (one_job name [row_of_job name None None True] (Launching name False # tasks) []) (one_job name [row_of_job name None None True] tasks [])"
  using job_step.lookup_failed[of "one_job name [row_of_job name None None True] (Launching name False # tasks) []" "[]" name False tasks
      "NoSuchJob name" fs]
  by (simp add: launch_lookup_def reports_def one_job_simps)

lemma one_job_disciplined:
  "pressing s = 0 \<Longrightarrow> disciplined s (one_job name js' ts' gone')"
  by (simp add: disciplined_def one_job_def new_queue_def)

lemma stranded_reached:
  fixes fs :: "'s \<Rightarrow> mux_error + 's" and r :: 'r
  shows "\<exists>s :: ('r, 's) session. kept_reachable fs s \<and> ss_tasks s = [] \<and> find_job name (ss_table s) \<noteq> None \<and> stranded s name"
proof -
  let ?row = "\<lambda>r b. row_of_job name r None b :: ('r, 's) job"
  note go = kept_reachable.step[where fs = fs, OF _ _ one_job_disciplined]
  have "kept_reachable fs (one_job name [?row None False] [Building name None] [])"
    using go[OF kept_reachable.fresh opened_job[where cmd = None and name = name]] by (simp add: pressing_def new_session_def)
  from go[OF this started_job] have
    "kept_reachable fs (one_job name [?row None True] [Waiting name, Building name None] [])" by (simp add: pressing_def)
  from go[OF this woken_job] have
    "kept_reachable fs (one_job name [?row None True] [Launching name False, Building name None] [])" by (simp add: pressing_def)
  from go[OF this lost_job] have
    "kept_reachable fs (one_job name [?row None True] [Building name None] [])" by (simp add: pressing_def)
  from go[OF this published_job[where us = "[]" and vs = "[]", simplified]] have
    "kept_reachable fs (one_job name [?row (Some r) True] [Resizing name None] [])" by (simp add: pressing_def)
  from go[OF this built_job[where us = "[]" and vs = "[]", simplified]] have
    "kept_reachable fs (one_job name [?row (Some r) True] [] [])" by (simp add: pressing_def)
  moreover have "stranded (one_job name [?row (Some r) True] [] []) name"
    by (simp add: stranded_def rows_ok_def job_status_def one_job_simps)
  moreover have "find_job name (ss_table (one_job name [?row (Some r) True] [] [])) \<noteq> None" by (simp add: one_job_simps)
  ultimately show ?thesis using one_job_sel(2) by blast
qed

section \<open>Between the reap and the submission\<close>

text \<open>
  A reaped command is in no table and in no queue until it is submitted, so a stop that comes between
  the two closes the job, and a start finds nothing to wait for.
\<close>

definition unsubmitted :: "shell_id \<Rightarrow> ('r, 's) session \<Rightarrow> bool" where
  "unsubmitted name s \<longleftrightarrow> distinct (ss_used s) \<and> \<not> cq_closed (ss_queue s) \<and> tally (reaps name) (ss_tasks s) = 1"

lemma found_job:
  "job_step fs (one_job name [row_of_job name (Some r) None True] [Launching name detached] [])
     (one_job name [row_of_job name (Some r) None True] [Prepared name detached] [])"
  using job_step.looked_up[of "one_job name [row_of_job name (Some r) None True] [Launching name detached] []" "[]" name detached "[]"
      "(box_of name, r)" fs]
  by (simp add: launch_lookup_def one_job_simps)

lemma ran_job:
  "job_step fs (one_job name [row_of_job name r None True] [Prepared name detached] [])
     (one_job name [row_of_job name r (Some \<lparr>rn_cmd = cmd, rn_pid = pid, rn_started = started\<rparr>) False] [] [])"
  using job_step.launched[of "one_job name [row_of_job name r None True] [Prepared name detached] []" "[]" name detached "[]" fs cmd pid
      started None "Inr ()" "ss_table (one_job name [row_of_job name r (Some \<lparr>rn_cmd = cmd, rn_pid = pid, rn_started = started\<rparr>) False] [] [])"]
  by (simp add: publish_command_def commanded_def retired_def one_job_simps)

lemma reaped_job:
  "job_step fs (one_job name [row_of_job name r (Some \<lparr>rn_cmd = cmd, rn_pid = pid, rn_started = started\<rparr>) False] [] [])
     (one_job name [row_of_job name r None False] [Reaped \<lparr>cn_id = name, cn_started = started, cn_status = code\<rparr>] [])"
  using job_step.reaped[of name pid code
      "one_job name [row_of_job name r (Some \<lparr>rn_cmd = cmd, rn_pid = pid, rn_started = started\<rparr>) False] [] []"
      "\<lparr>cn_id = name, cn_started = started, cn_status = code\<rparr>" "ss_table (one_job name [row_of_job name r None False] [] [])" fs]
  by (simp add: reap_def one_job_simps)

lemma stopped_job:
  "job_step fs (one_job name [row_of_job name r None False] tasks []) (one_job name [] tasks [box_of name])"
  using job_step.stopped[of fs name False "one_job name [row_of_job name r None False] tasks []" "Some (box_of name, Graceful, r)"
      "ss_table (one_job name [] [] [])"]
  by (simp add: stop_def visible_def retired_def close_job_def is_merging_def take_closable_def closable_def clear_current_def
    reclaimed_def one_job_simps)

lemma launching_reached:
  fixes fs :: "'s \<Rightarrow> mux_error + 's" and r :: 'r
  shows "kept_reachable fs (one_job name [row_of_job name (Some r) None True :: ('r, 's) job] [Launching name True] [])"
proof -
  let ?row = "\<lambda>r b. row_of_job name r None b :: ('r, 's) job"
  note go = kept_reachable.step[where fs = fs, OF _ _ one_job_disciplined]
  have "kept_reachable fs (one_job name [?row None True] [Building name (Some cmd)] [])" for cmd
    using go[OF kept_reachable.fresh opened_job[where cmd = "Some cmd" and name = name]] by (simp add: pressing_def new_session_def)
  from go[OF this published_job[where us = "[]" and vs = "[]", simplified]] have
    "kept_reachable fs (one_job name [?row (Some r) True] [Resizing name (Some cmd)] [])" for cmd by (simp add: pressing_def)
  from go[OF this built_job[where us = "[]" and vs = "[]", simplified]] show ?thesis by (simp add: pressing_def)
qed

lemma window_reached:
  fixes fs :: "'s \<Rightarrow> mux_error + 's" and r :: 'r
  shows "\<exists>c. job_reachable fs (one_job name [row_of_job name (Some r) None False :: ('r, 's) job] [Reaped c] []) \<and> cn_id c = name"
proof -
  note go = job_reachable.step[where fs = fs]
  from go[OF go[OF go[OF kept_reachable_reachable[OF launching_reached] found_job] ran_job] reaped_job] show ?thesis by force
qed

text \<open>A name that was given up is free to be asked for again.\<close>

lemma name_given_twice:
  fixes fs :: "'s \<Rightarrow> mux_error + 's"
  shows "\<exists>s :: ('r, 's) session. job_reachable fs s \<and> ss_used s = [name, name] \<and> (\<exists>sandbox \<in> set (ss_reclaimed s). sb_id sandbox = name)"
proof -
  obtain c where reach: "job_reachable fs (one_job name [row_of_job name (Some undefined) None False :: ('r, 's) job] [Reaped c] [])"
    using window_reached[of fs name "undefined :: 'r"] by metis
  let ?s = "one_job name [] [Reaped c] [box_of name] :: ('r, 's) session"
  have s: "job_reachable fs ?s" using job_reachable.step[OF reach stopped_job] .
  have "spawn_reserve (\<lambda>n. Inr (box_of n)) (Some name) None (ss_table ?s) = (Inr (name, box_of name, 24, 80),
      ss_table (one_job name [row_of_job name None None False] [] []))"
    by (simp add: spawn_reserve_def spawn_id_def one_job_simps)
  from job_reachable.step[OF s job_step.reserved[OF this]] show ?thesis
    by (intro exI conjI) (auto simp: box_of_def)
qed

text \<open>The two races: the storage is gone, and a second command is launched, while the first is not concluded.\<close>

lemma window_races:
  fixes fs :: "'s \<Rightarrow> mux_error + 's" and r :: 'r
  shows "\<exists>s :: ('r, 's) session. job_reachable fs s \<and> unsubmitted name s \<and> (\<exists>sandbox \<in> set (ss_reclaimed s). sb_id sandbox = name)"
    "\<exists>s :: ('r, 's) session. job_reachable fs s \<and> unsubmitted name s \<and> Launching name False \<in> set (ss_tasks s)"
proof -
  note go = job_reachable.step[where fs = fs]
  obtain c where r: "job_reachable fs (one_job name [row_of_job name (Some r) None False :: ('r, 's) job] [Reaped c] [])" "cn_id c = name"
    using window_reached[of fs name r] by blast
  have "unsubmitted name (one_job name [] [Reaped c] [box_of name])" "sb_id (box_of name) = name"
    using r(2) by (simp_all add: unsubmitted_def new_queue_def box_of_def)
  with go[OF r(1) stopped_job] one_job_sel(3)[of name "[]" "[Reaped c]" "[box_of name]"]
  show "\<exists>s :: ('r, 's) session. job_reachable fs s \<and> unsubmitted name s \<and> (\<exists>sandbox \<in> set (ss_reclaimed s). sb_id sandbox = name)"
    by (metis list.set_intros(1))
  have "unsubmitted name (one_job name js [Launching name False, Reaped c] [])" for js
    using r(2) by (simp add: unsubmitted_def new_queue_def)
  with go[OF go[OF r(1) started_job] woken_job]
  show "\<exists>s :: ('r, 's) session. job_reachable fs s \<and> unsubmitted name s \<and> Launching name False \<in> set (ss_tasks s)"
    by (metis list.set_intros(1) one_job_sel(2))
qed

end
