(* ===== verification/Locks.thy ===== *)
theory Locks
  imports Main
begin

text \<open>
  The order the two locks of the job machinery are taken in, the queue of conclusions and the job
  table. An operation of \<^verbatim>\<open>jobs.rs\<close> is the list of its acquisitions and releases; threads that each run
  one are interleaved in any order.
\<close>

section \<open>Threads\<close>

datatype mutex = QueueLock | TableLock

datatype lock_op = Acquire mutex | Release mutex

type_synonym thread = "mutex set \<times> lock_op list"

inductive lock_step :: "thread list \<Rightarrow> thread list \<Rightarrow> bool" where
  acquire: "i < length ts \<Longrightarrow> ts ! i = (held, Acquire m # ops) \<Longrightarrow> \<forall>t \<in> set ts. m \<notin> fst t \<Longrightarrow>
    lock_step ts (ts[i := (insert m held, ops)])"
| release: "i < length ts \<Longrightarrow> ts ! i = (held, Release m # ops) \<Longrightarrow> m \<in> held \<Longrightarrow>
    lock_step ts (ts[i := (held - {m}, ops)])"

definition idle_thread :: "lock_op list \<Rightarrow> thread" where
  "idle_thread ops = ({}, ops)"

definition deadlocked :: "thread list \<Rightarrow> bool" where
  "deadlocked ts \<longleftrightarrow> (\<exists>t \<in> set ts. snd t \<noteq> []) \<and> (\<forall>ts'. \<not> lock_step ts ts')"

section \<open>The operations\<close>

text \<open>One critical section on one lock, as most operations are.\<close>

definition under :: "mutex \<Rightarrow> lock_op list" where
  "under m = [Acquire m, Release m]"

text \<open>\<open>stop\<close> takes the queue and then, still holding it, the table.\<close>

definition stop_locks :: "lock_op list" where
  "stop_locks = [Acquire QueueLock, Acquire TableLock, Release TableLock, Release QueueLock]"

text \<open>
  The end of \<open>conclude_one\<close>: the queue is taken and dropped, \<open>finish\<close> takes and drops it, and then
  \<open>idle\<close> takes it while the table is held.
\<close>

definition conclude_locks :: "lock_op list" where
  "conclude_locks = under QueueLock @ under QueueLock @
     [Acquire TableLock, Acquire QueueLock, Release QueueLock, Release TableLock]"

text \<open>The critical sections of the other operations, in their order.\<close>

definition start_in_locks :: "lock_op list" where
  "start_in_locks = under TableLock @ under QueueLock @ under TableLock @ under TableLock"

definition reap_locks :: "lock_op list" where
  "reap_locks = under TableLock @ under QueueLock"

definition failure_locks :: "lock_op list" where
  "failure_locks = under TableLock @ under TableLock"

definition shutdown_locks :: "lock_op list" where
  "shutdown_locks = under QueueLock @ under TableLock @ under TableLock"

section \<open>Operations that take the queue first\<close>

fun ordered :: "mutex set \<Rightarrow> lock_op list \<Rightarrow> bool" where
  "ordered held [] \<longleftrightarrow> held = {}"
| "ordered held (Acquire m # ops) \<longleftrightarrow> m \<notin> held \<and> (m = QueueLock \<longrightarrow> TableLock \<notin> held) \<and> ordered (insert m held) ops"
| "ordered held (Release m # ops) \<longleftrightarrow> m \<in> held \<and> ordered (held - {m}) ops"

text \<open>Every thread keeps to the order, and no lock is held twice.\<close>

definition lawful :: "thread list \<Rightarrow> bool" where
  "lawful ts \<longleftrightarrow> (\<forall>t \<in> set ts. ordered (fst t) (snd t)) \<and>
     (\<forall>i < length ts. \<forall>j < length ts. i \<noteq> j \<longrightarrow> fst (ts ! i) \<inter> fst (ts ! j) = {})"

lemma lawful_start: "\<forall>ops \<in> set opss. ordered {} ops \<Longrightarrow> lawful (map idle_thread opss)"
  by (auto simp: lawful_def idle_thread_def)

lemma lawful_update:
  assumes "lawful ts" "i < length ts" "ordered held ops" "\<forall>j < length ts. j \<noteq> i \<longrightarrow> held \<inter> fst (ts ! j) = {}"
  shows "lawful (ts[i := (held, ops)])"
proof -
  have "\<forall>t \<in> set (ts[i := (held, ops)]). ordered (fst t) (snd t)"
    using assms(1,3) set_update_subset_insert[of ts i "(held, ops)"] by (auto simp: lawful_def)
  with assms show ?thesis by (auto simp: lawful_def nth_list_update)
qed

lemma lawful_step: "lock_step ts ts' \<Longrightarrow> lawful ts \<Longrightarrow> lawful ts'"
proof (induction rule: lock_step.induct)
  case (acquire i ts held m ops)
  have "ordered held (Acquire m # ops)"
    using acquire(1,2,4) nth_mem[OF acquire(1)] by (fastforce simp: lawful_def)
  moreover have "\<forall>j < length ts. j \<noteq> i \<longrightarrow> insert m held \<inter> fst (ts ! j) = {}"
    using acquire by (auto simp: lawful_def) (metis fst_conv Int_iff empty_iff)+
  ultimately show ?case using acquire(1,4) by (intro lawful_update) simp_all
next
  case (release i ts held m ops)
  have "ordered held (Release m # ops)"
    using release(1,2,4) nth_mem[OF release(1)] by (fastforce simp: lawful_def)
  moreover have "\<forall>j < length ts. j \<noteq> i \<longrightarrow> held \<inter> fst (ts ! j) = {}"
    using release by (auto simp: lawful_def) (metis fst_conv Int_iff empty_iff)+
  ultimately show ?case using release(1,4) by (intro lawful_update) auto
qed

lemma lawful_steps: "lock_step\<^sup>*\<^sup>* ts ts' \<Longrightarrow> lawful ts \<Longrightarrow> lawful ts'"
  by (induction rule: rtranclp_induct) (auto simp: lawful_step)

text \<open>The thread that holds the last lock of the order can go on, and with no lock held any thread can.\<close>

lemma lawful_progress:
  assumes "lawful ts" "t \<in> set ts" "snd t \<noteq> []"
  shows "\<exists>ts'. lock_step ts ts'"
proof -
  have go: "\<exists>ts'. lock_step ts ts'"
    if t: "t \<in> set ts" "snd t \<noteq> []" and free: "\<And>m ops. snd t = Acquire m # ops \<Longrightarrow> \<forall>t' \<in> set ts. m \<notin> fst t'" for t
  proof -
    obtain i held ops where i: "i < length ts" "ts ! i = (held, ops)" "t = (held, ops)"
      using t(1) by (metis in_set_conv_nth surj_pair)
    have o: "ordered held ops" using assms(1) t(1) i(3) by (auto simp: lawful_def)
    show ?thesis
    proof (cases "(held, ops)" rule: ordered.cases)
      case (2 h m rest)
      with i free[of m rest] show ?thesis using lock_step.acquire[of i ts held m rest] by auto
    next
      case (3 h m rest)
      with i o show ?thesis using lock_step.release[of i ts held m rest] by auto
    qed (use t(2) i(3) in auto)
  qed
  have needs: "snd t' \<noteq> []" if "t' \<in> set ts" "fst t' \<noteq> {}" for t'
    using assms(1) that by (cases t'; cases "snd t'") (auto simp: lawful_def)
  show ?thesis
  proof (cases "\<exists>t' \<in> set ts. TableLock \<in> fst t'")
    case True
    then obtain t' where t': "t' \<in> set ts" "TableLock \<in> fst t'" by blast
    have "\<not> snd t' = Acquire m # ops" for m ops
      using assms(1) t' by (cases m; cases t') (force simp: lawful_def)+
    with go[OF t'(1)] needs[OF t'(1)] t'(2) show ?thesis by blast
  next
    case table: False
    show ?thesis
    proof (cases "\<exists>t' \<in> set ts. QueueLock \<in> fst t'")
      case True
      then obtain t' where t': "t' \<in> set ts" "QueueLock \<in> fst t'" by blast
      have "m = TableLock" if "snd t' = Acquire m # ops" for m ops
        using assms(1) t' that by (cases m; cases t') (force simp: lawful_def)+
      with go[OF t'(1)] needs[OF t'(1)] t'(2) table show ?thesis by blast
    next
      case False
      have "m' \<notin> fst t'" if "t' \<in> set ts" for m' t' using False table that by (cases m') auto
      with go[OF assms(2,3)] show ?thesis by blast
    qed
  qed
qed

lemma ordered_operations:
  "ordered {} (under m)" "ordered {} stop_locks" "ordered {} start_in_locks" "ordered {} reap_locks"
  "ordered {} failure_locks" "ordered {} shutdown_locks"
  by (simp_all add: under_def stop_locks_def start_in_locks_def reap_locks_def failure_locks_def shutdown_locks_def)

section \<open>The one that does not\<close>

definition stop_waits :: thread where
  "stop_waits = ({QueueLock}, [Acquire TableLock, Release TableLock, Release QueueLock])"

definition conclude_waits :: thread where
  "conclude_waits = ({TableLock}, [Acquire QueueLock, Release QueueLock, Release TableLock])"

lemma second_steps:
  "QueueLock \<notin> fst t \<Longrightarrow> lock_step\<^sup>*\<^sup>* [t, ({}, under QueueLock @ ops)] [t, ({}, ops)]"
  "TableLock \<notin> fst t \<Longrightarrow> lock_step\<^sup>*\<^sup>* [t, ({}, Acquire TableLock # ops)] [t, ({TableLock}, ops)]"
proof -
  assume q: "QueueLock \<notin> fst t"
  have "lock_step [t, ({}, under QueueLock @ ops)] [t, ({QueueLock}, Release QueueLock # ops)]"
    using lock_step.acquire[of 1 "[t, ({}, under QueueLock @ ops)]" "{}" QueueLock "Release QueueLock # ops"] q by (simp add: under_def)
  moreover have "lock_step [t, ({QueueLock}, Release QueueLock # ops)] [t, ({}, ops)]"
    using lock_step.release[of 1 "[t, ({QueueLock}, Release QueueLock # ops)]" "{QueueLock}" QueueLock ops] by simp
  ultimately show "lock_step\<^sup>*\<^sup>* [t, ({}, under QueueLock @ ops)] [t, ({}, ops)]" by simp
next
  assume "TableLock \<notin> fst t"
  then show "lock_step\<^sup>*\<^sup>* [t, ({}, Acquire TableLock # ops)] [t, ({TableLock}, ops)]"
    using lock_step.acquire[of 1 "[t, ({}, Acquire TableLock # ops)]" "{}" TableLock ops] by auto
qed

lemma waits_reached: "lock_step\<^sup>*\<^sup>* [idle_thread stop_locks, idle_thread conclude_locks] [stop_waits, conclude_waits]"
proof -
  let ?s = "idle_thread stop_locks"
  have q: "QueueLock \<notin> fst ?s" "TableLock \<notin> fst ?s" by (simp_all add: idle_thread_def)
  have "lock_step\<^sup>*\<^sup>* [?s, idle_thread conclude_locks] [?s, conclude_waits]"
    unfolding conclude_locks_def idle_thread_def[of "under _ @ _"] conclude_waits_def
    by (rule rtranclp_trans[OF second_steps(1)[OF q(1)] rtranclp_trans[OF second_steps(1)[OF q(1)] second_steps(2)[OF q(2)]]])
  moreover have "lock_step [?s, conclude_waits] [stop_waits, conclude_waits]"
    using lock_step.acquire[of 0 "[?s, conclude_waits]" "{}" QueueLock "tl stop_locks"]
    by (simp add: idle_thread_def stop_locks_def conclude_waits_def stop_waits_def)
  ultimately show ?thesis by simp
qed

lemma waits_forever: "deadlocked [stop_waits, conclude_waits]"
proof -
  have "\<not> lock_step [stop_waits, conclude_waits] ts'" for ts'
    by (auto elim!: lock_step.cases simp: less_Suc_eq stop_waits_def conclude_waits_def nth_Cons')
  then show ?thesis by (simp add: deadlocked_def stop_waits_def)
qed

end
