(* ===== verification/Reconcile.thy ===== *)
theory Reconcile
  imports GitPolicy GitCommand
begin

text \<open>
  Releasing claims at startup, \<^verbatim>\<open>shellmux/src/reconcile.rs\<close>, with the search for a repository of
  \<^verbatim>\<open>marsh-exec/src/gitshell.rs\<close>. The git library is two parameters, opening a repository and the status
  of a file in it; whether a directory holds a repository is a question to the file system, a
  parameter too.
\<close>

section \<open>Finding the repository\<close>

text \<open>\<open>Path::parent\<close>.\<close>

definition parent_path :: "part list \<Rightarrow> part list option" where
  "parent_path p = (if p = [] \<or> last p = RootDir then None else Some (butlast p))"

function repo_root :: "(part list \<Rightarrow> bool) \<Rightarrow> part list \<Rightarrow> part list \<Rightarrow> part list option" where
  "repo_root exists directory boundary =
     (if \<not> prefix boundary directory then None
      else if exists (directory @ [Normal ''.git'']) then Some directory
      else case parent_path directory of
        None \<Rightarrow> None
      | Some upper \<Rightarrow> repo_root exists upper boundary)"
  by pat_completeness auto
termination by (relation "measure (\<lambda>(exists, directory, boundary). length directory)") (auto simp: parent_path_def split: if_splits)

declare repo_root.simps [simp del]

definition repo_relative :: "part list \<Rightarrow> part list \<Rightarrow> string list option" where
  "repo_relative root full = (case relative_segments root full of
     None \<Rightarrow> None
   | Some segments \<Rightarrow> if segments = [] \<or> hd segments = ''.git'' then None else Some segments)"

text \<open>What is found is the nearest directory with a repository, at or above the start and inside the boundary.\<close>

lemma repo_root_Some:
  "repo_root exists directory boundary = Some root \<Longrightarrow>
   prefix root directory \<and> prefix boundary root \<and> exists (root @ [Normal ''.git'']) \<and>
   (\<forall>between. prefix between directory \<longrightarrow> strict_prefix root between \<longrightarrow> \<not> exists (between @ [Normal ''.git'']))"
proof (induction exists directory boundary rule: repo_root.induct)
  case (1 exists directory boundary)
  then have inside: "prefix boundary directory" by (auto simp: repo_root.simps[of exists directory] split: if_splits)
  show ?case
  proof (cases "exists (directory @ [Normal ''.git''])")
    case True
    with 1(2) inside have "root = directory" by (simp add: repo_root.simps[of exists directory])
    with True inside show ?thesis by (auto simp: strict_prefix_def)
  next
    case False
    with 1(2) inside obtain upper where upper: "parent_path directory = Some upper" "repo_root exists upper boundary = Some root"
      by (auto simp: repo_root.simps[of exists directory] split: option.splits)
    from 1(1)[OF _ False upper] inside have ih: "prefix root upper \<and> prefix boundary root \<and> exists (root @ [Normal ''.git'']) \<and>
      (\<forall>between. prefix between upper \<longrightarrow> strict_prefix root between \<longrightarrow> \<not> exists (between @ [Normal ''.git'']))" by simp
    have "directory = upper @ [last directory]" using upper(1) by (auto simp: parent_path_def split: if_splits)
    then have "prefix between upper \<or> between = directory" if "prefix between directory" for between
      using that by (metis prefix_snoc)
    with ih False \<open>directory = upper @ [last directory]\<close> show ?thesis by (metis prefix_def prefix_order.trans)
  qed
qed

section \<open>The git library\<close>

datatype status_flag =
    IndexNew | IndexModified | IndexDeleted | IndexRenamed | IndexTypechange
  | WtNew | WtModified | WtDeleted | WtTypechange | WtRenamed | WtUnreadable
  | IgnoredFile | Conflicted

datatype status_failure = StatusNotFound | StatusFailed

definition worktree_dirty :: "status_flag list \<Rightarrow> bool" where
  "worktree_dirty status \<longleftrightarrow>
     (\<exists>f \<in> set status. f \<in> {WtNew, WtModified, WtDeleted, WtTypechange, WtRenamed, WtUnreadable, Conflicted})"

definition staged_in_index :: "status_flag list \<Rightarrow> bool" where
  "staged_in_index status \<longleftrightarrow> (\<exists>f \<in> set status. f \<in> {IndexNew, IndexModified, IndexDeleted, IndexRenamed, IndexTypechange})"

record 'g git_world =
  gw_seed :: "part list"
  gw_exists :: "part list \<Rightarrow> bool"
  gw_open :: "part list \<Rightarrow> 'g option"
  gw_status :: "'g \<Rightarrow> part list \<Rightarrow> status_failure + status_flag list"

section \<open>Reconciliation\<close>

datatype claimed_row = ClaimsUnstaged | ClaimsStaged

fun claimed_row_of :: "action \<Rightarrow> claimed_row option" where
  "claimed_row_of Edit = Some ClaimsUnstaged"
| "claimed_row_of Unstage = Some ClaimsUnstaged"
| "claimed_row_of Stage = Some ClaimsStaged"
| "claimed_row_of action.Delete = Some ClaimsStaged"
| "claimed_row_of (Commit m) = None"
| "claimed_row_of Checkout = None"
| "claimed_row_of Stash = None"
| "claimed_row_of Read = None"
| "claimed_row_of Diff = None"
| "claimed_row_of History = None"
| "claimed_row_of Clean = None"

text \<open>Resources name files of the seed by plain segments.\<close>

definition absolute_of :: "'g git_world \<Rightarrow> resource \<Rightarrow> part list" where
  "absolute_of w r = gw_seed w @ map Normal r"

definition shows_row :: "claimed_row \<Rightarrow> status_failure + status_flag list \<Rightarrow> bool" where
  "shows_row row answer = (case answer of
     Inl StatusNotFound \<Rightarrow> False
   | Inl StatusFailed \<Rightarrow> True
   | Inr status \<Rightarrow> (case row of
       ClaimsUnstaged \<Rightarrow> worktree_dirty status
     | ClaimsStaged \<Rightarrow> staged_in_index status \<and> \<not> worktree_dirty status))"

text \<open>The repositories opened so far are remembered by their root.\<close>

definition corroborated :: "'g git_world \<Rightarrow> event \<Rightarrow> (part list \<rightharpoonup> 'g option) \<Rightarrow> bool \<times> (part list \<rightharpoonup> 'g option)" where
  "corroborated w e repositories = (case claimed_row_of (ev_action e) of
     None \<Rightarrow> (False, repositories)
   | Some row \<Rightarrow> (case parent_path (absolute_of w (ev_resource e)) of
       None \<Rightarrow> (False, repositories)
     | Some parent \<Rightarrow> (case repo_root (gw_exists w) parent (gw_seed w) of
         None \<Rightarrow> (False, repositories)
       | Some root \<Rightarrow>
           let repository = (case repositories root of None \<Rightarrow> gw_open w root | Some r \<Rightarrow> r);
               repositories' = (case repositories root of None \<Rightarrow> repositories(root \<mapsto> repository) | Some r \<Rightarrow> repositories) in
           (case repository of
              None \<Rightarrow> True
            | Some g \<Rightarrow> shows_row row (gw_status w g (drop (length root) (absolute_of w (ev_resource e)))),
            repositories'))))"

fun retain :: "'g git_world \<Rightarrow> event list \<Rightarrow> nat list \<Rightarrow> (part list \<rightharpoonup> 'g option) \<Rightarrow> nat list" where
  "retain w history [] repositories = []"
| "retain w history (i # is) repositories =
     (let (kept, repositories') = corroborated w (history ! i) repositories in
      if kept then i # retain w history is repositories' else retain w history is repositories')"

text \<open>The walk of the history that moves each survivor out.\<close>

fun move_out :: "(nat \<times> event) list \<Rightarrow> nat list \<Rightarrow> event list" where
  "move_out [] is = []"
| "move_out ((index, e) # es) is = (case is of
     [] \<Rightarrow> move_out es []
   | i # rest \<Rightarrow> if i = index then e # move_out es rest else move_out es is)"

definition reconcile :: "'g git_world \<Rightarrow> event list \<Rightarrow> event list" where
  "reconcile w history =
     move_out (enumerate 0 history) (retain w history (active_git_capability_indices history) Map.empty)"

section \<open>What it keeps\<close>

text \<open>A claim stands when git shows it: the cache does not change the answer.\<close>

definition stands :: "'g git_world \<Rightarrow> event \<Rightarrow> bool" where
  "stands w e \<longleftrightarrow> fst (corroborated w e Map.empty)"

definition opened_by :: "'g git_world \<Rightarrow> (part list \<rightharpoonup> 'g option) \<Rightarrow> bool" where
  "opened_by w repositories \<longleftrightarrow> (\<forall>root r. repositories root = Some r \<longrightarrow> r = gw_open w root)"

lemma corroborated_cached:
  assumes "opened_by w repositories"
  shows "fst (corroborated w e repositories) = stands w e" "opened_by w (snd (corroborated w e repositories))"
proof -
  have "(case repositories root of None \<Rightarrow> gw_open w root | Some r \<Rightarrow> r) = gw_open w root" for root
    using assms by (auto simp: opened_by_def split: option.split)
  then show "fst (corroborated w e repositories) = stands w e" "opened_by w (snd (corroborated w e repositories))"
    using assms by (auto simp: corroborated_def stands_def opened_by_def Let_def split: option.split)
qed

lemma retain_stands: "opened_by w repositories \<Longrightarrow> retain w history is repositories = filter (\<lambda>i. stands w (history ! i)) is"
  using corroborated_cached[of w] by (induction "is" arbitrary: repositories) (auto simp: case_prod_beta)

lemma move_out_nth:
  "sorted_wrt (<) is \<Longrightarrow> \<forall>i \<in> set is. n \<le> i \<and> i < n + length es \<Longrightarrow>
   move_out (enumerate n es) is = map (\<lambda>i. es ! (i - n)) is"
proof (induction es arbitrary: n "is")
  case (Cons e es)
  show ?case
  proof (cases "is")
    case Nil
    have "move_out xs [] = []" for xs by (induction xs) auto
    with Nil show ?thesis by simp
  next
    case (Cons i rest)
    show ?thesis
    proof (cases "i = n")
      case True
      with Cons Cons.prems have "\<forall>j \<in> set rest. Suc n \<le> j \<and> j < Suc n + length es" by fastforce
      with Cons.IH[of rest "Suc n"] Cons Cons.prems(1) True show ?thesis by (auto simp: nth_Cons')
    next
      case False
      with Cons Cons.prems have "\<forall>j \<in> set is. Suc n \<le> j \<and> j < Suc n + length es" by fastforce
      moreover from this have "map (\<lambda>i. es ! (i - Suc n)) is = map (\<lambda>i. (e # es) ! (i - n)) is"
        by (auto simp: nth_Cons' Suc_le_eq)
      ultimately show ?thesis using Cons.IH[of "is" "Suc n"] Cons False Cons.prems(1) by simp
    qed
  qed
next
  case Nil
  then have "is = []" by (cases "is") auto
  then show ?case by simp
qed

lemma reconcile_filter:
  "reconcile w h = map (nth h) (filter (\<lambda>i. active h i \<and> stands w (h ! i)) [0..<length h])"
proof -
  have "retain w h (active_git_capability_indices h) Map.empty = filter (\<lambda>i. active h i \<and> stands w (h ! i)) [0..<length h]"
    by (subst retain_stands) (simp_all add: opened_by_def active_indices_filter conj_commute)
  moreover have "sorted_wrt (<) (filter P [0..<length h])" for P by (simp add: sorted_wrt_filter)
  ultimately show ?thesis using move_out_nth[of _ 0 h] by (simp add: reconcile_def)
qed

lemma stands_claims: "stands w e \<Longrightarrow> row_effect e \<noteq> None \<and> row_effect e \<noteq> Some CleanRow \<and> ev_action e \<noteq> Read"
  by (cases "ev_action e") (auto simp: stands_def corroborated_def row_effect_def)

lemma reader_of_reconcile: "reader_of (reconcile w h) r = None"
proof -
  have "\<forall>e \<in> set (reconcile w h). ev_action e \<noteq> Read" by (auto simp: reconcile_filter dest: stands_claims)
  then show ?thesis by (simp add: reader_of_filter filter_False)
qed

lemma row_of_reconcile:
  "row_of (reconcile w h) r = (case cl_row (claims_for h r) of
     None \<Rightarrow> CleanRow
   | Some i \<Rightarrow> if stands w (h ! i) then row_of h r else CleanRow)"
proof -
  let ?P = "\<lambda>e. ev_resource e = r \<and> row_effect e \<noteq> None"
  have P: "active h i \<and> stands w (h ! i) \<and> ?P (h ! i) \<longleftrightarrow> cl_row (claims_for h r) = Some i \<and> stands w (h ! i)" if "i < length h" for i
  proof -
    have "cl_read (claims_for h r) = Some i \<Longrightarrow> \<not> stands w (h ! i)"
      using read_claim[of h r i] stands_claims by (auto simp: last_read_def)
    then show ?thesis using that row_claim[of h r i] by (auto simp: active_def Let_def unsettled_def)
  qed
  have f: "filter ?P (reconcile w h) = map (nth h) (filter (\<lambda>i. cl_row (claims_for h r) = Some i \<and> stands w (h ! i)) [0..<length h])"
  proof -
    have "filter ?P (reconcile w h) = map (nth h) (filter (\<lambda>i. active h i \<and> stands w (h ! i) \<and> ?P (h ! i)) [0..<length h])"
      by (simp add: reconcile_filter filter_map o_def conj_ac)
    also have "filter (\<lambda>i. active h i \<and> stands w (h ! i) \<and> ?P (h ! i)) [0..<length h] =
        filter (\<lambda>i. cl_row (claims_for h r) = Some i \<and> stands w (h ! i)) [0..<length h]"
      by (rule filter_cong[OF refl]) (use P in simp)
    finally show ?thesis .
  qed
  show ?thesis
  proof (cases "cl_row (claims_for h r)")
    case None
    with f show ?thesis by (simp add: row_of_filter[of "reconcile w h"])
  next
    case (Some k)
    note k = row_claim[OF Some]
    show ?thesis
    proof (cases "stands w (h ! k)")
      case True
      have "filter (\<lambda>i. cl_row (claims_for h r) = Some i \<and> stands w (h ! i)) [0..<length h] = [k]"
        by (rule filter_one) (use True Some k in \<open>auto simp: unsettled_def\<close>)
      with f Some True k show ?thesis by (simp add: row_of_filter[of "reconcile w h"] unsettled_def)
    next
      case False
      with Some have "filter (\<lambda>i. cl_row (claims_for h r) = Some i \<and> stands w (h ! i)) [0..<length h] = []"
        by (auto simp: filter_empty_conv)
      with f Some False show ?thesis by (simp add: row_of_filter[of "reconcile w h"])
    qed
  qed
qed

text \<open>What git shows of a resource; a repository that cannot be opened answers like a failed query.\<close>

definition shown_status :: "'g git_world \<Rightarrow> resource \<Rightarrow> (status_failure + status_flag list) option" where
  "shown_status w r = Option.bind (parent_path (absolute_of w r)) (\<lambda>parent.
     map_option (\<lambda>root. case gw_open w root of
         None \<Rightarrow> Inl StatusFailed
       | Some g \<Rightarrow> gw_status w g (drop (length root) (absolute_of w r)))
       (repo_root (gw_exists w) parent (gw_seed w)))"

definition shown_row :: "'g git_world \<Rightarrow> resource \<Rightarrow> claimed_row \<Rightarrow> bool" where
  "shown_row w r row \<longleftrightarrow> (case shown_status w r of None \<Rightarrow> False | Some answer \<Rightarrow> shows_row row answer)"

lemma stands_iff: "stands w e \<longleftrightarrow> (case claimed_row_of (ev_action e) of None \<Rightarrow> False | Some row \<Rightarrow> shown_row w (ev_resource e) row)"
  by (auto simp: stands_def corroborated_def shown_row_def shown_status_def shows_row_def split: option.split)

fun reconciled_row :: "'g git_world \<Rightarrow> resource \<Rightarrow> row \<Rightarrow> row" where
  "reconciled_row w r CleanRow = CleanRow"
| "reconciled_row w r StagedRow = (if shown_row w r ClaimsStaged then StagedRow else CleanRow)"
| "reconciled_row w r (UnstagedRow p) = (if shown_row w r ClaimsUnstaged then UnstagedRow p else CleanRow)"

lemma reconcile_row: "row_of (reconcile w h) r = reconciled_row w r (row_of h r)"
proof (cases "cl_row (claims_for h r)")
  case None
  with no_row_claim[OF None] show ?thesis by (simp add: row_of_reconcile)
next
  case (Some k)
  from row_claim[OF this] have k: "ev_resource (h ! k) = r" "row_effect (h ! k) = Some (row_of h r)"
    by (simp_all add: unsettled_def)
  with Some show ?thesis
    by (cases "ev_action (h ! k)"; cases "row_of h r") (simp_all add: row_of_reconcile stands_iff row_effect_def)
qed

lemma map_nth_subseq: "subseq (map (nth xs) (filter P [0..<length xs])) xs"
proof -
  have "subseq (map (nth xs) (filter P [0..<length xs])) (map (nth xs) [0..<length xs])" by (rule subseq_map) simp
  then show ?thesis by (simp add: map_nth)
qed

lemma reconcile_subseq: "subseq (reconcile w h) h"
  by (simp add: reconcile_filter map_nth_subseq)

end
