(* ===== verification/Purity.thy ===== *)
theory Purity
  imports Encoding
begin

text \<open>
  Which commands may skip the sandbox, \<^verbatim>\<open>shellmux/src/purity.rs\<close>: the checker and its learned cache,
  with the log it is rebuilt from. The proof from a command's syntax is the parameter \<open>static_pure\<close>
  here and is modelled in theory \<open>StaticPurity\<close>; the encoding of a record is a parameter of the log.
\<close>

section \<open>The learned cache\<close>

record command_key =
  ck_cmd :: string
  ck_dir :: string

record purity_record =
  pu_cmd :: string
  pu_dir :: string
  pu_pure :: bool

type_synonym known = "string \<rightharpoonup> (string \<rightharpoonup> purity_verdict)"

text \<open>The log's file is \<open>None\<close> until it is attached.\<close>

record learned_purity =
  lp_known :: known
  lp_log :: "bytes option"

definition empty_learned :: learned_purity where
  "empty_learned = \<lparr>lp_known = Map.empty, lp_log = None\<rparr>"

definition known_verdict :: "known \<Rightarrow> command_key \<Rightarrow> purity_verdict" where
  "known_verdict known key = (case known (ck_dir key) of
     None \<Rightarrow> Sandboxed
   | Some commands \<Rightarrow> (case commands (ck_cmd key) of None \<Rightarrow> Sandboxed | Some v \<Rightarrow> v))"

definition learn :: "known \<Rightarrow> command_key \<Rightarrow> purity_verdict \<Rightarrow> known" where
  "learn known key v = known(ck_dir key \<mapsto> ((case known (ck_dir key) of None \<Rightarrow> Map.empty | Some commands \<Rightarrow> commands)(ck_cmd key \<mapsto> v)))"

definition record_key :: "purity_record \<Rightarrow> command_key" where
  "record_key r = \<lparr>ck_cmd = pu_cmd r, ck_dir = pu_dir r\<rparr>"

definition record_verdict :: "purity_record \<Rightarrow> purity_verdict" where
  "record_verdict r = (if pu_pure r then Pure else Sandboxed)"

definition replay_records :: "purity_record list \<Rightarrow> known" where
  "replay_records rs = foldl (\<lambda>known r. learn known (record_key r) (record_verdict r)) Map.empty rs"

text \<open>\<open>restore\<close>: the cache from the file, which is repaired and opened for appending.\<close>

definition restore_learned :: "(bytes \<Rightarrow> purity_record option) \<Rightarrow> bytes option \<Rightarrow> mux_error + learned_purity" where
  "restore_learned de file = (case log_read de file of
     (Inl e, file') \<Rightarrow> Inl e
   | (Inr records, file') \<Rightarrow> Inr \<lparr>lp_known = replay_records records, lp_log = Some (log_open file')\<rparr>)"

definition observed_record :: "command_key \<Rightarrow> purity_verdict \<Rightarrow> purity_record" where
  "observed_record key v = \<lparr>pu_cmd = ck_cmd key, pu_dir = ck_dir key, pu_pure = (v = Pure)\<rparr>"

text \<open>An append that fails is reported and otherwise ignored.\<close>

definition observe_learned ::
  "(purity_record \<Rightarrow> bytes option) \<Rightarrow> learned_purity \<Rightarrow> command_key \<Rightarrow> purity_verdict \<Rightarrow> learned_purity" where
  "observe_learned ser lp key v =
     (if known_verdict (lp_known lp) key = v then lp
      else lp\<lparr>lp_known := learn (lp_known lp) key v,
              lp_log := map_option (\<lambda>file. snd (log_append ser [observed_record key v] file)) (lp_log lp)\<rparr>)"

section \<open>The checker\<close>

datatype purity_checker = StaticChecker | LearnedChecker learned_purity

definition build_checker :: "bool \<Rightarrow> purity_checker" where
  "build_checker learned = (if learned then LearnedChecker empty_learned else StaticChecker)"

fun check_purity :: "('sh \<Rightarrow> string \<Rightarrow> bool) \<Rightarrow> purity_checker \<Rightarrow> 'sh \<Rightarrow> command_key \<Rightarrow> purity_verdict" where
  "check_purity static_pure StaticChecker shell key = (if static_pure shell (ck_cmd key) then Pure else Sandboxed)"
| "check_purity static_pure (LearnedChecker lp) shell key = known_verdict (lp_known lp) key"

fun restore_checker :: "(bytes \<Rightarrow> purity_record option) \<Rightarrow> bytes option \<Rightarrow> purity_checker \<Rightarrow> mux_error + purity_checker" where
  "restore_checker de file StaticChecker = Inr StaticChecker"
| "restore_checker de file (LearnedChecker lp) = and_then (restore_learned de file) (\<lambda>lp'. Inr (LearnedChecker lp'))"

fun observe_purity ::
  "(purity_record \<Rightarrow> bytes option) \<Rightarrow> purity_checker \<Rightarrow> command_key \<Rightarrow> purity_verdict \<Rightarrow> purity_checker" where
  "observe_purity ser StaticChecker key v = StaticChecker"
| "observe_purity ser (LearnedChecker lp) key v = LearnedChecker (observe_learned ser lp key v)"

text \<open>\<open>plan_for\<close>, and the observations of one conclusion.\<close>

definition plan_for :: "('sh \<Rightarrow> string \<Rightarrow> bool) \<Rightarrow> purity_checker \<Rightarrow> 'sh \<Rightarrow> sandbox \<Rightarrow> string \<Rightarrow> execution_plan" where
  "plan_for static_pure checker shell sandbox cmd =
     (case check_purity static_pure checker shell \<lparr>ck_cmd = cmd, ck_dir = sb_dir sandbox\<rparr> of
        Pure \<Rightarrow> Bypass | Sandboxed \<Rightarrow> Transaction)"

definition observe_all ::
  "(purity_record \<Rightarrow> bytes option) \<Rightarrow> purity_checker \<Rightarrow> sandbox \<Rightarrow> string \<Rightarrow> purity_verdict list \<Rightarrow> purity_checker" where
  "observe_all ser checker sandbox cmd vs =
     foldl (\<lambda>c v. observe_purity ser c \<lparr>ck_cmd = cmd, ck_dir = sb_dir sandbox\<rparr> v) checker vs"

section \<open>What is known\<close>

lemma known_learn [simp]: "known_verdict (learn known key v) key' = (if key' = key then v else known_verdict known key')"
  by (cases key; cases key') (auto simp: known_verdict_def learn_def split: option.split)

lemma known_empty [simp]: "known_verdict Map.empty key = Sandboxed"
  by (simp add: known_verdict_def)

lemma observe_known [simp]:
  "known_verdict (lp_known (observe_learned ser lp key v)) key' = (if key' = key then v else known_verdict (lp_known lp) key')"
  by (simp add: observe_learned_def)

text \<open>The last observation of a key stands.\<close>

definition last_said :: "command_key \<Rightarrow> (command_key \<times> purity_verdict) list \<Rightarrow> purity_verdict \<Rightarrow> purity_verdict" where
  "last_said key observations start = fold (\<lambda>(k, v) s. if k = key then v else s) observations start"

definition observe_run :: "(purity_record \<Rightarrow> bytes option) \<Rightarrow> learned_purity \<Rightarrow> (command_key \<times> purity_verdict) list \<Rightarrow> learned_purity" where
  "observe_run ser lp observations = foldl (\<lambda>lp (k, v). observe_learned ser lp k v) lp observations"

lemma observe_run_known: "known_verdict (lp_known (observe_run ser lp observations)) key = last_said key observations (known_verdict (lp_known lp) key)"
  by (induction observations arbitrary: lp) (auto simp: observe_run_def last_said_def)

lemma replay_known:
  "known_verdict (replay_records (rs @ [r])) key = (if key = record_key r then record_verdict r else known_verdict (replay_records rs) key)"
  by (simp add: replay_records_def)

lemma observed_record_sel [simp]: "record_key (observed_record key v) = key" "record_verdict (observed_record key v) = v"
  by (cases v; simp add: record_key_def record_verdict_def observed_record_def)+

section \<open>The log is the cache\<close>

definition cached_in_log :: "(purity_record \<Rightarrow> bytes option) \<Rightarrow> learned_purity \<Rightarrow> purity_record list \<Rightarrow> bool" where
  "cached_in_log ser lp rs \<longleftrightarrow> lp_log lp = Some (stored ser rs) \<and> (\<forall>key. known_verdict (lp_known lp) key = known_verdict (replay_records rs) key)"

lemma restore_cached:
  assumes "codec ser de" "newline \<notin> set torn"
  shows "\<exists>lp. restore_learned de (Some (stored ser rs @ torn)) = Inr lp \<and> cached_in_log ser lp rs"
  using log_read_stored[OF assms, of rs] by (simp add: restore_learned_def cached_in_log_def log_open_def)

lemma restore_absent: "\<exists>lp. restore_learned de None = Inr lp \<and> cached_in_log ser lp []"
  by (simp add: restore_learned_def cached_in_log_def log_open_def)

lemma observe_cached:
  assumes "codec ser de" "cached_in_log ser lp rs"
  shows "\<exists>rs'. cached_in_log ser (observe_learned ser lp key v) rs' \<and> prefix rs rs' \<and> length rs' \<le> Suc (length rs)"
proof (cases "known_verdict (lp_known lp) key = v")
  case True
  with assms(2) show ?thesis by (auto simp: observe_learned_def)
next
  case False
  with assms have "cached_in_log ser (observe_learned ser lp key v) (rs @ [observed_record key v])"
    by (simp add: cached_in_log_def observe_learned_def log_append_stored[OF assms(1)] replay_known)
  then show ?thesis by (intro exI[of _ "rs @ [observed_record key v]"]) simp
qed

text \<open>How often the verdict of some key changes in a run of observations.\<close>

fun changes :: "learned_purity \<Rightarrow> (purity_record \<Rightarrow> bytes option) \<Rightarrow> (command_key \<times> purity_verdict) list \<Rightarrow> nat" where
  "changes lp ser [] = 0"
| "changes lp ser ((k, v) # observations) =
     (if known_verdict (lp_known lp) k = v then 0 else 1) + changes (observe_learned ser lp k v) ser observations"

lemma observe_run_cached:
  assumes "codec ser de"
  shows "cached_in_log ser lp rs \<Longrightarrow> \<exists>rs'. cached_in_log ser (observe_run ser lp observations) rs' \<and> length rs' = length rs + changes lp ser observations"
proof (induction observations arbitrary: lp rs)
  case (Cons o' observations)
  obtain k v where o': "o' = (k, v)" by (cases o')
  obtain rs1 where rs1: "cached_in_log ser (observe_learned ser lp k v) rs1"
      "length rs1 = length rs + (if known_verdict (lp_known lp) k = v then 0 else 1)"
  proof (cases "known_verdict (lp_known lp) k = v")
    case True
    with Cons.prems that[of rs] show ?thesis by (simp add: observe_learned_def)
  next
    case False
    with Cons.prems assms have "cached_in_log ser (observe_learned ser lp k v) (rs @ [observed_record k v])"
      by (simp add: cached_in_log_def observe_learned_def log_append_stored[OF assms] replay_known)
    with that False show ?thesis by simp
  qed
  from Cons.IH[OF rs1(1)] rs1(2) o' show ?case by (auto simp: observe_run_def)
qed (auto simp: observe_run_def)

lemma purity_record_fields: "inj (\<lambda>r. (pu_cmd r, pu_dir r, pu_pure r, purity_record.more r))"
  by (rule injI) (auto intro: purity_record.equality)

instance purity_record_ext :: (countable) countable
proof
  show "\<exists>to_nat :: 'a purity_record_ext \<Rightarrow> nat. inj to_nat"
    using inj_compose[OF inj_to_nat purity_record_fields] by blast
qed

end
