(* ===== verification/ShellAst.thy ===== *)
theory ShellAst
  imports Main
begin

text \<open>
  The syntax tree of a shell program, \<^verbatim>\<open>brush-parser/src/ast.rs\<close>, without the source locations. A word
  is its raw text. The types that hold nested lists of commands take the type of those lists as a
  parameter, and the recursive knot is tied once, in \<open>compound_list\<close>.
\<close>

section \<open>Words and assignments\<close>

type_synonym word_text = string

datatype assignment_name = VariableName string | ArrayElementName string string

datatype assignment_value = ScalarValue word_text | ArrayValue "(word_text option \<times> word_text) list"

record assignment =
  as_name :: assignment_name
  as_value :: assignment_value
  as_append :: bool

section \<open>Tests\<close>

datatype unary_predicate =
    FileExists
  | FileExistsAndIsBlockSpecialFile
  | FileExistsAndIsCharSpecialFile
  | FileExistsAndIsDir
  | FileExistsAndIsRegularFile
  | FileExistsAndIsSetgid
  | FileExistsAndIsSymlink
  | FileExistsAndHasStickyBit
  | FileExistsAndIsFifo
  | FileExistsAndIsReadable
  | FileExistsAndIsNotZeroLength
  | FdIsOpenTerminal
  | FileExistsAndIsSetuid
  | FileExistsAndIsWritable
  | FileExistsAndIsExecutable
  | FileExistsAndOwnedByEffectiveGroupId
  | FileExistsAndModifiedSinceLastRead
  | FileExistsAndOwnedByEffectiveUserId
  | FileExistsAndIsSocket
  | ShellOptionEnabled
  | ShellVariableIsSetAndAssigned
  | ShellVariableIsSetAndNameRef
  | StringHasZeroLength
  | StringHasNonZeroLength

datatype binary_predicate =
    FilesReferToSameDeviceAndInodeNumbers
  | LeftFileIsNewerOrExistsWhenRightDoesNot
  | LeftFileIsOlderOrDoesNotExistWhenRightDoes
  | StringExactlyMatchesPattern
  | StringDoesNotExactlyMatchPattern
  | StringMatchesRegex
  | StringExactlyMatchesString
  | StringDoesNotExactlyMatchString
  | StringContainsSubstring
  | LeftSortsBeforeRight
  | LeftSortsAfterRight
  | ArithmeticEqualTo
  | ArithmeticNotEqualTo
  | ArithmeticLessThan
  | ArithmeticLessThanOrEqualTo
  | ArithmeticGreaterThan
  | ArithmeticGreaterThanOrEqualTo

datatype extended_test_expr =
    TestAnd extended_test_expr extended_test_expr
  | TestOr extended_test_expr extended_test_expr
  | TestNot extended_test_expr
  | TestParenthesized extended_test_expr
  | UnaryTest unary_predicate word_text
  | BinaryTest binary_predicate word_text word_text

section \<open>Redirections and simple commands\<close>

datatype process_substitution_kind = ReadSubstitution | WriteSubstitution

datatype file_redirect_kind =
    RedirectRead | RedirectWrite | RedirectAppend | RedirectReadAndWrite | RedirectClobber | DuplicateInput | DuplicateOutput

record here_document =
  hd_remove_tabs :: bool
  hd_requires_expansion :: bool
  hd_here_end :: word_text
  hd_doc :: word_text

datatype 'l file_redirect_target =
    Filename word_text | FdTarget int | SubstitutionTarget process_substitution_kind 'l | DuplicateTarget word_text

datatype 'l io_redirect =
    FileRedirect "int option" file_redirect_kind "'l file_redirect_target"
  | HereDocument "int option" here_document
  | HereString "int option" word_text
  | OutputAndError word_text bool

datatype 'l command_item =
    IoRedirectItem "'l io_redirect"
  | WordItem word_text
  | AssignmentWord assignment word_text
  | ProcessSubstitutionItem process_substitution_kind 'l

datatype 'l simple_command =
  SimpleCommand (sc_prefix: "'l command_item list option") (sc_word_or_name: "word_text option") (sc_suffix: "'l command_item list option")

section \<open>Compound commands, pipelines and lists\<close>

datatype case_post_action = ExitCase | UnconditionallyExecuteNextCaseItem | ContinueEvaluatingCases

datatype 'l case_item = CaseItem (ci_patterns: "word_text list") (ci_cmd: "'l option") (ci_post_action: case_post_action)

datatype 'l else_clause = ElseClause (ec_condition: "'l option") (ec_body: 'l)

datatype 'l command =
    Simple "'l simple_command"
  | Compound "'l compound_command" "'l io_redirect list option"
  | FunctionCommand word_text "'l compound_command" "'l io_redirect list option"
and 'l compound_command =
    Arithmetic string
  | ArithmeticForClause "string option" "string option" "string option" 'l
  | BraceGroup 'l
  | Subshell 'l
  | ForClause string "word_text list option" 'l
  | CaseClause word_text "'l case_item list"
  | IfClause 'l 'l "'l else_clause list option"
  | WhileClause 'l 'l
  | UntilClause 'l 'l
  | Coprocess "word_text option" "'l command"
  | ExtendedTest extended_test_expr

datatype pipeline_timed = Timed | TimedWithPosixOutput

datatype 'l pipeline = Pipeline (pl_timed: "pipeline_timed option") (pl_bang: bool) (pl_seq: "'l command list")

datatype 'l and_or = AndThen "'l pipeline" | OrElse "'l pipeline"

datatype 'l and_or_list = AndOrList (ao_first: "'l pipeline") (ao_additional: "'l and_or list")

datatype separator_operator = AsyncSeparator | SequenceSeparator

datatype compound_list = CompoundList (cl_items: "(compound_list and_or_list \<times> separator_operator) list")

type_synonym program = "compound_list list"

end
