(* ===== verification/Interp.thy ===== *)
theory Interp
  imports ShellAst "HOL-Library.Word"
begin

text \<open>
  Running a shell program, \<^verbatim>\<open>brush-core/src/interp.rs\<close> with the results of \<^verbatim>\<open>results.rs\<close> and the errors of
  \<^verbatim>\<open>error.rs\<close>: programs, lists, pipelines and compound commands. What a simple command does, expansion,
  redirection, arithmetic, tests, jobs and traps are the operations of the record \<open>leaves\<close>. Loops may not
  end: everything runs under fuel, and \<open>None\<close> is running out of it.
\<close>

section \<open>Results\<close>

datatype exit_code =
    ExitSuccess | GeneralError | InvalidUsage | CannotExecute | ExitNotFound | Interrupted | BrokenPipe
  | Unimplemented | Custom "8 word"

fun is_success_code :: "exit_code \<Rightarrow> bool" where
  "is_success_code ExitSuccess \<longleftrightarrow> True"
| "is_success_code _ \<longleftrightarrow> False"

definition exit_code_of :: "8 word \<Rightarrow> exit_code" where
  "exit_code_of code =
     (if code = 0 then ExitSuccess else if code = 1 then GeneralError else if code = 2 then InvalidUsage
      else if code = 99 then Unimplemented else if code = 126 then CannotExecute else if code = 127 then ExitNotFound
      else if code = 130 then Interrupted else if code = 141 then BrokenPipe else Custom code)"

fun code_number :: "exit_code \<Rightarrow> 8 word" where
  "code_number ExitSuccess = 0"
| "code_number GeneralError = 1"
| "code_number InvalidUsage = 2"
| "code_number Unimplemented = 99"
| "code_number CannotExecute = 126"
| "code_number ExitNotFound = 127"
| "code_number Interrupted = 130"
| "code_number BrokenPipe = 141"
| "code_number (Custom code) = code"

datatype control_flow =
    NormalFlow | BreakLoop nat | ContinueLoop nat | ReturnFromFunctionOrScript | ExitShell

fun try_decrement_loop_levels :: "control_flow \<Rightarrow> control_flow" where
  "try_decrement_loop_levels (BreakLoop 0) = NormalFlow"
| "try_decrement_loop_levels (ContinueLoop 0) = NormalFlow"
| "try_decrement_loop_levels (BreakLoop (Suc levels)) = BreakLoop levels"
| "try_decrement_loop_levels (ContinueLoop (Suc levels)) = ContinueLoop levels"
| "try_decrement_loop_levels flow = flow"

record exec_result =
  xe_flow :: control_flow
  xe_code :: exit_code

definition result_of_code :: "exit_code \<Rightarrow> exec_result" where
  "result_of_code code = \<lparr>xe_flow = NormalFlow, xe_code = code\<rparr>"

abbreviation success :: exec_result where
  "success \<equiv> result_of_code ExitSuccess"

abbreviation general_error :: exec_result where
  "general_error \<equiv> result_of_code GeneralError"

definition stopped_result :: exec_result where
  "stopped_result = result_of_code (exit_code_of 148)"

definition is_success :: "exec_result \<Rightarrow> bool" where
  "is_success r \<longleftrightarrow> is_success_code (xe_code r)"

definition is_normal_flow :: "exec_result \<Rightarrow> bool" where
  "is_normal_flow r \<longleftrightarrow> xe_flow r = NormalFlow"

definition is_break :: "exec_result \<Rightarrow> bool" where
  "is_break r \<longleftrightarrow> (case xe_flow r of BreakLoop levels \<Rightarrow> True | _ \<Rightarrow> False)"

definition is_continue :: "exec_result \<Rightarrow> bool" where
  "is_continue r \<longleftrightarrow> (case xe_flow r of ContinueLoop levels \<Rightarrow> True | _ \<Rightarrow> False)"

definition is_return_or_exit :: "exec_result \<Rightarrow> bool" where
  "is_return_or_exit r \<longleftrightarrow> xe_flow r \<in> {ReturnFromFunctionOrScript, ExitShell}"

definition decrement :: "exec_result \<Rightarrow> exec_result" where
  "decrement r = r\<lparr>xe_flow := try_decrement_loop_levels (xe_flow r)\<rparr>"

section \<open>The shell\<close>

text \<open>The options the interpreter reads, and the parts of the state it reads or writes; the rest is opaque.\<close>

record shell_options =
  so_errexit :: bool
  so_pipefail :: bool
  so_lastpipe :: bool
  so_job_control :: bool
  so_noexec :: bool
  so_interactive :: bool
  so_xtrace :: bool

record 'e shell =
  sl_options :: shell_options
  sl_status :: "8 word"
  sl_status_changes :: nat
  sl_pipeline_statuses :: "8 word list"
  sl_err_trap :: bool
  sl_args :: "string list"
  sl_rest :: 'e

definition set_status :: "exit_code \<Rightarrow> 'e shell \<Rightarrow> 'e shell" where
  "set_status code sh = sh\<lparr>sl_status := code_number code, sl_status_changes := sl_status_changes sh + 1\<rparr>"

definition push_pipeline_status :: "exit_code \<Rightarrow> 'e shell \<Rightarrow> 'e shell" where
  "push_pipeline_status code sh = sh\<lparr>sl_pipeline_statuses := sl_pipeline_statuses sh @ [code_number code]\<rparr>"

definition apply_errexit :: "'e shell \<Rightarrow> exec_result \<Rightarrow> exec_result" where
  "apply_errexit sh r =
     (if so_errexit (sl_options sh) \<and> \<not> is_success r \<and> is_normal_flow r then r\<lparr>xe_flow := ExitShell\<rparr> else r)"

text \<open>An error is what the interpreter reads of it: its exit code and whether it is fatal.\<close>

record shell_error =
  se_code :: exit_code
  se_fatal :: bool

definition error_result :: "'e shell \<Rightarrow> shell_error \<Rightarrow> exec_result" where
  "error_result sh e = \<lparr>xe_flow = (if se_fatal e \<and> \<not> so_interactive (sl_options sh) then ExitShell else NormalFlow), xe_code = se_code e\<rparr>"

text \<open>Execution parameters; the open files are opaque.\<close>

record 'f exec_params =
  pm_suppress_errexit :: bool
  pm_files :: 'f

section \<open>Actions\<close>

text \<open>An action on the shell and the world outside it; an error keeps the state it was raised in.\<close>

type_synonym ('a, 'e, 'w) act = "'e shell \<times> 'w \<Rightarrow> ((shell_error + 'a) \<times> 'e shell \<times> 'w) option"

definition give :: "'a \<Rightarrow> ('a, 'e, 'w) act" where
  "give x = (\<lambda>s. Some (Inr x, s))"

definition after_act :: "('a, 'e, 'w) act \<Rightarrow> ('a \<Rightarrow> ('b, 'e, 'w) act) \<Rightarrow> ('b, 'e, 'w) act" where
  "after_act m k = (\<lambda>s. case m s of
     None \<Rightarrow> None
   | Some (Inl e, s') \<Rightarrow> Some (Inl e, s')
   | Some (Inr x, s') \<Rightarrow> k x s')"

definition change :: "('e shell \<Rightarrow> 'e shell) \<Rightarrow> (unit, 'e, 'w) act" where
  "change f = (\<lambda>(sh, w). Some (Inr (), f sh, w))"

definition with_shell :: "('e shell \<Rightarrow> ('a, 'e, 'w) act) \<Rightarrow> ('a, 'e, 'w) act" where
  "with_shell k = (\<lambda>(sh, w). k sh (sh, w))"

definition attempt :: "('a, 'e, 'w) act \<Rightarrow> (shell_error + 'a, 'e, 'w) act" where
  "attempt m = (\<lambda>s. case m s of None \<Rightarrow> None | Some (r, s') \<Rightarrow> Some (Inr r, s'))"

text \<open>In a copy of the shell: the world's changes stay, the copy is dropped with what it ended as.\<close>

definition in_copy :: "('a, 'e, 'w) act \<Rightarrow> ((shell_error + 'a) \<times> 'e shell, 'e, 'w) act" where
  "in_copy m = (\<lambda>(sh, w). case m (sh, w) of None \<Rightarrow> None | Some (r, sub, w') \<Rightarrow> Some (Inr (r, sub), sh, w'))"

definition fail_with :: "shell_error \<Rightarrow> ('a, 'e, 'w) act" where
  "fail_with e = (\<lambda>s. Some (Inl e, s))"

definition nothing :: "(unit, 'e, 'w) act" where
  "nothing = give ()"

section \<open>Leaves\<close>

text \<open>What a command's spawn leaves: a result, a process, or a task; and what waiting for it yields.\<close>

datatype 'c spawned = CompletedSpawn exec_result | StartedProcess 'c | StartedTask 'c

datatype 'c waited = CompletedWait exec_result | StoppedWait 'c

record ('c, 'f, 'e, 'w) leaves =
  lv_simple :: "int option \<Rightarrow> compound_list simple_command \<Rightarrow> 'f exec_params \<Rightarrow> ('c spawned, 'e, 'w) act"
  lv_pgid :: "'c \<Rightarrow> int option"
  lv_current_cmd :: "compound_list command \<Rightarrow> 'e shell \<Rightarrow> 'e shell"
  lv_wait_process :: "'c \<Rightarrow> ('c waited, 'e, 'w) act"
  lv_wait_task :: "'c \<Rightarrow> (exec_result, 'e, 'w) act"
  lv_pipes :: "nat \<Rightarrow> (unit, 'e, 'w) act"
  lv_stage_params :: "nat \<Rightarrow> nat \<Rightarrow> bool \<Rightarrow> 'f exec_params \<Rightarrow> 'f exec_params"
  lv_to_foreground :: "(unit, 'e, 'w) act"
  lv_stopped_job :: "'c list \<Rightarrow> compound_list pipeline \<Rightarrow> 'f exec_params \<Rightarrow> (unit, 'e, 'w) act"
  lv_async :: "compound_list and_or_list \<Rightarrow> 'f exec_params \<Rightarrow> (unit, 'e, 'w) act"
  lv_redirect :: "compound_list io_redirect \<Rightarrow> 'f exec_params \<Rightarrow> ('f exec_params, 'e, 'w) act"
  lv_define :: "word_text \<Rightarrow> compound_list compound_command \<Rightarrow> compound_list io_redirect list option \<Rightarrow> (unit, 'e, 'w) act"
  lv_coprocess :: "word_text option \<Rightarrow> compound_list command \<Rightarrow> 'f exec_params \<Rightarrow> (exec_result, 'e, 'w) act"
  lv_expand_words :: "word_text list \<Rightarrow> 'f exec_params \<Rightarrow> (string list, 'e, 'w) act"
  lv_expand_word :: "word_text \<Rightarrow> 'f exec_params \<Rightarrow> (string, 'e, 'w) act"
  lv_matches :: "word_text \<Rightarrow> string \<Rightarrow> 'f exec_params \<Rightarrow> (bool, 'e, 'w) act"
  lv_set_variable :: "string \<Rightarrow> string \<Rightarrow> (unit, 'e, 'w) act"
  lv_arithmetic :: "string \<Rightarrow> 'f exec_params \<Rightarrow> (int, 'e, 'w) act"
  lv_test :: "extended_test_expr \<Rightarrow> 'f exec_params \<Rightarrow> (bool, 'e, 'w) act"
  lv_err_trap :: "'f exec_params \<Rightarrow> (unit, 'e, 'w) act"
  lv_display_error :: "shell_error \<Rightarrow> 'f exec_params \<Rightarrow> (unit, 'e, 'w) act"
  lv_trace :: "compound_list compound_command \<Rightarrow> 'f exec_params \<Rightarrow> (unit, 'e, 'w) act"
  lv_stopwatch :: "(unit, 'e, 'w) act"
  lv_report_time :: "pipeline_timed \<Rightarrow> 'f exec_params \<Rightarrow> (unit, 'e, 'w) act"

definition suppressed :: "'f exec_params \<Rightarrow> 'f exec_params" where
  "suppressed params = params\<lparr>pm_suppress_errexit := True\<rparr>"

definition set_status_of :: "exec_result \<Rightarrow> (unit, 'e, 'w) act" where
  "set_status_of r = change (set_status (xe_code r))"

section \<open>Compound commands\<close>

text \<open>\<open>run\<close> runs a nested list, and \<open>k\<close> bounds the iterations of a loop.\<close>

type_synonym ('f, 'e, 'w) runner = "compound_list \<Rightarrow> 'f exec_params \<Rightarrow> (exec_result, 'e, 'w) act"

definition exec_subshell :: "('c, 'f, 'e, 'w) leaves \<Rightarrow> ('f, 'e, 'w) runner \<Rightarrow> compound_list \<Rightarrow> 'f exec_params \<Rightarrow> (exec_result, 'e, 'w) act" where
  "exec_subshell lv run l params = after_act (in_copy (run l params)) (\<lambda>(r, sub). case r of
     Inr r \<Rightarrow> give (result_of_code (xe_code r))
   | Inl e \<Rightarrow> after_act (attempt (lv_display_error lv e params)) (\<lambda>u. give (result_of_code (xe_code (error_result sub e)))))"

text \<open>What a loop makes of the result of its body: it is over with this result, or goes on after it.\<close>

definition loop_over :: "exec_result \<Rightarrow> bool \<times> exec_result" where
  "loop_over r =
     (if is_return_or_exit r then (True, r)
      else (is_break r \<or> is_continue (decrement r), decrement r))"

fun exec_for_values ::
  "('c, 'f, 'e, 'w) leaves \<Rightarrow> ('f, 'e, 'w) runner \<Rightarrow> compound_list compound_command \<Rightarrow> string \<Rightarrow> compound_list \<Rightarrow> 'f exec_params \<Rightarrow>
   string list \<Rightarrow> exec_result \<Rightarrow> (exec_result, 'e, 'w) act" where
  "exec_for_values lv run c name body params [] r = give r"
| "exec_for_values lv run c name body params (v # vs) r =
     after_act (with_shell (\<lambda>sh. if so_xtrace (sl_options sh) then lv_trace lv c params else nothing)) (\<lambda>u.
     after_act (lv_set_variable lv name v) (\<lambda>u.
     after_act (run body params) (\<lambda>r'. let (over, r'') = loop_over r' in
       if over then give r'' else exec_for_values lv run c name body params vs r'')))"

definition exec_for ::
  "('c, 'f, 'e, 'w) leaves \<Rightarrow> ('f, 'e, 'w) runner \<Rightarrow> compound_list compound_command \<Rightarrow> string \<Rightarrow> word_text list option \<Rightarrow> compound_list \<Rightarrow>
   'f exec_params \<Rightarrow> (exec_result, 'e, 'w) act" where
  "exec_for lv run c name values body params =
     after_act (case values of Some ws \<Rightarrow> lv_expand_words lv ws params | None \<Rightarrow> with_shell (\<lambda>sh. give (sl_args sh))) (\<lambda>vs.
     after_act (exec_for_values lv run c name body params vs success) (\<lambda>r.
     after_act (set_status_of r) (\<lambda>u. give r)))"

fun any_matches :: "('c, 'f, 'e, 'w) leaves \<Rightarrow> word_text list \<Rightarrow> string \<Rightarrow> 'f exec_params \<Rightarrow> (bool, 'e, 'w) act" where
  "any_matches lv [] v params = give False"
| "any_matches lv (p # ps) v params = after_act (lv_matches lv p v params) (\<lambda>b. if b then give True else any_matches lv ps v params)"

fun exec_cases ::
  "('c, 'f, 'e, 'w) leaves \<Rightarrow> ('f, 'e, 'w) runner \<Rightarrow> string \<Rightarrow> 'f exec_params \<Rightarrow> bool \<Rightarrow> exec_result \<Rightarrow>
   compound_list case_item list \<Rightarrow> (exec_result, 'e, 'w) act" where
  "exec_cases lv run v params forced r [] = give r"
| "exec_cases lv run v params forced r (item # items) =
     after_act (if forced then give True else any_matches lv (ci_patterns item) v params) (\<lambda>matched.
       if \<not> matched then exec_cases lv run v params False r items
       else after_act (case ci_cmd item of Some l \<Rightarrow> run l params | None \<Rightarrow> give success) (\<lambda>r'.
         if \<not> is_normal_flow r' then give r'
         else case ci_post_action item of
           ExitCase \<Rightarrow> give r'
         | UnconditionallyExecuteNextCaseItem \<Rightarrow> exec_cases lv run v params True r' items
         | ContinueEvaluatingCases \<Rightarrow> exec_cases lv run v params False r' items))"

definition exec_case ::
  "('c, 'f, 'e, 'w) leaves \<Rightarrow> ('f, 'e, 'w) runner \<Rightarrow> compound_list compound_command \<Rightarrow> word_text \<Rightarrow> compound_list case_item list \<Rightarrow>
   'f exec_params \<Rightarrow> (exec_result, 'e, 'w) act" where
  "exec_case lv run c word items params =
     after_act (with_shell (\<lambda>sh. if so_xtrace (sl_options sh) then lv_trace lv c params else nothing)) (\<lambda>u.
     after_act (lv_expand_word lv word params) (\<lambda>v.
     after_act (exec_cases lv run v params False success items) (\<lambda>r.
     after_act (set_status_of r) (\<lambda>u. give r))))"

text \<open>The branches behind the first condition.\<close>

fun exec_elses :: "('f, 'e, 'w) runner \<Rightarrow> 'f exec_params \<Rightarrow> compound_list else_clause list \<Rightarrow> (exec_result, 'e, 'w) act" where
  "exec_elses run params [] = after_act (set_status_of success) (\<lambda>u. give success)"
| "exec_elses run params (e # es) = (case ec_condition e of
     None \<Rightarrow> run (ec_body e) params
   | Some condition \<Rightarrow> after_act (run condition (suppressed params)) (\<lambda>r.
       if \<not> is_normal_flow r then give r
       else if is_success r then run (ec_body e) params
       else exec_elses run params es))"

definition exec_if ::
  "('f, 'e, 'w) runner \<Rightarrow> compound_list \<Rightarrow> compound_list \<Rightarrow> compound_list else_clause list option \<Rightarrow> 'f exec_params \<Rightarrow>
   (exec_result, 'e, 'w) act" where
  "exec_if run condition body elses params =
     after_act (run condition (suppressed params)) (\<lambda>r.
       if \<not> is_normal_flow r then give r
       else if is_success r then run body params
       else exec_elses run params (case elses of None \<Rightarrow> [] | Some es \<Rightarrow> es))"

fun while_loop ::
  "nat \<Rightarrow> ('f, 'e, 'w) runner \<Rightarrow> bool \<Rightarrow> compound_list \<Rightarrow> compound_list \<Rightarrow> 'f exec_params \<Rightarrow> exec_result \<Rightarrow> (exec_result, 'e, 'w) act" where
  "while_loop 0 run is_while condition body params r = (\<lambda>s. None)"
| "while_loop (Suc k) run is_while condition body params r =
     after_act (run condition (suppressed params)) (\<lambda>c.
     after_act (set_status_of c) (\<lambda>u.
       if \<not> is_normal_flow c then give (decrement c)
       else if is_success c \<noteq> is_while then give r
       else after_act (run body params) (\<lambda>r'. let (over, r'') = loop_over r' in
         if over then give r'' else while_loop k run is_while condition body params r'')))"

definition exec_while ::
  "nat \<Rightarrow> ('f, 'e, 'w) runner \<Rightarrow> bool \<Rightarrow> compound_list \<Rightarrow> compound_list \<Rightarrow> 'f exec_params \<Rightarrow> (exec_result, 'e, 'w) act" where
  "exec_while k run is_while condition body params =
     after_act (while_loop k run is_while condition body params success) (\<lambda>r.
     after_act (set_status_of r) (\<lambda>u. give r))"

fun arithmetic_loop ::
  "nat \<Rightarrow> ('c, 'f, 'e, 'w) leaves \<Rightarrow> ('f, 'e, 'w) runner \<Rightarrow> string option \<Rightarrow> string option \<Rightarrow> compound_list \<Rightarrow> 'f exec_params \<Rightarrow>
   exec_result \<Rightarrow> (exec_result, 'e, 'w) act" where
  "arithmetic_loop 0 lv run condition updater body params r = (\<lambda>s. None)"
| "arithmetic_loop (Suc k) lv run condition updater body params r =
     after_act (case condition of
         None \<Rightarrow> give True
       | Some e \<Rightarrow> if e = [] then give True else after_act (lv_arithmetic lv e params) (\<lambda>v. give (v \<noteq> 0))) (\<lambda>goes_on.
       if \<not> goes_on then give r
       else after_act (run body params) (\<lambda>r'. let (over, r'') = loop_over r' in
         if over then give r''
         else after_act (case updater of None \<Rightarrow> nothing | Some e \<Rightarrow> after_act (lv_arithmetic lv e params) (\<lambda>v. nothing)) (\<lambda>u.
           arithmetic_loop k lv run condition updater body params r'')))"

definition exec_arithmetic_for ::
  "nat \<Rightarrow> ('c, 'f, 'e, 'w) leaves \<Rightarrow> ('f, 'e, 'w) runner \<Rightarrow> string option \<Rightarrow> string option \<Rightarrow> string option \<Rightarrow> compound_list \<Rightarrow>
   'f exec_params \<Rightarrow> (exec_result, 'e, 'w) act" where
  "exec_arithmetic_for k lv run initializer condition updater body params =
     after_act (case initializer of None \<Rightarrow> nothing | Some e \<Rightarrow> after_act (lv_arithmetic lv e params) (\<lambda>v. nothing)) (\<lambda>u.
     after_act (arithmetic_loop k lv run condition updater body params success) (\<lambda>r.
     after_act (set_status_of r) (\<lambda>u. give r)))"

definition exec_arithmetic :: "('c, 'f, 'e, 'w) leaves \<Rightarrow> string \<Rightarrow> 'f exec_params \<Rightarrow> (exec_result, 'e, 'w) act" where
  "exec_arithmetic lv e params = after_act (lv_arithmetic lv e params) (\<lambda>v.
     let r = (if v \<noteq> 0 then success else general_error) in after_act (set_status_of r) (\<lambda>u. give r))"

fun exec_compound ::
  "nat \<Rightarrow> ('c, 'f, 'e, 'w) leaves \<Rightarrow> ('f, 'e, 'w) runner \<Rightarrow> compound_list compound_command \<Rightarrow> 'f exec_params \<Rightarrow> (exec_result, 'e, 'w) act" where
  "exec_compound k lv run (BraceGroup l) params = run l params"
| "exec_compound k lv run (Subshell l) params = exec_subshell lv run l params"
| "exec_compound k lv run (ForClause name values body) params = exec_for lv run (ForClause name values body) name values body params"
| "exec_compound k lv run (CaseClause word items) params = exec_case lv run (CaseClause word items) word items params"
| "exec_compound k lv run (IfClause condition body elses) params = exec_if run condition body elses params"
| "exec_compound k lv run (WhileClause condition body) params = exec_while k run True condition body params"
| "exec_compound k lv run (UntilClause condition body) params = exec_while k run False condition body params"
| "exec_compound k lv run (Arithmetic e) params = exec_arithmetic lv e params"
| "exec_compound k lv run (ArithmeticForClause i c u body) params = exec_arithmetic_for k lv run i c u body params"
| "exec_compound k lv run (Coprocess name body) params = lv_coprocess lv name body params"
| "exec_compound k lv run (ExtendedTest e) params = after_act (lv_test lv e params) (\<lambda>b. give (result_of_code (exit_code_of (if b then 0 else 1))))"

section \<open>Commands and pipelines\<close>

fun with_redirects ::
  "('c, 'f, 'e, 'w) leaves \<Rightarrow> compound_list io_redirect list \<Rightarrow> 'f exec_params \<Rightarrow> ('f exec_params, 'e, 'w) act" where
  "with_redirects lv [] params = give params"
| "with_redirects lv (r # rs) params = after_act (lv_redirect lv r params) (with_redirects lv rs)"

fun exec_command ::
  "nat \<Rightarrow> ('c, 'f, 'e, 'w) leaves \<Rightarrow> ('f, 'e, 'w) runner \<Rightarrow> int option \<Rightarrow> compound_list command \<Rightarrow> 'f exec_params \<Rightarrow>
   ('c spawned, 'e, 'w) act" where
  "exec_command k lv run pgid c params = with_shell (\<lambda>sh.
     if so_noexec (sl_options sh) then give (CompletedSpawn success)
     else after_act (change (lv_current_cmd lv c)) (\<lambda>u. case c of
       Simple simple \<Rightarrow> lv_simple lv pgid simple params
     | Compound compound redirects \<Rightarrow>
         after_act (with_redirects lv (case redirects of None \<Rightarrow> [] | Some rs \<Rightarrow> rs) params) (\<lambda>params'.
         after_act (exec_compound k lv run compound params') (\<lambda>r. give (CompletedSpawn r)))
     | FunctionCommand name body redirects \<Rightarrow>
         after_act (lv_define lv name body redirects) (\<lambda>u.
         after_act (set_status_of success) (\<lambda>u. give (CompletedSpawn success)))))"

declare exec_command.simps [simp del]

text \<open>
  Every command of a pipeline of several runs in a copy of the shell, with one exception for the last.
  The first process started leads the process group of those behind it.
\<close>

fun joined_group :: "('c, 'f, 'e, 'w) leaves \<Rightarrow> int option \<Rightarrow> 'c spawned \<Rightarrow> int option" where
  "joined_group lv pgid (StartedProcess child) = (if pgid = None then lv_pgid lv child else pgid)"
| "joined_group lv pgid x = pgid"

fun spawn_commands ::
  "nat \<Rightarrow> ('c, 'f, 'e, 'w) leaves \<Rightarrow> ('f, 'e, 'w) runner \<Rightarrow> nat \<Rightarrow> nat \<Rightarrow> int option \<Rightarrow> 'f exec_params \<Rightarrow> compound_list command list \<Rightarrow>
   ('c spawned list, 'e, 'w) act" where
  "spawn_commands k lv run len i pgid params [] = give []"
| "spawn_commands k lv run len i pgid params (c # cs) = with_shell (\<lambda>sh.
     let in_current = (len = 1 \<or> (i = len - 1 \<and> so_lastpipe (sl_options sh) \<and> \<not> so_job_control (sl_options sh)));
         cmd_params = (if len > 1 then lv_stage_params lv len i in_current params else params) in
     after_act (if in_current then exec_command k lv run pgid c cmd_params
       else after_act (in_copy (exec_command k lv run pgid c cmd_params)) (\<lambda>(r, sub). case r of Inl e \<Rightarrow> fail_with e | Inr x \<Rightarrow> give x)) (\<lambda>x.
     after_act (spawn_commands k lv run len (i + 1) (joined_group lv pgid x) params cs) (\<lambda>xs. give (x # xs))))"

fun wait_one :: "('c, 'f, 'e, 'w) leaves \<Rightarrow> bool \<Rightarrow> 'c spawned \<Rightarrow> ('c waited, 'e, 'w) act" where
  "wait_one lv polls (CompletedSpawn r) = give (CompletedWait r)"
| "wait_one lv polls (StartedProcess child) = (if polls then give (StoppedWait child) else lv_wait_process lv child)"
| "wait_one lv polls (StartedTask task) = after_act (lv_wait_task lv task) (\<lambda>r. give (CompletedWait r))"

definition note_result :: "exec_result \<Rightarrow> (unit, 'e, 'w) act" where
  "note_result r = after_act (set_status_of r) (\<lambda>u. change (push_pipeline_status (xe_code r)))"

text \<open>The last result, the last failure, and the children found stopped.\<close>

fun wait_all ::
  "('c, 'f, 'e, 'w) leaves \<Rightarrow> 'c spawned list \<Rightarrow> exec_result \<Rightarrow> exit_code option \<Rightarrow> 'c list \<Rightarrow>
   (exec_result \<times> exit_code option \<times> 'c list, 'e, 'w) act" where
  "wait_all lv [] r failure stopped = give (r, failure, stopped)"
| "wait_all lv (x # xs) r failure stopped = after_act (wait_one lv (stopped \<noteq> []) x) (\<lambda>res. case res of
     CompletedWait r' \<Rightarrow> after_act (note_result r') (\<lambda>u.
       wait_all lv xs r' (if is_success r' then failure else Some (xe_code r')) stopped)
   | StoppedWait child \<Rightarrow> after_act (note_result stopped_result) (\<lambda>u.
       wait_all lv xs stopped_result failure (stopped @ [child])))"

definition with_pipefail :: "'e shell \<Rightarrow> exit_code option \<Rightarrow> exec_result \<Rightarrow> exec_result" where
  "with_pipefail sh failure r = (if so_pipefail (sl_options sh)
     then case failure of None \<Rightarrow> r | Some code \<Rightarrow> r\<lparr>xe_code := code\<rparr>
     else r)"

definition wait_pipeline ::
  "('c, 'f, 'e, 'w) leaves \<Rightarrow> compound_list pipeline \<Rightarrow> 'c spawned list \<Rightarrow> 'f exec_params \<Rightarrow> (exec_result, 'e, 'w) act" where
  "wait_pipeline lv p xs params =
     after_act (change (\<lambda>sh. sh\<lparr>sl_pipeline_statuses := []\<rparr>)) (\<lambda>u.
     after_act (wait_all lv xs success None []) (\<lambda>(r, failure, stopped).
     after_act (with_shell (\<lambda>sh. give (with_pipefail sh failure r))) (\<lambda>r'.
     after_act (with_shell (\<lambda>sh. if so_interactive (sl_options sh) then lv_to_foreground lv else nothing)) (\<lambda>u.
     after_act (if stopped \<noteq> [] then lv_stopped_job lv stopped p params else nothing) (\<lambda>u. give r')))))"

definition inverted :: "exec_result \<Rightarrow> exec_result" where
  "inverted r = r\<lparr>xe_code := exit_code_of (if is_success r then 1 else 0)\<rparr>"

definition exec_pipeline ::
  "nat \<Rightarrow> ('c, 'f, 'e, 'w) leaves \<Rightarrow> ('f, 'e, 'w) runner \<Rightarrow> compound_list pipeline \<Rightarrow> 'f exec_params \<Rightarrow> (exec_result, 'e, 'w) act" where
  "exec_pipeline k lv run p params0 =
     (let params = (if pl_bang p then suppressed params0 else params0); len = length (pl_seq p) in
     after_act (if pl_timed p \<noteq> None then lv_stopwatch lv else nothing) (\<lambda>u.
     after_act (if len > 1 then lv_pipes lv (len - 1) else nothing) (\<lambda>u.
     after_act (spawn_commands k lv run len 0 None params (pl_seq p)) (\<lambda>xs.
     after_act (wait_pipeline lv p xs params) (\<lambda>r0.
       let r = (if pl_bang p then inverted r0 else r0) in
     after_act (set_status_of r) (\<lambda>u.
     after_act (with_shell (\<lambda>sh. if \<not> is_success r \<and> \<not> pm_suppress_errexit params \<and> \<not> pl_bang p \<and> sl_err_trap sh
       then lv_err_trap lv params else nothing)) (\<lambda>u.
     after_act (with_shell (\<lambda>sh. give (if \<not> pm_suppress_errexit params \<and> \<not> pl_bang p then apply_errexit sh r else r))) (\<lambda>r'.
     after_act (case pl_timed p of None \<Rightarrow> nothing | Some timed \<Rightarrow> lv_report_time lv timed params) (\<lambda>u. give r')))))))))"

section \<open>Lists and programs\<close>

fun branch_pipeline :: "'l and_or \<Rightarrow> bool \<times> 'l pipeline" where
  "branch_pipeline (AndThen p) = (True, p)"
| "branch_pipeline (OrElse p) = (False, p)"

fun exec_branches ::
  "nat \<Rightarrow> ('c, 'f, 'e, 'w) leaves \<Rightarrow> ('f, 'e, 'w) runner \<Rightarrow> 'f exec_params \<Rightarrow> exec_result \<Rightarrow> compound_list and_or list \<Rightarrow>
   (exec_result, 'e, 'w) act" where
  "exec_branches k lv run params r [] = give r"
| "exec_branches k lv run params r (b # bs) =
     (if \<not> is_normal_flow r then give r
      else let (is_and, p) = branch_pipeline b in
        if is_and \<noteq> is_success r then exec_branches k lv run params r bs
        else after_act (exec_pipeline k lv run p (if bs = [] then params else suppressed params)) (\<lambda>r'.
          exec_branches k lv run params r' bs))"

definition exec_and_or ::
  "nat \<Rightarrow> ('c, 'f, 'e, 'w) leaves \<Rightarrow> ('f, 'e, 'w) runner \<Rightarrow> compound_list and_or_list \<Rightarrow> 'f exec_params \<Rightarrow> (exec_result, 'e, 'w) act" where
  "exec_and_or k lv run ao params =
     after_act (exec_pipeline k lv run (ao_first ao) (if ao_additional ao = [] then params else suppressed params)) (\<lambda>r.
       exec_branches k lv run params r (ao_additional ao))"

fun exec_items ::
  "nat \<Rightarrow> ('c, 'f, 'e, 'w) leaves \<Rightarrow> ('f, 'e, 'w) runner \<Rightarrow> 'f exec_params \<Rightarrow> exec_result \<Rightarrow>
   (compound_list and_or_list \<times> separator_operator) list \<Rightarrow> (exec_result, 'e, 'w) act" where
  "exec_items k lv run params r [] = give r"
| "exec_items k lv run params r ((ao, separator) # items) =
     after_act (if separator = AsyncSeparator then after_act (lv_async lv ao params) (\<lambda>u. give success)
       else after_act (exec_and_or k lv run ao params) (\<lambda>r'. after_act (set_status_of r') (\<lambda>u. give r'))) (\<lambda>r'.
     if \<not> is_normal_flow r' then give r' else exec_items k lv run params r' items)"

fun exec_list :: "nat \<Rightarrow> ('c, 'f, 'e, 'w) leaves \<Rightarrow> ('f, 'e, 'w) runner" where
  "exec_list 0 lv l params = (\<lambda>s. None)"
| "exec_list (Suc n) lv l params = exec_items n lv (exec_list n lv) params success (cl_items l)"

fun exec_program :: "nat \<Rightarrow> ('c, 'f, 'e, 'w) leaves \<Rightarrow> 'f exec_params \<Rightarrow> exec_result \<Rightarrow> program \<Rightarrow> (exec_result, 'e, 'w) act" where
  "exec_program n lv params r [] = give r"
| "exec_program n lv params r (l # ls) =
     after_act (attempt (exec_list n lv l params)) (\<lambda>res.
     after_act (case res of
         Inr r' \<Rightarrow> give r'
       | Inl e \<Rightarrow> after_act (attempt (lv_display_error lv e params)) (\<lambda>u. with_shell (\<lambda>sh. give (error_result sh e)))) (\<lambda>r'.
     after_act (set_status_of r') (\<lambda>u.
       if \<not> is_normal_flow r' then give r' else exec_program n lv params r' ls)))"

end
