(* ===== verification/StaticPurity.thy ===== *)
theory StaticPurity
  imports ShellAst
begin

text \<open>
  The proof of purity from a command's syntax, \<^verbatim>\<open>shellmux/src/purity.rs\<close>. Parsing the program and
  splitting a word into pieces are the parser's: parameters, with the glob detector.
\<close>

section \<open>What the checker is given\<close>

datatype word_piece =
    PieceText string
  | SingleQuotedText string
  | AnsiCQuotedText string
  | DoubleQuotedSequence "word_piece list"
  | GettextDoubleQuotedSequence "word_piece list"
  | TildeExpansion string
  | ParameterExpansion string
  | CommandSubstitution string
  | BackquotedCommandSubstitution string
  | EscapeSequence string
  | ArithmeticExpansion string

text \<open>
  A piece that is refused whatever it holds carries its raw text. The context is the parser under the
  shell's own options, and what the shell defines.
\<close>

record shell_context =
  sx_parse :: "string \<Rightarrow> program option"
  sx_word_pieces :: "word_text \<Rightarrow> word_piece list option"
  sx_glob :: "string \<Rightarrow> bool"
  sx_functions :: "string \<Rightarrow> bool"
  sx_expand_aliases :: bool
  sx_aliases :: "string \<Rightarrow> bool"

definition PROVABLE_BUILTINS :: "string list" where
  "PROVABLE_BUILTINS = ['':'', ''true'', ''false'', ''echo'', ''pwd'']"

definition UNSAFE_RAW :: "char list" where
  "UNSAFE_RAW = [CHR ''{'', CHR ''}'', CHR ''~'', CHR ''('', CHR '')'']"

section \<open>Words\<close>

definition plain_text :: "shell_context \<Rightarrow> string \<Rightarrow> bool" where
  "plain_text sx t \<longleftrightarrow> \<not> sx_glob sx t \<and> \<not> list_ex (\<lambda>c. c \<in> set UNSAFE_RAW) t"

fun literal_piece :: "shell_context \<Rightarrow> word_piece \<Rightarrow> bool" where
  "literal_piece sx (PieceText t) \<longleftrightarrow> plain_text sx t"
| "literal_piece sx (SingleQuotedText t) \<longleftrightarrow> True"
| "literal_piece sx (AnsiCQuotedText t) \<longleftrightarrow> True"
| "literal_piece sx (EscapeSequence t) \<longleftrightarrow> True"
| "literal_piece sx (DoubleQuotedSequence inner) \<longleftrightarrow> list_all (literal_piece sx) inner"
| "literal_piece sx _ \<longleftrightarrow> False"

definition literal_pieces :: "shell_context \<Rightarrow> word_piece list \<Rightarrow> bool" where
  "literal_pieces sx pieces \<longleftrightarrow> list_all (literal_piece sx) pieces"

definition literal_word :: "shell_context \<Rightarrow> word_text \<Rightarrow> bool" where
  "literal_word sx word \<longleftrightarrow> (case sx_word_pieces sx word of None \<Rightarrow> False | Some pieces \<Rightarrow> literal_pieces sx pieces)"

definition raw_name :: "shell_context \<Rightarrow> word_text \<Rightarrow> string option" where
  "raw_name sx word = (case sx_word_pieces sx word of
     Some [PieceText t] \<Rightarrow> if t = word then Some t else None
   | _ \<Rightarrow> None)"

section \<open>Commands\<close>

fun literal_item :: "shell_context \<Rightarrow> 'l command_item \<Rightarrow> bool" where
  "literal_item sx (WordItem word) \<longleftrightarrow> literal_word sx word"
| "literal_item sx _ \<longleftrightarrow> False"

definition pure_simple :: "shell_context \<Rightarrow> 'l simple_command \<Rightarrow> bool" where
  "pure_simple sx simple \<longleftrightarrow>
     (case sc_prefix simple of None \<Rightarrow> True | Some items \<Rightarrow> items = []) \<and>
     (case Option.bind (sc_word_or_name simple) (raw_name sx) of
        None \<Rightarrow> False
      | Some name \<Rightarrow> name \<in> set PROVABLE_BUILTINS \<and> \<not> sx_functions sx name \<and> \<not> (sx_expand_aliases sx \<and> sx_aliases sx name)) \<and>
     (case sc_suffix simple of None \<Rightarrow> True | Some items \<Rightarrow> list_all (literal_item sx) items)"

text \<open>A construct is provable when its parts are; \<open>rec\<close> answers for the nested lists.\<close>

definition pure_compound :: "('l \<Rightarrow> bool) \<Rightarrow> 'l compound_command \<Rightarrow> bool" where
  "pure_compound rec compound \<longleftrightarrow> (case compound of
     BraceGroup l \<Rightarrow> rec l
   | Subshell l \<Rightarrow> rec l
   | _ \<Rightarrow> False)"

fun pure_command :: "shell_context \<Rightarrow> ('l \<Rightarrow> bool) \<Rightarrow> 'l command \<Rightarrow> bool" where
  "pure_command sx rec (Simple simple) \<longleftrightarrow> pure_simple sx simple"
| "pure_command sx rec (Compound compound redirects) \<longleftrightarrow> redirects = None \<and> pure_compound rec compound"
| "pure_command sx rec (FunctionCommand name body redirects) \<longleftrightarrow> False"

definition pure_pipeline :: "shell_context \<Rightarrow> ('l \<Rightarrow> bool) \<Rightarrow> 'l pipeline \<Rightarrow> bool" where
  "pure_pipeline sx rec pipeline \<longleftrightarrow>
     pl_timed pipeline = None \<and> \<not> pl_bang pipeline \<and> list_all (pure_command sx rec) (pl_seq pipeline)"

fun pure_branch :: "shell_context \<Rightarrow> ('l \<Rightarrow> bool) \<Rightarrow> 'l and_or \<Rightarrow> bool" where
  "pure_branch sx rec (AndThen pipeline) \<longleftrightarrow> pure_pipeline sx rec pipeline"
| "pure_branch sx rec (OrElse pipeline) \<longleftrightarrow> pure_pipeline sx rec pipeline"

definition pure_and_or :: "shell_context \<Rightarrow> ('l \<Rightarrow> bool) \<Rightarrow> 'l and_or_list \<Rightarrow> bool" where
  "pure_and_or sx rec ao \<longleftrightarrow> pure_pipeline sx rec (ao_first ao) \<and> list_all (pure_branch sx rec) (ao_additional ao)"

definition pure_items :: "shell_context \<Rightarrow> ('l \<Rightarrow> bool) \<Rightarrow> ('l and_or_list \<times> separator_operator) list \<Rightarrow> bool" where
  "pure_items sx rec items \<longleftrightarrow> list_all (\<lambda>(ao, separator). separator = SequenceSeparator \<and> pure_and_or sx rec ao) items"

primrec pure_list :: "shell_context \<Rightarrow> compound_list \<Rightarrow> bool" where
  "pure_list sx (CompoundList items) \<longleftrightarrow> pure_items sx (\<lambda>b. b) (map (map_prod (map_and_or_list (pure_list sx)) (\<lambda>s. s)) items)"

definition statically_pure :: "shell_context \<Rightarrow> string \<Rightarrow> bool" where
  "statically_pure sx cmd \<longleftrightarrow> (case sx_parse sx cmd of None \<Rightarrow> False | Some commands \<Rightarrow> list_all (pure_list sx) commands)"

section \<open>The knot\<close>

lemma literal_item_map [simp]: "literal_item sx (map_command_item f item) = literal_item sx item"
  by (cases item) auto

lemma pure_simple_map [simp]: "pure_simple sx (map_simple_command f simple) = pure_simple sx simple"
  by (cases simple) (auto simp: pure_simple_def list_all_iff split: option.splits)

lemma pure_command_map [simp]: "pure_command sx rec (map_command f c) = pure_command sx (rec \<circ> f) c"
proof (cases c)
  case (Compound compound redirects)
  then show ?thesis by (cases compound) (auto simp: pure_compound_def)
qed auto

lemma pure_pipeline_map [simp]: "pure_pipeline sx rec (map_pipeline f p) = pure_pipeline sx (rec \<circ> f) p"
  by (cases p) (simp add: pure_pipeline_def list_all_iff)

lemma pure_branch_map [simp]: "pure_branch sx rec (map_and_or f b) = pure_branch sx (rec \<circ> f) b"
  by (cases b) simp_all

lemma pure_and_or_map [simp]: "pure_and_or sx rec (map_and_or_list f ao) = pure_and_or sx (rec \<circ> f) ao"
  by (cases ao) (simp add: pure_and_or_def list_all_iff)

lemma pure_list_items: "pure_list sx (CompoundList items) \<longleftrightarrow> pure_items sx (pure_list sx) items"
  by (auto simp: pure_items_def list_all_iff o_def split: prod.splits)

end
