(* ===== verification/Quiet.thy ===== *)
theory Quiet
  imports Interp StaticPurity
begin

text \<open>
  What a statically pure program can reach in the interpreter: it returns, and keeps whatever the provable
  builtins keep.
\<close>

section \<open>Actions that keep the shell and the world\<close>

definition keeps :: "('e shell \<Rightarrow> bool) \<Rightarrow> ('w \<Rightarrow> bool) \<Rightarrow> ('a, 'e, 'w) act \<Rightarrow> bool" where
  "keeps S W m \<longleftrightarrow> (\<forall>sh w. S sh \<and> W w \<longrightarrow> (\<exists>r sh' w'. m (sh, w) = Some (r, sh', w') \<and> S sh' \<and> W w'))"

named_theorems keeping

lemma keeps_give [keeping]: "keeps S W (give x)" and keeps_fail [keeping]: "keeps S W (fail_with e)"
  and keeps_nothing [keeping]: "keeps S W nothing"
  by (simp_all add: keeps_def give_def fail_with_def nothing_def)

lemma keeps_after [keeping]: "keeps S W m \<Longrightarrow> (\<And>x. keeps S W (k x)) \<Longrightarrow> keeps S W (after_act m k)"
proof (unfold keeps_def, intro allI impI)
  fix sh w
  assume m: "\<forall>sh w. S sh \<and> W w \<longrightarrow> (\<exists>r sh' w'. m (sh, w) = Some (r, sh', w') \<and> S sh' \<and> W w')"
    and k: "\<And>x. \<forall>sh w. S sh \<and> W w \<longrightarrow> (\<exists>r sh' w'. k x (sh, w) = Some (r, sh', w') \<and> S sh' \<and> W w')" and s: "S sh \<and> W w"
  from m s obtain r sh' w' where "m (sh, w) = Some (r, sh', w')" "S sh' \<and> W w'" by blast
  with k show "\<exists>r sh' w'. after_act m k (sh, w) = Some (r, sh', w') \<and> S sh' \<and> W w'"
    by (cases r) (simp_all add: after_act_def)
qed

lemma keeps_shell [keeping]: "(\<And>sh. S sh \<Longrightarrow> keeps S W (k sh)) \<Longrightarrow> keeps S W (with_shell k)"
  by (simp add: keeps_def with_shell_def)

lemma keeps_change [keeping]: "(\<And>sh. S sh \<Longrightarrow> S (f sh)) \<Longrightarrow> keeps S W (change f)"
  by (simp add: keeps_def change_def)

lemma keeps_attempt [keeping]: "keeps S W m \<Longrightarrow> keeps S W (attempt m)"
  unfolding keeps_def attempt_def by fastforce

lemma keeps_copy [keeping]: "keeps S W m \<Longrightarrow> keeps S W (in_copy m)"
  unfolding keeps_def in_copy_def by fastforce

lemma keeps_if [keeping]: "(b \<Longrightarrow> keeps S W m) \<Longrightarrow> (\<not> b \<Longrightarrow> keeps S W m') \<Longrightarrow> keeps S W (if b then m else m')"
  by simp

lemma keeps_sum [keeping]:
  "(\<And>e. x = Inl e \<Longrightarrow> keeps S W (f e)) \<Longrightarrow> (\<And>y. x = Inr y \<Longrightarrow> keeps S W (g y)) \<Longrightarrow>
   keeps S W (case x of Inl e \<Rightarrow> f e | Inr y \<Rightarrow> g y)"
  by (cases x) simp_all

section \<open>Quiet leaves\<close>

text \<open>
  The leaves a pure program reaches keep \<open>S\<close> and \<open>W\<close>: the provable builtins, the pipes, waiting, the
  terminal and the error messages. Nothing is asked of any other leaf. \<open>S\<close> does not read the statuses.
\<close>

definition status_free :: "('e shell \<Rightarrow> bool) \<Rightarrow> bool" where
  "status_free S \<longleftrightarrow> (\<forall>sh code n codes. S (sh\<lparr>sl_status := code, sl_status_changes := n\<rparr>) = S sh \<and> S (sh\<lparr>sl_pipeline_statuses := codes\<rparr>) = S sh)"

definition quiet_leaves :: "shell_context \<Rightarrow> ('e shell \<Rightarrow> bool) \<Rightarrow> ('w \<Rightarrow> bool) \<Rightarrow> ('c, 'f, 'e, 'w) leaves \<Rightarrow> bool" where
  "quiet_leaves sx S W lv \<longleftrightarrow> status_free S \<and>
     (\<forall>pgid simple params. pure_simple sx simple \<longrightarrow> keeps S W (lv_simple lv pgid simple params)) \<and>
     (\<forall>c sh. S sh \<longrightarrow> S (lv_current_cmd lv c sh)) \<and>
     (\<forall>child. keeps S W (lv_wait_process lv child)) \<and> (\<forall>task. keeps S W (lv_wait_task lv task)) \<and>
     (\<forall>n. keeps S W (lv_pipes lv n)) \<and> keeps S W (lv_to_foreground lv) \<and>
     (\<forall>children p params. keeps S W (lv_stopped_job lv children p params)) \<and>
     (\<forall>params. keeps S W (lv_err_trap lv params)) \<and> (\<forall>e params. keeps S W (lv_display_error lv e params))"

lemma quiet_current_cmd: "quiet_leaves sx S W lv \<Longrightarrow> S sh \<Longrightarrow> S (lv_current_cmd lv c sh)"
  by (simp add: quiet_leaves_def)

lemma quiet_leavesD:
  assumes "quiet_leaves sx S W lv"
  shows "pure_simple sx simple \<Longrightarrow> keeps S W (lv_simple lv pgid simple params)"
    "keeps S W (lv_wait_process lv child)" "keeps S W (lv_wait_task lv task)"
    "keeps S W (lv_pipes lv n)" "keeps S W (lv_to_foreground lv)" "keeps S W (lv_stopped_job lv children p params)"
    "keeps S W (lv_err_trap lv params)" "keeps S W (lv_display_error lv e params)"
  using assms by (simp_all only: quiet_leaves_def)

lemma quiet_status [simp]:
  assumes "quiet_leaves sx S W lv"
  shows "S (set_status code sh) = S sh" "S (push_pipeline_status code sh) = S sh" "S (sh\<lparr>sl_pipeline_statuses := codes\<rparr>) = S sh"
  using assms by (simp_all add: quiet_leaves_def status_free_def set_status_def push_pipeline_status_def)

lemma keeps_status: "quiet_leaves sx S W lv \<Longrightarrow> keeps S W (set_status_of r)"
  unfolding set_status_of_def by (rule keeps_change) simp

lemma keeps_note: "quiet_leaves sx S W lv \<Longrightarrow> keeps S W (note_result r)"
  unfolding note_result_def by (auto intro!: keeping keeps_status)

lemmas quiet_keeping = quiet_leavesD keeps_status keeps_note

section \<open>Pure constructs keep what their lists keep\<close>

lemma keeps_subshell:
  assumes "quiet_leaves sx S W lv" "\<And>params. keeps S W (run l params)"
  shows "keeps S W (exec_subshell lv run l params)"
  using quiet_keeping[OF assms(1)] assms(2) by (auto simp: exec_subshell_def intro!: keeping split: sum.split)

lemma keeps_compound:
  assumes "quiet_leaves sx S W lv" "pure_compound R c" "\<And>l params. R l \<Longrightarrow> keeps S W (run l params)"
  shows "keeps S W (exec_compound k lv run c params)"
  using assms(2,3) keeps_subshell[OF assms(1), of run] by (cases c) (simp_all add: pure_compound_def)

lemma keeps_command:
  assumes "quiet_leaves sx S W lv" "pure_command sx R c" "\<And>l params. R l \<Longrightarrow> keeps S W (run l params)"
  shows "keeps S W (exec_command k lv run pgid c params)"
  using assms(2) keeps_compound[OF assms(1) _ assms(3)] quiet_keeping[OF assms(1)] quiet_current_cmd[OF assms(1)]
  by (cases c) (auto simp: exec_command.simps intro!: keeping)

lemma keeps_spawns:
  assumes "quiet_leaves sx S W lv" "\<And>l params. R l \<Longrightarrow> keeps S W (run l params)"
  shows "list_all (pure_command sx R) cs \<Longrightarrow> keeps S W (spawn_commands k lv run len i pgid params cs)"
proof (induction cs arbitrary: i pgid)
  case (Cons c cs)
  have "keeps S W (exec_command k lv run pgid c params')" for pgid params'
    using Cons.prems by (intro keeps_command[where R = R, OF assms(1)] assms(2)) simp_all
  with Cons show ?case by (auto simp: Let_def intro!: keeping split: sum.split)
qed (simp add: keeping)

lemma keeps_wait_one: "quiet_leaves sx S W lv \<Longrightarrow> keeps S W (wait_one lv polls x)"
  using quiet_keeping[of sx S W lv] by (cases x) (auto intro!: keeping)

lemma keeps_wait_all: "quiet_leaves sx S W lv \<Longrightarrow> keeps S W (wait_all lv xs r failure stopped)"
  using quiet_keeping[of sx S W lv] keeps_wait_one[of sx S W lv]
  by (induction xs arbitrary: r failure stopped) (auto intro!: keeping split: waited.split)

lemma keeps_wait_pipeline: "quiet_leaves sx S W lv \<Longrightarrow> keeps S W (wait_pipeline lv p xs params)"
  using quiet_keeping[of sx S W lv] keeps_wait_all[of sx S W lv] quiet_status[of sx S W lv]
  by (auto simp: wait_pipeline_def intro!: keeping)

lemma keeps_pipeline:
  assumes "quiet_leaves sx S W lv" "pure_pipeline sx R p" "\<And>l params. R l \<Longrightarrow> keeps S W (run l params)"
  shows "keeps S W (exec_pipeline k lv run p params)"
  using assms(2) keeps_spawns[OF assms(1) assms(3)] keeps_wait_pipeline[OF assms(1)] quiet_keeping[OF assms(1)]
  by (auto simp: exec_pipeline_def pure_pipeline_def Let_def intro!: keeping)

lemma keeps_branches:
  assumes "quiet_leaves sx S W lv" "\<And>l params. R l \<Longrightarrow> keeps S W (run l params)"
  shows "list_all (pure_branch sx R) bs \<Longrightarrow> keeps S W (exec_branches k lv run params r bs)"
proof (induction bs arbitrary: r)
  case (Cons b bs)
  then show ?case using keeps_pipeline[OF assms(1) _ assms(2)] by (cases b) (auto intro!: keeping)
qed (simp add: keeping)

lemma keeps_and_or:
  assumes "quiet_leaves sx S W lv" "pure_and_or sx R ao" "\<And>l params. R l \<Longrightarrow> keeps S W (run l params)"
  shows "keeps S W (exec_and_or k lv run ao params)"
  using assms(2) keeps_pipeline[OF assms(1) _ assms(3)] keeps_branches[OF assms(1) assms(3)]
  by (auto simp: exec_and_or_def pure_and_or_def intro!: keeping)

lemma keeps_items:
  assumes "quiet_leaves sx S W lv" "\<And>l params. R l \<Longrightarrow> keeps S W (run l params)"
  shows "pure_items sx R items \<Longrightarrow> keeps S W (exec_items k lv run params r items)"
proof (induction items arbitrary: r)
  case (Cons item items)
  obtain ao separator where item: "item = (ao, separator)" by (cases item)
  from Cons show ?case using keeps_and_or[where ao = ao, OF assms(1) _ assms(2)] keeps_status[OF assms(1)]
    by (auto simp: item pure_items_def intro!: keeping)
qed (simp add: keeping)

section \<open>How much fuel a pure program needs\<close>

text \<open>The nesting of the lists: \<open>nested_within n l\<close> when the pure list \<open>l\<close> is nested at most \<open>n\<close> deep.\<close>

fun nested_within :: "shell_context \<Rightarrow> nat \<Rightarrow> compound_list \<Rightarrow> bool" where
  "nested_within sx 0 l \<longleftrightarrow> False"
| "nested_within sx (Suc n) l \<longleftrightarrow> pure_items sx (nested_within sx n) (cl_items l)"

lemma keeps_fitting: "quiet_leaves sx S W lv \<Longrightarrow> nested_within sx n l \<Longrightarrow> keeps S W (exec_list n lv l params)"
proof (induction n arbitrary: l params)
  case (Suc n)
  from Suc.IH[OF Suc.prems(1)] Suc.prems show ?case by (auto intro: keeps_items[where R = "nested_within sx n"])
qed simp

lemma keeps_program:
  assumes "quiet_leaves sx S W lv"
  shows "list_all (nested_within sx n) program \<Longrightarrow> keeps S W (exec_program n lv params r program)"
proof (induction program arbitrary: r)
  case (Cons l ls)
  then show ?case using keeps_fitting[OF assms, of n l params] quiet_keeping[OF assms]
    by (auto intro!: keeping split: sum.split)
qed (simp add: keeping)

lemma exists_bound:
  assumes "\<And>n m x. n \<le> m \<Longrightarrow> Q n x \<Longrightarrow> Q m x"
  shows "list_all (\<lambda>x. \<exists>n. Q n x) xs \<Longrightarrow> \<exists>n::nat. list_all (Q n) xs"
proof (induction xs)
  case (Cons x xs)
  then obtain n m where "Q n x" "list_all (Q m) xs" by auto
  with assms have "list_all (Q (max n m)) (x # xs)" by (auto simp: list_all_iff intro: max.cobounded1 max.cobounded2)
  then show ?case ..
qed simp

text \<open>Each construct is monotone in its lists, and a bound of its parts is a bound of it.\<close>

lemma pure_command_cong: "(\<And>l. l \<in> set_command c \<Longrightarrow> R l \<Longrightarrow> R' l) \<Longrightarrow> pure_command sx R c \<Longrightarrow> pure_command sx R' c"
  by (cases c) (auto simp: pure_compound_def split: compound_command.splits)

lemma pure_pipeline_cong: "(\<And>l. l \<in> set_pipeline p \<Longrightarrow> R l \<Longrightarrow> R' l) \<Longrightarrow> pure_pipeline sx R p \<Longrightarrow> pure_pipeline sx R' p"
  by (cases p) (auto simp: pure_pipeline_def list_all_iff intro: pure_command_cong)

lemma pure_branch_cong: "(\<And>l. l \<in> set_and_or b \<Longrightarrow> R l \<Longrightarrow> R' l) \<Longrightarrow> pure_branch sx R b \<Longrightarrow> pure_branch sx R' b"
  by (cases b) (auto intro: pure_pipeline_cong)

lemma pure_and_or_cong:
  "(\<And>l. l \<in> set_and_or_list ao \<Longrightarrow> R l \<Longrightarrow> R' l) \<Longrightarrow> pure_and_or sx R ao \<Longrightarrow> pure_and_or sx R' ao"
  by (cases ao) (auto simp: pure_and_or_def list_all_iff intro: pure_pipeline_cong pure_branch_cong)

lemma pure_items_cong:
  assumes "\<And>ao separator l. (ao, separator) \<in> set items \<Longrightarrow> l \<in> set_and_or_list ao \<Longrightarrow> R l \<Longrightarrow> R' l"
  shows "pure_items sx R items \<Longrightarrow> pure_items sx R' items"
  using pure_and_or_cong[of _ R R' sx] assms unfolding pure_items_def list_all_iff by (fastforce split: prod.splits)

lemma nested_Suc: "nested_within sx n l \<Longrightarrow> nested_within sx (Suc n) l"
proof (induction n arbitrary: l)
  case (Suc n)
  from Suc.IH have "pure_items sx (nested_within sx n) (cl_items l) \<Longrightarrow> pure_items sx (nested_within sx (Suc n)) (cl_items l)"
    by (rule pure_items_cong)
  with Suc.prems show ?case by simp
qed simp

lemma nested_le: "n \<le> m \<Longrightarrow> nested_within sx n l \<Longrightarrow> nested_within sx m l"
  by (induction rule: dec_induct) (auto intro: nested_Suc simp del: nested_within.simps)

lemma pure_command_bound: "pure_command sx (\<lambda>l. \<exists>n. nested_within sx n l) c \<Longrightarrow> \<exists>n. pure_command sx (nested_within sx n) c"
  by (cases c) (auto simp: pure_compound_def split: compound_command.splits)

lemma pure_pipeline_bound: "pure_pipeline sx (\<lambda>l. \<exists>n. nested_within sx n l) p \<Longrightarrow> \<exists>n. pure_pipeline sx (nested_within sx n) p"
proof -
  assume p: "pure_pipeline sx (\<lambda>l. \<exists>n. nested_within sx n l) p"
  then have "list_all (\<lambda>c. \<exists>n. pure_command sx (nested_within sx n) c) (pl_seq p)"
    by (auto simp: pure_pipeline_def list_all_iff intro: pure_command_bound)
  moreover have "n \<le> m \<Longrightarrow> pure_command sx (nested_within sx n) c \<Longrightarrow> pure_command sx (nested_within sx m) c" for n m c
    by (rule pure_command_cong[OF nested_le])
  ultimately have "\<exists>n. list_all (pure_command sx (nested_within sx n)) (pl_seq p)" by (intro exists_bound)
  with p show ?thesis by (simp add: pure_pipeline_def)
qed

lemma pure_branch_bound: "pure_branch sx (\<lambda>l. \<exists>n. nested_within sx n l) b \<Longrightarrow> \<exists>n. pure_branch sx (nested_within sx n) b"
  by (cases b) (auto dest: pure_pipeline_bound)

lemma pure_and_or_bound:
  assumes "pure_and_or sx (\<lambda>l. \<exists>n. nested_within sx n l) ao"
  shows "\<exists>n. pure_and_or sx (nested_within sx n) ao"
proof -
  from assms obtain n where n: "pure_pipeline sx (nested_within sx n) (ao_first ao)"
    by (auto simp: pure_and_or_def dest: pure_pipeline_bound)
  have "list_all (\<lambda>b. \<exists>n. pure_branch sx (nested_within sx n) b) (ao_additional ao)"
    using assms by (auto simp: pure_and_or_def list_all_iff dest: pure_branch_bound)
  moreover have "n \<le> m \<Longrightarrow> pure_branch sx (nested_within sx n) b \<Longrightarrow> pure_branch sx (nested_within sx m) b" for n m b
    by (rule pure_branch_cong[OF nested_le])
  ultimately have "\<exists>m. list_all (pure_branch sx (nested_within sx m)) (ao_additional ao)" by (intro exists_bound)
  then obtain m where m: "list_all (pure_branch sx (nested_within sx m)) (ao_additional ao)" ..
  have "pure_pipeline sx (nested_within sx (max n m)) (ao_first ao)"
    by (rule pure_pipeline_cong[OF _ n]) (rule nested_le[OF max.cobounded1])
  moreover have "list_all (pure_branch sx (nested_within sx (max n m))) (ao_additional ao)"
    using m by (auto simp: list_all_iff intro: pure_branch_cong nested_le[OF max.cobounded2])
  ultimately show ?thesis by (auto simp: pure_and_or_def)
qed

lemma pure_items_bound:
  assumes "pure_items sx (\<lambda>l. \<exists>n. nested_within sx n l) items"
  shows "\<exists>n. pure_items sx (nested_within sx n) items"
proof -
  let ?Q = "\<lambda>n (ao, separator). separator = SequenceSeparator \<and> pure_and_or sx (nested_within sx n) ao"
  have "list_all (\<lambda>x. \<exists>n. ?Q n x) items"
    using assms pure_and_or_bound[of sx] unfolding pure_items_def list_all_iff by (fastforce split: prod.splits)
  moreover have "n \<le> m \<Longrightarrow> ?Q n x \<Longrightarrow> ?Q m x" for n m x
    by (cases x) (auto intro: pure_and_or_cong nested_le)
  ultimately show ?thesis using exists_bound[of ?Q items] by (auto simp: pure_items_def)
qed

lemma pure_nested: "pure_list sx l \<Longrightarrow> \<exists>n. nested_within sx n l"
proof (induction l)
  case (CompoundList items)
  have "pure_items sx (\<lambda>l. \<exists>n. nested_within sx n l) items"
  proof (rule pure_items_cong)
    show "\<exists>n. nested_within sx n l" if "(ao, separator) \<in> set items" "l \<in> set_and_or_list ao" "pure_list sx l" for ao separator l
      using CompoundList.IH[OF that(1) _ that(2,3)] by simp
    show "pure_items sx (pure_list sx) items" using CompoundList.prems by (simp only: pure_list_items)
  qed
  then obtain n where "pure_items sx (nested_within sx n) items" using pure_items_bound by blast
  then have "nested_within sx (Suc n) (CompoundList items)" by simp
  then show ?case ..
qed

lemma pure_program_nested: "list_all (pure_list sx) program \<Longrightarrow> \<exists>n. \<forall>m \<ge> n. list_all (nested_within sx m) program"
proof -
  assume "list_all (pure_list sx) program"
  then have "list_all (\<lambda>l. \<exists>n. nested_within sx n l) program" by (auto simp: list_all_iff dest: pure_nested)
  then obtain n where "list_all (nested_within sx n) program" using exists_bound[of "nested_within sx" program] nested_le by blast
  then have "\<forall>m \<ge> n. list_all (nested_within sx m) program" by (auto simp: list_all_iff intro: nested_le)
  then show ?thesis ..
qed

end
