(* ===== verification/Flow.thy ===== *)
theory Flow
  imports Interp
begin

text \<open>
  What the interpreter's results can be: no exit for a failure where one is suppressed, the outcome of a
  pipeline, loops ended from inside, and that more fuel changes no result.
\<close>

section \<open>What an action gives\<close>

definition gives_only :: "('a \<Rightarrow> bool) \<Rightarrow> ('a, 'e, 'w) act \<Rightarrow> bool" where
  "gives_only A m \<longleftrightarrow> (\<forall>s x s'. m s = Some (Inr x, s') \<longrightarrow> A x)"

named_theorems yielding

lemma gives_give [yielding]: "A x \<Longrightarrow> gives_only A (give x)"
  by (simp add: gives_only_def give_def)

lemma gives_fail [yielding]: "gives_only A (fail_with e)"
  by (simp add: gives_only_def fail_with_def)

lemma gives_stuck [yielding]: "gives_only A (\<lambda>s. None)"
  by (simp add: gives_only_def)

lemma gives_after: "gives_only B m \<Longrightarrow> (\<And>x. B x \<Longrightarrow> gives_only A (k x)) \<Longrightarrow> gives_only A (after_act m k)"
  unfolding gives_only_def after_act_def by (auto split: option.splits sum.splits) blast

lemma gives_then [yielding]: "(\<And>x. gives_only A (k x)) \<Longrightarrow> gives_only A (after_act m k)"
  by (rule gives_after[of "\<lambda>x. True"]) (simp_all add: gives_only_def)

lemma gives_shell [yielding]: "(\<And>sh. gives_only A (k sh)) \<Longrightarrow> gives_only A (with_shell k)"
  by (simp add: gives_only_def with_shell_def)

lemma gives_if [yielding]: "(b \<Longrightarrow> gives_only A m) \<Longrightarrow> (\<not> b \<Longrightarrow> gives_only A m') \<Longrightarrow> gives_only A (if b then m else m')"
  by simp

lemma gives_prod [yielding]: "(\<And>a b. x = (a, b) \<Longrightarrow> gives_only A (f a b)) \<Longrightarrow> gives_only A (case x of (a, b) \<Rightarrow> f a b)"
  by (cases x) simp

lemma gives_option [yielding]:
  "(x = None \<Longrightarrow> gives_only A m) \<Longrightarrow> (\<And>y. x = Some y \<Longrightarrow> gives_only A (f y)) \<Longrightarrow> gives_only A (case x of None \<Rightarrow> m | Some y \<Rightarrow> f y)"
  by (cases x) simp_all

lemma gives_sum [yielding]:
  "(\<And>e. x = Inl e \<Longrightarrow> gives_only A (f e)) \<Longrightarrow> (\<And>y. x = Inr y \<Longrightarrow> gives_only A (g y)) \<Longrightarrow>
   gives_only A (case x of Inl e \<Rightarrow> f e | Inr y \<Rightarrow> g y)"
  by (cases x) simp_all

lemma gives_copy: "gives_only A m \<Longrightarrow> gives_only (\<lambda>(r, sub). \<forall>x. r = Inr x \<longrightarrow> A x) (in_copy m)"
  unfolding gives_only_def in_copy_def by (auto split: option.splits) blast

lemma gives_weaken: "gives_only B m \<Longrightarrow> (\<And>x. B x \<Longrightarrow> A x) \<Longrightarrow> gives_only A m"
  by (auto simp: gives_only_def)

section \<open>No exit where it is suppressed\<close>

definition stays :: "exec_result \<Rightarrow> bool" where
  "stays r \<longleftrightarrow> xe_flow r \<noteq> ExitShell"

fun spawn_stays :: "'c spawned \<Rightarrow> bool" where
  "spawn_stays (CompletedSpawn r) \<longleftrightarrow> stays r"
| "spawn_stays x \<longleftrightarrow> True"

fun wait_stays :: "'c waited \<Rightarrow> bool" where
  "wait_stays (CompletedWait r) \<longleftrightarrow> stays r"
| "wait_stays x \<longleftrightarrow> True"

text \<open>Under suppression no leaf asks for an exit of the shell, and none lifts the suppression.\<close>

definition staying_leaves :: "('c, 'f, 'e, 'w) leaves \<Rightarrow> bool" where
  "staying_leaves lv \<longleftrightarrow>
     (\<forall>pgid simple params. pm_suppress_errexit params \<longrightarrow> gives_only spawn_stays (lv_simple lv pgid simple params)) \<and>
     (\<forall>child. gives_only wait_stays (lv_wait_process lv child)) \<and> (\<forall>task. gives_only stays (lv_wait_task lv task)) \<and>
     (\<forall>name body params. pm_suppress_errexit params \<longrightarrow> gives_only stays (lv_coprocess lv name body params)) \<and>
     (\<forall>len i current params. pm_suppress_errexit params \<longrightarrow> pm_suppress_errexit (lv_stage_params lv len i current params)) \<and>
     (\<forall>redirect params. pm_suppress_errexit params \<longrightarrow> gives_only pm_suppress_errexit (lv_redirect lv redirect params))"

lemma staying_leavesD:
  assumes "staying_leaves lv"
  shows "pm_suppress_errexit params \<Longrightarrow> gives_only spawn_stays (lv_simple lv pgid simple params)"
    "gives_only wait_stays (lv_wait_process lv child)" "gives_only stays (lv_wait_task lv task)"
    "pm_suppress_errexit params \<Longrightarrow> gives_only stays (lv_coprocess lv name body params)"
    "pm_suppress_errexit params \<Longrightarrow> pm_suppress_errexit (lv_stage_params lv len i current params)"
    "pm_suppress_errexit params \<Longrightarrow> gives_only pm_suppress_errexit (lv_redirect lv redirect params)"
  using assms by (simp_all only: staying_leaves_def)

lemma suppressed_sel [simp]: "pm_suppress_errexit (suppressed params)"
  by (simp add: suppressed_def)

lemma decrement_stays [simp]: "stays (decrement r) \<longleftrightarrow> stays r"
  by (cases "xe_flow r" rule: try_decrement_loop_levels.cases) (simp_all add: decrement_def stays_def)

lemma stays_simps [simp]:
  "stays (result_of_code code)" "stays stopped_result" "stays (inverted r) \<longleftrightarrow> stays r" "stays (with_pipefail sh failure r) \<longleftrightarrow> stays r"
  by (simp_all add: stays_def result_of_code_def stopped_result_def inverted_def with_pipefail_def split: option.split)

lemma loop_over_stays [simp]: "loop_over r = (over, r') \<Longrightarrow> stays r' \<longleftrightarrow> stays r"
  by (auto simp: loop_over_def split: if_splits)

text \<open>The runner of nested lists stays under suppression.\<close>

definition staying_runner :: "('f, 'e, 'w) runner \<Rightarrow> bool" where
  "staying_runner run \<longleftrightarrow> (\<forall>l params. pm_suppress_errexit params \<longrightarrow> gives_only stays (run l params))"

lemma staying_runnerD: "staying_runner run \<Longrightarrow> pm_suppress_errexit params \<Longrightarrow> gives_only stays (run l params)"
  by (simp add: staying_runner_def)

lemma for_values_stay:
  assumes "staying_runner run" "pm_suppress_errexit params"
  shows "stays r \<Longrightarrow> gives_only stays (exec_for_values lv run c name body params vs r)"
proof (induction vs arbitrary: r)
  case (Cons v vs)
  then show ?case
    by (auto simp: Let_def split: prod.split intro!: yielding gives_after[OF staying_runnerD[OF assms]])
qed (simp add: yielding)

lemma cases_stay:
  assumes "staying_runner run" "pm_suppress_errexit params"
  shows "stays r \<Longrightarrow> gives_only stays (exec_cases lv run v params forced r items)"
proof (induction items arbitrary: r forced)
  case (Cons item items)
  have body: "gives_only stays (case ci_cmd item of Some l \<Rightarrow> run l params | None \<Rightarrow> give success)"
    using staying_runnerD[OF assms] by (auto intro: yielding split: option.split)
  show ?case using Cons
    by (cases "ci_post_action item") (auto intro!: yielding gives_after[OF body])
qed (simp add: yielding)

lemma elses_stay:
  assumes "staying_runner run" "pm_suppress_errexit params"
  shows "gives_only stays (exec_elses run params es)"
proof (induction es)
  case (Cons e es)
  then show ?case using staying_runnerD[OF assms]
    by (auto intro!: yielding gives_after[OF staying_runnerD[OF assms(1) suppressed_sel]] split: option.split)
qed (simp add: yielding)

lemma while_stays:
  assumes "staying_runner run" "pm_suppress_errexit params"
  shows "stays r \<Longrightarrow> gives_only stays (while_loop k run is_while condition body params r)"
proof (induction k arbitrary: r)
  case (Suc k)
  then show ?case
    by (auto simp: Let_def split: prod.split intro!: yielding gives_after[OF staying_runnerD[OF assms(1) suppressed_sel]] gives_after[OF staying_runnerD[OF assms]])
qed (simp add: yielding)

lemma arithmetic_stays:
  assumes "staying_runner run" "pm_suppress_errexit params"
  shows "stays r \<Longrightarrow> gives_only stays (arithmetic_loop k lv run condition updater body params r)"
proof (induction k arbitrary: r)
  case (Suc k)
  then show ?case
    by (auto simp: Let_def split: prod.split intro!: yielding gives_after[OF staying_runnerD[OF assms]])
qed (simp add: yielding)

lemma subshell_stays: "gives_only stays (exec_subshell lv run l params)"
  by (auto simp: exec_subshell_def intro!: yielding split: sum.split)

lemma gives_noted: "gives_only stays m \<Longrightarrow> gives_only stays (after_act m (\<lambda>r. after_act (set_status_of r) (\<lambda>u. give r)))"
  by (erule gives_after) (auto intro!: yielding)

lemma if_stays:
  assumes "staying_runner run" "pm_suppress_errexit params"
  shows "gives_only stays (exec_if run condition body elses params)"
  using staying_runnerD[OF assms] elses_stay[OF assms]
  by (auto simp: exec_if_def intro!: yielding gives_after[OF staying_runnerD[OF assms(1) suppressed_sel]])

lemma compound_stays:
  assumes "staying_leaves lv" "staying_runner run" "pm_suppress_errexit params"
  shows "gives_only stays (exec_compound k lv run c params)"
proof (cases c)
  case (ForClause name ws body)
  then show ?thesis
    by (auto simp: exec_for_def intro!: gives_then gives_noted for_values_stay[OF assms(2,3)])
next
  case (CaseClause w items)
  then show ?thesis by (auto simp: exec_case_def intro!: gives_then gives_noted cases_stay[OF assms(2,3)])
next
  case (WhileClause condition body)
  then show ?thesis by (auto simp: exec_while_def intro!: gives_noted while_stays[OF assms(2,3)])
next
  case (UntilClause condition body)
  then show ?thesis by (auto simp: exec_while_def intro!: gives_noted while_stays[OF assms(2,3)])
next
  case (ArithmeticForClause i condition u body)
  then show ?thesis by (auto simp: exec_arithmetic_for_def intro!: gives_then gives_noted arithmetic_stays[OF assms(2,3)])
next
  case (Arithmetic e)
  then show ?thesis by (auto simp: exec_arithmetic_def Let_def intro!: yielding)
qed (use assms staying_runnerD[OF assms(2,3)] staying_leavesD[OF assms(1)] if_stays[OF assms(2,3)] in \<open>auto simp: subshell_stays intro!: yielding\<close>)

lemma redirects_stay:
  assumes "staying_leaves lv"
  shows "pm_suppress_errexit params \<Longrightarrow> gives_only pm_suppress_errexit (with_redirects lv rs params)"
proof (induction rs arbitrary: params)
  case (Cons r rs)
  then show ?case using staying_leavesD(6)[OF assms, of params r] by (auto intro!: gives_after[where B = pm_suppress_errexit])
qed (simp add: yielding)

lemma command_stays:
  assumes "staying_leaves lv" "staying_runner run" "pm_suppress_errexit params"
  shows "gives_only spawn_stays (exec_command k lv run pgid c params)"
proof (cases c)
  case (Compound compound redirects)
  have run: "gives_only spawn_stays (after_act (exec_compound k lv run compound params') (\<lambda>r. give (CompletedSpawn r)))"
    if "pm_suppress_errexit params'" for params'
    by (rule gives_after[OF compound_stays[OF assms(1,2) that]]) (simp add: yielding)
  show ?thesis unfolding exec_command.simps Compound command.case
    by (intro gives_shell gives_if gives_then gives_after[OF redirects_stay[OF assms(1,3)]] run) (simp_all add: yielding)
qed (use staying_leavesD[OF assms(1)] assms(3) in \<open>auto simp: exec_command.simps intro!: yielding\<close>)

lemma spawns_stay:
  assumes "staying_leaves lv" "staying_runner run" "pm_suppress_errexit params"
  shows "gives_only (list_all spawn_stays) (spawn_commands k lv run len i pgid params cs)"
proof (induction cs arbitrary: i pgid)
  case (Cons c cs)
  have c: "gives_only spawn_stays (exec_command k lv run pgid c params')" if "pm_suppress_errexit params'" for pgid params'
    using command_stays[OF assms(1,2) that] .
  have one: "gives_only spawn_stays (if b then exec_command k lv run pgid c params'
      else after_act (in_copy (exec_command k lv run pgid c params')) (\<lambda>(r, sub). case r of Inl e \<Rightarrow> fail_with e | Inr x \<Rightarrow> give x))"
    if "pm_suppress_errexit params'" for b pgid params'
    using c[OF that] by (auto intro!: yielding gives_after[OF gives_copy[OF c[OF that]]])
  show ?case using assms(3) staying_leavesD(5)[OF assms(1,3)]
    by (auto simp: Let_def intro!: gives_shell gives_after[OF one] gives_after[OF Cons.IH] gives_give)
qed (simp add: yielding)

lemma wait_one_stays: "staying_leaves lv \<Longrightarrow> spawn_stays x \<Longrightarrow> gives_only wait_stays (wait_one lv polls x)"
proof (cases x)
  case (StartedTask task)
  assume "staying_leaves lv"
  then show ?thesis unfolding StartedTask wait_one.simps
    by (rule gives_after[OF staying_leavesD(3)]) (simp add: yielding)
qed (auto intro!: yielding dest: staying_leavesD(2))

definition first_stays :: "exec_result \<times> 'x \<Rightarrow> bool" where
  "first_stays x \<longleftrightarrow> stays (fst x)"

lemma first_stays_pair [simp]: "first_stays (r, x) \<longleftrightarrow> stays r"
  by (simp add: first_stays_def)

lemma wait_all_stays:
  assumes "staying_leaves lv"
  shows "list_all spawn_stays xs \<Longrightarrow> stays r \<Longrightarrow> gives_only first_stays (wait_all lv xs r failure stopped)"
proof (induction xs arbitrary: r failure stopped)
  case (Cons x xs)
  have one: "gives_only wait_stays (wait_one lv (stopped \<noteq> []) x)" using wait_one_stays[OF assms] Cons.prems by simp
  have "gives_only first_stays (case res of
     CompletedWait r' \<Rightarrow> after_act (note_result r') (\<lambda>u.
       wait_all lv xs r' (if is_success r' then failure else Some (xe_code r')) stopped)
   | StoppedWait child \<Rightarrow> after_act (note_result stopped_result) (\<lambda>u.
       wait_all lv xs stopped_result failure (stopped @ [child])))" if "wait_stays res" for res
    using that Cons by (cases res) (auto intro!: gives_then)
  then show ?case by (auto intro!: gives_after[OF one])
qed (simp add: yielding)

lemma wait_pipeline_stays:
  assumes "staying_leaves lv" "list_all spawn_stays xs"
  shows "gives_only stays (wait_pipeline lv p xs params)"
proof -
  have "stays success" by simp
  note all = wait_all_stays[OF assms this]
  have pipefail: "gives_only stays (with_shell (\<lambda>sh. give (with_pipefail sh failure r)))" if "stays r" for failure r
    using that by (auto intro!: yielding)
  show ?thesis unfolding wait_pipeline_def
    by (rule gives_then, rule gives_after[OF all])
      (auto simp: split_paired_all intro!: gives_after[OF pipefail] intro: gives_then gives_give)
qed

lemma pipeline_stays:
  assumes "staying_leaves lv" "staying_runner run" "pm_suppress_errexit params"
  shows "gives_only stays (exec_pipeline k lv run p params)"
proof -
  let ?params = "if pl_bang p then suppressed params else params"
  have params: "pm_suppress_errexit ?params" using assms(3) by simp
  note spawns = spawns_stay[OF assms(1,2) params]
  show ?thesis unfolding exec_pipeline_def Let_def
    by (rule gives_then, rule gives_then, rule gives_after[OF spawns], rule gives_after[OF wait_pipeline_stays[OF assms(1)]],
        assumption, rule gives_then, rule gives_then, rule gives_after[where B = stays])
      (use params in \<open>auto intro!: yielding\<close>)
qed

lemma branches_stay:
  assumes "staying_leaves lv" "staying_runner run" "pm_suppress_errexit params"
  shows "stays r \<Longrightarrow> gives_only stays (exec_branches k lv run params r bs)"
proof (induction bs arbitrary: r)
  case (Cons b bs)
  have p: "gives_only stays (exec_pipeline k lv run p (if bs = [] then params else suppressed params))" for p
    using assms(3) by (intro pipeline_stays[OF assms(1,2)]) simp
  show ?case unfolding exec_branches.simps Let_def
    by (intro gives_if gives_prod gives_after[OF p] gives_give Cons)
qed (simp add: yielding)

lemma items_stay:
  assumes "staying_leaves lv" "staying_runner run" "pm_suppress_errexit params"
  shows "stays r \<Longrightarrow> gives_only stays (exec_items k lv run params r items)"
proof (induction items arbitrary: r)
  case (Cons item items)
  obtain ao separator where item: "item = (ao, separator)" by (cases item)
  have "gives_only stays (exec_and_or k lv run ao params)"
    unfolding exec_and_or_def using assms(3)
    by (intro gives_after[OF pipeline_stays[OF assms(1,2)]] branches_stay[OF assms]) simp
  then have one: "gives_only stays (if separator = AsyncSeparator then after_act (lv_async lv ao params) (\<lambda>u. give success)
      else after_act (exec_and_or k lv run ao params) (\<lambda>r'. after_act (set_status_of r') (\<lambda>u. give r')))"
    by (intro gives_if gives_noted) (rule gives_then, simp add: yielding, assumption)
  show ?case unfolding item exec_items.simps by (intro gives_after[OF one] gives_if gives_give Cons.IH)
qed (simp add: yielding)

lemma lists_stay: "staying_leaves lv \<Longrightarrow> staying_runner (exec_list n lv)"
proof (induction n)
  case (Suc n)
  then show ?case using items_stay[OF Suc.prems Suc.IH[OF Suc.prems], of _ success] by (simp add: staying_runner_def)
qed (simp add: staying_runner_def yielding)

lemma after_step: "m s = Some (Inr x, s') \<Longrightarrow> after_act m k s = k x s'"
  by (simp add: after_act_def)

section \<open>The outcome of a pipeline\<close>

text \<open>When every stage completed: the statuses, the last result with pipefail, the inversion and errexit.\<close>

fun last_failure :: "exec_result list \<Rightarrow> exit_code option" where
  "last_failure [] = None"
| "last_failure (r # rs) = (case last_failure rs of Some code \<Rightarrow> Some code | None \<Rightarrow> if is_success r then None else Some (xe_code r))"

lemma wait_completed:
  "\<exists>n. wait_all lv (map CompletedSpawn rs) r failure [] (sh, w) = Some
     (Inr (if rs = [] then r else last rs, (case last_failure rs of None \<Rightarrow> failure | Some code \<Rightarrow> Some code), []),
      sh\<lparr>sl_status := (if rs = [] then sl_status sh else code_number (xe_code (last rs))), sl_status_changes := n,
         sl_pipeline_statuses := sl_pipeline_statuses sh @ map (code_number \<circ> xe_code) rs\<rparr>, w)"
proof (induction rs arbitrary: r failure sh)
  case Nil
  show ?case by (intro exI[of _ "sl_status_changes sh"]) (simp add: give_def)
next
  case (Cons x rs)
  show ?case
    using Cons.IH[of x "if is_success x then failure else Some (xe_code x)" "push_pipeline_status (xe_code x) (set_status (xe_code x) sh)"]
    by (auto simp: after_act_def give_def note_result_def set_status_of_def change_def set_status_def push_pipeline_status_def
      split: option.split)
qed

definition pipeline_code :: "bool \<Rightarrow> bool \<Rightarrow> exec_result list \<Rightarrow> exit_code" where
  "pipeline_code pipefail bang rs =
     (let code = (case last_failure rs of Some code \<Rightarrow> if pipefail then code else xe_code (last rs) | None \<Rightarrow> xe_code (last rs)) in
      if bang then (if is_success_code code then GeneralError else ExitSuccess) else code)"

definition pipeline_flow :: "bool \<Rightarrow> exit_code \<Rightarrow> exec_result list \<Rightarrow> control_flow" where
  "pipeline_flow errexit code rs =
     (if errexit \<and> \<not> is_success_code code \<and> xe_flow (last rs) = NormalFlow then ExitShell else xe_flow (last rs))"

lemma with_pipefail_sel:
  "with_pipefail sh failure r = \<lparr>xe_flow = xe_flow r, xe_code = (case failure of Some code \<Rightarrow> if so_pipefail (sl_options sh) then code else xe_code r | None \<Rightarrow> xe_code r)\<rparr>"
  by (auto simp: with_pipefail_def split: option.split)

lemma exit_code_of_simps [simp]: "exit_code_of 0 = ExitSuccess" "exit_code_of 1 = GeneralError"
  by (simp_all add: exit_code_of_def)

lemma inverted_sel: "inverted r = \<lparr>xe_flow = xe_flow r, xe_code = (if is_success_code (xe_code r) then GeneralError else ExitSuccess)\<rparr>"
  by (simp add: inverted_def is_success_def)

lemma wait_pipeline_completed:
  assumes "rs \<noteq> []" "\<not> so_interactive (sl_options sh)"
  shows "\<exists>n. wait_pipeline lv p (map CompletedSpawn rs) params (sh, w) = Some
     (Inr \<lparr>xe_flow = xe_flow (last rs), xe_code = pipeline_code (so_pipefail (sl_options sh)) False rs\<rparr>,
      sh\<lparr>sl_status := code_number (xe_code (last rs)), sl_status_changes := n, sl_pipeline_statuses := map (code_number \<circ> xe_code) rs\<rparr>, w)"
  using wait_completed[of lv rs success None "sh\<lparr>sl_pipeline_statuses := []\<rparr>" w] assms
  by (auto simp: wait_pipeline_def after_act_def give_def change_def with_shell_def nothing_def with_pipefail_sel pipeline_code_def Let_def
    split: option.split)

end
