(* ===== verification/Fuel.thy ===== *)
theory Fuel
  imports Interp
begin

text \<open>
  More fuel changes no result of the interpreter: an execution that ended ends the same way with more.
\<close>

section \<open>Actions that agree where the first one ends\<close>

definition outlives :: "('a, 'e, 'w) act \<Rightarrow> ('a, 'e, 'w) act \<Rightarrow> bool" where
  "outlives m m' \<longleftrightarrow> (\<forall>s. m s = None \<or> m' s = m s)"

lemma outlivesD: "outlives m m' \<Longrightarrow> m s = None \<or> m' s = m s"
  unfolding outlives_def by (rule spec)

named_theorems outliving

lemma outlives_refl [outliving]: "outlives m m" and outlives_stuck [outliving]: "outlives (\<lambda>s. None) m"
  by (simp_all add: outlives_def)

lemma outlives_after [outliving]:
  assumes "outlives m m'" "\<And>x. outlives (k x) (k' x)"
  shows "outlives (after_act m k) (after_act m' k')"
  unfolding outlives_def
proof
  fix s
  from assms(1) have "m s = None \<or> m' s = m s" by (rule outlivesD)
  then show "after_act m k s = None \<or> after_act m' k' s = after_act m k s"
    using outlivesD[OF assms(2)] by (auto simp: after_act_def split: option.split sum.split) blast
qed

lemma outlives_shell [outliving]: "(\<And>sh. outlives (k sh) (k' sh)) \<Longrightarrow> outlives (with_shell k) (with_shell k')"
  by (auto simp: outlives_def with_shell_def)

lemma outlives_copy [outliving]: 
  assumes "outlives m m'"
  shows "outlives (in_copy m) (in_copy m')"
  unfolding outlives_def
proof
  fix s
  from assms have "m s = None \<or> m' s = m s" by (rule outlivesD)
  then show "in_copy m s = None \<or> in_copy m' s = in_copy m s" by (cases s) (auto simp: in_copy_def)
qed

lemma outlives_attempt [outliving]: 
  assumes "outlives m m'"
  shows "outlives (attempt m) (attempt m')"
  unfolding outlives_def
proof
  fix s
  from assms have "m s = None \<or> m' s = m s" by (rule outlivesD)
  then show "attempt m s = None \<or> attempt m' s = attempt m s" by (cases s) (auto simp: attempt_def)
qed

lemma outlives_if [outliving]:
  "(b \<Longrightarrow> outlives m1 m1') \<Longrightarrow> (\<not> b \<Longrightarrow> outlives m2 m2') \<Longrightarrow> outlives (if b then m1 else m2) (if b then m1' else m2')"
  by simp

lemma outlives_prod [outliving]: "(\<And>a b. outlives (f a b) (f' a b)) \<Longrightarrow> outlives (case x of (a, b) \<Rightarrow> f a b) (case x of (a, b) \<Rightarrow> f' a b)"
  by (cases x) simp

lemma outlives_option [outliving]:
  "outlives m m' \<Longrightarrow> (\<And>y. outlives (f y) (f' y)) \<Longrightarrow> outlives (case x of None \<Rightarrow> m | Some y \<Rightarrow> f y) (case x of None \<Rightarrow> m' | Some y \<Rightarrow> f' y)"
  by (cases x) simp_all

lemma outlives_sum [outliving]:
  "(\<And>e. outlives (f e) (f' e)) \<Longrightarrow> (\<And>y. outlives (g y) (g' y)) \<Longrightarrow>
   outlives (case x of Inl e \<Rightarrow> f e | Inr y \<Rightarrow> g y) (case x of Inl e \<Rightarrow> f' e | Inr y \<Rightarrow> g' y)"
  by (cases x) simp_all

section \<open>Every construct\<close>

lemma for_outlives:
  assumes "\<And>l params. outlives (run l params) (run' l params)"
  shows "outlives (exec_for_values lv run c name body params vs r) (exec_for_values lv run' c name body params vs r)"
proof (induction vs arbitrary: r)
  case (Cons v vs)
  then show ?case unfolding exec_for_values.simps Let_def by (intro outliving assms)
qed (simp add: outliving)

lemma cases_outlive:
  assumes "\<And>l params. outlives (run l params) (run' l params)"
  shows "outlives (exec_cases lv run v params forced r items) (exec_cases lv run' v params forced r items)"
proof (induction items arbitrary: r forced)
  case (Cons item items)
  then show ?case
    by (cases "ci_post_action item") (auto intro!: outliving assms)
qed (simp add: outliving)

lemma elses_outlive:
  assumes "\<And>l params. outlives (run l params) (run' l params)"
  shows "outlives (exec_elses run params es) (exec_elses run' params es)"
proof (induction es)
  case (Cons e es)
  then show ?case unfolding exec_elses.simps by (intro outliving assms)
qed (simp add: outliving)

lemma while_outlives:
  assumes "\<And>l params. outlives (run l params) (run' l params)"
  shows "k \<le> k' \<Longrightarrow> outlives (while_loop k run is_while condition body params r) (while_loop k' run' is_while condition body params r)"
proof (induction k arbitrary: k' r)
  case (Suc k)
  then obtain j where "k' = Suc j" "k \<le> j" by (cases k') auto
  with Suc.IH show ?case unfolding \<open>k' = Suc j\<close> while_loop.simps Let_def by (intro outliving assms)
qed (simp add: outliving)

lemma arithmetic_outlives:
  assumes "\<And>l params. outlives (run l params) (run' l params)"
  shows "k \<le> k' \<Longrightarrow> outlives (arithmetic_loop k lv run condition updater body params r) (arithmetic_loop k' lv run' condition updater body params r)"
proof (induction k arbitrary: k' r)
  case (Suc k)
  then obtain j where "k' = Suc j" "k \<le> j" by (cases k') auto
  with Suc.IH show ?case unfolding \<open>k' = Suc j\<close> arithmetic_loop.simps Let_def by (intro outliving assms)
qed (simp add: outliving)

lemma compound_outlives:
  assumes "\<And>l params. outlives (run l params) (run' l params)" "k \<le> k'"
  shows "outlives (exec_compound k lv run c params) (exec_compound k' lv run' c params)"
  using assms(1) elses_outlive[OF assms(1)]
  by (cases c)
    (auto simp: exec_subshell_def exec_for_def exec_case_def exec_if_def exec_while_def exec_arithmetic_for_def
      intro!: outliving assms for_outlives cases_outlive while_outlives arithmetic_outlives)

lemma command_outlives:
  assumes "\<And>l params. outlives (run l params) (run' l params)" "k \<le> k'"
  shows "outlives (exec_command k lv run pgid c params) (exec_command k' lv run' pgid c params)"
  by (cases c) (auto simp: exec_command.simps intro!: outliving compound_outlives assms)

lemma spawns_outlive:
  assumes "\<And>l params. outlives (run l params) (run' l params)" "k \<le> k'"
  shows "outlives (spawn_commands k lv run len i pgid params cs) (spawn_commands k' lv run' len i pgid params cs)"
proof (induction cs arbitrary: i pgid)
  case (Cons c cs)
  then show ?case unfolding spawn_commands.simps Let_def by (intro outliving command_outlives assms)
qed (simp add: outliving)

lemma pipeline_outlives:
  assumes "\<And>l params. outlives (run l params) (run' l params)" "k \<le> k'"
  shows "outlives (exec_pipeline k lv run p params) (exec_pipeline k' lv run' p params)"
  unfolding exec_pipeline_def Let_def by (intro outlives_after outlives_refl spawns_outlive assms)

lemma branches_outlive:
  assumes "\<And>l params. outlives (run l params) (run' l params)" "k \<le> k'"
  shows "outlives (exec_branches k lv run params r bs) (exec_branches k' lv run' params r bs)"
proof (induction bs arbitrary: r)
  case (Cons b bs)
  then show ?case unfolding exec_branches.simps Let_def by (intro outliving pipeline_outlives assms)
qed (simp add: outliving)

lemma items_outlive:
  assumes "\<And>l params. outlives (run l params) (run' l params)" "k \<le> k'"
  shows "outlives (exec_items k lv run params r items) (exec_items k' lv run' params r items)"
proof (induction items arbitrary: r)
  case (Cons item items)
  then show ?case
    by (cases item) (auto simp: exec_and_or_def intro!: outliving pipeline_outlives branches_outlive assms)
qed (simp add: outliving)

lemma lists_outlive: "n \<le> m \<Longrightarrow> outlives (exec_list n lv l params) (exec_list m lv l params)"
proof (induction n arbitrary: m l params)
  case (Suc n)
  then obtain j where "m = Suc j" "n \<le> j" by (cases m) auto
  with Suc.IH show ?case by (auto intro!: items_outlive)
qed (simp add: outliving)

lemma program_outlives:
  assumes "n \<le> m"
  shows "outlives (exec_program n lv params r program) (exec_program m lv params r program)"
proof (induction program arbitrary: r)
  case (Cons l ls)
  then show ?case unfolding exec_program.simps by (intro outliving lists_outlive assms)
qed (simp add: outliving)

end
