(* ===== verification/Repl.thy ===== *)
theory Repl
  imports Jobs
begin

text \<open>
  The line grammar and the report of a front end, \<^verbatim>\<open>shellmux/src/repl.rs\<close>, and the signals of its
  \<^verbatim>\<open>kill\<close>, \<^verbatim>\<open>jobctl.rs\<close>. The text of an error is a parameter of the report.
\<close>

section \<open>Words and searching\<close>

text \<open>\<open>split_whitespace\<close>, with the word read so far.\<close>

fun words_from :: "string \<Rightarrow> string \<Rightarrow> string list" where
  "words_from w [] = (if w = [] then [] else [w])"
| "words_from w (c # cs) =
     (if is_space c then (if w = [] then words_from [] cs else w # words_from [] cs) else words_from (w @ [c]) cs)"

definition words_of :: "string \<Rightarrow> string list" where
  "words_of s = words_from [] s"

text \<open>The last position a pattern is found at.\<close>

fun rfind :: "string \<Rightarrow> string \<Rightarrow> nat option" where
  "rfind d [] = (if d = [] then Some 0 else None)"
| "rfind d (c # cs) = (case rfind d cs of
     Some i \<Rightarrow> Some (Suc i)
   | None \<Rightarrow> if prefix d (c # cs) then Some 0 else None)"

section \<open>The input line\<close>

definition FOREGROUND :: string where
  "FOREGROUND = ''main''"

datatype input =
    EmptyInput
  | JobsInput
  | ExitInput
  | FgInput "string option"
  | KillInput "string list"
  | StopInput "string list"
  | SpawnDirInput "string option" string
  | BackgroundInput string "string option"
  | ForegroundInput string
  | InvalidInput string

definition is_control :: "char \<Rightarrow> bool" where
  "is_control c \<longleftrightarrow> (of_char c :: nat) < 32 \<or> (of_char c :: nat) = 127"

definition name_refused :: "string \<Rightarrow> bool" where
  "name_refused name \<longleftrightarrow> name = [] \<or> list_ex (\<lambda>c. c = CHR ''%'' \<or> c = CHR 0x22 \<or> is_control c) name"

definition named_background :: "string \<Rightarrow> string \<Rightarrow> input" where
  "named_background cmd name =
     (if name = FOREGROUND then InvalidInput (''&: invalid job name '' @ debug_string name @ '' ('' @ debug_string FOREGROUND @ '' is the foreground job)'')
      else if name_refused name then InvalidInput (''&: invalid job name '' @ debug_string name @ '' (not empty, and no % or '' @ [CHR 0x22] @ '')'')
      else BackgroundInput cmd (Some name))"

text \<open>Where the \<open>&\<close> that opens a job stands, and the name behind it.\<close>

definition job_mark :: "string \<Rightarrow> (nat \<times> string option) option" where
  "job_mark line = (case strip_suffix [CHR 0x22] line of
     Some head \<Rightarrow> Option.bind (rfind [CHR ''&'', CHR 0x22] head) (\<lambda>start.
       let name = drop (start + 2) head in if CHR 0x22 \<in> set name then None else Some (start, Some name))
   | None \<Rightarrow> (case strip_suffix ''&'' line of
       Some head \<Rightarrow> Some (length head, None)
     | None \<Rightarrow> Option.bind (rfind ''&'' line) (\<lambda>start.
         let name = drop (start + 1) line in if is_bare name then Some (start, Some name) else None)))"

definition background :: "string \<Rightarrow> input option" where
  "background line = Option.bind (job_mark line) (\<lambda>(start, name).
     if start = 0 \<or> line ! (start - 1) = CHR ''&'' then None
     else let cmd = trim_end (take start line) in
       if cmd = [] then None
       else Some (case name of None \<Rightarrow> BackgroundInput cmd None | Some name \<Rightarrow> named_background cmd name))"

definition or_else :: "'a option \<Rightarrow> 'a \<Rightarrow> 'a" where
  "or_else x y = (case x of Some v \<Rightarrow> v | None \<Rightarrow> y)"

definition job_reference :: "string \<Rightarrow> string option" where
  "job_reference text0 =
     (let text1 = trim text0;
          text2 = or_else (strip_prefix ''%'' text1) text1;
          name = or_else (Option.bind (strip_prefix [CHR 0x22] text2) (strip_suffix [CHR 0x22])) text2 in
      if name = [] then None else Some name)"

text \<open>The options in front of the job of a \<open>stop\<close>, and what is behind them.\<close>

definition first_word :: "string \<Rightarrow> string" where
  "first_word s = takeWhile (\<lambda>c. \<not> is_space c) s"

definition behind_word :: "string \<Rightarrow> string" where
  "behind_word s = trim_start (dropWhile (\<lambda>c. \<not> is_space c) s)"

lemma behind_shorter: "first_word s \<noteq> [] \<Longrightarrow> length (behind_word s) < length s"
proof (cases s)
  case (Cons c cs)
  assume "first_word s \<noteq> []"
  with Cons have "\<not> is_space c" by (cases "is_space c") (simp_all add: first_word_def)
  with Cons have "behind_word s = dropWhile is_space (dropWhile (\<lambda>c. \<not> is_space c) cs)"
    by (simp add: behind_word_def trim_start_def)
  moreover have "length (dropWhile is_space (dropWhile (\<lambda>c. \<not> is_space c) cs)) \<le> length cs"
    using length_dropWhile_le[of is_space "dropWhile (\<lambda>c. \<not> is_space c) cs"] length_dropWhile_le[of "\<lambda>c. \<not> is_space c" cs] by linarith
  ultimately show ?thesis using Cons by simp
qed (simp add: first_word_def)

function stop_options :: "string \<Rightarrow> string list \<times> string" where
  "stop_options rest =
     (if first_word rest = ''--'' then ([], behind_word rest)
      else if \<not> prefix ''-'' (first_word rest) then ([], rest)
      else let (args, rest') = stop_options (behind_word rest) in (first_word rest # args, rest'))"
  by auto

termination
  by (relation "measure length") (auto intro!: behind_shorter)

declare stop_options.simps [simp del]

definition stop_input :: "string \<Rightarrow> input" where
  "stop_input text0 = (let (args, rest) = stop_options (trim text0) in
     StopInput (args @ (case job_reference rest of Some name \<Rightarrow> [''--'', name] | None \<Rightarrow> [])))"

definition valid_name :: "string \<Rightarrow> bool" where
  "valid_name name \<longleftrightarrow> is_bare name \<and> name \<noteq> FOREGROUND"

definition sd_input :: "string \<Rightarrow> string \<Rightarrow> input" where
  "sd_input name dir =
     (if \<not> valid_name name then InvalidInput (''sd: invalid name '' @ debug_string name @ '' (use letters, digits, _ or -; not '' @ [CHR 0x22] @ FOREGROUND @ [CHR 0x22] @ '')'')
      else SpawnDirInput (Some name) dir)"

definition parse_input :: "string \<Rightarrow> input" where
  "parse_input line0 =
     (let line = trim line0; tokens = words_of line; first = hd tokens; rest = tl tokens in
      if line = [] then EmptyInput
      else if first = ''jobs'' \<and> rest = [] then JobsInput
      else if first = ''exit'' then ExitInput
      else if first = ''fg'' then FgInput (job_reference (drop (length first) line))
      else if first = ''kill'' then KillInput rest
      else if first = ''stop'' then stop_input (trim (drop (length first) line))
      else if first = ''sd'' then
        (case rest of [name, dir] \<Rightarrow> sd_input name dir | _ \<Rightarrow> InvalidInput ''sd: usage: sd NAME DIR'')
      else if first = ''bg'' then
        (case rest of [dir] \<Rightarrow> SpawnDirInput None dir | _ \<Rightarrow> InvalidInput ''bg: usage: bg DIR'')
      else or_else (background line) (ForegroundInput line))"

definition job_dir :: "string \<Rightarrow> string \<Rightarrow> string" where
  "job_dir base dir = (if base = [] \<or> prefix ''/'' dir then dir else base @ ''/'' @ dir)"

section \<open>The report\<close>

fun action_label :: "action \<Rightarrow> string" where
  "action_label Read = ''read''"
| "action_label Edit = ''edit''"
| "action_label Stage = ''git add''"
| "action_label action.Delete = ''git rm''"
| "action_label Unstage = ''git restore --staged''"
| "action_label (Commit (Some message)) = ''git commit -m '' @ debug_string message"
| "action_label (Commit None) = ''git commit''"
| "action_label Checkout = ''git checkout HEAD''"
| "action_label Stash = ''git stash push''"
| "action_label Clean = ''git clean -f''"
| "action_label action.Diff = ''git diff''"
| "action_label action.History = ''git log''"

fun show_action :: "action \<Rightarrow> string" where
  "show_action Read = ''read''"
| "show_action Edit = ''edit''"
| "show_action Stage = ''stage''"
| "show_action Unstage = ''unstage''"
| "show_action (Commit (Some message)) = ''commit('' @ debug_string message @ '')''"
| "show_action (Commit None) = ''commit(<missing message>)''"
| "show_action Checkout = ''checkout''"
| "show_action Stash = ''stash''"
| "show_action action.Delete = ''delete''"
| "show_action Clean = ''clean''"
| "show_action action.Diff = ''diff''"
| "show_action action.History = ''history''"

definition show_int :: "int \<Rightarrow> string" where
  "show_int n = (if n < 0 then ''-'' @ show_nat (nat (- n)) else show_nat (nat n))"

definition DASH :: string where
  "DASH = [CHR 0xE2, CHR 0x80, CHR 0x94]"

definition event_line :: "string \<Rightarrow> event \<Rightarrow> string" where
  "event_line job e = job @ '': '' @ action_label (ev_action e) @ '' '' @ debug_string (display_resource (ev_resource e))"

definition denial_lines :: "cap_denial \<Rightarrow> string list" where
  "denial_lines d =
     (let e = cd_event d in
      [''  - '' @ ev_principal e @ '' '' @ show_action (ev_action e) @ '' '' @ display_resource (ev_resource e) @ '': '' @ cd_failed_precondition d] @
      (if cd_allowed_fixes d = [] then [] else [''    fix: '' @ join ''; '' (cd_allowed_fixes d)]))"

definition stale_line :: "stale_path \<Rightarrow> string" where
  "stale_line p = ''  - '' @ sp_path p @ '' merged by seq '' @ show_nat (sp_merged_seq p)"

definition report_lines :: "(mux_error \<Rightarrow> string) \<Rightarrow> shell_id \<Rightarrow> mux_error + cmd_outcome \<Rightarrow> string list" where
  "report_lines show_error name outcome = (let job = reference name in case outcome of
     Inr (Committed seq code out err allowed log) \<Rightarrow>
       map (event_line job) allowed @ [job @ '' committed seq='' @ show_nat seq @ '' exit='' @ show_int code]
   | Inr (DeniedCaps code out err requested denials log) \<Rightarrow>
       map (event_line job) requested @ [job @ '' denied '' @ show_nat (length denials) @ '' of '' @ show_nat (length requested) @ '':''] @
       concat (map denial_lines denials)
   | Inr (StaleSnapshot requested stale log) \<Rightarrow>
       map (event_line job) requested @ [job @ '' stale '' @ DASH @ '' rerun (first shell to get caps wins):''] @ map stale_line stale
   | Inr (ExecFailed code out err log) \<Rightarrow> [job @ '' failed exit='' @ show_int code @ '' '' @ DASH @ '' nothing merged'']
   | Inr (Unsupported reason log) \<Rightarrow> [job @ '' unsupported: '' @ reason]
   | Inr (Bypassed code out err allowed log) \<Rightarrow>
       map (event_line job) allowed @ [job @ '' read-only exit='' @ show_int code @ '' '' @ DASH @ '' no snapshot, nothing to merge'']
   | Inr (Escaped code requested wrote log) \<Rightarrow>
       [job @ '' escaped exit='' @ show_int code @ '' '' @ DASH @ '' vouched for as read-only, but it did more:''] @
       (if wrote then [''  - wrote inside the tree it read; nothing reached the seed''] else []) @
       map (event_line job) requested @ [job @ '' will run as a transaction from now on'']
   | Inl e \<Rightarrow> [job @ '' error: '' @ show_error e])"

section \<open>Signals\<close>

definition to_upper :: "char \<Rightarrow> char" where
  "to_upper c = (if (of_char c :: nat) \<in> {97..122} then char_of ((of_char c :: nat) - 32) else c)"

definition signal_number :: "string \<Rightarrow> int option" where
  "signal_number name = map_of [(''HUP'', 1), (''INT'', 2), (''QUIT'', 3), (''KILL'', 9), (''TERM'', 15), (''CONT'', 18),
     (''STOP'', 19), (''USR1'', 10), (''USR2'', 12)] name"

definition parse_signal :: "string \<Rightarrow> int option" where
  "parse_signal flag = (let name = or_else (strip_prefix ''-'' flag) flag in
     if name = [] then None
     else case parse_signed 32 name of
       Some n \<Rightarrow> if n > 0 then Some n else None
     | None \<Rightarrow> signal_number (map to_upper name))"

definition ELLIPSIS :: string where
  "ELLIPSIS = [CHR 0xE2, CHR 0x80, CHR 0xA6]"

text \<open>
  \<open>send\<close> is the system call: a signal for a process, answered by what went wrong, if anything. The
  result is the exit code, the signals sent and the lines for the error stream.
\<close>

fun kill_targets :: "(int \<Rightarrow> int \<Rightarrow> string option) \<Rightarrow> int \<Rightarrow> string list \<Rightarrow> 8 word \<Rightarrow> 8 word \<times> (int \<times> int) list \<times> string list" where
  "kill_targets send signal [] code = (code, [], [])"
| "kill_targets send signal (target # targets) code = (case parse_signed 32 target of
     Some pid \<Rightarrow> (case send pid signal of
         None \<Rightarrow> (let (code', sent, err) = kill_targets send signal targets code in (code', (pid, signal) # sent, err))
       | Some e \<Rightarrow> (let (code', sent, err) = kill_targets send signal targets 1 in
           (code', (pid, signal) # sent, (''kill: ('' @ show_int pid @ '') - '' @ e) # err)))
   | None \<Rightarrow> (let (code', sent, err) = kill_targets send signal targets 1 in
       (code', sent, (''kill: '' @ target @ '': arguments must be process ids'') # err)))"

definition kill :: "(int \<Rightarrow> int \<Rightarrow> string option) \<Rightarrow> string list \<Rightarrow> 8 word \<times> (int \<times> int) list \<times> string list" where
  "kill send args =
     (let run_kill = (\<lambda>signal targets. if targets = [] then (1, [], [''kill: usage: kill [-SIGNAL] PID'' @ ELLIPSIS])
        else kill_targets send signal targets 0) in
      case args of
        first # rest \<Rightarrow> if prefix ''-'' first
          then (case parse_signal first of
              None \<Rightarrow> (1, [], [''kill: '' @ first @ '': invalid signal specification''])
            | Some signal \<Rightarrow> run_kill signal rest)
          else run_kill 15 args
      | [] \<Rightarrow> run_kill 15 args)"

section \<open>Trimming and words\<close>

lemma trim_start_keeps [simp]: "s \<noteq> [] \<Longrightarrow> \<not> is_space (hd s) \<Longrightarrow> trim_start s = s"
  by (cases s) (simp_all add: trim_start_def)

lemma trim_end_keeps [simp]: "s \<noteq> [] \<Longrightarrow> \<not> is_space (last s) \<Longrightarrow> trim_end s = s"
  by (cases s rule: rev_cases) (simp_all add: trim_end_def)

lemma trim_keeps [simp]: "s \<noteq> [] \<Longrightarrow> \<not> is_space (hd s) \<Longrightarrow> \<not> is_space (last s) \<Longrightarrow> trim s = s"
  by (simp add: trim_def)

lemma trim_blank [simp]: "trim (CHR '' '' # s) = trim s"
  by (simp add: trim_def trim_start_def is_space_def)

lemma trim_end_append [simp]: "s \<noteq> [] \<Longrightarrow> \<not> is_space (last s) \<Longrightarrow> list_all is_space t \<Longrightarrow> trim_end (s @ t) = s"
proof -
  assume "list_all is_space t" "s \<noteq> []" "\<not> is_space (last s)"
  then have "dropWhile is_space (rev t @ rev s) = rev s"
    by (cases s rule: rev_cases) (auto simp: list_all_iff dropWhile_append)
  then show ?thesis by (simp add: trim_end_def)
qed

lemma words_from_word: "list_all (\<lambda>c. \<not> is_space c) w \<Longrightarrow> words_from u (w @ s) = words_from (u @ w) s"
  by (induction w arbitrary: u) simp_all

lemma words_from_space: "u \<noteq> [] \<Longrightarrow> is_space c \<Longrightarrow> words_from u (c # s) = u # words_from [] s"
  by simp

lemma words_of_word:
  assumes "w \<noteq> []" "list_all (\<lambda>c. \<not> is_space c) w"
  shows "words_of w = [w]" "is_space c \<Longrightarrow> words_of (w @ c # s) = w # words_of s"
  using assms words_from_word[of w "[]" "[]"] words_from_word[of w "[]" "c # s"] by (simp_all add: words_of_def)

lemma hd_words: "s \<noteq> [] \<Longrightarrow> \<not> is_space (hd s) \<Longrightarrow> hd (words_of s) = first_word s"
proof -
  assume s: "s \<noteq> []" "\<not> is_space (hd s)"
  let ?w = "first_word s" and ?t = "dropWhile (\<lambda>c. \<not> is_space c) s"
  have split: "s = ?w @ ?t" by (simp add: first_word_def)
  have w: "?w \<noteq> []" "list_all (\<lambda>c. \<not> is_space c) ?w"
    using s by (cases s; simp add: first_word_def list_all_iff; blast dest: set_takeWhileD)+
  show ?thesis
  proof (cases ?t)
    case Nil
    with split words_of_word(1)[OF w] show ?thesis by simp
  next
    case (Cons c t)
    then have "is_space c" by (metis dropWhile_eq_Cons_conv)
    with split Cons words_of_word(2)[OF w, of c t] show ?thesis by simp
  qed
qed

lemma first_word_append: "list_ex is_space s \<Longrightarrow> first_word (s @ t) = first_word s"
  unfolding first_word_def by (induction s) auto

lemma first_word_whole: "\<not> list_ex is_space s \<Longrightarrow> first_word (s @ t) = s @ first_word t"
  unfolding first_word_def by (induction s) auto

section \<open>References\<close>

lemma bare_char: "is_bare name \<Longrightarrow> c \<in> set name \<Longrightarrow> \<not> is_space c \<and> c \<noteq> CHR 0x22 \<and> c \<noteq> CHR ''%'' \<and> c \<noteq> CHR ''&''"
  by (auto simp: is_bare_def list_all_iff is_space_def is_digit_def)

lemma bare_nonempty: "is_bare name \<Longrightarrow> name \<noteq> []"
  by (simp add: is_bare_def)

text \<open>What pasting a reference back reads: the name, with every backslash doubled.\<close>

definition pasted :: "string \<Rightarrow> string" where
  "pasted name = (if is_bare name then name else concat (map debug_char name))"

lemma debug_char_plain: "\<not> is_control c \<Longrightarrow> c \<noteq> CHR 0x22 \<Longrightarrow> debug_char c = (if c = CHR 0x5C then [c, c] else [c])"
proof -
  assume c: "\<not> is_control c" "c \<noteq> CHR 0x22"
  then have "\<not> (of_char c :: nat) < 32" "(of_char c :: nat) \<noteq> 127" by (simp_all add: is_control_def)
  with c(2) show ?thesis by (simp add: debug_char_def Let_def)
qed

lemma refused_chars: "\<not> name_refused name \<Longrightarrow> c \<in> set name \<Longrightarrow> \<not> is_control c \<and> c \<noteq> CHR 0x22 \<and> c \<noteq> CHR ''%''"
  by (auto simp: name_refused_def list_ex_iff)

lemma refused_quote: "\<not> name_refused name \<Longrightarrow> CHR 0x22 \<notin> set name"
  using refused_chars by blast

lemma pasted_chars:
  assumes "\<not> name_refused name"
  shows "CHR 0x22 \<notin> set (pasted name)" "pasted name \<noteq> []"
    "pasted name = name \<longleftrightarrow> CHR 0x5C \<notin> set name"
proof -
  have chars: "concat (map debug_char s) = concat (map (\<lambda>c. if c = CHR 0x5C then [c, c] else [c]) s)" if "set s \<subseteq> set name" for s
    using that refused_chars[OF assms] by (induction s) (auto simp: debug_char_plain)
  have len: "length (concat (map (\<lambda>c. if c = CHR 0x5C then [c, c] else [c]) s)) = length s + length (filter (\<lambda>c. c = CHR 0x5C) s)" for s
    by (induction s) simp_all
  have same: "CHR 0x5C \<notin> set s \<Longrightarrow> concat (map (\<lambda>c. if c = CHR 0x5C then [c, c] else [c]) s) = s" for s
    by (induction s) auto
  show "CHR 0x22 \<notin> set (pasted name)" using refused_chars[OF assms] chars[of name] by (auto simp: pasted_def split: if_splits)
  show "pasted name \<noteq> []" using assms chars[of name] by (cases name) (auto simp: pasted_def name_refused_def)
  show "pasted name = name \<longleftrightarrow> CHR 0x5C \<notin> set name"
  proof (cases "is_bare name")
    case True
    then have "CHR 0x5C \<notin> set name" by (auto simp: is_bare_def list_all_iff is_digit_def)
    with True show ?thesis by (simp add: pasted_def)
  next
    case False
    show ?thesis
    proof
      assume "pasted name = name"
      with False chars[of name] len[of name] have "filter (\<lambda>c. c = CHR 0x5C) name = []" by (simp add: pasted_def)
      then show "CHR 0x5C \<notin> set name" by (auto simp: filter_empty_conv)
    next
      assume "CHR 0x5C \<notin> set name"
      with False chars[of name] same[of name] show "pasted name = name" by (simp add: pasted_def)
    qed
  qed
qed

lemma quoted_inner: "Option.bind (strip_prefix [q] (q # s @ [q])) (strip_suffix [q]) = Some s"
  by (simp add: strip_prefix_def strip_suffix_def)

lemma job_reference_pasted:
  assumes "\<not> name_refused name"
  shows "job_reference (CHR '' '' # reference name) = Some (pasted name)" "job_reference (reference name) = Some (pasted name)"
proof -
  have p: "reference name \<noteq> []" "hd (reference name) = CHR ''%''" by (simp_all add: reference_def)
  have "\<not> is_space (last (reference name))"
    using bare_nonempty[of name] bare_char[of name "last name"] last_in_set[of name]
    by (auto simp: reference_def debug_string_def is_space_def)
  then have trim: "trim (reference name) = reference name" using p by (simp add: is_space_def)
  have bare: "or_else (Option.bind (strip_prefix [CHR 0x22] name) (strip_suffix [CHR 0x22])) name = name" if "is_bare name"
    using bare_char[OF that] by (cases name) (auto simp: strip_prefix_def or_else_def)
  have "job_reference (reference name) = Some (pasted name)"
  proof (cases "is_bare name")
    case True
    then show ?thesis using trim bare[OF True] bare_nonempty[OF True]
      by (simp add: job_reference_def reference_def pasted_def strip_prefix_def or_else_def)
  next
    case False
    then have r: "reference name = CHR ''%'' # CHR 0x22 # pasted name @ [CHR 0x22]"
      by (simp add: reference_def debug_string_def pasted_def)
    then have "strip_prefix ''%'' (reference name) = Some (CHR 0x22 # pasted name @ [CHR 0x22])" by (simp add: strip_prefix_def)
    then show ?thesis
      using trim pasted_chars(2)[OF assms] quoted_inner[of "CHR 0x22" "pasted name"]
      by (simp add: job_reference_def or_else_def)
  qed
  then show "job_reference (reference name) = Some (pasted name)" "job_reference (CHR '' '' # reference name) = Some (pasted name)"
    by (simp_all add: job_reference_def)
qed

section \<open>Lines that are commands\<close>

definition CONSOLE_WORDS :: "string list" where
  "CONSOLE_WORDS = [''jobs'', ''exit'', ''fg'', ''kill'', ''stop'', ''sd'', ''bg'']"

lemma parse_command:
  assumes "line \<noteq> []" "\<not> is_space (hd line)" "\<not> is_space (last line)" "first_word line \<notin> set CONSOLE_WORDS"
  shows "parse_input line = or_else (background line) (ForegroundInput line)"
  using assms hd_words[OF assms(1,2)] by (simp add: parse_input_def Let_def CONSOLE_WORDS_def)

lemma rfind_absent: "b \<in> set d \<Longrightarrow> b \<notin> set v \<Longrightarrow> rfind d v = None"
proof (induction v)
  case (Cons a v)
  then have "\<not> prefix d (a # v)" using set_mono_prefix[of d "a # v"] by auto
  with Cons show ?case by simp
qed auto

lemma rfind_at: "rfind d w = Some i \<Longrightarrow> rfind d (u @ w) = Some (length u + i)"
  by (induction u) simp_all

lemma rfind_one: "a \<notin> set v \<Longrightarrow> rfind [a] (u @ a # v) = Some (length u)"
  using rfind_at[of "[a]" "a # v" 0 u] rfind_absent[of a "[a]" v] by simp

lemma rfind_two: "b \<notin> set v \<Longrightarrow> a \<noteq> b \<Longrightarrow> rfind [a, b] (u @ a # b # v) = Some (length u)"
  using rfind_at[of "[a, b]" "a # b # v" 0 u] rfind_absent[of b "[a, b]" v] by simp

lemma rfind_found: "rfind d s = Some i \<Longrightarrow> prefix d (drop i s)"
  by (induction s arbitrary: i) (auto split: if_splits option.splits)

lemma strip_suffix_last [simp]: "strip_suffix [c] (s @ [d]) = (if c = d then Some s else None)"
  by (simp add: strip_suffix_def)

lemma strip_suffix_None: "s \<noteq> [] \<Longrightarrow> last s \<noteq> c \<Longrightarrow> strip_suffix [c] s = None"
  by (cases s rule: rev_cases) simp_all

lemma strip_suffix_Some: "strip_suffix p s = Some head \<Longrightarrow> s = head @ p"
  by (auto simp: strip_suffix_def suffix_def split: if_splits)

text \<open>A mark behind text that does not end with an ampersand opens the job.\<close>

lemma background_marked:
  assumes "job_mark (u @ v) = Some (length u, name)" "u \<noteq> []" "last u \<noteq> CHR ''&''" "trim_end u \<noteq> []"
  shows "background (u @ v) = Some (case name of None \<Rightarrow> BackgroundInput (trim_end u) None | Some name \<Rightarrow> named_background (trim_end u) name)"
proof -
  have "(u @ v) ! (length u - 1) = last u" using assms(2) by (simp add: nth_append last_conv_nth)
  with assms show ?thesis by (simp add: background_def Let_def)
qed

lemma job_mark_bare:
  assumes "is_bare name"
  shows "job_mark (u @ CHR ''&'' # name) = Some (length u, Some name)"
proof -
  have "CHR ''&'' \<notin> set name" using bare_char[OF assms] by blast
  from rfind_one[OF this] have "rfind ''&'' (u @ CHR ''&'' # name) = Some (length u)" .
  moreover have "last name \<noteq> CHR 0x22" "last name \<noteq> CHR ''&''"
    using bare_char[OF assms last_in_set[OF bare_nonempty[OF assms]]] by simp_all
  ultimately show ?thesis using assms bare_nonempty[OF assms] by (simp add: job_mark_def strip_suffix_None Let_def)
qed

lemma job_mark_quoted:
  "CHR 0x22 \<notin> set name \<Longrightarrow> job_mark (u @ CHR ''&'' # CHR 0x22 # name @ [CHR 0x22]) = Some (length u, Some name)"
  using rfind_two[of "CHR 0x22" name "CHR ''&''" u] strip_suffix_last[of "CHR 0x22" "u @ CHR ''&'' # CHR 0x22 # name" "CHR 0x22"]
  by (simp add: job_mark_def)

lemma job_mark_plain: "job_mark (u @ [CHR ''&'']) = Some (length u, None)"
  by (simp add: job_mark_def)

lemma bare_accepted: "is_bare name \<Longrightarrow> \<not> name_refused name"
  using bare_char[of name] bare_nonempty[of name]
  by (auto simp: name_refused_def list_ex_iff is_control_def is_bare_def list_all_iff is_digit_def)

lemma named_background_accepted: "\<not> name_refused name \<Longrightarrow> name \<noteq> FOREGROUND \<Longrightarrow> named_background cmd name = BackgroundInput cmd (Some name)"
  by (simp add: named_background_def)

text \<open>What a mark found says of the line.\<close>

lemma job_mark_found:
  assumes "job_mark line = Some (start, name)"
  shows "(name = None \<and> line = take start line @ ''&'') \<or>
    (\<exists>n. name = Some n \<and> is_bare n \<and> line = take start line @ CHR ''&'' # n) \<or>
    (\<exists>n. name = Some n \<and> CHR 0x22 \<notin> set n \<and> line = take start line @ CHR ''&'' # CHR 0x22 # n @ [CHR 0x22])"
proof (cases "strip_suffix [CHR 0x22] line")
  case (Some head)
  with assms have found: "rfind [CHR ''&'', CHR 0x22] head = Some start" "CHR 0x22 \<notin> set (drop (start + 2) head)" "name = Some (drop (start + 2) head)"
    by (auto simp: job_mark_def Let_def split: if_splits Option.bind_splits)
  from rfind_found[OF found(1)] obtain rest where rest: "drop start head = CHR ''&'' # CHR 0x22 # rest" by (auto simp: prefix_def)
  then have "rest = drop (start + 2) head" by (metis add_2_eq_Suc' drop_Suc drop_drop list.sel(3) add.commute drop_Suc_Cons drop0)
  moreover have "start \<le> length head" using rest by (metis drop_all linorder_le_cases list.distinct(1))
  ultimately have "line = take start line @ CHR ''&'' # CHR 0x22 # drop (start + 2) head @ [CHR 0x22]"
    using strip_suffix_Some[OF Some] rest append_take_drop_id[of start head] by (auto simp: take_append)
  with found show ?thesis by blast
next
  case no_quote: None
  show ?thesis
  proof (cases "strip_suffix ''&'' line")
    case (Some head)
    with assms no_quote have "start = length head" "name = None" by (simp_all add: job_mark_def)
    with strip_suffix_Some[OF Some] show ?thesis by simp
  next
    case None
    with assms no_quote have found: "rfind ''&'' line = Some start" "is_bare (drop (start + 1) line)" "name = Some (drop (start + 1) line)"
      by (auto simp: job_mark_def Let_def split: if_splits Option.bind_splits)
    from rfind_found[OF found(1)] obtain rest where "drop start line = CHR ''&'' # rest" by (auto simp: prefix_def)
    then have "drop start line = CHR ''&'' # drop (start + 1) line" by (metis drop_Suc drop_drop list.sel(3) plus_1_eq_Suc tl_drop Suc_eq_plus1)
    with found append_take_drop_id[of start line] show ?thesis by metis
  qed
qed

lemma trim_end_split: "\<exists>spaces. s = trim_end s @ spaces \<and> list_all is_space spaces"
proof -
  have "rev s = takeWhile is_space (rev s) @ dropWhile is_space (rev s)" by simp
  then have "s = trim_end s @ rev (takeWhile is_space (rev s))" unfolding trim_end_def by (metis rev_append rev_rev_ident)
  moreover have "list_all is_space (rev (takeWhile is_space (rev s)))" by (auto simp: list_all_iff dest: set_takeWhileD)
  ultimately show ?thesis by blast
qed

text \<open>How a background line spells the job.\<close>

inductive spells_job :: "string \<Rightarrow> string option \<Rightarrow> bool" where
  "spells_job ''&'' None"
| "is_bare name \<Longrightarrow> name \<noteq> FOREGROUND \<Longrightarrow> spells_job (CHR ''&'' # name) (Some name)"
| "\<not> name_refused name \<Longrightarrow> name \<noteq> FOREGROUND \<Longrightarrow> spells_job (CHR ''&'' # CHR 0x22 # name @ [CHR 0x22]) (Some name)"

lemma spelled_mark: "spells_job v name \<Longrightarrow> job_mark (u @ v) = Some (length u, name)"
  by (cases rule: spells_job.cases) (auto simp: job_mark_plain job_mark_bare job_mark_quoted refused_quote)

lemma spelled_background:
  assumes "spells_job v name" "u \<noteq> []" "last u \<noteq> CHR ''&''" "trim_end u \<noteq> []"
  shows "background (u @ v) = Some (BackgroundInput (trim_end u) name)"
proof -
  have "(case name of None \<Rightarrow> BackgroundInput (trim_end u) None | Some n \<Rightarrow> named_background (trim_end u) n) = BackgroundInput (trim_end u) name"
    using assms(1) by (cases rule: spells_job.cases) (simp_all add: named_background_accepted bare_accepted)
  with background_marked[OF spelled_mark[OF assms(1)] assms(2-4)] show ?thesis by simp
qed

lemma background_spelled:
  assumes "background line = Some (BackgroundInput cmd name)"
  shows "\<exists>spaces v. line = cmd @ spaces @ v \<and> list_all is_space spaces \<and> spells_job v name"
proof -
  from assms obtain start mark where mark: "job_mark line = Some (start, mark)" "cmd = trim_end (take start line)"
    "(case mark of None \<Rightarrow> BackgroundInput cmd None | Some n \<Rightarrow> named_background cmd n) = BackgroundInput cmd name"
    by (auto simp: background_def Let_def named_background_def split: Option.bind_splits if_splits option.splits)
  then have name: "mark = name" "\<And>n. name = Some n \<Longrightarrow> \<not> name_refused n \<and> n \<noteq> FOREGROUND"
    by (auto simp: named_background_def split: option.splits if_splits)
  have "\<exists>v. line = take start line @ v \<and> spells_job v name"
    using job_mark_found[OF mark(1)] name by (auto intro: spells_job.intros)
  moreover obtain spaces where "take start line = cmd @ spaces" "list_all is_space spaces" using trim_end_split mark(2) by blast
  ultimately show ?thesis by (metis append.assoc)
qed

lemma spelled_ends: "spells_job v name \<Longrightarrow> v \<noteq> [] \<and> \<not> is_space (last v)"
proof (induction rule: spells_job.induct)
  case (2 name)
  with bare_nonempty[of name] bare_char[of name "last name"] last_in_set[of name] show ?case by simp
qed (simp_all add: is_space_def)

lemma reference_ends:
  assumes "\<not> name_refused name"
  shows "reference name \<noteq> []" "hd (reference name) = CHR ''%''" "\<not> is_space (last (reference name))" "trim (reference name) = reference name"
proof -
  show r: "reference name \<noteq> []" "hd (reference name) = CHR ''%''" by (simp_all add: reference_def)
  show l: "\<not> is_space (last (reference name))"
    using bare_nonempty[of name] bare_char[of name "last name"] last_in_set[of name]
    by (auto simp: reference_def debug_string_def is_space_def)
  from r l show "trim (reference name) = reference name" by (intro trim_keeps) (simp_all add: is_space_def)
qed

text \<open>Only a command line is read as a background or a foreground command.\<close>

lemma parse_background:
  assumes "parse_input line = BackgroundInput cmd name"
  shows "background (trim line) = Some (BackgroundInput cmd name)"
  using assms
  by (auto simp: parse_input_def Let_def stop_input_def sd_input_def or_else_def split: if_splits list.splits option.splits prod.splits)

lemma background_not_foreground: "background line \<noteq> Some (ForegroundInput c)"
  by (auto simp: background_def named_background_def Let_def split: Option.bind_splits if_splits option.splits)

lemma parse_foreground:
  assumes "parse_input line = ForegroundInput c"
  shows "c = trim line"
  using assms background_not_foreground[of "trim line" c]
  by (auto simp: parse_input_def Let_def stop_input_def sd_input_def or_else_def split: if_splits list.splits option.splits prod.splits)

end
