(* ===== verification/Spec2Isabelle.thy ===== *)
theory Spec2Isabelle
  imports Samples Readers Spans JobFates Locks Reconcile Purity Quiet Flow Fuel Repl
begin

text \<open>
  The repository is a shell that runs many commands at once over one directory tree: every command
  works on its own snapshot of the tree, a tracer records what it did, the record is translated to
  requests of capabilities, a validator decides them against everything granted so far, and what a
  granted command changed is merged into the shared tree, the seed. This development models that
  path: the validator crate \<^verbatim>\<open>rust-validator\<close>, the evidence half of the crate \<^verbatim>\<open>marsh-exec\<close>, and the
  multiplexer crate \<^verbatim>\<open>shellmux\<close> from the trace to the merged tree and its recovery after a crash, with the
  table of the jobs it runs. Of the shell itself, a vendored one, it models the interpreter above its
  simple commands, because the multiplexer lets a command out of the sandbox for what its syntax says.

  The parts, in the order of the import chain. The validator:

  \<^item> \<open>Prelude\<close>: traversals that may fail, settling values of fuel-indexed functions, error results,
    sorted duplicate-free operand lists, and the algebra of word languages.
  \<^item> \<open>Model\<close> (\<^verbatim>\<open>model.rs\<close>): principals, resources, actions, events, requests and grants.
  \<^item> \<open>Source\<close> (\<^verbatim>\<open>syntax/source.rs\<close>): the owned rule language, with the language of histories an
    expression is documented to denote.
  \<^item> \<open>Component\<close> (\<^verbatim>\<open>syntax/component.rs\<close>, \<^verbatim>\<open>environment.rs\<close>): resolved values, substitutions, atoms,
    head matching, and the locale of the trait \<open>ComponentDomain\<close> with its three instances.
  \<^item> \<open>Node\<close> (\<^verbatim>\<open>syntax/node.rs\<close>, \<^verbatim>\<open>store.rs\<close>, \<^verbatim>\<open>evaluate.rs\<close>): canonical tests, regexes and transitions and
    what they denote over letters, which are consistent truth assignments of atoms.
  \<^item> \<open>Normalize\<close> (\<^verbatim>\<open>syntax/normalize.rs\<close>): the smart constructors of tests and regexes.
  \<^item> \<open>Transition\<close> and \<open>Totality\<close> (\<^verbatim>\<open>syntax/transition.rs\<close>): the transition constructors, their
    soundness, and that they return.
  \<^item> \<open>Symbolic\<close> (\<^verbatim>\<open>syntax/symbolic.rs\<close>): derivatives, precompiled tables, caches and replay.
  \<^item> \<open>Compile\<close> (\<^verbatim>\<open>syntax/compile.rs\<close>): from source rules to runtime rules.
  \<^item> \<open>Validator\<close> (\<^verbatim>\<open>validator.rs\<close>): builder, check, checkpoint, rollback, and the monitor that is
    their specification.
  \<^item> \<open>Policy\<close> (\<^verbatim>\<open>policy/*.rs\<close>): policy tables of one-event predicates and tail shapes, and their evaluator.
  \<^item> \<open>Capabilities\<close>, \<open>GitRules\<close>, \<open>GitPolicy\<close> (\<^verbatim>\<open>policy/git/*.rs\<close>): the claims of a history, the git rules
    and their diagnostics, the compiled policy, and the legality table that is its specification.
  \<^item> \<open>GitValidator\<close> (\<^verbatim>\<open>napi.rs\<close>): the stateful authorizer handed to a JavaScript host.

  The multiplexer:

  \<^item> \<open>Files\<close>: the trees a session works on and the part of \<^verbatim>\<open>std::fs\<close> that is called on them.
  \<^item> \<open>Wal\<close> (\<^verbatim>\<open>wal.rs\<close>, \<^verbatim>\<open>error.rs\<close>): append-only logs with torn tails; writes and removals of entries.
  \<^item> \<open>Diff\<close> (\<^verbatim>\<open>diff.rs\<close>): what a command changed in its snapshot, as ordered operations.
  \<^item> \<open>History\<close> (\<^verbatim>\<open>history.rs\<close>): the records of transactions, their round trip with events, and loading.
  \<^item> \<open>Commit\<close>, \<open>Replay\<close>, \<open>Recovery\<close> (\<^verbatim>\<open>commit.rs\<close>): logging a transaction, applying and replaying it; the
    states a crash leaves and what recovery makes of them.
  \<^item> \<open>Authority\<close> (\<^verbatim>\<open>authority.rs\<close>): the shared history and the check of a command's events.
  \<^item> \<open>Mux\<close>, \<open>Readers\<close> (\<^verbatim>\<open>mux.rs\<close>): concluding a command, staleness, commits, launch trees and the shared
    trees of readers, as a step relation with its invariant.
  \<^item> \<open>Encoding\<close>, \<open>Samples\<close>: an encoding of records that meets the contract of the JSON library, and the
    concrete sessions the properties are applied to.

  The evidence:

  \<^item> \<open>Text\<close>: the operations of \<^verbatim>\<open>str\<close> that are called, on byte strings.
  \<^item> \<open>GitCommand\<close> (\<^verbatim>\<open>gitcmd.rs\<close>): lexical resolution of paths and the git command grammar.
  \<^item> \<open>Evidence\<close> (\<^verbatim>\<open>evidence.rs\<close>, \<^verbatim>\<open>hooks.rs\<close>, \<^verbatim>\<open>error.rs\<close>): the two streams of an execution, their
    interleaving, splitting and decoding of argument text.
  \<^item> \<open>Trace\<close> (\<^verbatim>\<open>strace.rs\<close>): lexing the tracer's log, interrupted calls rejoined.
  \<^item> \<open>Translate\<close>, \<open>Translation\<close>, \<open>Spans\<close> (\<^verbatim>\<open>translate.rs\<close>): from evidence to capability events; what events
    a translation may hold, what it refuses, and what programs and git builtins request.

  The jobs (\<^verbatim>\<open>jobs.rs\<close>):

  \<^item> \<open>Jobs\<close>: the job table, the queue of conclusions, and each critical section of the operations on
    them as one function.
  \<^item> \<open>JobRows\<close>: what each critical section does to the rows.
  \<^item> \<open>JobSteps\<close>: the critical sections of concurrent operations in any order, as a step relation whose
    tasks say where each operation is; names and counts, and what the design relies on.
  \<^item> \<open>JobFates\<close>: a stop is final; automatic names; the job an unfinished spawn strands; the window between
    a reap and its submission.
  \<^item> \<open>Locks\<close>: the order the queue and the table are locked in, and where it is not kept.
  \<^item> \<open>Repl\<close> (\<^verbatim>\<open>repl.rs\<close>, \<^verbatim>\<open>jobctl.rs\<close>): the grammar of an input line, with the names jobs are given and
    referred to by, the report of an outcome, and the signals of \<^verbatim>\<open>kill\<close>.

  Which claims and verdicts outlive a session:

  \<^item> \<open>Reconcile\<close> (\<^verbatim>\<open>reconcile.rs\<close>, \<^verbatim>\<open>gitshell.rs\<close>): the claims of a replayed history that git still shows, and
    the row each resource is left in.
  \<^item> \<open>Purity\<close> (\<^verbatim>\<open>purity.rs\<close>): the learned cache of pure commands and its log.
  \<^item> \<open>StaticPurity\<close> (\<^verbatim>\<open>purity.rs\<close>): the proof of purity from the syntax tree of a command.

  The shell (\<^verbatim>\<open>brush-parser\<close>, \<^verbatim>\<open>brush-core\<close>):

  \<^item> \<open>ShellAst\<close> (\<^verbatim>\<open>ast.rs\<close>): the syntax tree. The types that hold lists of commands are parameterized by the
    type of those lists, and the knot is tied in \<open>compound_list\<close>.
  \<^item> \<open>Interp\<close> (\<^verbatim>\<open>interp.rs\<close>, \<^verbatim>\<open>results.rs\<close>, \<^verbatim>\<open>error.rs\<close>, \<^verbatim>\<open>shell.rs\<close>): programs, lists, pipelines and compound commands as
    actions on a shell and the world. What is below them is the record \<open>leaves\<close>: one operation for each
    call the interpreter makes.
  \<^item> \<open>Quiet\<close>: what a statically pure program reaches of the leaves, and the fuel it needs.
  \<^item> \<open>Flow\<close>: where a failure exits the shell, and what a pipeline comes to.
  \<^item> \<open>Fuel\<close>: more fuel changes no result of the interpreter.

  State. The canonical store of the validator is a set of hash-consing tables of a crate; a handle is
  modelled as the node it points to, and the identifiers that order handles are the parameter
  \<open>uids\<close>. Theorems assume \<open>hash_consed u\<close>: different nodes have different identifiers. The string
  interner is the parameter \<open>intern\<close>, assumed injective. Both are what those crates document, and
  every property that assumes them has a witness with concrete ones. The derivative caches, the
  instantiation cache and the history are explicit state, returned updated. On disk a session is a
  \<open>store\<close>: the seed, the snapshots, and the two logs as byte lists. Encoding and decoding of JSON
  records, the hash of contents and the identities of new inodes are parameters; \<open>codec\<close> is what the
  JSON library promises of the first. A crash is a state reached in the middle of a transaction: an
  append cut anywhere, or any number of operations applied. The multiplexer's locked state is the
  record \<open>mux\<close>; one critical section is one function or one step.

  Fuel. The transition constructors call one another through cleaning, so the family \<open>run u n\<close> is
  indexed by fuel, one unit per call, and \<open>None\<close> is running out. Every theorem about a function
  that uses it is of the form: from some fuel on the result is this one. \<open>Totality\<close> gives the
  measure: in normal form a transition is a tree of conditionals and unions over literals, its
  weight does not grow under cleaning, and an intersection recurses into pairs of smaller weight.
  The interpreter's loops may run for ever: \<open>exec_list\<close> takes one unit of fuel per nesting of lists and
  bounds the iterations of each loop by it. \<open>Fuel\<close> shows that it only bounds, and \<open>Quiet\<close> that a pure
  program, which has no loops, returns once the fuel exceeds its nesting.
  Everything else is total: lists, trees and texts are consumed.

  Integers. Machine integers are words where they are stored as such (modes, inode numbers, times) and
  naturals where the code only counts; numbers parsed from text are bounded by their width, and the
  microseconds of a time stamp wrap at 64 bits as in a release build.

  Texts are lists of bytes. Blanks are the ASCII blanks: the code also trims the blanks of other
  scripts, which the tracer does not print; on an input line that is a restriction of the model, as is
  that only the control characters of ASCII count as such.

  Not modelled: of the validator, the Display implementations other than that of resources, hashing
  and capacity hints, and what is compiled in test builds only. Of the multiplexer, starting commands,
  the terminals, byte pumps and exit watchers of jobs, and the front ends; the status of a file is the
  git library's, a parameter of the reconciliation. Of the executor, processes, containers, subvolumes,
  the recording hook and git itself, which is a library. Of the shell, the tokenizer and the grammars,
  the printing of the tree, everything below the interpreter's leaves (simple commands, expansion,
  redirection, arithmetic, tests, traps, jobs, builtins), the line editor and completion. Not at all: the
  terminal and REST front ends, tracing and fuzz targets. Source trees are finite
  and recursion depth is not bounded by a stack; symbolic links are followed nowhere because the code
  inspects entries without following them.
\<close>

section \<open>Data for the witnesses\<close>

text \<open>A rule that forbids edits before anything has happened, and three requests.\<close>

definition no_first_edit :: rule where
  "no_first_edit = \<lparr>rule_mode = Forbid,
     rule_head = \<lparr>head_principal = Variable ''p'', head_action = Constant Edit, head_resource = Variable ''r''\<rparr>,
     rule_tail = EpsilonX\<rparr>"

definition unbound_tail :: rule where
  "unbound_tail = no_first_edit\<lparr>rule_tail := TestX (AtomT Eq (PrincipalAtom (Variable ''q'')))\<rparr>"

definition ask :: "string \<Rightarrow> action \<Rightarrow> nat request" where
  "ask p a = \<lparr>req_event = new_event p a [''file''], req_metadata = 7\<rparr>"

definition read_atom :: "string test" where
  "read_atom = TAtom Eq (CompiledAction (Constant RRead))"

definition read_regex :: "string regex" where
  "read_regex = RTest read_atom"

lemmas witness_data = no_first_edit_def unbound_tail_def ask_def read_atom_def read_regex_def

section \<open>The validator\<close>

text \<open>
  C1. A session compiles well-typed source rules, and with enough fuel it answers every list of
  requests with the decisions of the source-level monitor and leaves the monitor's history.
\<close>

theorem session_decides:
  assumes "hash_consed u" "inj intern" "\<forall>source \<in> set sources. well_typed source"
  shows "\<exists>N. \<forall>n \<ge> N. session u (run u n) intern sources rqs = Some (Inr (monitor sources [] rqs))"
proof -
  obtain r where r: "settles (\<lambda>n. session u (run u n) intern sources rqs) (Some r)"
    "case r of Inl e \<Rightarrow> \<exists>source \<in> set sources. \<not> well_typed source
     | Inr out \<Rightarrow> (\<forall>source \<in> set sources. well_typed source) \<and> out = monitor sources [] rqs"
    using session_correct[OF assms(1,2), of sources rqs] by (elim exE conjE)
  then show ?thesis using assms(3) by (cases r) (auto simp: settles_def)
qed

theorem session_decides_witness:
  "\<exists>N. \<forall>n \<ge> N. session numbered (run numbered n) (\<lambda>s. s) [no_first_edit]
      [ask ''ann'' Edit, ask ''bob'' Read, ask ''ann'' Edit] =
    Some (Inr
      ([Denied \<lparr>de_mode = Forbid, de_event = new_event ''ann'' Edit [''file''],
          de_message = ''committed history satisfies forbidden past-regex rule''\<rparr>,
        Grant \<lparr>grant_event = new_event ''bob'' Read [''file''], grant_metadata = 7\<rparr>,
        Grant \<lparr>grant_event = new_event ''ann'' Edit [''file''], grant_metadata = 7\<rparr>],
       [new_event ''bob'' Read [''file''], new_event ''ann'' Edit [''file'']]))"
proof -
  have "monitor [no_first_edit] [] [ask ''ann'' Edit, ask ''bob'' Read, ask ''ann'' Edit] =
      ([Denied \<lparr>de_mode = Forbid, de_event = new_event ''ann'' Edit [''file''],
          de_message = ''committed history satisfies forbidden past-regex rule''\<rparr>,
        Grant \<lparr>grant_event = new_event ''bob'' Read [''file''], grant_metadata = 7\<rparr>,
        Grant \<lparr>grant_event = new_event ''ann'' Edit [''file''], grant_metadata = 7\<rparr>],
       [new_event ''bob'' Read [''file''], new_event ''ann'' Edit [''file'']])"
    by (simp add: witness_data rule_violated_def head_bindings_def bind_pattern_def agree_def
        denial_message_def)
  moreover have "\<forall>source \<in> set [no_first_edit]. well_typed source"
    by (simp add: witness_data well_typed_def head_uses_def single_valued_def)
  ultimately show ?thesis
    using session_decides[OF hash_consed_numbered, of "\<lambda>s. s" "[no_first_edit]"
        "[ask ''ann'' Edit, ask ''bob'' Read, ask ''ann'' Edit]"] by simp
qed

text \<open>
  C5. A session with a rule that uses a variable its head does not bind, or one variable in two
  coordinates, returns a compile error and answers nothing.
\<close>

theorem session_rejects:
  assumes "hash_consed u" "inj intern" "\<exists>source \<in> set sources. \<not> well_typed source"
  shows "\<exists>e N. \<forall>n \<ge> N. session u (run u n) intern sources rqs = Some (Inl e)"
proof -
  obtain r where r: "settles (\<lambda>n. session u (run u n) intern sources rqs) (Some r)"
    "case r of Inl e \<Rightarrow> \<exists>source \<in> set sources. \<not> well_typed source
     | Inr out \<Rightarrow> (\<forall>source \<in> set sources. well_typed source) \<and> out = monitor sources [] rqs"
    using session_correct[OF assms(1,2), of sources rqs] by (elim exE conjE)
  then show ?thesis using assms(3) by (cases r) (auto simp: settles_def)
qed

theorem session_rejects_witness:
  "\<exists>e N. \<forall>n \<ge> N. session numbered (run numbered n) (\<lambda>s. s) [no_first_edit, unbound_tail]
     [ask ''ann'' Read] = Some (Inl e)"
proof -
  have "\<exists>source \<in> set [no_first_edit, unbound_tail]. \<not> well_typed source"
    by (simp add: witness_data well_typed_def head_uses_def)
  from session_rejects[OF hash_consed_numbered _ this, of "\<lambda>s. s"] show ?thesis by simp
qed

text \<open>
  A check is atomic: a grant echoes the request and appends its event once, a denial names
  the event and leaves the history as it was.
\<close>

theorem check_atomic:
  assumes "check u call intern v rq = Some (d, v')"
  shows "case d of
      Grant g \<Rightarrow> grant_event g = req_event rq \<and> grant_metadata g = req_metadata rq \<and>
        va_history v' = va_history v @ [req_event rq]
    | Denied de \<Rightarrow> de_event de = req_event rq \<and> de_message de = denial_message (de_mode de) \<and>
        va_history v' = va_history v"
  using assms by (auto simp: check_def split: Option.bind_splits option.splits)

theorem check_atomic_witness:
  "case Grant \<lparr>grant_event = new_event ''ann'' Read [''file''], grant_metadata = 7 :: nat\<rparr> of
      Grant g \<Rightarrow> grant_event g = new_event ''ann'' Read [''file''] \<and> grant_metadata g = 7 \<and>
        va_history (\<lparr>va_rules = [], va_history = [new_event ''ann'' Read [''file'']]\<rparr> :: string validator) =
          [] @ [new_event ''ann'' Read [''file'']]
    | Denied de \<Rightarrow> False"
  using check_atomic[of numbered "run numbered 1" "\<lambda>s. s" "finish new_builder" "ask ''ann'' Read"
      "Grant \<lparr>grant_event = new_event ''ann'' Read [''file''], grant_metadata = 7\<rparr>"
      "\<lparr>va_rules = [], va_history = [new_event ''ann'' Read [''file'']]\<rparr>"]
  by (simp add: check_def finish_def new_builder_def ask_def)

text \<open>
  Rolling back to a checkpoint after any number of further checks restores the history of
  the checkpoint, and keeps the rules.
\<close>

theorem rollback_restores:
  assumes "check_all u call intern v rqs = Some (ds, v')"
  shows "rollback (checkpoint v) v' = Some (v'\<lparr>va_history := va_history v\<rparr>)"
  using check_all_history[OF assms] by (simp add: rollback_def checkpoint_def)

theorem rollback_restores_witness:
  "rollback 0 (\<lparr>va_rules = [], va_history = [new_event ''ann'' Read [''file'']]\<rparr> :: string validator) =
     Some \<lparr>va_rules = [], va_history = []\<rparr>"
  using rollback_restores[of numbered "run numbered 1" "\<lambda>s. s" "finish new_builder" "[ask ''ann'' Read]"
      "[Grant \<lparr>grant_event = new_event ''ann'' Read [''file''], grant_metadata = 7\<rparr>]"
      "\<lparr>va_rules = [], va_history = [new_event ''ann'' Read [''file'']]\<rparr>"]
  by (simp add: check_def finish_def new_builder_def ask_def checkpoint_def)

section \<open>Matching histories\<close>

text \<open>
  C6. With enough fuel and any sound derivative cache, matching a history says whether its word
  of events is in the language of the root, and leaves a sound cache.
\<close>

theorem accepts_decides_language:
  assumes "hash_consed u" "regex_nf u root" "cache_ok u cache"
  shows "\<exists>cache' N. cache_ok u cache' \<and> (\<forall>n \<ge> N. accepts u (run u n) intern root history \<sigma> cache =
    Some (map (event_letter intern \<sigma>) history \<in> lang root, cache'))"
  using accepts_right[OF assms(1,3,2), of intern history \<sigma>] unfolding settles_def by metis

theorem accepts_decides_language_witness:
  "\<exists>cache' N. cache_ok numbered cache' \<and>
    (\<forall>n \<ge> N. accepts numbered (run numbered n) (\<lambda>s. s) read_regex
       [new_event ''ann'' Read [''file'']] [] empty_cache = Some (True, cache'))"
  using accepts_decides_language[OF hash_consed_numbered, of read_regex empty_cache "\<lambda>s. s"
      "[new_event ''ann'' Read [''file'']]" "[]"]
  by (simp add: cache_ok_empty read_regex_def read_atom_def atom_matches_def)

text \<open>
  C7. The symbolic derivative of a normal regex returns, and on every letter leads to the
  language derivative by that letter.
\<close>

theorem derivative_is_language_derivative:
  assumes "hash_consed u" "regex_nf u r" "cache_ok u cache"
  shows "\<exists>t cache' N. (\<forall>n \<ge> N. derivative u (run u n) r cache = Some (t, cache')) \<and>
    cache_ok u cache' \<and> (\<forall>x. step_lang t x = after x (lang r))"
proof -
  obtain t c where d: "derivative u (final u) r cache = Some (t, c)" "cache_ok u c" "derived u (lang r) t"
    using derivable_ex[OF assms(1) derivative_total[OF assms(1,2)] assms(2,3)] by blast
  have "settles (\<lambda>n. derivative u (run u n) r cache) (Some (t, c))"
    using settles_derivative[of u r cache] d(1) by simp
  with d show ?thesis unfolding settles_def derived_def by blast
qed

theorem derivative_is_language_derivative_witness:
  "\<exists>t cache' N. (\<forall>n \<ge> N. derivative numbered (run numbered n) (RStar read_regex) empty_cache = Some (t, cache')) \<and>
    cache_ok numbered cache' \<and> (\<forall>x. step_lang t x = after x (lang (RStar read_regex)))"
  by (rule derivative_is_language_derivative)
    (simp_all add: cache_ok_empty read_regex_def read_atom_def)

text \<open>
  C8. Every transition constructor, called on normal transitions, returns a normal transition,
  and on the letters in its scope it denotes the operation it is named after.
\<close>

theorem transition_constructors_return:
  assumes "hash_consed u" "ready u c"
  shows "\<exists>t N. (\<forall>n \<ge> N. run u n c = Some t) \<and> tnf u t \<and> (\<forall>x \<in> scope c. step_lang t x = meaning c x)"
  using ready_returns[OF assms] unfolding settles_def by blast

theorem transition_constructors_return_witness:
  "\<exists>t N. (\<forall>n \<ge> N. run numbered n (MakeNot (If read_atom (Const RAll) (Const REpsilon))) = Some t) \<and>
     tnf numbered t \<and>
     (\<forall>x. step_lang t x = - step_lang (If read_atom (Const RAll) (Const REpsilon)) x)"
proof -
  have "ready numbered (MakeNot (If read_atom (Const RAll) (Const REpsilon)))" by (simp add: read_atom_def)
  from transition_constructors_return[OF hash_consed_numbered this] show ?thesis by simp
qed

text \<open>
  Evaluating a transition under the bits of a minterm, as precompilation does, gives the
  successor that evaluating it against the event gives, whatever the event and the bindings.
\<close>

theorem minterm_is_event:
  "evaluate_minterm u t (collect_transition_atoms t)
     (minterm_fold (atom_truth_assignment intern t \<sigma> e) 0 0) = evaluate u intern t \<sigma> e"
  by (rule evaluate_minterm_is_evaluate)

text \<open>
  Instantiating a transition through the tables and the replay's cache returns what
  evaluating it returns, and keeps the replay's cache right.
\<close>

theorem instantiate_is_evaluate:
  assumes "cache_ok u cache" "instances_ok u intern \<sigma> inst"
  shows "fst (instantiate u intern cache t \<sigma> e inst) = evaluate u intern t \<sigma> e \<and>
    instances_ok u intern \<sigma> (snd (instantiate u intern cache t \<sigma> e inst))"
  using instantiate_right[OF assms, of t e] by (metis prod.collapse)

theorem instantiate_is_evaluate_witness:
  "fst (instantiate numbered (\<lambda>s. s) empty_cache (If read_atom (Const RAll) (Const REmpty)) []
      (new_event ''ann'' Read [''file'']) new_instances) = RAll"
proof -
  have "instances_ok numbered (\<lambda>s :: string. s) [] new_instances"
    by (simp add: instances_ok_def new_instances_def)
  from instantiate_is_evaluate[OF cache_ok_empty this, of "If read_atom (Const RAll) (Const REmpty)"]
  show ?thesis by (simp add: evaluate_def eval_test_def read_atom_def atom_matches_def)
qed

text \<open>
  C9. Precompilation stays within its budgets: at most 64 tables with at most 4096 entries
  between them, and each table has one entry per truth assignment of its at most 12 atoms.
\<close>

theorem precompile_within_budget:
  assumes "precompile u call root empty_cache = Some cache"
  shows "finite (dom (dc_minterms cache)) \<and> card (dom (dc_minterms cache)) \<le> 64 \<and>
    table_entries cache \<le> 4096 \<and>
    (\<forall>t ss. dc_minterms cache t = Some ss \<longrightarrow>
       length ss = 2 ^ length (collect_transition_atoms t) \<and> length (collect_transition_atoms t) \<le> 12)"
  using precompile_budget[OF assms]
  by (simp add: MAX_PRECOMPILED_ATOMS_def MAX_PRECOMPILED_MINTERMS_def MAX_PRECOMPILED_STATES_def)

theorem precompile_within_budget_witness:
  "table_entries (empty_cache\<lparr>dc_derivatives := [RAll \<mapsto> Const (RAll :: string regex)]\<rparr>) \<le> 4096"
  using precompile_within_budget[of numbered "run numbered 1" RAll
      "empty_cache\<lparr>dc_derivatives := [RAll \<mapsto> Const RAll]\<rparr>"]
  by (simp add: precompile_def precompile_loop.simps precompile_visit_def derivative.simps empty_cache_def
      MAX_PRECOMPILED_STATES_def)

section \<open>Canonical nodes\<close>

text \<open>
  The regex constructors denote the operations they are named after.
\<close>

theorem regex_constructors_denote:
  assumes "hash_consed u" "\<forall>r \<in> set rs. regex_nf u r" "regex_nf u r"
  shows "lang (regex_union u rs) = \<Union> (lang ` set rs) \<and>
    lang (regex_intersect u rs) = \<Inter> (lang ` set rs) \<and>
    lang (regex_concat rs) = seqs_list (map lang rs) \<and>
    lang (regex_star r) = repeated (lang r) \<and>
    lang (regex_not r) = - lang r \<and>
    lang (regex_test t) = {[x] |x. x \<in> letters t}"
  using assms by (simp add: lang_simps lang_regex_test)

theorem regex_constructors_denote_witness:
  "lang (regex_union numbered [read_regex, REpsilon]) = {[x] |x. x \<in> letters read_atom} \<union> {[]}"
  using regex_constructors_denote[OF hash_consed_numbered, of "[read_regex, REpsilon]" REpsilon TTrue]
  by (auto simp: read_regex_def read_atom_def)

text \<open>
  C10. The regex constructors keep the normal form: flattened, duplicate-free operand slices in
  identifier order, with no neutral or absorbing operand left.
\<close>

theorem regex_constructors_normal:
  assumes "hash_consed u" "\<forall>r \<in> set rs. regex_nf u r" "regex_nf u r" "test_nf u t"
  shows "regex_nf u (regex_union u rs) \<and> regex_nf u (regex_intersect u rs) \<and> regex_nf u (regex_concat rs) \<and>
    regex_nf u (regex_star r) \<and> regex_nf u (regex_not r) \<and> regex_nf u (regex_test t)"
  using assms by (simp add: nf_intros)

theorem regex_constructors_normal_witness:
  "regex_nf numbered (regex_union numbered [read_regex, REpsilon, read_regex])"
  using regex_constructors_normal[OF hash_consed_numbered, of "[read_regex, REpsilon, read_regex]" REpsilon read_atom]
  by (simp add: read_regex_def read_atom_def)

text \<open>
  The complement of a test, pushed to its atoms, selects exactly the letters the test does
  not select, and conjunction and disjunction select the letters all or some operand selects;
  all three keep the normal form.
\<close>

theorem test_constructors_denote:
  assumes "hash_consed u" "\<forall>t \<in> set ts. test_nf u t" "test_nf u t"
  shows "letters (test_not u t) = - letters t \<and> letters (test_and u ts) = \<Inter> (letters ` set ts) \<and>
    letters (test_or u ts) = \<Union> (letters ` set ts) \<and>
    test_nf u (test_not u t) \<and> test_nf u (test_and u ts) \<and> test_nf u (test_or u ts)"
  using assms hash_consedD(1)[OF assms(1)] by (simp add: lang_simps nf_intros)

theorem test_constructors_denote_witness:
  "letters (test_and numbered [read_atom, test_not numbered read_atom]) = ({} :: string letter set)"
proof -
  have not: "letters (test_not numbered read_atom) = - letters read_atom \<and> test_nf numbered (test_not numbered read_atom)"
    using test_constructors_denote[OF hash_consed_numbered, of "[]" read_atom] by (simp add: read_atom_def)
  with test_constructors_denote[OF hash_consed_numbered, of "[read_atom, test_not numbered read_atom]" read_atom]
  show ?thesis by (simp add: read_atom_def)
qed

text \<open>
  The canonical node of a conjunction, disjunction, union or intersection depends on the
  set of operands only, not on the order or the repetition in which they are given.
\<close>

theorem operands_in_any_order:
  assumes "hash_consed u" "set ts = set ts'" "set rs = set rs'"
  shows "test_and u ts = test_and u ts' \<and> test_or u ts = test_or u ts' \<and>
    regex_union u rs = regex_union u rs' \<and> regex_intersect u rs = regex_intersect u rs'"
  using test_order[OF hash_consedD(1)[OF assms(1)] assms(2)] union_order[OF assms(1,3)]
    intersect_order[OF assms(1,3)] by simp

theorem operands_in_any_order_witness:
  "regex_union numbered [read_regex, REpsilon, read_regex] = regex_union numbered [REpsilon, read_regex]"
  using operands_in_any_order[OF hash_consed_numbered, of "[]" "[]" "[read_regex, REpsilon, read_regex]"
      "[REpsilon, read_regex]"] by auto

section \<open>The git policy\<close>

text \<open>
  C11. A session of the git authorizer never panics, and with enough fuel it answers every list
  of calls, unknown actions included, as the legality table does, and leaves the history of the
  granted events.
\<close>

theorem git_session_is_table:
  assumes "hash_consed u" "inj intern"
  shows "\<exists>gv gv' N. (\<forall>n \<ge> N. git_validator_new u (run u n) intern = Some (Some gv)) \<and>
    (\<forall>n \<ge> N. git_validator_session u (run u n) intern gv calls = Some (fst (table_session [] calls), gv')) \<and>
    gv_history gv' = snd (table_session [] calls)"
proof -
  from git_validator_runs[OF assms, of calls] obtain gv gv' N M where
    "gv_history gv' = snd (table_session [] calls)"
    "\<forall>n \<ge> N. git_validator_new u (run u n) intern = Some (Some gv)"
    "\<forall>n \<ge> M. git_validator_session u (run u n) intern gv calls = Some (fst (table_session [] calls), gv')"
    unfolding settles_def by blast
  then show ?thesis by (intro exI[of _ gv] exI[of _ gv'] exI[of _ "max N M"]) simp
qed

theorem git_session_is_table_witness:
  "\<exists>gv gv' N. (\<forall>n \<ge> N. git_validator_new numbered (run numbered n) (\<lambda>s. s) = Some (Some gv)) \<and>
    (\<forall>n \<ge> N. git_validator_session numbered (run numbered n) (\<lambda>s. s) gv
       [(''ann'', \<lparr>ja_kind = ''edit'', ja_message = None\<rparr>, [''file'']),
        (''bob'', \<lparr>ja_kind = ''merge'', ja_message = None\<rparr>, [''file''])] =
       Some ([Inr \<lparr>jd_kind = ''grant'', jd_failed_precondition = None, jd_allowed_fixes = None\<rparr>,
              Inl ''unknown git action kind: merge''], gv')) \<and>
    gv_history gv' = [new_event ''ann'' Edit [''file'']]"
proof -
  have "table_session [] [(''ann'', \<lparr>ja_kind = ''edit'', ja_message = None\<rparr>, [''file'']),
        (''bob'', \<lparr>ja_kind = ''merge'', ja_message = None\<rparr>, [''file''])] =
      ([Inr \<lparr>jd_kind = ''grant'', jd_failed_precondition = None, jd_allowed_fixes = None\<rparr>,
        Inl ''unknown git action kind: merge''], [new_event ''ann'' Edit [''file'']])"
    by (simp add: table_answer_def action_of_js_def git_table_def claimed_by_other_def)
  then show ?thesis
    using git_session_is_table[OF hash_consed_numbered, of "\<lambda>s. s"
        "[(''ann'', \<lparr>ja_kind = ''edit'', ja_message = None\<rparr>, [''file'']),
          (''bob'', \<lparr>ja_kind = ''merge'', ja_message = None\<rparr>, [''file''])]"] by simp
qed

text \<open>
  A one-shot git decision returns the cell of the legality table its candidate falls in by
  the row and the last reader of the resource, with the denial naming the owner and the reader
  the history determines; a commit is decided without its message.
\<close>

theorem git_decision_is_table:
  assumes "hash_consed u" "inj intern"
  shows "\<exists>N. \<forall>n \<ge> N. git_decision u (run u n) intern history e = Some (Some (git_table history e))"
  using git_decision_correct[OF assms, of history e] by (simp add: settles_def)

theorem git_decision_is_table_witness:
  "\<exists>N. \<forall>n \<ge> N. git_decision numbered (run numbered n) (\<lambda>s. s)
      [new_event ''ann'' Edit [''src'', ''x'']] (new_event ''bob'' Stage [''src'', ''x'']) =
    Some (Some (PolicyDeny ''src/x is unstaged by ann; only ann may stage it''
      [''ann stage src/x'', ''ann checkout src/x'', ''ann stash src/x'',
       ''bob only reads, diffs, or histories src/x'']))"
proof -
  have "git_table [new_event ''ann'' Edit [''src'', ''x'']] (new_event ''bob'' Stage [''src'', ''x'']) =
      PolicyDeny ''src/x is unstaged by ann; only ann may stage it''
      [''ann stage src/x'', ''ann checkout src/x'', ''ann stash src/x'',
       ''bob only reads, diffs, or histories src/x'']"
    by (simp add: git_table_def row_of_def reader_of_def row_step_def row_effect_def deny_cell_def
        git_rules_def edit_and_checkout_row_rules_def stage_row_rules_def render_def table_context_def
        display_resource_def opf_def)
  then show ?thesis
    using git_decision_is_table[OF hash_consed_numbered, of "\<lambda>s. s"
        "[new_event ''ann'' Edit [''src'', ''x'']]" "new_event ''bob'' Stage [''src'', ''x'']"] by simp
qed

text \<open>
  The row languages classify a history by the row of the resource, and the claim language by
  its last reader: exactly one of clean, staged, unstaged by the principal and unstaged by another
  holds.
\<close>

theorem languages_classify_rows:
  "(h \<in> expr_lang (rule_bindings p r) clean_lang \<longleftrightarrow> row_of h r = CleanRow) \<and>
   (h \<in> expr_lang (rule_bindings p r) staged_lang \<longleftrightarrow> row_of h r = StagedRow) \<and>
   (h \<in> expr_lang (rule_bindings p r) unstaged_self_lang \<longleftrightarrow> row_of h r = UnstagedRow p) \<and>
   (h \<in> expr_lang (rule_bindings p r) unstaged_other_lang \<longleftrightarrow> (\<exists>q. q \<noteq> p \<and> row_of h r = UnstagedRow q)) \<and>
   (h \<in> expr_lang (rule_bindings p r) read_claimed_other_lang \<longleftrightarrow>
      (\<exists>s. s \<noteq> p \<and> reader_of h r = Some s))"
  by (simp add: language_rows claimed_by_other_def split: option.split)

text \<open>
  The history of the authorizer is legal at every moment: after any calls, every event in it
  was granted by the table on the events before it.
\<close>

theorem authorizer_history_legal:
  assumes "hash_consed u" "inj intern"
  shows "\<exists>gv gv' ds N. (\<forall>n \<ge> N. git_validator_new u (run u n) intern = Some (Some gv)) \<and>
    (\<forall>n \<ge> N. git_validator_session u (run u n) intern gv calls = Some (ds, gv')) \<and> legal (gv_history gv')"
proof -
  from git_validator_runs[OF assms, of calls] obtain gv gv' N M where
    s: "gv_history gv' = snd (table_session [] calls)"
    "\<forall>n \<ge> N. git_validator_new u (run u n) intern = Some (Some gv)"
    "\<forall>n \<ge> M. git_validator_session u (run u n) intern gv calls = Some (fst (table_session [] calls), gv')"
    unfolding settles_def by blast
  have "legal (gv_history gv')" using s(1) table_session_legal[OF legal_Nil] by simp
  with s(2,3) show ?thesis by (intro exI[of _ gv] exI[of _ gv'] exI exI[of _ "max N M"]) auto
qed

theorem authorizer_history_legal_witness:
  "\<exists>gv gv' ds N. (\<forall>n \<ge> N. git_validator_new (numbered :: string uids) (run numbered n) (\<lambda>s. s) = Some (Some gv)) \<and>
    (\<forall>n \<ge> N. git_validator_session numbered (run numbered n) (\<lambda>s. s) gv
      [(''ann'', \<lparr>ja_kind = ''edit'', ja_message = None\<rparr>, [''file''])] = Some (ds, gv')) \<and>
    legal (gv_history gv')"
  using authorizer_history_legal[OF hash_consed_numbered, of "\<lambda>s. s"
      "[(''ann'', \<lparr>ja_kind = ''edit'', ja_message = None\<rparr>, [''file''])]"] by simp

text \<open>
  C12. In a legal history a resource one principal left unstaged stays unstaged by that principal
  while only others act, whatever they are granted.
\<close>

theorem unstaged_work_is_kept:
  assumes "legal (h @ later)" "row_of h r = UnstagedRow q" "\<forall>e \<in> set later. ev_principal e \<noteq> q"
  shows "row_of (h @ later) r = UnstagedRow q"
  using owner_keeps[OF assms] .

theorem unstaged_work_is_kept_witness:
  "row_of ([new_event ''ann'' Edit [''f'']] @ [new_event ''bob'' Read [''f''], new_event ''bob'' Edit [''g'']])
     [''f''] = UnstagedRow ''ann''"
proof -
  have table: "git_verdict [] (new_event ''ann'' Edit [''f'']) = PolicyGrant"
    "git_verdict [new_event ''ann'' Edit [''f'']] (new_event ''bob'' Read [''f'']) = PolicyGrant"
    "git_verdict [new_event ''ann'' Edit [''f''], new_event ''bob'' Read [''f'']] (new_event ''bob'' Edit [''g'']) = PolicyGrant"
    by (simp_all add: git_verdict_table git_table_def row_of_def reader_of_def row_step_def row_effect_def claimed_by_other_def)
  have "legal ([new_event ''ann'' Edit [''f'']] @ [new_event ''bob'' Read [''f''], new_event ''bob'' Edit [''g'']])"
    using legal_snoc[OF legal_snoc[OF legal_snoc[OF legal_Nil table(1)]]] table(2,3) by simp
  from unstaged_work_is_kept[OF this, of "[''f'']" "''ann''"] show ?thesis
    by (simp add: row_of_def row_step_def row_effect_def)
qed

text \<open>
  In a legal history every commit takes its resource from the staged row to the clean one.
\<close>

theorem commits_are_staged:
  assumes "legal (h @ e # later)" "ev_action e = Commit m"
  shows "row_of h (ev_resource e) = StagedRow \<and> row_of (h @ [e]) (ev_resource e) = CleanRow"
  using legal_commit_staged[OF legal_at[OF assms(1)] assms(2)] assms(2)
  by (simp add: row_step_def row_effect_def)

theorem commits_are_staged_witness:
  "row_of [new_event ''ann'' Edit [''f''], new_event ''ann'' Stage [''f'']] [''f''] = StagedRow \<and>
   row_of [new_event ''ann'' Edit [''f''], new_event ''ann'' Stage [''f''], new_event ''bob'' (Commit None) [''f'']]
     [''f''] = CleanRow"
proof -
  let ?h = "[new_event ''ann'' Edit [''f''], new_event ''ann'' Stage [''f'']]"
  have table: "git_verdict [] (new_event ''ann'' Edit [''f'']) = PolicyGrant"
    "git_verdict [new_event ''ann'' Edit [''f'']] (new_event ''ann'' Stage [''f'']) = PolicyGrant"
    "git_verdict ?h (new_event ''bob'' (Commit None) [''f'']) = PolicyGrant"
    by (simp_all add: git_verdict_table git_table_def row_of_def reader_of_def row_step_def row_effect_def claimed_by_other_def)
  have "legal (?h @ new_event ''bob'' (Commit None) [''f''] # [])"
    using legal_snoc[OF legal_snoc[OF legal_snoc[OF legal_Nil table(1)]]] table(2,3) by simp
  from commits_are_staged[OF this, of None] show ?thesis by simp
qed

text \<open>
  The active capability indices are strictly increasing positions of the history, and they
  are exactly the events that are the current row claim or the current read claim of their
  resource.
\<close>

theorem active_indices_exact:
  "sorted_wrt (<) (active_git_capability_indices h) \<and>
   set (active_git_capability_indices h) =
     {i. i < length h \<and> (cl_row (claims_for h (ev_resource (h ! i))) = Some i \<or>
                        cl_read (claims_for h (ev_resource (h ! i))) = Some i)}"
proof -
  have "sorted (active_git_capability_indices h)" by (simp add: active_git_capability_indices_def)
  with active_distinct[of h] show ?thesis
    by (auto simp: strict_sorted_iff active_set active_def Let_def)
qed

text \<open>
  C13. Keeping only the active events changes no decision: the git rules over the projected
  history answers every candidate as over the full history.
\<close>

theorem projection_decides_alike:
  "git_verdict (map (nth h) (active_git_capability_indices h)) e = git_verdict h e"
  using git_verdict_project[of h e] by (simp add: project_def)

section \<open>The multiplexer\<close>







text \<open>
  C17. Every conclusion returns: whatever the evidence, the plan and the state of the session, with
  enough fuel the policy compiler does not panic and a result comes back. The history it leaves is
  the one before, or that with the command's events appended, and a legal history stays legal.
\<close>

theorem conclusion_returns:
  assumes u: "hash_consed (w_uids w)" "inj (w_intern w)" and legal: "legal (as_history (mx_auth mx))"
  shows "\<exists>outcome mx' observed N.
    (\<forall>n \<ge> N. conclude w (run (w_uids w) n) mx sandbox cmd evidence result base_seq plan =
      Some (Some (outcome, mx', observed))) \<and>
    prefix (as_history (mx_auth mx)) (as_history (mx_auth mx')) \<and> legal (as_history (mx_auth mx'))"
proof -
  obtain outcome mx' observed where r:
    "settles (\<lambda>n. conclude w (run (w_uids w) n) mx sandbox cmd evidence result base_seq plan)
      (Some (Some (outcome, mx', observed)))" "advances mx evidence mx'"
    using conclude_returns[OF u, of mx sandbox cmd evidence result base_seq plan] by (auto simp: split_paired_Ex)
  from r(1) obtain N where "\<forall>n \<ge> N. conclude w (run (w_uids w) n) mx sandbox cmd evidence result base_seq plan =
      Some (Some (outcome, mx', observed))" by (auto simp: settles_def)
  moreover have "prefix (as_history (mx_auth mx)) (as_history (mx_auth mx'))" using r(2) by (auto simp: advances_def)
  ultimately show ?thesis using advances_legal[OF r(2) legal] by blast
qed

theorem conclusion_returns_witness:
  "\<exists>outcome mx' observed N. (\<forall>n \<ge> N. conclude (sample_world (\<lambda>bs. ''hash'')) (run numbered n) (sample_mux edit_store [])
      sample_box ''edit a'' (Some edit_translation) sample_result 0 Bypass = Some (Some (outcome, mx', observed))) \<and>
    prefix [] (as_history (mx_auth mx')) \<and> legal (as_history (mx_auth mx'))"
proof -
  let ?w = "sample_world (\<lambda>bs. ''hash'')"
  have u: "hash_consed (w_uids ?w)" "inj (w_intern ?w)" using hash_consed_numbered by simp_all
  have legal: "legal (as_history (mx_auth (sample_mux edit_store [])))" using legal_Nil by simp
  show ?thesis
    using conclusion_returns[OF u legal, of sample_box "''edit a''" "Some edit_translation" sample_result 0 Bypass]
    by (simp only: sample_world_sel sample_mux_sel)
qed




text \<open>
  A command that bypassed the sandbox and did nothing but read is never refused: its reads
  are granted and recorded in the history and in its log, the seed, its version and the
  generations stay, and the reader tree is released.
\<close>

theorem bypassed_reads_recorded:
  assumes u: "hash_consed (w_uids w)" "inj (w_intern w)" and tn: "only_read tn result"
    and ok: "session_ok w de hde mx wrs hrs"
  shows "\<exists>mx' N. (\<forall>n \<ge> N. conclude w (run (w_uids w) n) mx sandbox cmd (Some tn) result base_seq Bypass =
      Some (Some (Inr (Bypassed 0 (xr_stdout result) (xr_stderr result) (tl_events tn) (xr_trace_log result)), mx', []))) \<and>
    as_history (mx_auth mx') = as_history (mx_auth mx) @ tl_events tn \<and>
    as_generations (mx_auth mx') = as_generations (mx_auth mx) \<and> as_seq (mx_auth mx') = as_seq (mx_auth mx) \<and>
    st_seed (mx_store mx') = st_seed (mx_store mx) \<and>
    mx_readers mx' = mx_readers (release_reader mx base_seq) \<and> mx_trees mx' = mx_trees (release_reader mx base_seq) \<and>
    session_ok w de hde mx' wrs (hrs @ [history_record_of (as_seq (mx_auth mx)) (sb_id sandbox) cmd (tl_events tn) []])"
proof -
  let ?mx = "release_reader mx base_seq"
  have ok': "session_ok w de hde ?mx wrs hrs" using ok by (simp add: session_ok_def)
  have same: "conclude w (run (w_uids w) n) mx sandbox cmd (Some tn) result base_seq Bypass =
      conclude_bypass w (run (w_uids w) n) ?mx sandbox cmd tn result base_seq" for n
    by (simp add: conclude_def)
  from bypass_reads[OF u tn ok', of sandbox cmd base_seq] show ?thesis
    unfolding same reader_auth settles_def by blast
qed

theorem bypassed_reads_recorded_witness:
  "\<exists>mx' N. (\<forall>n \<ge> N. conclude (sample_world (\<lambda>bs. ''hash'')) (run numbered n) (sample_mux edit_store []) sample_box ''cat a''
      (Some read_translation) sample_result 0 Bypass =
      Some (Some (Inr (Bypassed 0 [] [] [new_event ''ann'' Read [''a'']] ''trace''), mx', []))) \<and>
    as_history (mx_auth mx') = [new_event ''ann'' Read [''a'']] \<and> st_seed (mx_store mx') = Dir [(''a'', old_file)]"
proof -
  let ?w = "sample_world (\<lambda>bs. ''hash'')"
  have u: "hash_consed (w_uids ?w)" "inj (w_intern ?w)" using hash_consed_numbered by simp_all
  show ?thesis
    using bypassed_reads_recorded[OF u read_only edit_session_ok, of "[]" sample_box "''cat a''" 0]
    unfolding sample_world_sel sample_mux_sel sample_result_sel read_translation_sel append_Nil edit_store_sel by blast
qed



section \<open>Logs and trees\<close>

text \<open>
  C20. A log that was interrupted anywhere in an append reads as the old records followed by a
  prefix of the new ones, all of them only when the append was complete; reading truncates the
  torn tail, so the next append starts a line and is read back behind them.
\<close>

theorem interrupted_append_reads:
  assumes "codec ser de" "prefix bs (stored ser new)"
  shows "\<exists>k \<le> length new. let kept = old @ take k new in
    log_read de (Some (stored ser old @ bs)) = (Inr kept, Some (stored ser kept)) \<and>
    (k = length new \<longrightarrow> bs = stored ser new) \<and>
    log_append ser later (log_open (Some (stored ser kept))) = (Inr (), stored ser (kept @ later)) \<and>
    log_read de (Some (stored ser (kept @ later))) = (Inr (kept @ later), Some (stored ser (kept @ later)))"
proof -
  obtain k where k: "k \<le> length new" "log_read de (Some (stored ser old @ bs)) =
      (Inr (old @ take k new), Some (stored ser (old @ take k new)))" "k = length new \<longrightarrow> bs = stored ser new"
    using log_read_interrupted[OF assms] by blast
  have "log_append ser later (log_open (Some (stored ser (old @ take k new)))) =
      (Inr (), stored ser ((old @ take k new) @ later))"
    using log_append_stored[OF assms(1)] by (simp add: log_open_def)
  moreover have "log_read de (Some (stored ser ((old @ take k new) @ later))) =
      (Inr ((old @ take k new) @ later), Some (stored ser ((old @ take k new) @ later)))"
    using log_read_stored[OF assms(1), of "[]" "(old @ take k new) @ later"] by simp
  ultimately show ?thesis using k by (intro exI[of _ k]) (simp only: Let_def simp_thms)
qed

theorem interrupted_append_reads_witness:
  "\<exists>k \<le> 1. log_read ununary (Some (stored unary [End 3] @ [1])) =
    (Inr ([End 3] @ take k [End 4]), Some (stored unary ([End 3] @ take k [End 4])))"
proof -
  have "prefix [1] (stored unary [End 4])" by (simp add: unary_def)
  from interrupted_append_reads[OF codec_unary this, of "[End 3]" "[]"] show ?thesis by (auto simp: Let_def)
qed

text \<open>
  A complete line that does not decode is reported, wherever it is in the log: reading fails
  with that line and leaves the file as it is.
\<close>

theorem corrupt_line_reported:
  assumes "codec ser de" "line \<noteq> []" "newline \<notin> set line" "de line = None"
  shows "log_read de (Some (stored ser old @ line @ newline # rest)) =
    (Inl (WalFailure (CorruptRecord line)), Some (stored ser old @ line @ newline # rest))"
  using log_read_corrupt[OF assms] .

theorem corrupt_line_reported_witness:
  "log_read (ununary :: bytes \<Rightarrow> wal_record option) (Some (stored unary [End 3] @ [2] @ newline # [1, 1])) =
    (Inl (WalFailure (CorruptRecord [2])), Some (stored unary [End 3] @ [2] @ newline # [1, 1]))"
  using corrupt_line_reported[OF codec_unary, of "[2]" "[End 3]" "[1, 1]"] by (simp add: newline_def ununary_def)





section \<open>Execution traces\<close>

text \<open>
  The command line that spells a git operation on a list of plain names is read back as that
  operation on those names, with the separator before the names and, when no name starts with a
  dash, without it.
\<close>

theorem git_command_round_trip:
  assumes "nameable gi" "\<forall>m. gi_action gi = GitCommit (Some m) \<longrightarrow> m \<noteq> ''--''"
  shows "git_parse (command_line gi) = Inr gi \<and>
    ((\<forall>p \<in> set (gi_pathspecs gi). \<not> prefix ''-'' p) \<longrightarrow>
      git_parse ([''git''] @ spelled (gi_action gi) @ gi_pathspecs gi) = Inr gi)"
  using git_parse_command_line[OF assms] git_parse_without_separator[OF assms(1) _ assms(2)] by blast

theorem git_command_round_trip_witness:
  "git_parse [''git'', ''restore'', ''--staged'', ''--'', ''src/a'', ''b''] =
     Inr \<lparr>gi_action = GitUnstage, gi_pathspecs = [''src/a'', ''b'']\<rparr> \<and>
   git_parse [''git'', ''restore'', ''--staged'', ''src/a'', ''b''] =
     Inr \<lparr>gi_action = GitUnstage, gi_pathspecs = [''src/a'', ''b'']\<rparr>"
  using git_command_round_trip[of "\<lparr>gi_action = GitUnstage, gi_pathspecs = [''src/a'', ''b'']\<rparr>"]
  by (simp add: command_line_def nameable_def is_glob_def)

text \<open>
  C26. A call the tracer prints in two halves, because another thread ran in between, reads as the
  same call printed whole where it returned, with the time it was entered; what stands before,
  between and behind is read as it would be without it.
\<close>

theorem interrupted_call_rejoined:
  assumes "tid < 2 ^ 32" "ts < 2 ^ 64" "ts' < 2 ^ 64" "is_call_name name"
    and "whole_arguments a" "trim_end a = a" "whole_arguments a'" and "printed_return r"
    and "\<forall>l \<in> set (before @ between @ later @ [name, a, a', r]). CHR 0x0A \<notin> set l"
    and "tokens_of between = Inr toks" "\<forall>t \<in> set toks. untouched (tid, name) t"
  shows "parse_trace (unlines (before @ [line_text tid ts (entered_text name a)] @ between @
      [line_text tid ts' (resumed_text name a' r)] @ later)) =
    parse_trace (unlines (before @ between @ [line_text tid ts (call_text name (a @ a') r)] @ later))"
  using assms by (rule parse_interrupted)

theorem interrupted_call_rejoined_witness:
  "parse_trace (unlines [line_text 7 1 (entered_text ''openat'' ''AT_FDCWD,''),
      line_text 8 2 (call_text ''close'' ''4'' ''0''), line_text 7 3 (resumed_text ''openat'' '' x, O_RDONLY'' ''3'')]) =
   parse_trace (unlines [line_text 8 2 (call_text ''close'' ''4'' ''0''),
      line_text 7 1 (call_text ''openat'' ''AT_FDCWD, x, O_RDONLY'' ''3'')])"
proof -
  have digit: "printed_return [c]" if "is_digit c" for c
    using that by (auto simp: printed_return_def trim_start_def suffix_def is_digit_def is_space_def
        dest: arg_cong[where f = last])
  have name: "is_call_name ''openat''" "is_call_name ''close''" by (simp_all add: is_call_name_def)
  have whole: "whole_arguments ''AT_FDCWD,''" "whole_arguments '' x, O_RDONLY''" "whole_arguments ''4''"
    by (simp_all add: whole_arguments_def closes_def opens_def QUOTE_def BACKSLASH_def)
  have ret: "printed_return ''3''" "printed_return ''0''" by (rule digit; simp add: is_digit_def)+
  have other: "lex_line (line_text 8 2 (call_text ''close'' ''4'' ''0'')) = Inr (WholeCall
      \<lparr>ln_tid = 8, ln_ts = 2, ln_call = Syscall ''close'' ''4'' (fst (parse_return ''0'')) (snd (parse_return ''0''))\<rparr>)"
    by (rule lex_whole[OF _ _ name(2) whole(3) ret(2)]) simp_all
  have between: "tokens_of [line_text 8 2 (call_text ''close'' ''4'' ''0'')] = Inr [WholeCall
      \<lparr>ln_tid = 8, ln_ts = 2, ln_call = Syscall ''close'' ''4'' (fst (parse_return ''0'')) (snd (parse_return ''0''))\<rparr>]"
    using tokens_of_line[OF other, of "[]"] by (simp add: tokens_of_def)
  have "\<forall>l \<in> set ([] @ [line_text 8 2 (call_text ''close'' ''4'' ''0'')] @ [] @
      [''openat'', ''AT_FDCWD,'', '' x, O_RDONLY'', ''3'']). CHR 0x0A \<notin> set l" by (simp add: call_text_def)
  from interrupted_call_rejoined[where tid = 7 and ts = 1 and ts' = 3, OF _ _ _ name(1) whole(1) _ whole(2) ret(1) this between]
  show ?thesis by (simp add: trim_end_def is_space_def)
qed

text \<open>
  A trace of whole calls reads as those calls in their order, and the argument text of a call
  splits into its arguments, where a quoted string, whatever commas, brackets and quotes it holds,
  is one argument that decodes to the string.
\<close>

theorem calls_read_back:
  assumes "\<forall>c \<in> set cs. printed_call c" "\<forall>c \<in> set cs. CHR 0x0A \<notin> set (call_line c)"
  shows "parse_trace (unlines (map call_line cs)) = Inr (map call_of cs) \<and>
    (\<forall>strs. map parse_quoted (split_args (join '', '' (map quoted strs))) = map Some strs)"
  using parse_calls[OF assms] split_args_joined[of "map quoted _"] by (simp add: argument_quoted)

theorem calls_read_back_witness:
  "parse_trace (unlines [call_line (7, 1, ''unlink'', ''x'', ''0'')]) = Inr [call_of (7, 1, ''unlink'', ''x'', ''0'')] \<and>
   (\<forall>strs. map parse_quoted (split_args (join '', '' (map quoted strs))) = map Some strs)"
proof -
  have "printed_return ''0''"
    by (auto simp: printed_return_def trim_start_def suffix_def is_space_def dest: arg_cong[where f = last])
  then have "printed_call (7, 1, ''unlink'', ''x'', ''0'')"
    by (simp add: printed_call_def is_call_name_def whole_arguments_def closes_def opens_def QUOTE_def BACKSLASH_def)
  then have "\<forall>c \<in> set [(7, 1, ''unlink'', ''x'', ''0'')]. printed_call c" by simp
  moreover have "CHR 0x0A \<notin> set (call_line (7, 1, ''unlink'', ''x'', ''0''))" by (simp add: call_text_def)
  ultimately show ?thesis
    using calls_read_back[of "[(7, 1, ''unlink'', ''x'', ''0'')]"] by (simp del: call_line.simps call_of.simps)
qed

text \<open>
  The record of an execution holds every line of the trace and every record of a builtin once,
  in order of their times, a builtin's begin before and its end behind the calls of the same
  microsecond; whatever was recorded in that order already keeps its order, the calls of a thread for one.
\<close>

theorem evidence_in_order:
  "sorted (map event_key (ed_events (interleave ls records))) \<and>
   mset (ed_events (interleave ls records)) = mset (map SystemEvent ls @ map BuiltinEvent records) \<and>
   (sorted (map event_key (filter P (map SystemEvent ls @ map BuiltinEvent records))) \<longrightarrow>
     filter P (ed_events (interleave ls records)) = filter P (map SystemEvent ls @ map BuiltinEvent records))"
  using interleave_stable by (simp add: interleave_events)

theorem evidence_in_order_witness:
  "let begin_git = BuiltinEvent (BeginRecord 0 5 7 ''git'' [''git''] []); end_git = BuiltinEvent (EndRecord 0 5 7 0);
       call = SystemEvent \<lparr>ln_tid = 7, ln_ts = 5, ln_call = Exited 0\<rparr> in
   filter (\<lambda>x. x \<noteq> call) (ed_events (interleave [\<lparr>ln_tid = 7, ln_ts = 5, ln_call = Exited 0\<rparr>]
      [BeginRecord 0 5 7 ''git'' [''git''] [], EndRecord 0 5 7 0])) = [begin_git, end_git]"
  using evidence_in_order[of "[\<lparr>ln_tid = 7, ln_ts = 5, ln_call = Exited 0\<rparr>]"
      "[BeginRecord 0 5 7 ''git'' [''git''] [], EndRecord 0 5 7 0]"
      "\<lambda>x. x \<noteq> SystemEvent \<lparr>ln_tid = 7, ln_ts = 5, ln_call = Exited 0\<rparr>"]
  by simp

text \<open>
  Whatever an execution did, the events its trace is translated to are distinct, belong to the
  principal that ran it, name resources inside the snapshot and outside the private directories of git, and contain an
  edit only when the translation also reports that the snapshot was written, which is what makes
  the multiplexer compare the trees.
\<close>

theorem translation_events_sound:
  "let t = translate evidence who work_root cwd in
   distinct (tl_events t) \<and>
   (\<forall>e \<in> set (tl_events t). ev_principal e = who \<and> ev_resource e \<noteq> [] \<and> ''.git'' \<notin> set (ev_resource e) \<and>
      (ev_action e = Edit \<longrightarrow> tl_wrote_in_root t))"
proof -
  let ?fr = "\<lparr>fr_principal = who, fr_work_root = work_root, fr_cwd = cwd\<rparr>"
  have "events_sound ?fr nothing_translated" by (simp add: events_sound_def nothing_translated_def)
  from events_sound_items[OF this, of "ed_events evidence"] show ?thesis
    by (simp add: translate_def events_sound_def Let_def)
qed

text \<open>The evidence of one program opening one file for writing, in the snapshot \<^verbatim>\<open>/w\<close>.\<close>

definition sample_open :: execution_event where
  "sample_open = SystemEvent \<lparr>ln_tid = 7, ln_ts = 1, ln_call = Syscall ''openat'' ''AT_FDCWD, x, O_WRONLY'' 3 (Some ''/w/x'')\<rparr>"


lemma sample_path: "path_buf ''/w'' = [RootDir, Normal ''w'']" "path_buf ''/w/x'' = [RootDir, Normal ''w'', Normal ''x'']"
  by (simp_all add: path_buf_def parts_below_def Let_def)

theorem translation_events_sound_witness:
  "let t = translate \<lparr>ed_events = [sample_open], ed_root_exit = None\<rparr> ''p'' (path_buf ''/w'') (path_buf ''/w'') in
   (\<forall>e \<in> set (tl_events t). ev_action e = Edit \<longrightarrow> tl_wrote_in_root t)"
  using translation_events_sound[of "\<lparr>ed_events = [sample_open], ed_root_exit = None\<rparr>" "''p''"
      "path_buf ''/w''" "path_buf ''/w''"]
  by (simp only: Let_def) blast

text \<open>
  C23. A git command the capabilities cannot describe is refused, whatever stands before and behind
  it: git executed as a program, and a span of the git builtin that never ends.
\<close>

theorem git_refused:
  assumes "ed_events evidence = before @ item # later"
    "hidden_git item \<or> (\<exists>i ts tid builtin argv dir. item = BuiltinEvent (BeginRecord i ts tid builtin argv dir) \<and>
       is_git_builtin builtin \<and> (\<forall>x \<in> set later. \<not> ends i x))"
  shows "tl_unsupported (translate evidence who work_root cwd) \<noteq> None"
  using assms(2)
proof (elim disjE exE conjE)
  assume "hidden_git item"
  then show ?thesis unfolding translate_def assms(1) Let_def by (rule hidden_git_refused)
next
  fix i ts tid builtin argv dir
  assume "item = BuiltinEvent (BeginRecord i ts tid builtin argv dir)" "is_git_builtin builtin" "\<forall>x \<in> set later. \<not> ends i x"
  then show ?thesis unfolding translate_def assms(1) Let_def by (simp only: unclosed_git_refused) simp
qed

theorem git_refused_witness:
  "tl_unsupported (translate \<lparr>ed_events = [sample_open, BuiltinEvent (BeginRecord 0 2 7 ''git add'' [] []), sample_open],
     ed_root_exit = None\<rparr> ''p'' (path_buf ''/w'') (path_buf ''/w'')) \<noteq> None"
  by (rule git_refused[where before = "[sample_open]" and later = "[sample_open]"
        and item = "BuiltinEvent (BeginRecord 0 2 7 ''git add'' [] [])"])
    (simp_all add: is_git_builtin_def sample_open_def ends_def)



text \<open>
  C25. A run of the git builtin on plain names inside the snapshot requests the capability of its
  operation on each name once, in the order of the names, when it succeeded and nothing when it
  failed; what git itself read and wrote on the way requests nothing, and the run is not refused.
\<close>

theorem git_builtin_requests:
  assumes "is_git_builtin builtin" "\<forall>line \<in> set lines. inside tid line"
    and "nameable gi" "\<forall>m. gi_action gi = GitCommit (Some m) \<longrightarrow> m \<noteq> ''--''"
    and "\<forall>p \<in> set (gi_pathspecs gi). seed_resource work_root (resolve cwd p) = Some (res p)"
    and "ed_events evidence = git_run builtin tid (command_line gi) cwd lines status"
  shows "tl_unsupported (translate evidence who work_root start) = None \<and>
    tl_events (translate evidence who work_root start) =
      (if status = 0 then dedup_preserving_order []
         (map (\<lambda>p. new_event who (capability_of (gi_action gi)) (res p)) (gi_pathspecs gi)) else [])"
  using git_run_events[OF assms(1,2) git_parse_command_line[OF assms(3,4)] assms(5,6)] by blast

theorem git_builtin_requests_witness:
  "tl_events (translate \<lparr>ed_events = git_run ''git add'' 7 [''git'', ''add'', ''--'', ''x''] (path_buf ''/w'')
     [\<lparr>ln_tid = 7, ln_ts = 1, ln_call = Syscall ''openat'' ''AT_FDCWD, x, O_WRONLY'' 3 (Some ''/w/x'')\<rparr>] 0, ed_root_exit = None\<rparr>
     ''p'' (path_buf ''/w'') (path_buf ''/'')) = [new_event ''p'' Stage [''x'']]"
proof -
  let ?gi = "\<lparr>gi_action = GitStage, gi_pathspecs = [''x'']\<rparr>"
  have "command_line ?gi = [''git'', ''add'', ''--'', ''x'']" by (simp add: command_line_def)
  moreover have "seed_resource (path_buf ''/w'') (resolve (path_buf ''/w'') ''x'') = Some [''x'']"
    by (simp add: resolve_def join_path_def parts_below_def sample_path seed_resource_def relative_segments_def List.map_filter_simps)
  ultimately show ?thesis
    using git_builtin_requests[where builtin = "''git add''" and tid = 7 and gi = ?gi and cwd = "path_buf ''/w''" and res = "\<lambda>p. [''x'']"
        and lines = "[\<lparr>ln_tid = 7, ln_ts = 1, ln_call = Syscall ''openat'' ''AT_FDCWD, x, O_WRONLY'' 3 (Some ''/w/x'')\<rparr>]"
        and status = 0 and evidence = "\<lparr>ed_events = git_run ''git add'' 7 [''git'', ''add'', ''--'', ''x''] (path_buf ''/w'')
     [\<lparr>ln_tid = 7, ln_ts = 1, ln_call = Syscall ''openat'' ''AT_FDCWD, x, O_WRONLY'' 3 (Some ''/w/x'')\<rparr>] 0, ed_root_exit = None\<rparr>"]
    by (simp add: is_git_builtin_def inside_def hidden_git_def nameable_def is_glob_def)
qed

section \<open>The job table\<close>

text \<open>
  C31. Job names are unique: in every session that operations can reach, however their critical
  sections interleave, no two rows share a name, each row's sandbox has the name of its job, and the
  queue says that a job is merging exactly when one of its conclusions waits or is being concluded.
\<close>

theorem job_names_unique:
  assumes "job_reachable fs s"
  shows "distinct (map jb_id (jt_open (ss_table s))) \<and> (\<forall>job \<in> set (jt_open (ss_table s)). sb_id (jb_sandbox job) = jb_id job) \<and>
    (is_merging name (ss_queue s) \<longleftrightarrow>
      (\<exists>c \<in> set (cq_pending (ss_queue s)). cn_id c = name) \<or> (\<exists>t \<in> set (ss_tasks s). concludes name t))"
proof -
  from reachable_rows[OF assms] have c: "counted s" and rows: "rows_ok (ss_table s)" by blast+
  then have "is_merging name (ss_queue s) \<longleftrightarrow> owed name (ss_queue s) \<noteq> 0" using merging_owed[of "ss_queue s" name] by (simp add: counted_def)
  also have "\<dots> \<longleftrightarrow> \<not> (tally (\<lambda>c. cn_id c = name) (cq_pending (ss_queue s)) = 0 \<and> tally (concludes name) (ss_tasks s) = 0)"
    using c by (simp add: counted_def)
  finally show ?thesis using rows by (auto simp: rows_ok_def tally_zero)
qed

theorem job_names_unique_witness:
  "distinct (map jb_id (jt_open (ss_table (one_job ''1'' [row_of_job ''1'' (Some 0) None True] [Launching ''1'' True] []
     :: (nat, nat) session))))"
  using job_names_unique[OF kept_reachable_reachable[OF launching_reached[where fs = Inr and name = "''1''" and r = "0 :: nat"]],
      where name = "''1''"] by blast



text \<open>
  C28. Without that discipline both fail: between the reap of a command and its submission a stop
  reclaims the tree of a command that is not concluded, and a start goes on to launch the next
  command although the last one is not concluded.
\<close>

theorem reap_submit_window:
  fixes fs :: "'s \<Rightarrow> mux_error + 's"
  shows "(\<exists>s :: ('r, 's) session. job_reachable fs s \<and> unsubmitted name s \<and> (\<exists>sandbox \<in> set (ss_reclaimed s). sb_id sandbox = name)) \<and>
    (\<exists>s :: ('r, 's) session. job_reachable fs s \<and> unsubmitted name s \<and> Launching name False \<in> set (ss_tasks s))"
  using window_races[of fs name] by blast



text \<open>
  C30. A stop that was accepted is final: whatever happens next, as long as its name is not given
  out anew, the job is gone or refuses every command because it is closing.
\<close>

theorem stop_is_final:
  assumes "job_reachable fs s" "stop fs name force (ss_queue s) (ss_table s) = (Inr closed, table)"
    "(job_step fs)\<^sup>*\<^sup>* (s\<lparr>ss_table := table, ss_reclaimed := reclaimed closed @ ss_reclaimed s\<rparr>) s'" "distinct (ss_used s')"
  shows "start_reserve name (ss_table s') \<in> {(Inl (NoSuchJob name), ss_table s'), (Inl (JobClosing name), ss_table s')}"
proof -
  let ?s = "s\<lparr>ss_table := table, ss_reclaimed := reclaimed closed @ ss_reclaimed s\<rparr>"
  have ok: "rows_ok (ss_table s)" using reachable_rows[OF assms(1)] by blast
  with rows_step[OF job_step.stopped[OF assms(2)]] have "rows_ok (ss_table ?s)" by simp
  moreover have "closed_for name (ss_table ?s)" using stop_closes(1)[OF ok assms(2)] by simp
  moreover have "name \<in> set (ss_used ?s)"
    using stop_closes(2)[OF ok assms(2)] named_reachable[OF assms(1)] by (auto simp: named_def)
  ultimately have "closed_for name (ss_table s')" using closes_steps[OF assms(3) _ _ _ assms(4)] by blast
  then show ?thesis by (simp add: closed_for_def start_reserve_def split: option.split)
qed

theorem stop_is_final_witness:
  "fst (start_reserve ''1'' (ss_table (one_job ''1'' [row_of_job ''1'' (Some 0) None True\<lparr>jb_close := Some Graceful\<rparr>]
     [Launching ''1'' True] [] :: (nat, nat) session))) \<in> {Inl (NoSuchJob ''1''), Inl (JobClosing ''1'')}"
proof -
  let ?s = "one_job ''1'' [row_of_job ''1'' (Some 0) None True] [Launching ''1'' True] [] :: (nat, nat) session"
  let ?t = "ss_table (one_job ''1'' [row_of_job ''1'' (Some 0) None True\<lparr>jb_close := Some Graceful\<rparr>] [Launching ''1'' True] []
    :: (nat, nat) session)"
  have "stop Inr ''1'' False (ss_queue ?s) (ss_table ?s) = (Inr None, ?t)"
    by (simp add: stop_def visible_def retired_def close_job_def is_merging_def take_closable_def closable_def one_job_simps)
  from stop_is_final[OF kept_reachable_reachable[OF launching_reached] this, of "?s\<lparr>ss_table := ?t\<rparr>"] show ?thesis
    by (auto simp: reclaimed_def one_job_simps)
qed

text \<open>
  The automatic series never names a job twice, and never gives a name a job holds: each name is
  the first free number at or after the counter, and the counter only grows.
\<close>

theorem automatic_names_fresh:
  assumes "spawn_id None (ss_table s) = (Inr name, table)"
  shows "find_job name (ss_table s) = None \<and> name = show_nat (jt_counter table - 1) \<and>
    (\<forall>m \<in> {jt_counter (ss_table s)..<jt_counter table - 1}. find_job (show_nat m) (ss_table s) \<noteq> None) \<and>
    (\<forall>s' s'' name' table'. ss_table s' = table \<longrightarrow> (job_step fs)\<^sup>*\<^sup>* s' s'' \<longrightarrow> spawn_id None (ss_table s'') = (Inr name', table') \<longrightarrow>
       name' \<noteq> name)"
proof -
  have names: "find_job n t = None \<longleftrightarrow> n \<notin> set (map jb_id (jt_open t))" for n and t :: "('a, 'b) job_table"
    by (auto simp: find_job_def find_None_iff)
  have next1: "next_name (map jb_id (jt_open t)) (jt_counter t) = (n, jt_counter t')" if "spawn_id None t = (Inr n, t')" for n t t'
    using that by (auto simp: spawn_id_def next_id_def split: prod.splits)
  note first = next_name_spec[OF next1[OF assms]]
  have "name' \<noteq> name" if "ss_table s' = table" "(job_step fs)\<^sup>*\<^sup>* s' s''" "spawn_id None (ss_table s'') = (Inr name', table')"
    for s' s'' name' table'
  proof -
    have "jt_counter table < jt_counter table'" "name' = show_nat (jt_counter table' - 1)" "jt_counter table > 0"
      using next_name_spec[OF next1[OF that(3)]] counter_steps[OF that(2)] that(1) first by auto
    with first show ?thesis using show_nat_inj[of "jt_counter table' - 1" "jt_counter table - 1"] by auto
  qed
  with first show ?thesis unfolding names by auto
qed

theorem automatic_names_fresh_witness:
  "find_job ''3'' (\<lparr>jt_open = [row_of_job ''2'' None None False], jt_counter = 2, jt_current = None, jt_size = (24, 80)\<rparr>
     :: (nat, nat) job_table) = None"
proof -
  let ?t = "\<lparr>jt_open = [row_of_job ''2'' None None False], jt_counter = 2, jt_current = None, jt_size = (24, 80)\<rparr> :: (nat, nat) job_table"
  let ?s = "\<lparr>ss_table = ?t, ss_queue = new_queue, ss_tasks = [], ss_used = [], ss_reclaimed = []\<rparr> :: (nat, nat) session"
  have "show_nat 2 = ''2''" "show_nat 3 = ''3''" by code_simp+
  then have "spawn_id None (ss_table ?s) = (Inr ''3'', ?t\<lparr>jt_counter := 4\<rparr>)"
    by (simp add: spawn_id_def next_id_def next_name.simps row_of_job_def)
  from conjunct1[OF automatic_names_fresh[where fs = Inr, OF this]] show ?thesis by simp
qed

section \<open>The order of the locks\<close>

text \<open>
  Threads that run the operations which keep to the documented order of the locks never
  deadlock, however many they are and however they interleave.
\<close>

theorem operations_in_order_progress:
  assumes "set opss \<subseteq> {under QueueLock, under TableLock, stop_locks, start_in_locks, reap_locks, failure_locks, shutdown_locks}"
    "lock_step\<^sup>*\<^sup>* (map idle_thread opss) ts"
  shows "\<not> deadlocked ts"
proof -
  have "\<forall>ops \<in> set opss. ordered {} ops" using assms(1) ordered_operations by blast
  from lawful_progress[OF lawful_steps[OF assms(2) lawful_start[OF this]]] show ?thesis by (auto simp: deadlocked_def)
qed

theorem operations_in_order_progress_witness:
  "\<not> deadlocked [idle_thread stop_locks, idle_thread start_in_locks, idle_thread reap_locks]"
  using operations_in_order_progress[of "[stop_locks, start_in_locks, reap_locks]"] by simp

text \<open>
  C32. The end of a conclusion does not keep to it: with a stop it reaches a deadlock, the stop
  holding the queue and waiting for the table, the conclusion holding the table and waiting for the
  queue.
\<close>

theorem conclusion_deadlocks:
  "\<exists>ts. lock_step\<^sup>*\<^sup>* [idle_thread stop_locks, idle_thread conclude_locks] ts \<and> deadlocked ts"
  using waits_reached waits_forever by blast

section \<open>Claims after a restart\<close>

text \<open>
  C33. Reconciliation keeps a part of the history, in its order, in which no read claim is left and
  every resource has the row it had exactly when git still shows that row, and is clean otherwise.
\<close>

theorem reconciled_rows:
  "subseq (reconcile w history) history \<and> reader_of (reconcile w history) r = None \<and>
   row_of (reconcile w history) r = (case row_of history r of
       CleanRow \<Rightarrow> CleanRow
     | StagedRow \<Rightarrow> if shown_row w r ClaimsStaged then StagedRow else CleanRow
     | UnstagedRow p \<Rightarrow> if shown_row w r ClaimsUnstaged then UnstagedRow p else CleanRow)"
  by (cases "row_of history r") (simp_all add: reconcile_subseq reader_of_reconcile reconcile_row)

text \<open>
  C3. Work that git shows in the tree survives a restart: when a principal had unstaged work in a
  resource and git answers for it, then after the restart everybody else is denied whatever touches
  it as long as the tree is dirty there, and may edit it exactly when it is not.
\<close>

theorem dirty_work_survives_restart:
  assumes "row_of history (ev_resource e) = UnstagedRow p" "ev_principal e \<noteq> p"
    "shown_status w (ev_resource e) = Some (Inr status)"
  shows "(worktree_dirty status \<longrightarrow> ev_action e \<notin> {Read, action.Diff, action.History} \<longrightarrow>
      git_table (reconcile w history) e \<noteq> PolicyGrant) \<and>
    (ev_action e = Edit \<longrightarrow> (git_table (reconcile w history) e = PolicyGrant \<longleftrightarrow> \<not> worktree_dirty status))"
proof -
  have "row_of (reconcile w history) (ev_resource e) = (if worktree_dirty status then UnstagedRow p else CleanRow)"
    using assms(1,3) by (simp add: reconcile_row shown_row_def shows_row_def)
  with assms(2) show ?thesis
    by (cases "ev_action e") (simp_all add: git_table_grant reader_of_reconcile claimed_by_other_def)
qed

theorem dirty_work_survives_restart_witness:
  "git_table (reconcile \<lparr>gw_seed = [RootDir, Normal ''s''], gw_exists = (\<lambda>p. p = [RootDir, Normal ''s'', Normal ''.git'']),
      gw_open = (\<lambda>root. Some ()), gw_status = (\<lambda>g p. Inr [WtModified])\<rparr>
      [new_event ''p'' Edit [''x''], new_event ''q'' Read [''x'']]) (new_event ''q'' Edit [''x'']) \<noteq> PolicyGrant"
proof -
  let ?w = "\<lparr>gw_seed = [RootDir, Normal ''s''], gw_exists = (\<lambda>p. p = [RootDir, Normal ''s'', Normal ''.git'']),
    gw_open = (\<lambda>root. Some ()), gw_status = (\<lambda>g p. Inr [WtModified])\<rparr> :: unit git_world"
  let ?h = "[new_event ''p'' Edit [''x''], new_event ''q'' Read [''x'']]"
  let ?e = "new_event ''q'' Edit [''x'']"
  have "row_of ?h (ev_resource ?e) = UnstagedRow ''p''" by (simp add: row_of_def row_step_def row_effect_def)
  moreover have "shown_status ?w (ev_resource ?e) = Some (Inr [WtModified])"
    by (simp add: shown_status_def parent_path_def absolute_of_def repo_root.simps)
  ultimately show ?thesis
    using dirty_work_survives_restart[where history = ?h and e = ?e and w = ?w] by (simp add: worktree_dirty_def)
qed

section \<open>The learned cache of pure commands\<close>

text \<open>
  C4. The learned cache survives a restart: restored from a log with a torn end, told any
  observations, and restored again from the file it appended to, it gives every command the verdict
  observed last, or the one of the old log; and the file has grown by one record per change of a verdict.
\<close>

theorem learned_purity_survives_restart:
  assumes "codec ser de" "newline \<notin> set torn"
  shows "\<exists>lp lp' rs'. restore_learned de (Some (stored ser rs @ torn)) = Inr lp \<and>
    restore_learned de (lp_log (observe_run ser lp observations)) = Inr lp' \<and>
    (\<forall>key. known_verdict (lp_known lp') key = last_said key observations (known_verdict (replay_records rs) key)) \<and>
    lp_log lp' = Some (stored ser rs') \<and> length rs' = length rs + changes lp ser observations"
proof -
  from restore_cached[OF assms] obtain lp where lp: "restore_learned de (Some (stored ser rs @ torn)) = Inr lp" "cached_in_log ser lp rs"
    by blast
  from observe_run_cached[OF assms(1) lp(2)] obtain rs' where
    rs': "cached_in_log ser (observe_run ser lp observations) rs'" "length rs' = length rs + changes lp ser observations" by blast
  from restore_cached[OF assms(1), of "[]" rs'] rs'(1) obtain lp' where
    lp': "restore_learned de (lp_log (observe_run ser lp observations)) = Inr lp'" "cached_in_log ser lp' rs'"
    by (auto simp: cached_in_log_def)
  have "known_verdict (lp_known lp') key = last_said key observations (known_verdict (replay_records rs) key)" for key
    using lp(2) lp'(2) rs'(1) observe_run_known[of ser lp observations key] by (simp add: cached_in_log_def)
  with lp lp' rs'(2) show ?thesis by (auto simp: cached_in_log_def)
qed

theorem learned_purity_survives_restart_witness:
  "\<exists>lp lp'. restore_learned ununary (Some ([1] :: bytes)) = Inr lp \<and>
    restore_learned ununary (lp_log (observe_run unary lp [(\<lparr>ck_cmd = ''ls'', ck_dir = []\<rparr>, Pure)])) = Inr lp' \<and>
    known_verdict (lp_known lp') \<lparr>ck_cmd = ''ls'', ck_dir = []\<rparr> = Pure"
proof -
  have "newline \<notin> set ([1] :: bytes)" by (simp add: newline_def)
  from learned_purity_survives_restart[OF codec_unary this, of "[]" "[(\<lparr>ck_cmd = ''ls'', ck_dir = []\<rparr>, Pure)]"]
  show ?thesis by (auto simp: last_said_def)
qed

text \<open>
  C34. A learned plan follows the last run: after a transaction the command bypasses the sandbox exactly
  when that run succeeded and only read, and a bypassed run that did anything else sends it back into
  the sandbox; every other command keeps its plan.
\<close>

theorem learned_plan_follows_run:
  assumes "conclude w call mx sandbox cmd (Some tn) result base_seq plan = Some (Some (outcome, mx', observed))"
    "checker = LearnedChecker lp" "checker' = observe_all ser checker sandbox cmd observed"
  shows "(plan = Transaction \<longrightarrow> (plan_for sp checker' shell sandbox cmd = Bypass \<longleftrightarrow> verdict_of tn (xr_exit_code result) = Pure)) \<and>
    (plan = Bypass \<and> (tl_unsupported tn \<noteq> None \<or> tl_wrote_in_root tn \<or> (\<exists>e \<in> set (tl_events tn). ev_action e \<noteq> Read)) \<longrightarrow>
      plan_for sp checker' shell sandbox cmd = Transaction) \<and>
    ((sb_dir other, cmd') \<noteq> (sb_dir sandbox, cmd) \<longrightarrow> plan_for sp checker' shell other cmd' = plan_for sp checker shell other cmd')"
proof -
  have plan: "plan_for sp (observe_all ser (LearnedChecker lp) sandbox cmd vs) shell box c =
    (case (if (sb_dir box, c) = (sb_dir sandbox, cmd) \<and> vs \<noteq> [] then last vs else known_verdict (lp_known lp) \<lparr>ck_cmd = c, ck_dir = sb_dir box\<rparr>) of
       Pure \<Rightarrow> Bypass | Sandboxed \<Rightarrow> Transaction)" for vs box c
    by (induction vs arbitrary: lp) (auto simp: observe_all_def plan_for_def)
  have transaction: "observed = [verdict_of tn (xr_exit_code result)]" if "plan = Transaction"
    using assms(1) that
    by (auto simp: conclude_def Let_def finished_with_def split: if_splits option.splits prod.splits Option.bind_splits)
  have bypass: "observed = [Sandboxed]"
    if "plan = Bypass" "tl_unsupported tn \<noteq> None \<or> tl_wrote_in_root tn \<or> (\<exists>e \<in> set (tl_events tn). ev_action e \<noteq> Read)"
    using assms(1) that by (simp add: conclude_def conclude_bypass_def)
  show ?thesis
    using transaction bypass unfolding assms(2,3) plan
    by (auto simp: plan_for_def split: purity_verdict.split)
qed

theorem learned_plan_follows_run_witness:
  "plan_for (\<lambda>shell cmd. True) (observe_all unary (LearnedChecker
     \<lparr>lp_known = replay_records [observed_record \<lparr>ck_cmd = ''edit a'', ck_dir = []\<rparr> Pure], lp_log = None\<rparr>)
     sample_box ''edit a'' [Sandboxed]) () sample_box ''edit a'' = Transaction"
proof -
  let ?mx = "sample_mux edit_store []"
  have "conclude (sample_world (\<lambda>bs. ''hash'')) (run numbered 0) ?mx sample_box ''edit a'' (Some edit_translation) sample_result 0 Bypass =
    Some (Some (Inr (Escaped 0 [new_event ''ann'' Edit [''a'']] True ''trace''), discard_reader (release_reader ?mx 0) 0, [Sandboxed]))"
    by (simp add: conclude_def conclude_bypass_def edit_translation_def)
  from learned_plan_follows_run[OF this refl refl, where shell = "()" and sp = "\<lambda>shell cmd. True"]
  show ?thesis by (simp add: edit_translation_def)
qed

text \<open>
  A demotion whose append is cut short is forgotten: the running session knows the command is not
  pure, and the next session trusts it again.
\<close>

theorem lost_demotion:
  assumes "codec ser de" "cached_in_log ser lp rs" "known_verdict (lp_known lp) key = Pure"
    "strict_prefix bs (stored ser [observed_record key Sandboxed])"
  shows "known_verdict (lp_known (observe_learned ser lp key Sandboxed)) key = Sandboxed \<and>
    (\<exists>lp'. restore_learned de (Some (stored ser rs @ bs)) = Inr lp' \<and> known_verdict (lp_known lp') key = Pure)"
proof -
  obtain k torn where k: "k \<le> 1" "bs = stored ser (take k [observed_record key Sandboxed]) @ torn" "newline \<notin> set torn"
      "k = 1 \<longrightarrow> torn = []"
    using prefix_stored[OF assms(1), of bs "[observed_record key Sandboxed]"] assms(4) by (auto simp: strict_prefix_def)
  then have "k = 0" using assms(4) by (cases k) (auto simp: strict_prefix_def)
  with k have "newline \<notin> set bs" by simp
  from restore_cached[OF assms(1) this, of rs] assms(2,3) show ?thesis by (auto simp: cached_in_log_def)
qed

theorem lost_demotion_witness:
  "\<exists>lp'. restore_learned ununary (Some (stored unary [observed_record \<lparr>ck_cmd = ''./x'', ck_dir = []\<rparr> Pure] @ [])) = Inr lp' \<and>
    known_verdict (lp_known lp') \<lparr>ck_cmd = ''./x'', ck_dir = []\<rparr> = Pure"
proof -
  let ?key = "\<lparr>ck_cmd = ''./x'', ck_dir = []\<rparr>"
  let ?rs = "[observed_record ?key Pure]"
  let ?lp = "\<lparr>lp_known = replay_records ?rs, lp_log = Some (stored unary ?rs)\<rparr>"
  have "cached_in_log unary ?lp ?rs" by (simp add: cached_in_log_def)
  moreover have "known_verdict (lp_known ?lp) ?key = Pure" using replay_known[of "[]" "observed_record ?key Pure" ?key] by simp
  moreover have "strict_prefix [] (stored unary [observed_record ?key Sandboxed])" by (simp add: strict_prefix_def)
  ultimately show ?thesis using lost_demotion[OF codec_unary] by blast
qed

section \<open>The interpreter\<close>

text \<open>A shell and leaves to try the interpreter on: every leaf succeeds, and the world is what was run.\<close>

definition sample_shell :: "unit shell" where
  "sample_shell = \<lparr>sl_options = \<lparr>so_errexit = True, so_pipefail = True, so_lastpipe = False, so_job_control = False,
     so_noexec = False, so_interactive = False, so_xtrace = False\<rparr>, sl_status = 0, sl_status_changes = 0,
     sl_pipeline_statuses = [], sl_err_trap = False, sl_args = [], sl_rest = ()\<rparr>"

definition sample_leaves :: "(unit, unit, unit, string list) leaves" where
  "sample_leaves = \<lparr>
     lv_simple = (\<lambda>pgid simple params (sh, w). Some (Inr (CompletedSpawn (result_of_code
        (if sc_word_or_name simple = Some ''false'' then GeneralError else ExitSuccess))), sh, w @ [the (sc_word_or_name simple)])),
     lv_pgid = (\<lambda>child. None), lv_current_cmd = (\<lambda>c sh. sh),
     lv_wait_process = (\<lambda>child. give (CompletedWait success)), lv_wait_task = (\<lambda>task. give success),
     lv_pipes = (\<lambda>n. nothing), lv_stage_params = (\<lambda>len i current params. params), lv_to_foreground = nothing,
     lv_stopped_job = (\<lambda>children p params. nothing), lv_async = (\<lambda>ao params. nothing), lv_redirect = (\<lambda>r params. give params),
     lv_define = (\<lambda>name body redirects. nothing), lv_coprocess = (\<lambda>name body params. give success),
     lv_expand_words = (\<lambda>ws params. give ws), lv_expand_word = (\<lambda>w params. give w), lv_matches = (\<lambda>p v params. give (p = v)),
     lv_set_variable = (\<lambda>name v. nothing), lv_arithmetic = (\<lambda>e params. give 0), lv_test = (\<lambda>e params. give True),
     lv_err_trap = (\<lambda>params. nothing), lv_display_error = (\<lambda>e params. nothing), lv_trace = (\<lambda>c params. nothing),
     lv_stopwatch = nothing, lv_report_time = (\<lambda>timed params. nothing)\<rparr>"

definition sample_params :: "unit exec_params" where
  "sample_params = \<lparr>pm_suppress_errexit = False, pm_files = ()\<rparr>"

definition sample_command :: "string \<Rightarrow> compound_list command" where
  "sample_command name = Simple (SimpleCommand None (Some name) None)"

definition sample_list :: "compound_list command list \<Rightarrow> compound_list" where
  "sample_list cs = CompoundList [(AndOrList (Pipeline None False cs) [], SequenceSeparator)]"



text \<open>
  C35. Where errexit is suppressed nothing but a leaf that asks for it exits the shell: a list run in a
  condition, behind an inversion or before the end of an and-or list never yields an exit, however it fails.
\<close>

theorem suppressed_never_exits:
  assumes "staying_leaves lv" "pm_suppress_errexit params" "exec_list n lv l params s = Some (Inr r, s')"
  shows "xe_flow r \<noteq> ExitShell"
proof -
  have "gives_only stays (exec_list n lv l params)" using lists_stay[OF assms(1)] assms(2) by (rule staying_runnerD)
  with assms(3) show ?thesis unfolding gives_only_def stays_def by blast
qed

theorem suppressed_never_exits_witness:
  "\<exists>r s'. exec_list 1 sample_leaves (sample_list [sample_command ''false'']) (suppressed sample_params) (sample_shell, []) = Some (Inr r, s') \<and>
     xe_code r = GeneralError \<and> xe_flow r \<noteq> ExitShell"
proof -
  have staying: "staying_leaves sample_leaves"
    by (simp add: staying_leaves_def sample_leaves_def gives_only_def give_def)
  let ?s' = "(sample_shell\<lparr>sl_status := 1, sl_status_changes := 3, sl_pipeline_statuses := [1]\<rparr>, [''false''])"
  have "exec_list 1 sample_leaves (sample_list [sample_command ''false'']) (suppressed sample_params) (sample_shell, []) =
    Some (Inr general_error, ?s')"
    by (simp add: sample_list_def sample_command_def One_nat_def exec_and_or_def exec_pipeline_def wait_pipeline_def exec_command.simps Let_def
      after_act_def give_def nothing_def with_shell_def change_def note_result_def set_status_of_def set_status_def push_pipeline_status_def
      is_success_def is_normal_flow_def result_of_code_def sample_leaves_def sample_shell_def with_pipefail_def suppressed_def sample_params_def)
  from this suppressed_never_exits[OF staying suppressed_sel this] show ?thesis by (auto simp: result_of_code_def)
qed

text \<open>
  C36. The outcome of a pipeline whose stages completed: the pipeline statuses are those of the stages in
  their order, the code is the last one or with pipefail the last failing one, inverted behind a bang, the
  status of the shell is that code, and with errexit a failure not suppressed or inverted exits the shell.
  Nothing else of the shell changes after the stages have been started.
\<close>

theorem pipeline_outcome:
  fixes p params
  defines "params' \<equiv> if pl_bang p then suppressed params else params"
  assumes "pl_timed p = None" "rs \<noteq> []"
    "length (pl_seq p) > 1 \<longrightarrow> lv_pipes lv (length (pl_seq p) - 1) s = Some (Inr (), s0)" "length (pl_seq p) \<le> 1 \<longrightarrow> s0 = s"
    "spawn_commands k lv exec (length (pl_seq p)) 0 None params' (pl_seq p) s0 = Some (Inr (map CompletedSpawn rs), sh, w)"
    "\<not> so_interactive (sl_options sh)" "\<not> sl_err_trap sh"
  shows "\<exists>n. exec_pipeline k lv exec p params s = Some (Inr
     \<lparr>xe_flow = pipeline_flow (so_errexit (sl_options sh) \<and> \<not> pm_suppress_errexit params') (pipeline_code (so_pipefail (sl_options sh)) (pl_bang p) rs) rs,
      xe_code = pipeline_code (so_pipefail (sl_options sh)) (pl_bang p) rs\<rparr>,
     sh\<lparr>sl_status := code_number (pipeline_code (so_pipefail (sl_options sh)) (pl_bang p) rs), sl_status_changes := n,
        sl_pipeline_statuses := map (code_number \<circ> xe_code) rs\<rparr>, w)"
proof -
  have pipes: "(if length (pl_seq p) > 1 then lv_pipes lv (length (pl_seq p) - 1) else nothing) s = Some (Inr (), s0)"
    using assms(4,5) by (auto simp: nothing_def give_def)
  obtain n where wait: "wait_pipeline lv p (map CompletedSpawn rs) params' (sh, w) = Some
     (Inr \<lparr>xe_flow = xe_flow (last rs), xe_code = pipeline_code (so_pipefail (sl_options sh)) False rs\<rparr>,
      sh\<lparr>sl_status := code_number (xe_code (last rs)), sl_status_changes := n, sl_pipeline_statuses := map (code_number \<circ> xe_code) rs\<rparr>, w)"
    using wait_pipeline_completed[OF assms(3,7), of lv p params' w] by (rule exE)
  have code: "pipeline_code b True rs = (if is_success_code (pipeline_code b False rs) then GeneralError else ExitSuccess)" for b
    by (simp add: pipeline_code_def Let_def)
  have timed: "(if pl_timed p \<noteq> None then lv_stopwatch lv else nothing) s = Some (Inr (), s)"
    using assms(2) by (simp add: nothing_def give_def)
  have suppress: "pl_bang p \<Longrightarrow> pm_suppress_errexit params'" by (simp add: params'_def)
  show ?thesis
    unfolding exec_pipeline_def Let_def params'_def[symmetric]
      after_step[where m = "if pl_timed p \<noteq> None then lv_stopwatch lv else nothing", OF timed]
      after_step[where m = "if length (pl_seq p) > 1 then lv_pipes lv (length (pl_seq p) - 1) else nothing", OF pipes]
      after_step[where m = "spawn_commands k lv exec (length (pl_seq p)) 0 None params' (pl_seq p)", OF assms(6)]
      after_step[where m = "wait_pipeline lv p (map CompletedSpawn rs) params'", OF wait]
    using assms(2,8) suppress
    by (intro exI[of _ "Suc n"]) (cases "pl_bang p"; simp add: after_act_def nothing_def give_def inverted_sel code with_shell_def set_status_of_def change_def set_status_def
      apply_errexit_def is_success_def is_normal_flow_def pipeline_flow_def)
qed

theorem pipeline_outcome_witness:
  "\<exists>n. exec_pipeline 0 sample_leaves (\<lambda>l params s. None) (Pipeline None False [sample_command ''false'', sample_command ''true'']) sample_params (sample_shell, []) =
     Some (Inr \<lparr>xe_flow = ExitShell, xe_code = GeneralError\<rparr>,
       sample_shell\<lparr>sl_status := 1, sl_status_changes := n, sl_pipeline_statuses := [1, 0]\<rparr>, [''false'', ''true''])"
proof -
  let ?p = "Pipeline None False [sample_command ''false'', sample_command ''true'']"
  let ?rs = "[general_error, success]"
  have pipes: "lv_pipes sample_leaves (length (pl_seq ?p) - 1) s = Some (Inr (), s)" for s
    by (simp add: sample_leaves_def nothing_def give_def)
  have "spawn_commands 0 sample_leaves (\<lambda>l params s. None) (length (pl_seq ?p)) 0 None (if pl_bang ?p then suppressed sample_params else sample_params) (pl_seq ?p) (sample_shell, []) =
      Some (Inr (map CompletedSpawn ?rs), sample_shell, [''false'', ''true''])"
    by (simp add: sample_leaves_def sample_command_def sample_shell_def exec_command.simps Let_def after_act_def give_def with_shell_def change_def in_copy_def)
  from pipeline_outcome[where rs = ?rs and p = ?p, OF _ _ _ _ this] pipes
  show ?thesis
    by (auto simp: pipeline_code_def pipeline_flow_def is_success_def result_of_code_def sample_shell_def sample_params_def)
qed

text \<open>
  C37. An exit escapes the copy it ran in: when the last stage of a pipeline is a group that exits, the
  pipeline exits the shell itself, although the stage ran in a copy of it.
\<close>

theorem stage_exit_escapes:
  assumes "exec_command k lv exec None c (lv_stage_params lv 2 0 False params) (sh, w0) = Some (Inr (CompletedSpawn r), sub, w1)"
    "exec l (lv_stage_params lv 2 1 False params) (lv_current_cmd lv (Compound (BraceGroup l) None) sh, w1) =
       Some (Inr \<lparr>xe_flow = ExitShell, xe_code = code\<rparr>, sub', w2)"
    "lv_pipes lv 1 (sh, w) = Some (Inr (), sh, w0)" "\<not> so_interactive (sl_options sh)" "\<not> sl_err_trap sh" "\<not> so_lastpipe (sl_options sh)"
    "\<not> so_noexec (sl_options sh)"
  shows "\<exists>r' n. exec_pipeline k lv exec (Pipeline None False [c, Compound (BraceGroup l) None]) params (sh, w) =
     Some (Inr r', sh\<lparr>sl_status := code_number (xe_code r'), sl_status_changes := n, sl_pipeline_statuses := [code_number (xe_code r), code_number code]\<rparr>, w2) \<and>
     xe_flow r' = ExitShell"
proof -
  let ?p = "Pipeline None False [c, Compound (BraceGroup l) None]"
  let ?rs = "[r, \<lparr>xe_flow = ExitShell, xe_code = code\<rparr>]"
  have spawn: "spawn_commands k lv exec (length (pl_seq ?p)) 0 None (if pl_bang ?p then suppressed params else params) (pl_seq ?p) (sh, w0) =
      Some (Inr (map CompletedSpawn ?rs), sh, w2)"
    using assms(1,2,6,7)
    by (simp add: exec_command.simps Let_def after_act_def give_def with_shell_def change_def in_copy_def numeral_2_eq_2)
  have "pl_timed ?p = None" "length (pl_seq ?p) > 1 \<longrightarrow> lv_pipes lv (length (pl_seq ?p) - 1) (sh, w) = Some (Inr (), sh, w0)"
    "length (pl_seq ?p) \<le> 1 \<longrightarrow> (sh, w0) = (sh, w)" "?rs \<noteq> []"
    using assms(3) by simp_all
  from pipeline_outcome[OF this(1,4,2,3) spawn assms(4,5)] show ?thesis by (auto simp: pipeline_flow_def)
qed

theorem stage_exit_escapes_witness:
  "\<exists>r'. map_option fst (exec_pipeline 0 sample_leaves (\<lambda>l params. give \<lparr>xe_flow = ExitShell, xe_code = ExitSuccess\<rparr>)
     (Pipeline None False [sample_command ''true'', Compound (BraceGroup (sample_list [sample_command ''exit''])) None]) sample_params (sample_shell, [])) =
   Some (Inr r') \<and> xe_flow r' = ExitShell"
proof -
  let ?run = "\<lambda>l params. give \<lparr>xe_flow = ExitShell, xe_code = ExitSuccess\<rparr>"
  have "exec_command 0 sample_leaves ?run None (sample_command ''true'') (lv_stage_params sample_leaves 2 0 False sample_params) (sample_shell, []) =
    Some (Inr (CompletedSpawn success), sample_shell, [''true''])"
    by (simp add: sample_leaves_def sample_command_def sample_shell_def exec_command.simps after_act_def with_shell_def change_def)
  from stage_exit_escapes[OF this, of "sample_list [sample_command ''exit'']" ExitSuccess _ _ "[]"]
  show ?thesis by (force simp: give_def sample_leaves_def sample_shell_def nothing_def)
qed

text \<open>
  A continue of the innermost loop in the condition of a loop ends the loop: with the code of the
  condition, in normal flow, without another look at the condition or the body.
\<close>

theorem condition_continue_ends_loop:
  assumes "exec condition (suppressed params) s = Some (Inr \<lparr>xe_flow = ContinueLoop 0, xe_code = code\<rparr>, sh, w)" "0 < k"
  shows "\<exists>n. exec_while k exec is_while condition body params s =
    Some (Inr (result_of_code code), sh\<lparr>sl_status := code_number code, sl_status_changes := n\<rparr>, w)"
proof -
  obtain j where "k = Suc j" using assms(2) by (cases k) auto
  with assms(1) show ?thesis
    by (intro exI[of _ "Suc (Suc (sl_status_changes sh))"]) (simp add: exec_while_def after_act_def set_status_of_def change_def set_status_def is_normal_flow_def give_def decrement_def
      result_of_code_def)
qed

theorem condition_continue_ends_loop_witness:
  "\<exists>n. exec_while 1 (\<lambda>l params (sh, w). if l = sample_list [sample_command ''continue'']
       then Some (Inr \<lparr>xe_flow = ContinueLoop 0, xe_code = ExitSuccess\<rparr>, sh, w @ [''continue'']) else None)
     True (sample_list [sample_command ''continue'']) (sample_list []) sample_params (sample_shell, []) =
   Some (Inr success, sample_shell\<lparr>sl_status := 0, sl_status_changes := n\<rparr>, [''continue''])"
  using condition_continue_ends_loop[where s = "(sample_shell, [])" and k = 1 and code = ExitSuccess and sh = sample_shell and
      w = "[''continue'']" and params = sample_params and condition = "sample_list [sample_command ''continue'']"
      and exec = "\<lambda>l params (sh, w). if l = sample_list [sample_command ''continue'']
       then Some (Inr \<lparr>xe_flow = ContinueLoop 0, xe_code = ExitSuccess\<rparr>, sh, w @ [''continue'']) else None"]
  by simp

text \<open>
  Fuel only bounds: a program that ends with some fuel ends with any more of it in the same result,
  the same shell and the same world.
\<close>

theorem more_fuel_same_result:
  assumes "exec_program n lv params r program s = Some x" "n \<le> m"
  shows "exec_program m lv params r program s = Some x"
  using outlivesD[OF program_outlives[OF assms(2), of lv params r program], of s] assms(1) by simp

theorem more_fuel_same_result_witness:
  "\<exists>x. exec_program 7 sample_leaves sample_params success [sample_list []] (sample_shell, []) = Some x"
proof -
  have "exec_program 1 sample_leaves sample_params success [sample_list []] (sample_shell, []) \<noteq> None"
    by (simp add: sample_list_def One_nat_def exec_and_or_def exec_pipeline_def wait_pipeline_def Let_def attempt_def
      after_act_def give_def nothing_def with_shell_def change_def set_status_of_def sample_shell_def set_status_def with_pipefail_def
      is_success_def is_normal_flow_def result_of_code_def apply_errexit_def sample_params_def)
  then obtain x where x: "exec_program 1 sample_leaves sample_params success [sample_list []] (sample_shell, []) = Some x" by blast
  have "exec_program 7 sample_leaves sample_params success [sample_list []] (sample_shell, []) = Some x"
    by (rule more_fuel_same_result[OF x]) simp
  then show ?thesis by (rule exI)
qed

section \<open>The input line\<close>



text \<open>
  C39. Background lines and commands: a command with a mark behind it, spaced or not, reads as that
  command in a job of the name the mark spells; a line read so is spelled so; and a line read as a
  foreground command is that command, verbatim.
\<close>

theorem background_lines_read_back:
  assumes "cmd \<noteq> []" "\<not> is_space (hd cmd)" "\<not> is_space (last cmd)" "last cmd \<noteq> CHR ''&'' \<or> spaces \<noteq> []" "list_all is_space spaces"
    "spells_job v name" "first_word (cmd @ spaces @ v) \<notin> set CONSOLE_WORDS"
  shows "parse_input (cmd @ spaces @ v) = BackgroundInput cmd name \<and>
    (parse_input line = BackgroundInput cmd' name' \<longrightarrow>
      (\<exists>spaces' v'. trim line = cmd' @ spaces' @ v' \<and> list_all is_space spaces' \<and> spells_job v' name')) \<and>
    (parse_input line = ForegroundInput c \<longrightarrow> c = trim line)"
proof -
  have v: "v \<noteq> []" "\<not> is_space (last v)" using spelled_ends[OF assms(6)] by simp_all
  have "spaces \<noteq> [] \<Longrightarrow> is_space (last spaces)" using assms(5) by (simp add: list_all_iff)
  moreover have "\<not> is_space (CHR ''&'')" by (simp add: is_space_def)
  ultimately have u: "cmd @ spaces \<noteq> []" "last (cmd @ spaces) \<noteq> CHR ''&''" "trim_end (cmd @ spaces) = cmd"
    using assms(1-5) by (cases "spaces = []"; auto)+
  have "background ((cmd @ spaces) @ v) = Some (BackgroundInput cmd name)"
    using spelled_background[OF assms(6) u(1,2)] u(3) assms(1) by simp
  moreover have "parse_input (cmd @ spaces @ v) = or_else (background (cmd @ spaces @ v)) (ForegroundInput (cmd @ spaces @ v))"
    using assms(1,2,7) v by (intro parse_command) simp_all
  ultimately have reads: "parse_input (cmd @ spaces @ v) = BackgroundInput cmd name" by (simp add: or_else_def)
  have "background (trim line) = Some (BackgroundInput cmd' name')" if "parse_input line = BackgroundInput cmd' name'"
    using parse_background[OF that] .
  with reads show ?thesis using background_spelled parse_foreground[of line c] by blast
qed

theorem background_lines_read_back_witness:
  "parse_input (''sleep 5'' @ '' '' @ CHR ''&'' # CHR 0x22 # ''a nap'' @ [CHR 0x22]) = BackgroundInput ''sleep 5'' (Some ''a nap'')"
proof -
  have "spells_job (CHR ''&'' # CHR 0x22 # ''a nap'' @ [CHR 0x22]) (Some ''a nap'')"
    by (rule spells_job.intros(3)) (simp_all add: name_refused_def is_control_def FOREGROUND_def)
  from background_lines_read_back[where cmd = "''sleep 5''" and spaces = "'' ''", OF _ _ _ _ _ this] show ?thesis
    by (simp add: is_space_def first_word_def CONSOLE_WORDS_def)
qed

text \<open>
  C40. A redirection at the end of a line opens a job: a command that ends with the duplication of a
  descriptor is cut in front of its ampersand and run in the background under the descriptor as a name.
\<close>

theorem redirection_opens_job:
  assumes "cmd \<noteq> []" "\<not> is_space (hd cmd)" "is_bare fd" "fd \<noteq> FOREGROUND" "first_word (cmd @ ''>&'' @ fd) \<notin> set CONSOLE_WORDS"
  shows "parse_input (cmd @ ''>&'' @ fd) = BackgroundInput (cmd @ ''>'') (Some fd)"
proof -
  have "is_bare fd \<Longrightarrow> \<not> is_space (last fd)" using bare_char[of fd "last fd"] bare_nonempty[of fd] by simp
  with assms have "parse_input ((cmd @ ''>'') @ CHR ''&'' # fd) = or_else (background ((cmd @ ''>'') @ CHR ''&'' # fd)) (ForegroundInput ((cmd @ ''>'') @ CHR ''&'' # fd))"
    by (intro parse_command) (simp_all add: bare_nonempty)
  moreover have "trim_end (cmd @ ''>'') = cmd @ ''>''" by (simp add: is_space_def)
  then have "background ((cmd @ ''>'') @ CHR ''&'' # fd) = Some (BackgroundInput (cmd @ ''>'') (Some fd))"
    using spelled_background[OF spells_job.intros(2)[OF assms(3,4)], of "cmd @ ''>''"] by simp
  ultimately show ?thesis by (simp add: or_else_def)
qed

theorem redirection_opens_job_witness:
  "parse_input ''make 2>&1'' = BackgroundInput ''make 2>'' (Some ''1'')"
  using redirection_opens_job[of "''make 2''" "''1''"]
  by (simp add: is_space_def is_bare_def is_digit_def FOREGROUND_def first_word_def CONSOLE_WORDS_def)

end
